(* ===== verification/Prelude.thy ===== *)
theory Prelude
  imports
    Main
    "HOL-Library.AList"
    "HOL-Library.Multiset"
    "HOL-Library.Char_ord"
    "HOL-Library.List_Lexorder"
    "HOL-Library.Product_Lexorder"
begin

text \<open>
  Shared vocabulary of the development: the models of the standard containers the
  sources use, and the generic facts about them.

  \<^item> \<open>std::unordered_map\<close> is an association list \<open>('k, 'v) umap\<close>: \<open>find\<close> is
    \<open>map_of\<close>, \<open>emplace\<close> and assignment are \<open>AList.update\<close>, \<open>erase\<close> is
    \<open>AList.delete\<close>. A loop over the map visits the list in order; the order is
    unspecified in C++, and the theorems quantify over every list, hence over every order.
  \<^item> \<open>m[k]\<close> on a map of containers is \<open>um_get\<close>: an absent key reads as the empty
    container (\<open>operator[]\<close> inserts a default).
  \<^item> \<open>std::set\<close> of ids is an ascending list without repetition, \<open>set_insert\<close>.
  \<^item> \<open>std::vector\<close> and \<open>std::deque\<close> are lists; \<open>push_back\<close> appends.
  \<^item> \<open>std::string\<close> is \<open>string\<close>, a list of bytes; \<open>operator<\<close> on it is the
    lexicographic order on byte values, which is the library order on \<open>string\<close>.
\<close>

section \<open>Containers\<close>

type_synonym ('k, 'v) umap = "('k \<times> 'v) list"

named_theorems container_simps \<open>lookup equations of the container operations\<close>

definition um_get :: "('k, 'v list) umap \<Rightarrow> 'k \<Rightarrow> 'v list" where
  "um_get m k = (case map_of m k of None \<Rightarrow> [] | Some v \<Rightarrow> v)"

definition um_put :: "('k, 'v) umap \<Rightarrow> 'k \<Rightarrow> 'v \<Rightarrow> ('k, 'v) umap" where
  "um_put m k v = AList.update k v m"

text \<open>\<open>emplace\<close> keeps the entry that is already there.\<close>

definition um_emplace :: "('k, 'v) umap \<Rightarrow> 'k \<Rightarrow> 'v \<Rightarrow> ('k, 'v) umap" where
  "um_emplace m k v = (case map_of m k of None \<Rightarrow> um_put m k v | Some _ \<Rightarrow> m)"

definition um_erase :: "('k, 'v) umap \<Rightarrow> 'k \<Rightarrow> ('k, 'v) umap" where
  "um_erase m k = AList.delete k m"

definition um_push :: "('k, 'v list) umap \<Rightarrow> 'k \<Rightarrow> 'v \<Rightarrow> ('k, 'v list) umap" where
  "um_push m k x = um_put m k (um_get m k @ [x])"

definition add_new :: "'a \<Rightarrow> 'a list \<Rightarrow> 'a list" where
  "add_new x xs = (if x \<in> set xs then xs else xs @ [x])"

definition um_push_new :: "('k, 'v list) umap \<Rightarrow> 'k \<Rightarrow> 'v \<Rightarrow> ('k, 'v list) umap" where
  "um_push_new m k x = um_put m k (add_new x (um_get m k))"

definition set_insert :: "'a::linorder \<Rightarrow> 'a list \<Rightarrow> 'a list" where
  "set_insert x s = (if x \<in> set s then s else insort x s)"

definition um_set_insert :: "('k, 'v::linorder list) umap \<Rightarrow> 'k \<Rightarrow> 'v \<Rightarrow> ('k, 'v list) umap" where
  "um_set_insert m k x = um_put m k (set_insert x (um_get m k))"

definition um_keys :: "('k, 'v) umap \<Rightarrow> 'k list" where
  "um_keys m = map fst m"

definition um_ok :: "('k, 'v) umap \<Rightarrow> bool" where
  "um_ok m \<longleftrightarrow> distinct (map fst m)"

lemma um_ok_Nil [simp]: "um_ok []"
  by (simp add: um_ok_def)

lemma um_ok_Cons [simp]: "um_ok ((k, v) # m) \<longleftrightarrow> k \<notin> fst ` set m \<and> um_ok m"
  by (simp add: um_ok_def)

lemma map_of_um_put [simp, container_simps]:
  "map_of (um_put m k v) k' = (if k' = k then Some v else map_of m k')"
  by (simp add: um_put_def update_conv')

lemma map_of_um_emplace [simp, container_simps]:
  "map_of (um_emplace m k v) k' =
     (if k' = k \<and> map_of m k = None then Some v else map_of m k')"
  by (auto simp: um_emplace_def split: option.splits)

lemma map_of_um_erase [simp, container_simps]:
  "map_of (um_erase m k) k' = (if k' = k then None else map_of m k')"
  by (simp add: um_erase_def delete_conv')

lemma um_get_Nil [simp]: "um_get [] k = []"
  by (simp add: um_get_def)

lemma um_get_None [simp]: "map_of m k = None \<Longrightarrow> um_get m k = []"
  by (simp add: um_get_def)

lemma um_get_Some [simp]: "map_of m k = Some v \<Longrightarrow> um_get m k = v"
  by (simp add: um_get_def)

lemma um_get_put [simp, container_simps]:
  "um_get (um_put m k v) k' = (if k' = k then v else um_get m k')"
  by (simp add: um_get_def)

lemma um_get_erase [simp, container_simps]:
  "um_get (um_erase m k) k' = (if k' = k then [] else um_get m k')"
  by (simp add: um_get_def)

lemma um_get_push [simp, container_simps]:
  "um_get (um_push m k x) k' = (if k' = k then um_get m k @ [x] else um_get m k')"
  by (simp add: um_push_def)

lemma um_get_push_new [simp, container_simps]:
  "um_get (um_push_new m k x) k' = (if k' = k then add_new x (um_get m k) else um_get m k')"
  by (simp add: um_push_new_def)

lemma um_get_set_insert [simp, container_simps]:
  "um_get (um_set_insert m k x) k' = (if k' = k then set_insert x (um_get m k) else um_get m k')"
  by (simp add: um_set_insert_def)

lemma set_add_new [simp]: "set (add_new x xs) = insert x (set xs)"
  by (auto simp: add_new_def)

lemma distinct_add_new [simp]: "distinct (add_new x xs) = distinct xs"
  by (auto simp: add_new_def)

lemma set_set_insert [simp]: "set (set_insert x s) = insert x (set s)"
  by (auto simp: set_insert_def set_insort_key)

lemma distinct_set_insert [simp]: "distinct (set_insert x s) = distinct s"
  by (auto simp: set_insert_def distinct_insort)

lemma sorted_set_insert [simp]: "sorted s \<Longrightarrow> sorted (set_insert x s)"
  by (auto simp: set_insert_def sorted_insort)

lemma um_ok_put [simp]: "um_ok (um_put m k v) = um_ok m"
  by (induction m) (auto simp: um_ok_def um_put_def update_keys)

lemma um_ok_emplace [simp]: "um_ok (um_emplace m k v) = um_ok m"
  by (simp add: um_emplace_def split: option.splits)

lemma um_ok_erase [simp]: "um_ok m \<Longrightarrow> um_ok (um_erase m k)"
  by (simp add: um_ok_def um_erase_def distinct_delete)

lemma um_ok_push [simp]: "um_ok (um_push m k x) = um_ok m"
  by (simp add: um_push_def)

lemma um_ok_push_new [simp]: "um_ok (um_push_new m k x) = um_ok m"
  by (simp add: um_push_new_def)

lemma um_ok_set_insert [simp]: "um_ok (um_set_insert m k x) = um_ok m"
  by (simp add: um_set_insert_def)

lemma keys_um_put [simp]: "fst ` set (um_put m k v) = insert k (fst ` set m)"
  using dom_update [of k v m] by (simp add: um_put_def dom_map_of_conv_image_fst)

lemma keys_um_push [simp]: "fst ` set (um_push m k x) = insert k (fst ` set m)"
  by (simp add: um_push_def)

lemma set_map_filter: "set (List.map_filter f xs) = {y. \<exists>x \<in> set xs. f x = Some y}"
  by (force simp: List.map_filter_def)

lemma map_nth_filter:
  "map (\<lambda>i. xs ! i) (filter (\<lambda>i. P (xs ! i)) [0..<length xs]) = filter P xs"
proof (induction xs rule: rev_induct)
  case (snoc x xs)
  have "filter (\<lambda>i. P ((xs @ [x]) ! i)) [0..<length xs] = filter (\<lambda>i. P (xs ! i)) [0..<length xs]"
    by (rule filter_cong) (auto simp: nth_append)
  moreover have "map (\<lambda>i. (xs @ [x]) ! i) (filter (\<lambda>i. P (xs ! i)) [0..<length xs]) =
    map (\<lambda>i. xs ! i) (filter (\<lambda>i. P (xs ! i)) [0..<length xs])"
    by (rule map_cong) (auto simp: nth_append)
  ultimately show ?case
    using snoc by simp
qed simp

text \<open>The positions of a list whose elements satisfy a predicate, ascending.\<close>

definition positions :: "('a \<Rightarrow> bool) \<Rightarrow> 'a list \<Rightarrow> nat list" where
  "positions P xs = filter (\<lambda>i. P (xs ! i)) [0..<length xs]"

lemma positions_Nil [simp]: "positions P [] = []"
  by (simp add: positions_def)

lemma positions_snoc [simp]:
  "positions P (xs @ [x]) = positions P xs @ (if P x then [length xs] else [])"
proof -
  have "filter (\<lambda>i. P ((xs @ [x]) ! i)) [0..<length xs] = filter (\<lambda>i. P (xs ! i)) [0..<length xs]"
    by (rule filter_cong) (auto simp: nth_append)
  then show ?thesis by (simp add: positions_def)
qed

lemma map_nth_positions: "map (\<lambda>i. xs ! i) (positions P xs) = filter P xs"
  by (simp add: positions_def map_nth_filter)

lemma set_positions: "set (positions P xs) = {i. i < length xs \<and> P (xs ! i)}"
  by (auto simp: positions_def)

text \<open>\<open>std::to_string\<close> of an unsigned number.\<close>

fun toString :: "nat \<Rightarrow> string" where
  "toString n =
     (if n < 10 then [char_of (48 + n)] else toString (n div 10) @ [char_of (48 + n mod 10)])"

declare toString.simps [simp del]

end
