(* ===== verification/IndexText.thy ===== *)
theory IndexText
  imports Prelude
begin

unbundle bit_operations_syntax

text \<open>
  Index text (\<open>include/vycor/callgraph/Utf8.h\<close>): every string the indexes hold is valid
  UTF-8, and the escape that makes it so is exact. A byte is a \<open>char\<close>, its value
  \<open>byte c\<close>; a \<open>StringRef\<close> with a position is the list of bytes from that position on.
  The source's \<open>isValidUtf8\<close> is LLVM's \<open>json::isUTF8\<close>, which is not part of the
  repository: it is the parameter \<open>isUTF8\<close>, and \<open>utf8_decider\<close> is the documented
  behaviour the code relies on (it decides well-formedness of UTF-8, here stated by the
  table of well-formed byte sequences of the Unicode standard).
\<close>

section \<open>Definitions\<close>

definition byte :: "char \<Rightarrow> nat" where
  "byte c = of_char c"

definition kEscapeBase :: nat where
  "kEscapeBase = 0x10FF00"

definition isCont :: "char \<Rightarrow> bool" where
  "isCont c \<longleftrightarrow> (byte c AND 0xC0) = 0x80"

text \<open>The byte at offset \<open>k\<close>; the source reads it only after checking that it exists.\<close>

definition at :: "string \<Rightarrow> nat \<Rightarrow> char" where
  "at s k = (if k < length s then s ! k else CHR 0x00)"

definition seqLen :: "string \<Rightarrow> nat" where
  "seqLen s =
     (let c = byte (at s 0); left = length s in
      if c < 0x80 then 1
      else if c \<ge> 0xC2 \<and> c \<le> 0xDF then (if left \<ge> 2 \<and> isCont (at s 1) then 2 else 0)
      else if c \<ge> 0xE0 \<and> c \<le> 0xEF then
        (if left < 3 \<or> \<not> isCont (at s 1) \<or> \<not> isCont (at s 2) then 0
         else if c = 0xE0 \<and> byte (at s 1) < 0xA0 then 0
         else if c = 0xED \<and> byte (at s 1) > 0x9F then 0
         else 3)
      else if c \<ge> 0xF0 \<and> c \<le> 0xF4 then
        (if left < 4 \<or> \<not> isCont (at s 1) \<or> \<not> isCont (at s 2) \<or> \<not> isCont (at s 3) then 0
         else if c = 0xF0 \<and> byte (at s 1) < 0x90 then 0
         else if c = 0xF4 \<and> byte (at s 1) > 0x8F then 0
         else 4)
      else 0)"

definition isEscapeCodePoint :: "string \<Rightarrow> bool" where
  "isEscapeCodePoint s \<longleftrightarrow>
     byte (at s 0) = 0xF4 \<and> byte (at s 1) = 0x8F \<and> byte (at s 2) \<ge> 0xBE"

definition appendEscape :: "string \<Rightarrow> char \<Rightarrow> string" where
  "appendEscape out b =
     (let cp = kEscapeBase + byte b in
      out @ [char_of (0xF0 OR drop_bit 18 cp),
             char_of (0x80 OR (drop_bit 12 cp AND 0x3F)),
             char_of (0x80 OR (drop_bit 6 cp AND 0x3F)),
             char_of (0x80 OR (cp AND 0x3F))])"

function needsIndexEscape :: "string \<Rightarrow> bool" where
  "needsIndexEscape s =
     (if s = [] then False
      else if byte (at s 0) < 0x80 then needsIndexEscape (drop 1 s)
      else let n = seqLen s in
        if n = 0 \<or> n = 4 \<and> isEscapeCodePoint s then True
        else needsIndexEscape (drop n s))"
  by pat_completeness auto
termination
  by (relation "measure length") auto

function escape_loop :: "string \<Rightarrow> string \<Rightarrow> string" where
  "escape_loop out s =
     (if s = [] then out
      else let n = seqLen s in
        if n = 0 \<or> n = 4 \<and> isEscapeCodePoint s
        then escape_loop (appendEscape out (at s 0)) (drop 1 s)
        else escape_loop (out @ take n s) (drop n s))"
  by pat_completeness auto
termination
  by (relation "measure (\<lambda>(out, s). length s)") auto

definition toIndexText :: "string \<Rightarrow> string" where
  "toIndexText s = (if \<not> needsIndexEscape s then s else escape_loop [] s)"

definition makeIndexText :: "string \<Rightarrow> string" where
  "makeIndexText s = (if needsIndexEscape s then toIndexText s else s)"

definition decodeEscape :: "string \<Rightarrow> nat" where
  "decodeEscape t =
     push_bit 18 (byte (at t 0) AND 0x07) OR push_bit 12 (byte (at t 1) AND 0x3F)
     OR push_bit 6 (byte (at t 2) AND 0x3F) OR (byte (at t 3) AND 0x3F)"

function unescape_loop :: "string \<Rightarrow> string \<Rightarrow> string" where
  "unescape_loop out t =
     (if t = [] then out
      else let n = seqLen t in
        if n = 4 \<and> isEscapeCodePoint t
        then unescape_loop (out @ [char_of (decodeEscape t - kEscapeBase)]) (drop 4 t)
        else let len = (if n = 0 then 1 else n)
             in unescape_loop (out @ take len t) (drop len t))"
  by pat_completeness auto
termination
  by (relation "measure (\<lambda>(out, t). length t)") auto

definition fromIndexText :: "string \<Rightarrow> string" where
  "fromIndexText t = unescape_loop [] t"

definition lookupText :: "(string \<Rightarrow> bool) \<Rightarrow> string \<Rightarrow> string" where
  "lookupText isUTF8 s = (if isUTF8 s then s else toIndexText s)"

declare needsIndexEscape.simps [simp del] escape_loop.simps [simp del]
  unescape_loop.simps [simp del]

section \<open>Well-formed UTF-8\<close>

text \<open>
  The reference: a concatenation of the byte sequences of the standard's table
  (ASCII; two, three and four byte forms without overlong encodings, surrogates or code
  points above U+10FFFF).
\<close>

definition tail_byte :: "char \<Rightarrow> bool" where
  "tail_byte c \<longleftrightarrow> 0x80 \<le> byte c \<and> byte c \<le> 0xBF"

inductive utf8_char :: "string \<Rightarrow> bool" where
  one: "byte a \<le> 0x7F \<Longrightarrow> utf8_char [a]"
| two: "0xC2 \<le> byte a \<Longrightarrow> byte a \<le> 0xDF \<Longrightarrow> tail_byte b \<Longrightarrow> utf8_char [a, b]"
| three: "0xE0 \<le> byte a \<Longrightarrow> byte a \<le> 0xEF \<Longrightarrow> tail_byte b \<Longrightarrow> tail_byte c \<Longrightarrow>
    (byte a = 0xE0 \<longrightarrow> 0xA0 \<le> byte b) \<Longrightarrow> (byte a = 0xED \<longrightarrow> byte b \<le> 0x9F) \<Longrightarrow>
    utf8_char [a, b, c]"
| four: "0xF0 \<le> byte a \<Longrightarrow> byte a \<le> 0xF4 \<Longrightarrow> tail_byte b \<Longrightarrow> tail_byte c \<Longrightarrow> tail_byte d \<Longrightarrow>
    (byte a = 0xF0 \<longrightarrow> 0x90 \<le> byte b) \<Longrightarrow> (byte a = 0xF4 \<longrightarrow> byte b \<le> 0x8F) \<Longrightarrow>
    utf8_char [a, b, c, d]"

inductive utf8 :: "string \<Rightarrow> bool" where
  empty: "utf8 []"
| char: "utf8_char u \<Longrightarrow> utf8 s \<Longrightarrow> utf8 (u @ s)"

definition utf8_decider :: "(string \<Rightarrow> bool) \<Rightarrow> bool" where
  "utf8_decider isUTF8 \<longleftrightarrow> (\<forall>s. isUTF8 s = utf8 s)"

section \<open>Bytes and sequences\<close>

lemma byte_less_256 [simp]: "byte c < 256"
  by (simp add: byte_def)

lemma char_of_byte [simp]: "char_of (byte c) = c"
  by (simp add: byte_def)

lemma byte_char_of [simp]: "byte (char_of n) = n mod 256"
  by (simp add: byte_def)

lemma and_high2: "n AND 0xC0 = 64 * (n div 64 mod 4)" for n :: nat
proof -
  have "n AND 0xC0 = push_bit 6 (take_bit 2 (drop_bit 6 n))"
  proof (rule bit_eqI)
    fix j
    have c: "0xC0 = push_bit 6 (mask 2 :: nat)"
      by (simp add: mask_eq_exp_minus_1)
    show "bit (n AND 0xC0) j = bit (push_bit 6 (take_bit 2 (drop_bit 6 n))) j"
      unfolding c by (auto simp: bit_simps)
  qed
  then show ?thesis
    by (simp add: push_bit_eq_mult drop_bit_eq_div take_bit_eq_mod)
qed

lemma and_low6: "n AND 0x3F = n mod 64" for n :: nat
proof -
  have "n AND 0x3F = n AND mask 6"
    by (simp add: mask_eq_exp_minus_1)
  then show ?thesis
    by (simp add: take_bit_eq_mod flip: take_bit_eq_mask)
qed

lemma or_low6: "z < 64 \<Longrightarrow> 64 * a OR z = 64 * a + z" for a z :: nat
proof -
  assume "z < 64"
  then have z: "take_bit 6 z = z"
    by (simp add: take_bit_eq_mod)
  have "push_bit 6 a AND take_bit 6 z = 0"
    by (auto simp: bit_eq_iff bit_simps)
  then show ?thesis
    using disjunctive_add_eq_or [of "push_bit 6 a" z] z by (simp add: push_bit_eq_mult mult.commute)
qed

lemma isCont_iff: "isCont c \<longleftrightarrow> tail_byte c"
proof -
  have q: "byte c div 64 < 4"
    using byte_less_256 [of c] by linarith
  have "byte c AND 0xC0 = 0x80 \<longleftrightarrow> byte c div 64 = 2"
    using q by (simp add: and_high2)
  also have "\<dots> \<longleftrightarrow> 0x80 \<le> byte c \<and> byte c \<le> 0xBF"
    by linarith
  finally show ?thesis
    by (simp add: isCont_def tail_byte_def)
qed

lemma at_Cons [simp]: "at (c # s) 0 = c" "at (c # s) (Suc k) = at s k"
  by (simp_all add: at_def)

lemma at_Cons_numeral [simp]: "at (c # s) (numeral v) = at s (pred_numeral v)"
  by (simp add: numeral_eq_Suc)

lemma at_append [simp]: "k < length u \<Longrightarrow> at (u @ t) k = at u k"
  by (simp add: at_def nth_append)

lemma seqLen_class:
  "byte a \<le> 0x7F \<Longrightarrow> seqLen (a # s) = 1"
  "0xC2 \<le> byte a \<Longrightarrow> byte a \<le> 0xDF \<Longrightarrow>
     seqLen (a # s) = (if s \<noteq> [] \<and> tail_byte (at s 0) then 2 else 0)"
  "0xE0 \<le> byte a \<Longrightarrow> byte a \<le> 0xEF \<Longrightarrow>
     seqLen (a # s) = (if 2 \<le> length s \<and> tail_byte (at s 0) \<and> tail_byte (at s 1) \<and>
       (byte a = 0xE0 \<longrightarrow> 0xA0 \<le> byte (at s 0)) \<and> (byte a = 0xED \<longrightarrow> byte (at s 0) \<le> 0x9F)
       then 3 else 0)"
  "0xF0 \<le> byte a \<Longrightarrow> byte a \<le> 0xF4 \<Longrightarrow>
     seqLen (a # s) = (if 3 \<le> length s \<and> tail_byte (at s 0) \<and> tail_byte (at s 1) \<and>
       tail_byte (at s 2) \<and>
       (byte a = 0xF0 \<longrightarrow> 0x90 \<le> byte (at s 0)) \<and> (byte a = 0xF4 \<longrightarrow> byte (at s 0) \<le> 0x8F)
       then 4 else 0)"
     apply (simp add: seqLen_def Let_def)
    apply (simp add: seqLen_def Let_def isCont_iff Suc_le_eq)
   apply (simp add: seqLen_def Let_def isCont_iff numeral_2_eq_2 not_le not_less)
  subgoal by (auto simp add: seqLen_def Let_def isCont_iff numeral_2_eq_2 numeral_3_eq_3)
  done

lemma utf8_char_seqLen: "utf8_char u \<Longrightarrow> seqLen (u @ t) = length u"
  by (induction rule: utf8_char.induct) (simp_all add: seqLen_class numeral_2_eq_2)

lemma byte_zero [simp]: "byte (CHR 0x00) = 0"
  by (simp add: byte_def)

lemma seqLen_split:
  assumes "s \<noteq> []" and "seqLen s \<noteq> 0"
  shows "\<exists>u t. s = u @ t \<and> utf8_char u \<and> length u = seqLen s"
proof -
  obtain a s1 where s: "s = a # s1"
    using assms(1) by (cases s) auto
  consider (one) "byte a < 0x80"
    | (two) "0xC2 \<le> byte a" "byte a \<le> 0xDF"
    | (three) "0xE0 \<le> byte a" "byte a \<le> 0xEF"
    | (four) "0xF0 \<le> byte a" "byte a \<le> 0xF4"
    using assms by (auto simp: s seqLen_def Let_def split: if_splits)
  then show ?thesis
  proof cases
    case one
    then have "utf8_char [a]" and "seqLen s = 1"
      by (auto simp: s seqLen_def Let_def intro: utf8_char.one)
    then show ?thesis
      by (intro exI [of _ "[a]"] exI [of _ s1]) (simp add: s)
  next
    case two
    with assms(2) obtain b s2 where "s1 = b # s2" "tail_byte b" "seqLen s = 2"
      by (cases s1) (auto simp: s seqLen_def Let_def isCont_iff split: if_splits)
    moreover from two this(2) have "utf8_char [a, b]"
      by (rule utf8_char.two)
    ultimately show ?thesis
      by (intro exI [of _ "[a, b]"] exI [of _ s2]) (simp add: s)
  next
    case three
    with assms(2) obtain b c s2 where "s1 = b # c # s2" "tail_byte b" "tail_byte c" "seqLen s = 3"
      "byte a = 0xE0 \<longrightarrow> 0xA0 \<le> byte b" "byte a = 0xED \<longrightarrow> byte b \<le> 0x9F"
      by (cases s1; cases "tl s1")
        (auto simp: s seqLen_def Let_def isCont_iff numeral_2_eq_2 split: if_splits)
    moreover from three this(2,3,5,6) have "utf8_char [a, b, c]"
      by (rule utf8_char.three)
    ultimately show ?thesis
      by (intro exI [of _ "[a, b, c]"] exI [of _ s2]) (simp add: s)
  next
    case four
    with assms(2) obtain b c d s2 where "s1 = b # c # d # s2" "tail_byte b" "tail_byte c"
      "tail_byte d" "seqLen s = 4"
      "byte a = 0xF0 \<longrightarrow> 0x90 \<le> byte b" "byte a = 0xF4 \<longrightarrow> byte b \<le> 0x8F"
      by (cases s1; cases "tl s1"; cases "tl (tl s1)")
        (auto simp: s seqLen_def Let_def isCont_iff numeral_2_eq_2 numeral_3_eq_3 split: if_splits)
    moreover from four this(2,3,4,6,7) have "utf8_char [a, b, c, d]"
      by (rule utf8_char.four)
    ultimately show ?thesis
      by (intro exI [of _ "[a, b, c, d]"] exI [of _ s2]) (simp add: s)
  qed
qed

lemma seqLen_utf8_char:
  assumes "s \<noteq> []" and "seqLen s \<noteq> 0"
  shows "utf8_char (take (seqLen s) s)" and "seqLen s \<le> length s"
  using seqLen_split [OF assms] by auto

lemma seqLen_stable:
  assumes "s \<noteq> []" and "seqLen s \<noteq> 0"
  shows "seqLen (take (seqLen s) s @ t) = seqLen s"
  using utf8_char_seqLen [OF seqLen_utf8_char(1) [OF assms], of t] seqLen_utf8_char(2) [OF assms]
  by simp

lemma escape_stable:
  assumes "s \<noteq> []" and "seqLen s = 4"
  shows "isEscapeCodePoint (take 4 s @ t) = isEscapeCodePoint s"
proof -
  have "4 \<le> length s"
    using seqLen_utf8_char(2) [OF assms(1)] assms(2) by simp
  with assms(1) show ?thesis
    by (simp add: isEscapeCodePoint_def at_def nth_append)
qed

section \<open>The escape\<close>

abbreviation escaped :: "string \<Rightarrow> bool" where
  "escaped s \<equiv> seqLen s = 0 \<or> seqLen s = 4 \<and> isEscapeCodePoint s"

lemma escaped_high:
  assumes "s \<noteq> []" and "escaped s"
  shows "0x80 \<le> byte (at s 0)"
proof (rule ccontr)
  assume low: "\<not> 0x80 \<le> byte (at s 0)"
  obtain a r where s: "s = a # r"
    using assms(1) by (cases s) auto
  have "seqLen s = 1"
    using low by (simp add: s seqLen_class(1))
  with assms(2) show False by simp
qed

lemma mod64_shift: "(64 * k + z) mod 64 = z mod (64::nat)"
  by simp

lemma appendEscape_eq:
  assumes "0x80 \<le> byte b"
  shows "appendEscape out b =
    out @ [char_of (0xF4::nat), char_of (0x8F::nat),
           char_of (0x80 + (0x3C + byte b div 64)), char_of (0x80 + byte b mod 64)]"
proof -
  let ?cp = "kEscapeBase + byte b"
  have b: "byte b < 256" by simp
  have 1: "?cp div 262144 = 4" and 2: "?cp div 4096 = 0x10F"
    and 3: "?cp div 64 = 0x43FC + byte b div 64"
    unfolding kEscapeBase_def using assms b by linarith+
  have 4: "?cp mod 64 = byte b mod 64"
    using mod64_shift [of "0x43FC" "byte b"] by (simp add: kEscapeBase_def)
  have q: "byte b div 64 < 4"
    using b by linarith
  have 5: "(0x43FC + byte b div 64) mod 64 = 0x3C + byte b div 64"
    using q mod64_shift [of "0x10F" "0x3C + byte b div 64"] by simp
  have or: "0x80 OR z = 0x80 + z" if "z < 64" for z :: nat
    using or_low6 [OF that, of 2] by simp
  show ?thesis
    unfolding appendEscape_def Let_def
    using q by (simp add: drop_bit_eq_div 1 2 3 4 5 and_low6 or)
qed

lemma decodeEscape_eq:
  assumes "0x80 \<le> byte b"
  shows "decodeEscape ([char_of (0xF4::nat), char_of (0x8F::nat),
    char_of (0x80 + (0x3C + byte b div 64)), char_of (0x80 + byte b mod 64)] @ t) - kEscapeBase
    = byte b"
proof -
  have q: "byte b div 64 = 2 \<or> byte b div 64 = 3"
    using assms byte_less_256 [of b] by linarith
  have m: "(0x80 + byte b mod 64) mod 256 = 0x80 + byte b mod 64"
    by simp
  have n: "(0x80 + byte b mod 64) mod 64 = byte b mod 64"
    using mod64_shift [of 2 "byte b mod 64"] by simp
  have d: "decodeEscape ([char_of (0xF4::nat), char_of (0x8F::nat),
      char_of (0x80 + (0x3C + byte b div 64)), char_of (0x80 + byte b mod 64)] @ t)
      = 64 * (0x43FC + byte b div 64) OR byte b mod 64"
    using q unfolding decodeEscape_def
    by (elim disjE) (simp_all add: and_low6 m n or.assoc [symmetric])
  have "byte b = 64 * (byte b div 64) + byte b mod 64"
    by simp
  then show ?thesis
    unfolding d by (subst or_low6) (simp_all add: kEscapeBase_def)
qed

lemma escape_utf8_char:
  assumes "0x80 \<le> byte b"
  shows "utf8_char (appendEscape [] b)"
proof -
  have q: "byte b div 64 = 2 \<or> byte b div 64 = 3"
    using assms byte_less_256 [of b] by linarith
  have "byte b mod 64 < 64" by simp
  with q show ?thesis
    by (auto simp: appendEscape_eq [OF assms] tail_byte_def simp del: mod_less_divisor
        intro!: utf8_char.four)
qed

lemma escape_isEscapeCodePoint:
  assumes "0x80 \<le> byte b"
  shows "isEscapeCodePoint (appendEscape [] b @ t)"
proof -
  have "byte b div 64 = 2 \<or> byte b div 64 = 3"
    using assms byte_less_256 [of b] by linarith
  then show ?thesis
    by (auto simp: appendEscape_eq [OF assms] isEscapeCodePoint_def)
qed

lemma length_appendEscape [simp]: "length (appendEscape [] b) = 4"
  by (simp add: appendEscape_def Let_def)

lemma appendEscape_acc: "appendEscape out b = out @ appendEscape [] b"
  by (simp add: appendEscape_def Let_def)

section \<open>The loops\<close>

lemma escape_loop_Nil [simp]: "escape_loop out [] = out"
  by (simp add: escape_loop.simps)

lemma escape_loop_acc: "escape_loop out s = out @ escape_loop [] s"
proof (induction s arbitrary: out rule: length_induct)
  case (1 s)
  show ?case
  proof (cases "s = []")
    case False
    then have IH: "escape_loop out (drop n s) = out @ escape_loop [] (drop n s)" if "n \<noteq> 0" for out n
      by (intro "1.IH" [rule_format]) (use that in simp)
    show ?thesis
    proof (cases "escaped s")
      case True
      then have "escape_loop out s = escape_loop (appendEscape out (at s 0)) (drop 1 s)" for out
        using False by (subst escape_loop.simps) (simp add: Let_def)
      then have "escape_loop out s = appendEscape out (at s 0) @ escape_loop [] (drop 1 s)" for out
        using IH [of 1 "appendEscape out (at s 0)"] by simp
      then show ?thesis
        using appendEscape_acc [of out] by simp
    next
      case esc: False
      then have "escape_loop out s = escape_loop (out @ take (seqLen s) s) (drop (seqLen s) s)" for out
        using False by (subst escape_loop.simps) (auto simp: Let_def)
      then have "escape_loop out s = (out @ take (seqLen s) s) @ escape_loop [] (drop (seqLen s) s)"
        for out
        using esc IH [of "seqLen s" "out @ take (seqLen s) s"] by simp
      then show ?thesis by simp
    qed
  qed simp
qed

lemma escape_loop_escape:
  assumes "s \<noteq> []" and "escaped s"
  shows "escape_loop [] s = appendEscape [] (at s 0) @ escape_loop [] (drop 1 s)"
  using assms escape_loop_acc [of "appendEscape [] (at s 0)"]
  by (subst escape_loop.simps) (simp add: Let_def)

lemma escape_loop_copy:
  assumes "s \<noteq> []" and "\<not> escaped s"
  shows "escape_loop [] s = take (seqLen s) s @ escape_loop [] (drop (seqLen s) s)"
  using assms escape_loop_acc [of "take (seqLen s) s"]
  by (subst escape_loop.simps) (auto simp: Let_def)

lemma unescape_loop_Nil [simp]: "unescape_loop out [] = out"
  by (simp add: unescape_loop.simps)

lemma unescape_loop_escape:
  assumes "0x80 \<le> byte b"
  shows "unescape_loop out (appendEscape [] b @ t) = unescape_loop (out @ [b]) t"
proof -
  let ?u = "appendEscape [] b"
  have n: "seqLen (?u @ t) = 4"
    using utf8_char_seqLen [OF escape_utf8_char [OF assms]] by simp
  have ne: "?u @ t \<noteq> []"
    using length_appendEscape [of b] by (cases ?u) auto
  have "decodeEscape (?u @ t) - kEscapeBase = byte b"
    using decodeEscape_eq [OF assms, of t] by (simp add: appendEscape_eq [OF assms])
  then show ?thesis
    using ne n escape_isEscapeCodePoint [OF assms]
    by (subst unescape_loop.simps) (simp add: Let_def)
qed

lemma unescape_loop_copy:
  assumes "s \<noteq> []" and "\<not> escaped s"
  shows "unescape_loop out (take (seqLen s) s @ t) = unescape_loop (out @ take (seqLen s) s) t"
proof -
  let ?n = "seqLen s"
  let ?u = "take ?n s"
  have n: "?n \<noteq> 0" using assms(2) by simp
  have len: "length ?u = ?n"
    using seqLen_utf8_char(2) [OF assms(1) n] by simp
  have "seqLen (?u @ t) = ?n"
    by (rule seqLen_stable [OF assms(1) n])
  moreover have "\<not> (?n = 4 \<and> isEscapeCodePoint (?u @ t))"
    using assms escape_stable [OF assms(1)] by auto
  ultimately show ?thesis
    using n len assms(1) by (subst unescape_loop.simps) (auto simp: Let_def)
qed

lemma unescape_escape_loop: "unescape_loop out (escape_loop [] s) = out @ s"
proof (induction s arbitrary: out rule: length_induct)
  case (1 s)
  show ?case
  proof (cases "s = []")
    case False
    then have IH: "unescape_loop out (escape_loop [] (drop n s)) = out @ drop n s" if "n \<noteq> 0" for out n
      using "1.IH" that by simp
    show ?thesis
    proof (cases "escaped s")
      case True
      have "at s 0 # drop 1 s = s"
        using False by (cases s) auto
      with True False show ?thesis
        using IH [of 1 "out @ [at s 0]"]
        by (simp add: escape_loop_escape unescape_loop_escape escaped_high)
    next
      case esc: False
      then show ?thesis
        using False IH [of "seqLen s" "out @ take (seqLen s) s"]
        by (simp add: escape_loop_copy unescape_loop_copy)
    qed
  qed simp
qed

lemma escape_loop_id: "\<not> needsIndexEscape s \<Longrightarrow> escape_loop [] s = s"
proof (induction s rule: needsIndexEscape.induct)
  case (1 s)
  show ?case
  proof (cases "s = []")
    case False
    show ?thesis
    proof (cases "byte (at s 0) < 0x80")
      case True
      then have n: "seqLen s = 1"
        using False by (cases s) (auto simp: seqLen_class(1))
      have "escape_loop [] (drop 1 s) = drop 1 s"
        using "1.IH"(1) [OF False True] "1.prems" False True
        by (simp add: needsIndexEscape.simps [of s])
      with n False show ?thesis
        by (cases s) (simp_all add: escape_loop_copy)
    next
      case high: False
      have esc: "\<not> escaped s"
        using "1.prems" False high
        by (simp only: needsIndexEscape.simps [of s] Let_def) (simp split: if_splits)
      then have "escape_loop [] (drop (seqLen s) s) = drop (seqLen s) s"
        using "1.IH"(2) [OF False high refl esc] "1.prems" False high
        by (simp add: needsIndexEscape.simps [of s] Let_def split: if_splits)
      with esc False show ?thesis
        by (simp add: escape_loop_copy)
    qed
  qed simp
qed

lemma toIndexText_loop: "toIndexText s = escape_loop [] s"
  by (simp add: toIndexText_def escape_loop_id)

lemma utf8_escape_loop: "utf8 (escape_loop [] s)"
proof (induction s rule: length_induct)
  case (1 s)
  show ?case
  proof (cases "s = []")
    case False
    then have IH: "utf8 (escape_loop [] (drop n s))" if "n \<noteq> 0" for n
      using "1.IH" that by simp
    show ?thesis
    proof (cases "escaped s")
      case True
      then show ?thesis
        using False IH [of 1] escape_utf8_char escaped_high
        by (simp add: escape_loop_escape utf8.char)
    next
      case esc: False
      then show ?thesis
        using False IH [of "seqLen s"] seqLen_utf8_char(1)
        by (simp add: escape_loop_copy utf8.char)
    qed
  qed (simp add: utf8.empty)
qed

lemma makeIndexText_eq [simp]: "makeIndexText s = toIndexText s"
  by (simp add: makeIndexText_def toIndexText_def)

lemma length_escape_loop_le: "length s \<le> length (escape_loop [] s)"
proof (induction s rule: length_induct)
  case (1 s)
  show ?case
  proof (cases "s = []")
    case False
    then have IH: "length (drop n s) \<le> length (escape_loop [] (drop n s))" if "n \<noteq> 0" for n
      by (intro "1.IH" [rule_format]) (use that in simp)
    show ?thesis
    proof (cases "escaped s")
      case True
      with False IH [of 1] show ?thesis
        by (simp add: escape_loop_escape)
    next
      case esc: False
      then have "seqLen s \<noteq> 0" by simp
      from IH [OF this] show ?thesis
        by (simp add: escape_loop_copy [OF False esc])
    qed
  qed simp
qed

lemma needsIndexEscape_cases:
  assumes "s \<noteq> []"
  shows "needsIndexEscape s \<longleftrightarrow> escaped s \<or> needsIndexEscape (drop (seqLen s) s)"
proof (cases "byte (at s 0) < 0x80")
  case True
  then have "seqLen s = 1"
    using assms by (cases s) (auto simp: seqLen_class(1))
  with True assms show ?thesis
    by (simp add: needsIndexEscape.simps [of s])
next
  case False
  with assms show ?thesis
    by (simp only: needsIndexEscape.simps [of s] Let_def) auto
qed

lemma length_escape_loop: "needsIndexEscape s \<Longrightarrow> length s < length (escape_loop [] s)"
proof (induction s rule: length_induct)
  case (1 s)
  then have ne: "s \<noteq> []"
    by (auto simp: needsIndexEscape.simps)
  show ?case
  proof (cases "escaped s")
    case True
    then show ?thesis
      using length_escape_loop_le [of "drop 1 s"] escape_loop_escape [OF ne True] by simp
  next
    case esc: False
    then have "needsIndexEscape (drop (seqLen s) s)" and "seqLen s \<noteq> 0"
      using "1.prems" needsIndexEscape_cases [OF ne] by auto
    then have "length (drop (seqLen s) s) < length (escape_loop [] (drop (seqLen s) s))"
      using ne by (intro "1.IH" [rule_format]) auto
    then show ?thesis
      by (simp add: escape_loop_copy [OF ne esc])
  qed
qed

lemma toIndexText_eq_self: "toIndexText s = s \<longleftrightarrow> \<not> needsIndexEscape s"
  using length_escape_loop [of s] by (auto simp: toIndexText_loop escape_loop_id)

text \<open>An executable decision procedure for well-formed UTF-8.\<close>

function utf8_check :: "string \<Rightarrow> bool" where
  "utf8_check s =
     (if s = [] then True
      else if seqLen s = 0 then False else utf8_check (drop (seqLen s) s))"
  by pat_completeness auto
termination
  by (relation "measure length") auto

declare utf8_check.simps [simp del]

lemma utf8_check_append:
  assumes "utf8_char u"
  shows "utf8_check (u @ s) = utf8_check s"
proof -
  have "u \<noteq> []"
    using assms by (auto elim: utf8_char.cases)
  then show ?thesis
    using utf8_char_seqLen [OF assms, of s] by (subst utf8_check.simps) simp
qed

lemma utf8_check_iff: "utf8_check s = utf8 s"
proof
  show "utf8_check s \<Longrightarrow> utf8 s"
  proof (induction s rule: utf8_check.induct)
    case (1 s)
    show ?case
    proof (cases "s = []")
      case False
      with "1.prems" have n: "seqLen s \<noteq> 0" and "utf8_check (drop (seqLen s) s)"
        by (auto simp: utf8_check.simps [of s] split: if_splits)
      with False have "utf8 (drop (seqLen s) s)"
        by (intro "1.IH") auto
      from utf8.char [OF seqLen_utf8_char(1) [OF False n] this] show ?thesis
        by simp
    qed (simp add: utf8.empty)
  qed
  show "utf8 s \<Longrightarrow> utf8_check s"
    by (induction rule: utf8.induct) (simp_all add: utf8_check_append utf8_check.simps [of "[]"])
qed

section \<open>Properties\<close>

text \<open>C9: the escape is exactly reversible: converting any byte string to index text and
  back gives the same bytes.\<close>
theorem fromIndexText_toIndexText: "fromIndexText (toIndexText s) = s"
  by (simp add: fromIndexText_def toIndexText_loop unescape_escape_loop)

lemma toIndexText_inject [simp]: "toIndexText s = toIndexText t \<longleftrightarrow> s = t"
  by (metis toIndexText_loop unescape_escape_loop append_Nil)

lemma utf8_toIndexText: "utf8 (toIndexText s)"
  by (simp add: toIndexText_loop utf8_escape_loop)

text \<open>C10: index text is well-formed UTF-8, distinct byte strings have distinct index texts,
  and the conversion changes exactly the strings \<open>needsIndexEscape\<close> reports.\<close>
theorem toIndexText_wellformed:
  "utf8 (toIndexText s) \<and> (toIndexText s = toIndexText t \<longleftrightarrow> s = t) \<and>
   (toIndexText s = s \<longleftrightarrow> \<not> needsIndexEscape s)"
  by (simp add: utf8_toIndexText toIndexText_eq_self)

text \<open>A lookup key is always well-formed index text, converting it again changes
  nothing, the index text of any stored string finds that string, and the raw spelling
  finds it too unless it is well-formed UTF-8 that itself uses the escape range.\<close>
theorem lookupText_spec:
  assumes "utf8_decider isUTF8"
  shows "utf8 (lookupText isUTF8 s) \<and>
    lookupText isUTF8 (lookupText isUTF8 s) = lookupText isUTF8 s \<and>
    lookupText isUTF8 (toIndexText s) = toIndexText s \<and>
    (lookupText isUTF8 s = toIndexText s \<longleftrightarrow> \<not> (utf8 s \<and> needsIndexEscape s))"
proof -
  have "isUTF8 u = utf8 u" for u
    using assms by (simp add: utf8_decider_def)
  then show ?thesis
    using toIndexText_eq_self [of s] utf8_toIndexText [of s]
    by (auto simp: lookupText_def)
qed

theorem lookupText_spec_witness:
  "utf8_decider utf8_check \<and>
   lookupText utf8_check ''a.cpp'' = ''a.cpp'' \<and>
   lookupText utf8_check [CHR 0xE9] = toIndexText [CHR 0xE9]"
proof -
  have d: "utf8_decider utf8_check"
    by (simp add: utf8_decider_def utf8_check_iff)
  have a: "utf8_check ''a.cpp''" and b: "\<not> utf8_check [CHR 0xE9]"
    by (simp_all add: utf8_check.simps seqLen_def byte_def at_def)
  have "\<not> (utf8 [CHR 0xE9] \<and> needsIndexEscape [CHR 0xE9])"
    using b by (simp add: utf8_check_iff)
  then show ?thesis
    using d a lookupText_spec [OF d, of "[CHR 0xE9]"] by (simp add: lookupText_def)
qed

end
