(* ===== verification/Interner.thy ===== *)
theory Interner
  imports Prelude
begin

text \<open>
  The string interner (\<open>include/vycor/callgraph/StringInterner.h\<close>): a table of strings
  whose positions are the ids and an index from string to id. Ids are natural numbers: a
  table would have to hold more than $2^{32}$ strings before the 32-bit id of the source
  wraps. \<open>resolve\<close> of an id outside the table is undefined behaviour in the source and
  an unspecified value here, so every theorem about it shows that the id is in range.

  The source takes a shared lock for the lookup and an exclusive lock for the insertion
  and looks the string up again under the second lock. \<open>intern_step\<close> is that protocol
  with one step per lock region, for any number of threads.
\<close>

section \<open>Definitions\<close>

type_synonym sid = nat

record interner =
  strings :: "string list"
  index :: "(string, sid) umap"

definition empty_interner :: interner where
  "empty_interner = \<lparr>strings = [], index = []\<rparr>"

definition findId :: "interner \<Rightarrow> string \<Rightarrow> sid option" where
  "findId it s = map_of (index it) s"

definition resolve :: "interner \<Rightarrow> sid \<Rightarrow> string" where
  "resolve it i = strings it ! i"

definition internerSize :: "interner \<Rightarrow> nat" where
  "internerSize it = length (strings it)"

text \<open>The region under the exclusive lock: look up again, then append.\<close>

definition internLocked :: "interner \<Rightarrow> string \<Rightarrow> sid \<times> interner" where
  "internLocked it s =
     (case map_of (index it) s of
        Some i \<Rightarrow> (i, it)
      | None \<Rightarrow>
          let i = length (strings it) in
          (i, it\<lparr>strings := strings it @ [s], index := um_emplace (index it) s i\<rparr>))"

definition intern :: "interner \<Rightarrow> string \<Rightarrow> sid \<times> interner" where
  "intern it s =
     (case findId it s of
        Some i \<Rightarrow> (i, it)
      | None \<Rightarrow> internLocked it s)"

fun rebuildIndex :: "nat \<Rightarrow> string list \<Rightarrow> (string, sid) umap \<Rightarrow> (string, sid) umap" where
  "rebuildIndex i [] m = m"
| "rebuildIndex i (s # ss) m = rebuildIndex (Suc i) ss (um_emplace m s i)"

definition installStrings :: "interner \<Rightarrow> string list \<Rightarrow> bool \<times> interner" where
  "installStrings it ss =
     (if strings it \<noteq> [] then (False, it)
      else (True, \<lparr>strings = ss, index = rebuildIndex 0 ss []\<rparr>))"

definition moveInterner :: "interner \<Rightarrow> interner" where
  "moveInterner other = \<lparr>strings = strings other, index = rebuildIndex 0 (strings other) []\<rparr>"

definition payloadBytes :: "interner \<Rightarrow> nat" where
  "payloadBytes it = sum_list (map length (strings it))"

text \<open>Interning a whole table in order, as the shard merge does.\<close>

fun intern_all :: "('t \<Rightarrow> string \<Rightarrow> sid \<times> 't) \<Rightarrow> 't \<Rightarrow> string list \<Rightarrow> sid list \<times> 't" where
  "intern_all f t [] = ([], t)"
| "intern_all f t (s # ss) =
     (let (i, t') = f t s; (is, t'') = intern_all f t' ss in (i # is, t''))"

definition interner_wf :: "interner \<Rightarrow> bool" where
  "interner_wf it \<longleftrightarrow>
     (\<forall>s i. map_of (index it) s = Some i \<longleftrightarrow> i < length (strings it) \<and> strings it ! i = s)"

subsection \<open>Concurrent interning\<close>

datatype intern_pc = Calling string | SlowPath string | Returned string sid

record intern_sys =
  table :: interner
  threads :: "nat \<Rightarrow> intern_pc option"

inductive intern_step :: "intern_sys \<Rightarrow> intern_sys \<Rightarrow> bool" where
  call: "threads w t = None \<Longrightarrow>
     intern_step w (w\<lparr>threads := (threads w)(t \<mapsto> Calling s)\<rparr>)"
| fast_hit: "threads w t = Some (Calling s) \<Longrightarrow> findId (table w) s = Some i \<Longrightarrow>
     intern_step w (w\<lparr>threads := (threads w)(t \<mapsto> Returned s i)\<rparr>)"
| fast_miss: "threads w t = Some (Calling s) \<Longrightarrow> findId (table w) s = None \<Longrightarrow>
     intern_step w (w\<lparr>threads := (threads w)(t \<mapsto> SlowPath s)\<rparr>)"
| slow: "threads w t = Some (SlowPath s) \<Longrightarrow> internLocked (table w) s = (i, tb) \<Longrightarrow>
     intern_step w (w\<lparr>table := tb, threads := (threads w)(t \<mapsto> Returned s i)\<rparr>)"

definition intern_init :: intern_sys where
  "intern_init = \<lparr>table = empty_interner, threads = Map.empty\<rparr>"

inductive intern_reachable :: "intern_sys \<Rightarrow> bool" where
  init: "intern_reachable intern_init"
| step: "intern_reachable w \<Longrightarrow> intern_step w w' \<Longrightarrow> intern_reachable w'"

section \<open>The interface of a string table\<close>

locale string_table =
  fixes intern_op :: "'t \<Rightarrow> string \<Rightarrow> sid \<times> 't"
    and find_op :: "'t \<Rightarrow> string \<Rightarrow> sid option"
    and resolve_op :: "'t \<Rightarrow> sid \<Rightarrow> string"
    and size_op :: "'t \<Rightarrow> nat"
    and wf :: "'t \<Rightarrow> bool"
  assumes wf_intern: "wf t \<Longrightarrow> intern_op t s = (i, t') \<Longrightarrow> wf t'"
    and find_intern: "wf t \<Longrightarrow> intern_op t s = (i, t') \<Longrightarrow>
      find_op t' u = (if u = s then Some i else find_op t u)"
    and intern_known: "wf t \<Longrightarrow> find_op t s = Some i \<Longrightarrow> intern_op t s = (i, t)"
    and find_iff: "wf t \<Longrightarrow> find_op t s = Some i \<longleftrightarrow> i < size_op t \<and> resolve_op t i = s"
    and size_intern: "wf t \<Longrightarrow> intern_op t s = (i, t') \<Longrightarrow> size_op t \<le> size_op t'"
begin

lemma intern_result:
  assumes "wf t" and "intern_op t s = (i, t')"
  shows "i < size_op t'" and "resolve_op t' i = s" and "find_op t' s = Some i"
proof -
  show f: "find_op t' s = Some i"
    using find_intern [OF assms] by simp
  then show "i < size_op t'" and "resolve_op t' i = s"
    using find_iff [OF wf_intern [OF assms]] by auto
qed

lemma resolve_stable:
  assumes "wf t" and "intern_op t s = (i, t')" and "j < size_op t"
  shows "resolve_op t' j = resolve_op t j"
proof (cases "resolve_op t j = s")
  case True
  then have "find_op t s = Some j"
    using find_iff [OF assms(1)] assms(3) by simp
  then have "t' = t"
    using intern_known [OF assms(1)] assms(2) by simp
  then show ?thesis by simp
next
  case False
  have "find_op t (resolve_op t j) = Some j"
    using find_iff [OF assms(1)] assms(3) by simp
  then have "find_op t' (resolve_op t j) = Some j"
    using find_intern [OF assms(1,2)] False by simp
  then show ?thesis
    using find_iff [OF wf_intern [OF assms(1,2)]] by simp
qed

lemma find_stable:
  assumes "wf t" and "intern_op t s = (i, t')" and "find_op t u = Some j"
  shows "find_op t' u = Some j"
proof (cases "u = s")
  case True
  then have "intern_op t s = (j, t)"
    using intern_known [OF assms(1)] assms(3) by simp
  with assms show ?thesis by simp
next
  case False
  then show ?thesis
    using find_intern [OF assms(1,2)] assms(3) by simp
qed

lemma resolve_inj:
  assumes "wf t" and "i < size_op t" and "j < size_op t" and "resolve_op t i = resolve_op t j"
  shows "i = j"
  using assms find_iff [OF assms(1)] by (metis option.inject)

lemma intern_all_spec:
  assumes "wf t" and "intern_all intern_op t ss = (is, t')"
  shows "wf t' \<and> length is = length ss \<and> size_op t \<le> size_op t' \<and>
    (\<forall>j < size_op t. resolve_op t' j = resolve_op t j) \<and>
    (\<forall>k < length ss. is ! k < size_op t' \<and> resolve_op t' (is ! k) = ss ! k)"
  using assms
proof (induction ss arbitrary: t "is" t')
  case Nil
  then show ?case by simp
next
  case (Cons s ss)
  obtain i t1 where 1: "intern_op t s = (i, t1)"
    by (cases "intern_op t s") auto
  obtain is' where 2: "intern_all intern_op t1 ss = (is', t')" and "is": "is = i # is'"
    using Cons.prems(2) 1 by (auto simp: split: prod.splits)
  have w: "wf t1"
    using wf_intern [OF Cons.prems(1) 1] .
  note IH = Cons.IH [OF w 2]
  note r = intern_result [OF Cons.prems(1) 1]
  have le: "size_op t \<le> size_op t1"
    using size_intern [OF Cons.prems(1) 1] .
  show ?case
  proof (intro conjI allI impI)
    show "resolve_op t' j = resolve_op t j" if "j < size_op t" for j
      using that IH resolve_stable [OF Cons.prems(1) 1 that] le by simp
    show "is ! k < size_op t'" if "k < length (s # ss)" for k
      using that IH r by (cases k) (auto simp: "is")
    show "resolve_op t' (is ! k) = (s # ss) ! k" if "k < length (s # ss)" for k
      using that IH r by (cases k) (auto simp: "is")
  qed (use IH le "is" in auto)
qed

end

section \<open>The table of the source\<close>

lemma findId_iff:
  "interner_wf it \<Longrightarrow> findId it s = Some i \<longleftrightarrow> i < internerSize it \<and> resolve it i = s"
  by (simp add: interner_wf_def findId_def internerSize_def resolve_def)

lemma internLocked_new:
  "findId it s = None \<Longrightarrow> internLocked it s =
     (length (strings it), it\<lparr>strings := strings it @ [s],
        index := um_emplace (index it) s (length (strings it))\<rparr>)"
  by (simp add: internLocked_def findId_def Let_def)

lemma internLocked_known: "findId it s = Some i \<Longrightarrow> internLocked it s = (i, it)"
  by (simp add: internLocked_def findId_def)

lemma intern_eq_locked: "intern it s = internLocked it s"
  by (cases "findId it s") (simp_all add: intern_def internLocked_known)

lemma interner_wf_append:
  assumes "interner_wf it" and "findId it s = None"
  shows "interner_wf (it\<lparr>strings := strings it @ [s],
    index := um_emplace (index it) s (length (strings it))\<rparr>)"
proof -
  have "strings it ! i \<noteq> s" if "i < length (strings it)" for i
    using assms that findId_iff [OF assms(1), of s i]
    by (auto simp: internerSize_def resolve_def)
  then show ?thesis
    using assms unfolding interner_wf_def findId_def
    by (auto simp: nth_append less_Suc_eq)
qed

lemma interner_wf_internLocked:
  "interner_wf it \<Longrightarrow> internLocked it s = (i, it') \<Longrightarrow> interner_wf it'"
  by (cases "findId it s") (auto simp: internLocked_new internLocked_known interner_wf_append)

lemma findId_internLocked:
  "internLocked it s = (i, it') \<Longrightarrow> findId it' u = (if u = s then Some i else findId it u)"
  by (cases "findId it s") (auto simp: internLocked_new internLocked_known findId_def)

lemma interner_wf_empty [simp]: "interner_wf empty_interner"
  by (simp add: interner_wf_def empty_interner_def)

interpretation st: string_table intern findId resolve internerSize interner_wf
proof unfold_locales
  fix t s i t' u
  assume wf: "interner_wf t" and i: "intern t s = (i, t')"
  show "interner_wf t'"
    using wf i by (simp add: intern_eq_locked interner_wf_internLocked)
  show "findId t' u = (if u = s then Some i else findId t u)"
    using i by (simp add: intern_eq_locked findId_internLocked)
  show "internerSize t \<le> internerSize t'"
    using i by (cases "findId t s")
      (auto simp: intern_eq_locked internLocked_new internLocked_known internerSize_def)
next
  fix t s i
  show "findId t s = Some i \<Longrightarrow> intern t s = (i, t)"
    by (simp add: intern_def)
  show "interner_wf t \<Longrightarrow> findId t s = Some i \<longleftrightarrow> i < internerSize t \<and> resolve t i = s"
    by (rule findId_iff)
qed

lemma rebuildIndex_lookup:
  assumes "distinct ss" and "\<forall>s \<in> set ss. map_of m s = None"
  shows "map_of (rebuildIndex i ss m) s = Some j \<longleftrightarrow>
    map_of m s = Some j \<or> (\<exists>k < length ss. j = i + k \<and> ss ! k = s)"
  using assms
proof (induction i ss m rule: rebuildIndex.induct)
  case (2 i a ss m)
  have "map_of (rebuildIndex (Suc i) ss (um_emplace m a i)) s = Some j \<longleftrightarrow>
    map_of (um_emplace m a i) s = Some j \<or> (\<exists>k < length ss. j = Suc i + k \<and> ss ! k = s)"
    using "2.prems" by (intro "2.IH") auto
  also have "\<dots> \<longleftrightarrow> map_of m s = Some j \<or> (\<exists>k < length (a # ss). j = i + k \<and> (a # ss) ! k = s)"
    using "2.prems" by (auto simp: less_Suc_eq_0_disj)
  finally show ?case by simp
qed simp

lemma interner_wf_rebuild:
  "distinct ss \<Longrightarrow> interner_wf \<lparr>strings = ss, index = rebuildIndex 0 ss []\<rparr>"
  by (auto simp: interner_wf_def rebuildIndex_lookup)

lemma interner_wf_distinct: "interner_wf it \<Longrightarrow> distinct (strings it)"
  by (auto simp: distinct_conv_nth interner_wf_def) (metis option.inject)

lemma internerSize_moveInterner [simp]: "internerSize (moveInterner it) = internerSize it"
  by (simp add: internerSize_def moveInterner_def)

lemma intern_all_strings:
  assumes "interner_wf it" and "interner_wf sh"
    and "intern_all intern it (strings sh) = (is, it')"
  shows "interner_wf it' \<and> length is = internerSize sh \<and> internerSize it \<le> internerSize it' \<and>
    (\<forall>j < internerSize it. resolve it' j = resolve it j) \<and>
    (\<forall>k < internerSize sh. is ! k < internerSize it' \<and> resolve it' (is ! k) = resolve sh k)"
  using st.intern_all_spec [OF assms(1,3)] by (simp add: internerSize_def resolve_def)

subsection \<open>Threads\<close>

definition intern_inv :: "intern_sys \<Rightarrow> bool" where
  "intern_inv w \<longleftrightarrow> interner_wf (table w) \<and>
     (\<forall>t s i. threads w t = Some (Returned s i) \<longrightarrow> findId (table w) s = Some i)"

inductive_cases intern_stepE: "intern_step w w'"

lemma intern_step_inv: "intern_step w w' \<Longrightarrow> intern_inv w \<Longrightarrow> intern_inv w'"
proof (induction rule: intern_step.induct)
  case (slow w t s i tb)
  then have wf: "interner_wf (table w)"
    by (simp add: intern_inv_def)
  have i: "intern (table w) s = (i, tb)"
    using slow by (simp add: intern_eq_locked)
  show ?case
    using slow.prems st.wf_intern [OF wf i] st.intern_result(3) [OF wf i] st.find_stable [OF wf i]
    by (auto simp: intern_inv_def)
qed (auto simp: intern_inv_def)

lemma intern_reachable_inv: "intern_reachable w \<Longrightarrow> intern_inv w"
proof (induction rule: intern_reachable.induct)
  case init
  show ?case by (simp add: intern_inv_def intern_init_def)
next
  case (step w w')
  then show ?case by (blast intro: intern_step_inv)
qed

section \<open>Properties\<close>

text \<open>Interning a string yields an id that resolves to it, leaves every id handed out
  before valid and unchanged, and interning it again gives the same id and changes nothing.\<close>
theorem intern_spec:
  assumes "interner_wf it" and "intern it s = (i, it')"
  shows "interner_wf it' \<and> i < internerSize it' \<and> resolve it' i = s \<and>
    (\<forall>j < internerSize it. resolve it' j = resolve it j) \<and>
    findId it' u = (if u = s then Some i else findId it u) \<and> intern it' s = (i, it')"
  using st.wf_intern [OF assms] st.intern_result [OF assms] st.resolve_stable [OF assms]
    st.find_intern [OF assms] st.intern_known [OF st.wf_intern [OF assms]]
  by simp

theorem intern_spec_witness:
  "interner_wf empty_interner \<and>
   intern empty_interner ''f'' = (0, \<lparr>strings = [''f''], index = [(''f'', 0)]\<rparr>) \<and>
   resolve \<lparr>strings = [''f''], index = [(''f'', 0)]\<rparr> 0 = ''f''"
proof -
  have w: "interner_wf empty_interner" by simp
  have i: "intern empty_interner ''f'' = (0, \<lparr>strings = [''f''], index = [(''f'', 0)]\<rparr>)"
    by (simp add: intern_def internLocked_def findId_def empty_interner_def um_emplace_def um_put_def)
  show ?thesis
    using w i intern_spec [OF w i, of "''f''"] by simp
qed

text \<open>C11: under every interleaving of any number of interning threads the table holds no
  string twice, and two threads that interned the same string got the same id.\<close>
theorem intern_threads_agree:
  assumes "intern_reachable w"
  shows "distinct (strings (table w)) \<and>
    (\<forall>t t' s i j. threads w t = Some (Returned s i) \<longrightarrow> threads w t' = Some (Returned s j) \<longrightarrow>
       i = j \<and> i < internerSize (table w) \<and> resolve (table w) i = s)"
proof -
  have inv: "intern_inv w"
    using assms by (rule intern_reachable_inv)
  then have wf: "interner_wf (table w)"
    by (simp add: intern_inv_def)
  show ?thesis
  proof (intro conjI allI impI)
    show "distinct (strings (table w))"
      using wf by (rule interner_wf_distinct)
    fix t t' s i j
    assume "threads w t = Some (Returned s i)" and "threads w t' = Some (Returned s j)"
    then have f: "findId (table w) s = Some i" "findId (table w) s = Some j"
      using inv unfolding intern_inv_def by blast+
    then show "i = j" by simp
    from f(1) show "i < internerSize (table w)" and "resolve (table w) i = s"
      using findId_iff [OF wf] by auto
  qed
qed

definition race_table :: interner where
  "race_table = \<lparr>strings = [''f''], index = [(''f'', 0)]\<rparr>"

lemma race_reachable:
  "intern_reachable \<lparr>table = race_table,
     threads = [1 \<mapsto> Returned ''f'' 0, 2 \<mapsto> Returned ''f'' 0]\<rparr>"
proof -
  let ?w = "\<lambda>tb a b. \<lparr>table = tb, threads = [1 \<mapsto> a, 2 \<mapsto> b]\<rparr> :: intern_sys"
  have s0: "intern_reachable \<lparr>table = empty_interner, threads = [1 \<mapsto> Calling ''f'']\<rparr>"
    using intern_reachable.step [OF intern_reachable.init intern_step.call [of intern_init 1 "''f''"]]
    by (simp add: intern_init_def)
  have s1: "intern_reachable (?w empty_interner (Calling ''f'') (Calling ''f''))"
    using intern_reachable.step [OF s0 intern_step.call [of _ 2 "''f''"]] by simp
  have s2: "intern_reachable (?w empty_interner (SlowPath ''f'') (Calling ''f''))"
    using intern_reachable.step [OF s1 intern_step.fast_miss [of _ 1 "''f''"]]
    by (simp add: findId_def empty_interner_def fun_upd_twist)
  have s3: "intern_reachable (?w empty_interner (SlowPath ''f'') (SlowPath ''f''))"
    using intern_reachable.step [OF s2 intern_step.fast_miss [of _ 2 "''f''"]]
    by (simp add: findId_def empty_interner_def)
  have s4: "intern_reachable (?w race_table (Returned ''f'' 0) (SlowPath ''f''))"
    using intern_reachable.step [OF s3 intern_step.slow [of _ 1 "''f''" 0 race_table]]
    by (simp add: internLocked_def empty_interner_def race_table_def um_emplace_def um_put_def
        fun_upd_twist)
  show ?thesis
    using intern_reachable.step [OF s4 intern_step.slow [of _ 2 "''f''" 0 race_table]]
    by (simp add: internLocked_def race_table_def)
qed

theorem intern_threads_agree_witness:
  "intern_reachable \<lparr>table = race_table,
     threads = [1 \<mapsto> Returned ''f'' 0, 2 \<mapsto> Returned ''f'' 0]\<rparr> \<and>
   distinct (strings race_table)"
  using race_reachable intern_threads_agree [OF race_reachable] by simp

text \<open>Installing a table of distinct strings on an empty interner makes every string's
  position its id; on a non-empty interner it is refused and changes nothing. Moving an
  interner keeps every id and every lookup.\<close>
lemma installStrings_positions:
  assumes "distinct ss"
  shows "installStrings empty_interner ss = (True, it) \<Longrightarrow>
      interner_wf it \<and> (findId it s = Some i \<longleftrightarrow> i < length ss \<and> ss ! i = s)"
    and "strings it0 \<noteq> [] \<Longrightarrow> installStrings it0 ss = (False, it0)"
    and "interner_wf it1 \<Longrightarrow> interner_wf (moveInterner it1) \<and> findId (moveInterner it1) s = findId it1 s"
proof -
  show "interner_wf it \<and> (findId it s = Some i \<longleftrightarrow> i < length ss \<and> ss ! i = s)"
    if "installStrings empty_interner ss = (True, it)"
    using that interner_wf_rebuild [OF assms]
    by (auto simp: installStrings_def empty_interner_def findId_iff internerSize_def resolve_def)
  show "strings it0 \<noteq> [] \<Longrightarrow> installStrings it0 ss = (False, it0)"
    by (simp add: installStrings_def)
  assume wf: "interner_wf it1"
  then have m: "interner_wf (moveInterner it1)"
    by (simp add: moveInterner_def interner_wf_rebuild interner_wf_distinct)
  have "findId (moveInterner it1) s = Some j \<longleftrightarrow> findId it1 s = Some j" for j
    using findId_iff [OF wf] findId_iff [OF m]
    by (simp add: moveInterner_def internerSize_def resolve_def)
  then have "findId (moveInterner it1) s = findId it1 s"
    by (cases "findId it1 s"; cases "findId (moveInterner it1) s") auto
  with m show "interner_wf (moveInterner it1) \<and> findId (moveInterner it1) s = findId it1 s"
    by simp
qed

section \<open>Growth of the interner\<close>

definition grows :: "interner \<Rightarrow> interner \<Rightarrow> bool" where
  "grows it it' \<longleftrightarrow> interner_wf it \<and> interner_wf it' \<and> internerSize it \<le> internerSize it' \<and>
     (\<forall>s i. findId it s = Some i \<longrightarrow> findId it' s = Some i)"

lemma grows_refl [simp]: "grows it it \<longleftrightarrow> interner_wf it"
  by (auto simp: grows_def)

lemma grows_trans: "grows a b \<Longrightarrow> grows b c \<Longrightarrow> grows a c"
  by (fastforce simp: grows_def)

lemma grows_resolve:
  assumes "grows it it'" and "i < internerSize it"
  shows "resolve it' i = resolve it i"
proof -
  have "findId it (resolve it i) = Some i"
    using assms findId_iff by (auto simp: grows_def)
  then have "findId it' (resolve it i) = Some i"
    using assms by (auto simp: grows_def)
  then show ?thesis
    using assms findId_iff by (auto simp: grows_def)
qed

lemma grows_intern:
  assumes "interner_wf it" and "intern it s = (i, it')"
  shows "grows it it'"
  unfolding grows_def
  using assms st.wf_intern [OF assms] st.size_intern [OF assms] st.find_stable [OF assms]
  by blast

lemma intern_grows_known:
  assumes "interner_wf it" and "intern it s = (i, it1)" and "grows it1 it'"
  shows "i < internerSize it' \<and> resolve it' i = s"
proof -
  have "findId it' s = Some i"
    using st.intern_result(3) [OF assms(1,2)] assms(3) by (simp add: grows_def)
  then show ?thesis using findId_iff assms(3) by (simp add: grows_def)
qed

lemma grows_intern_all:
  assumes "interner_wf it" and "intern_all intern it ss = (is, it')"
  shows "grows it it'"
  using assms
proof (induction ss arbitrary: it "is")
  case (Cons s ss)
  obtain i it1 where 1: "intern it s = (i, it1)"
    by (cases "intern it s") auto
  then obtain is' where 2: "intern_all intern it1 ss = (is', it')"
    using Cons.prems(2) by (auto split: prod.splits)
  have g: "grows it it1"
    using Cons.prems(1) 1 by (rule grows_intern)
  then have "grows it1 it'"
    using Cons.IH [OF _ 2] by (auto simp: grows_def)
  with g show ?case by (rule grows_trans)
qed simp

end
