(* ===== verification/CallGraph.thy ===== *)
theory CallGraph
  imports IndexText Interner
begin

text \<open>
  The call graph (\<open>include/vycor/callgraph/CallGraph.h\<close>,
  \<open>src/callgraph/CallGraph.cpp\<close>): its data, mutators and queries, in the order of the
  source. Field \<open>g_x\<close> of \<open>call_graph\<close> is the source's member \<open>x_\<close>. The three
  structs with the seven semantic edge fields are one record: \<open>EdgeRef\<close> is the edge view
  and the deduplication key, \<open>StoredEdge\<close> extends it by the registration count.
  Counts and indices are natural numbers, where the source has 32-bit ids and reference
  counts: the model is that of a graph with fewer than $2^{32}$ strings and registrations
  (\<open>refs_le_regs\<close>, \<open>edge_ids_bounded\<close> in \<open>CallGraphProps\<close>). The mutex, the once-only warning of a refused
  mutation, the test hook of \<open>addEdge\<close> and the \<open>reserve\<close> calls have no effect on the
  state and are not modelled. Lookups that take a name take the decision procedure of
  \<open>llvm::json::isUTF8\<close> as their first argument (see \<open>IndexText\<close>).
\<close>

section \<open>Data\<close>

datatype EdgeKind =
    DirectCall | VirtualDispatch | FunctionPointer | ConstructorCall | DestructorCall
  | OperatorCall | TemplateInstantiation | LambdaCall | ThreadEntry | FunctionPointerReturn

datatype Confidence = Proven | Plausible | Unknown

datatype ExecutionContext = Synchronous | ThreadSpawn | AsyncTask | PackagedTask | Invoke

record CallGraphNode =
  qualifiedName :: string
  nodeFile :: string
  nodeLine :: nat
  isEntryPoint :: bool
  isVirtual :: bool
  enclosingClass :: string
  usr :: string

record CallGraphEdge =
  callerName :: string
  calleeName :: string
  edgeKind :: EdgeKind
  edgeConfidence :: Confidence
  edgeCallSite :: string
  edgeIndirectionDepth :: nat
  edgeExecContext :: ExecutionContext
  callerUsr :: string
  calleeUsr :: string

record EdgeRef =
  caller :: sid
  callee :: sid
  callSite :: sid
  kind :: EdgeKind
  confidence :: Confidence
  execContext :: ExecutionContext
  indirectionDepth :: nat

record StoredEdge = EdgeRef +
  refs :: nat

definition keyOf :: "StoredEdge \<Rightarrow> EdgeRef" where
  "keyOf se = \<lparr>caller = caller se, callee = callee se, callSite = callSite se, kind = kind se,
     confidence = confidence se, execContext = execContext se,
     indirectionDepth = indirectionDepth se\<rparr>"

record call_graph =
  g_interner :: interner
  g_nodes :: "(sid, CallGraphNode) umap"
  g_byName :: "(sid, sid list) umap"
  g_edges :: "StoredEdge list"
  g_edgeIndex :: "(EdgeRef, nat) umap"
  g_outEdges :: "(sid, nat list) umap"
  g_inEdges :: "(sid, nat list) umap"
  g_derivedClasses :: "(sid, sid list) umap"
  g_methodOverrides :: "(sid, sid list) umap"
  g_overrideBases :: "(sid, sid list) umap"
  g_effectiveImplClasses :: "(sid, sid list) umap"
  g_functionReturns :: "(sid, sid list) umap"
  g_returnedBy :: "(sid, sid list) umap"
  g_tuEdges :: "(sid, nat list) umap"
  g_nodeContributors :: "(sid, sid list) umap"
  g_tuNodes :: "(sid, sid list) umap"
  g_liveEdgeCount :: nat
  g_readOnly :: bool

definition emptyGraph :: call_graph where
  "emptyGraph = \<lparr>g_interner = empty_interner, g_nodes = [], g_byName = [], g_edges = [],
     g_edgeIndex = [], g_outEdges = [], g_inEdges = [], g_derivedClasses = [],
     g_methodOverrides = [], g_overrideBases = [], g_effectiveImplClasses = [],
     g_functionReturns = [], g_returnedBy = [], g_tuEdges = [], g_nodeContributors = [],
     g_tuNodes = [], g_liveEdgeCount = 0, g_readOnly = False\<rparr>"

section \<open>Nodes\<close>

text \<open>\<open>interner_.intern\<close> on the graph's interner.\<close>

definition internStr :: "call_graph \<Rightarrow> string \<Rightarrow> sid \<times> call_graph" where
  "internStr g s = (let (i, it) = intern (g_interner g) s in (i, g\<lparr>g_interner := it\<rparr>))"

definition internRaw :: "call_graph \<Rightarrow> string \<Rightarrow> sid \<times> call_graph" where
  "internRaw g s =
     (if needsIndexEscape s then internStr g (toIndexText s) else internStr g s)"

definition findText :: "(string \<Rightarrow> bool) \<Rightarrow> call_graph \<Rightarrow> string \<Rightarrow> sid option" where
  "findText isUTF8 g s =
     (if isUTF8 s then findId (g_interner g) s else findId (g_interner g) (toIndexText s))"

text \<open>The merge of a node into one already stored.\<close>

definition backfill :: "CallGraphNode \<Rightarrow> CallGraphNode \<Rightarrow> CallGraphNode" where
  "backfill old node = old\<lparr>
     nodeFile := (if nodeFile node \<noteq> [] then nodeFile node else nodeFile old),
     nodeLine := (if nodeLine node \<noteq> 0 then nodeLine node else nodeLine old),
     isEntryPoint := (if isEntryPoint node then True else isEntryPoint old),
     isVirtual := (if isVirtual node then True else isVirtual old),
     enclosingClass :=
       (if enclosingClass node \<noteq> [] then enclosingClass node else enclosingClass old)\<rparr>"

definition insertNode :: "call_graph \<Rightarrow> sid \<Rightarrow> sid \<Rightarrow> CallGraphNode \<Rightarrow> call_graph" where
  "insertNode g nameId displayId node =
     g\<lparr>g_byName := um_push_new (g_byName g) displayId nameId,
       g_nodes := um_put (g_nodes g) nameId node\<rparr>"

definition contribute :: "call_graph \<Rightarrow> sid \<Rightarrow> sid \<Rightarrow> call_graph" where
  "contribute g nameId tuId =
     (if tuId \<in> set (um_get (g_nodeContributors g) nameId) then g
      else g\<lparr>g_nodeContributors := um_set_insert (g_nodeContributors g) nameId tuId,
             g_tuNodes := um_push (g_tuNodes g) tuId nameId\<rparr>)"

definition nodeText :: "CallGraphNode \<Rightarrow> CallGraphNode" where
  "nodeText node =
     (let node = (if usr node = [] then node\<lparr>usr := qualifiedName node\<rparr> else node)
      in node\<lparr>usr := makeIndexText (usr node),
              qualifiedName := makeIndexText (qualifiedName node),
              nodeFile := makeIndexText (nodeFile node),
              enclosingClass := makeIndexText (enclosingClass node)\<rparr>)"

definition addNode :: "call_graph \<Rightarrow> CallGraphNode \<Rightarrow> string \<Rightarrow> call_graph" where
  "addNode g node0 tuPath =
     (if g_readOnly g then g
      else
        let node = nodeText node0;
            (nameId, g) = internStr g (usr node);
            (displayId, g) = internStr g (qualifiedName node);
            g = (case map_of (g_nodes g) nameId of
                   None \<Rightarrow> insertNode g nameId displayId node
                 | Some old \<Rightarrow> g\<lparr>g_nodes := um_put (g_nodes g) nameId (backfill old node)\<rparr>)
        in if tuPath = [] then g
           else let (tuId, g) = internRaw g tuPath in contribute g nameId tuId)"

definition displayFor :: "call_graph \<Rightarrow> sid \<Rightarrow> string" where
  "displayFor g usrId =
     (case map_of (g_nodes g) usrId of
        Some n \<Rightarrow> qualifiedName n
      | None \<Rightarrow> resolve (g_interner g) usrId)"

definition resolveUsrIds :: "(string \<Rightarrow> bool) \<Rightarrow> call_graph \<Rightarrow> string \<Rightarrow> sid list" where
  "resolveUsrIds isUTF8 g name =
     (case findText isUTF8 g name of
        None \<Rightarrow> []
      | Some i \<Rightarrow>
          if map_of (g_nodes g) i \<noteq> None then [i]
          else (case map_of (g_byName g) i of
                  Some candidates \<Rightarrow> if candidates \<noteq> [] then candidates else [i]
                | None \<Rightarrow> [i]))"

definition usrsForName :: "(string \<Rightarrow> bool) \<Rightarrow> call_graph \<Rightarrow> string \<Rightarrow> string list" where
  "usrsForName isUTF8 g name = map (resolve (g_interner g)) (resolveUsrIds isUTF8 g name)"

definition materialize :: "call_graph \<Rightarrow> EdgeRef \<Rightarrow> CallGraphEdge" where
  "materialize g r =
     \<lparr>callerName = displayFor g (caller r), calleeName = displayFor g (callee r),
      edgeKind = kind r, edgeConfidence = confidence r,
      edgeCallSite = resolve (g_interner g) (callSite r),
      edgeIndirectionDepth = indirectionDepth r, edgeExecContext = execContext r,
      callerUsr = resolve (g_interner g) (caller r),
      calleeUsr = resolve (g_interner g) (callee r)\<rparr>"

section \<open>Edges\<close>

text \<open>
  The deduplicating insertion of \<open>addEdge\<close> and \<open>absorb\<close>: a hit adds the registrations
  to the stored edge, a miss appends it. Returns the edge's index.
\<close>

definition registerEdge :: "call_graph \<Rightarrow> StoredEdge \<Rightarrow> nat \<times> call_graph" where
  "registerEdge g se =
     (case map_of (g_edgeIndex g) (keyOf se) of
        Some idx \<Rightarrow>
          (idx, g\<lparr>g_edges := (g_edges g)[idx :=
             (g_edges g ! idx)\<lparr>refs := refs (g_edges g ! idx) + refs se\<rparr>]\<rparr>)
      | None \<Rightarrow>
          let idx = length (g_edges g) in
          (idx, g\<lparr>g_outEdges := um_push (g_outEdges g) (caller se) idx,
                  g_inEdges := um_push (g_inEdges g) (callee se) idx,
                  g_edges := g_edges g @ [se],
                  g_edgeIndex := um_emplace (g_edgeIndex g) (keyOf se) idx,
                  g_liveEdgeCount := g_liveEdgeCount g + 1\<rparr>))"

definition tagTuEdge :: "call_graph \<Rightarrow> sid \<Rightarrow> nat \<Rightarrow> call_graph" where
  "tagTuEdge g tuId idx = g\<lparr>g_tuEdges := um_push (g_tuEdges g) tuId idx\<rparr>"

definition addEdge :: "call_graph \<Rightarrow> CallGraphEdge \<Rightarrow> string \<Rightarrow> call_graph" where
  "addEdge g edge tuPath =
     (if g_readOnly g then g
      else
        let (c, g) = internRaw g (callerName edge);
            (d, g) = internRaw g (calleeName edge);
            (s, g) = internRaw g (edgeCallSite edge);
            se = \<lparr>caller = c, callee = d, callSite = s, kind = edgeKind edge,
                  confidence = edgeConfidence edge, execContext = edgeExecContext edge,
                  indirectionDepth = edgeIndirectionDepth edge, refs = 1\<rparr>;
            (idx, g) = registerEdge g se
        in if tuPath = [] then g
           else let (tuId, g) = internRaw g tuPath in tagTuEdge g tuId idx)"

section \<open>Queries\<close>

text \<open>
  The new elements of a scan, in order, each once: the body of the inner loop of
  \<open>transitiveClosure\<close> pushes exactly these onto the result and the stack.
\<close>

fun fresh :: "sid list \<Rightarrow> sid list \<Rightarrow> sid list" where
  "fresh visited [] = []"
| "fresh visited (x # xs) =
     (if x \<in> set visited then fresh visited xs else x # fresh (x # visited) xs)"

definition rel_values :: "(sid, sid list) umap \<Rightarrow> sid set" where
  "rel_values rel = (\<Union>(k, vs) \<in> set rel. set vs)"

lemma fresh_set: "set (fresh visited xs) = set xs - set visited"
  by (induction visited xs rule: fresh.induct) auto

lemma fresh_distinct: "distinct (fresh visited xs)"
  by (induction visited xs rule: fresh.induct) (auto simp: fresh_set)

lemma finite_rel_values [simp]: "finite (rel_values rel)"
  by (auto simp: rel_values_def)

lemma rel_values_get: "set (um_get rel k) \<subseteq> rel_values rel"
  by (cases "map_of rel k") (auto simp: rel_values_def dest!: map_of_SomeD)

lemma fresh_measure:
  assumes "set xs \<subseteq> rel_values rel"
  shows "2 * card (rel_values rel - set (fresh visited xs @ visited)) + length (fresh visited xs)
    \<le> 2 * card (rel_values rel - set visited)"
proof -
  let ?n = "fresh visited xs"
  have sub: "set ?n \<subseteq> rel_values rel - set visited"
    using assms by (auto simp: fresh_set)
  have "rel_values rel - set (?n @ visited) = (rel_values rel - set visited) - set ?n"
    by auto
  moreover have "card \<dots> = card (rel_values rel - set visited) - card (set ?n)"
    using sub by (intro card_Diff_subset) auto
  moreover have "card (set ?n) \<le> card (rel_values rel - set visited)"
    using sub by (intro card_mono) auto
  ultimately show ?thesis
    by (simp add: distinct_card [OF fresh_distinct])
qed

text \<open>The top of the stack is the head of the list.\<close>

function closureLoop ::
  "(sid, sid list) umap \<Rightarrow> sid list \<Rightarrow> sid list \<Rightarrow> sid list \<Rightarrow> sid list" where
  "closureLoop rel [] visited result = result"
| "closureLoop rel (cur # stack) visited result =
     (case map_of rel cur of
        None \<Rightarrow> closureLoop rel stack visited result
      | Some nexts \<Rightarrow>
          let new = fresh visited nexts
          in closureLoop rel (rev new @ stack) (new @ visited) (result @ new))"
  by pat_completeness auto
termination
proof (relation "measure (\<lambda>(rel, stack, visited, result).
    2 * card (rel_values rel - set visited) + length stack)", goal_cases)
  case (3 rel cur stack visited result nexts new)
  then have "set nexts \<subseteq> rel_values rel"
    using rel_values_get [of rel cur] by simp
  from fresh_measure [OF this, of visited] 3 show ?case
    by simp
qed auto

definition transitiveClosure :: "sid \<Rightarrow> (sid, sid list) umap \<Rightarrow> sid list" where
  "transitiveClosure start rel =
     (case map_of rel start of
        None \<Rightarrow> []
      | Some _ \<Rightarrow> closureLoop rel [start] [start] [])"

text \<open>
  The synthesized edges of a query: candidates in order, each with the key under which
  the source's \<open>seen\<close> set records it; a key already seen is skipped.
\<close>

fun unseen :: "'k list \<Rightarrow> ('k \<times> 'r) list \<Rightarrow> ('k \<times> 'r) list" where
  "unseen seen [] = []"
| "unseen seen ((k, r) # cs) =
     (if k \<in> set seen then unseen seen cs else (k, r) # unseen (k # seen) cs)"

definition liveAt :: "call_graph \<Rightarrow> nat list \<Rightarrow> StoredEdge list" where
  "liveAt g idxs = filter (\<lambda>se. refs se \<noteq> 0) (map (\<lambda>i. g_edges g ! i) idxs)"

definition isDispatch :: "StoredEdge \<Rightarrow> bool" where
  "isDispatch se \<longleftrightarrow> kind se = VirtualDispatch \<and> confidence se = Plausible"

definition returnKind :: "StoredEdge \<Rightarrow> EdgeKind" where
  "returnKind se = (if execContext se \<noteq> Synchronous then ThreadEntry else FunctionPointer)"

definition calleeRefsOf :: "call_graph \<Rightarrow> sid \<Rightarrow> EdgeRef list" where
  "calleeRefsOf g c =
     (case map_of (g_outEdges g) c of
        None \<Rightarrow> []
      | Some idxs \<Rightarrow>
          let es = liveAt g idxs;
              stored = filter (\<lambda>se. kind se \<noteq> FunctionPointerReturn) es;
              seen = map (\<lambda>se. (callee se, callSite se))
                (filter (\<lambda>se. kind se = VirtualDispatch) stored);
              virt = unseen seen (concat (map (\<lambda>se.
                if isDispatch se
                then map (\<lambda>ov. ((ov, callSite se), (keyOf se)\<lparr>callee := ov\<rparr>))
                       (transitiveClosure (callee se) (g_methodOverrides g))
                else []) es));
              rets = unseen (map fst virt @ seen) (concat (map (\<lambda>se.
                if kind se = FunctionPointerReturn
                then (case map_of (g_functionReturns g) (callee se) of
                        None \<Rightarrow> []
                      | Some rs \<Rightarrow> map (\<lambda>r. ((r, callSite se),
                          (keyOf se)\<lparr>callee := r, kind := returnKind se\<rparr>)) rs)
                else []) es))
          in map keyOf stored @ map snd virt @ map snd rets)"

definition calleesOf :: "(string \<Rightarrow> bool) \<Rightarrow> call_graph \<Rightarrow> string \<Rightarrow> CallGraphEdge list" where
  "calleesOf isUTF8 g name =
     concat (map (\<lambda>u. map (materialize g) (calleeRefsOf g u)) (resolveUsrIds isUTF8 g name))"

definition callerRefsOf :: "call_graph \<Rightarrow> sid \<Rightarrow> EdgeRef list" where
  "callerRefsOf g d =
     (let stored = (case map_of (g_inEdges g) d of
             None \<Rightarrow> []
           | Some idxs \<Rightarrow> filter (\<lambda>se. kind se \<noteq> FunctionPointerReturn) (liveAt g idxs));
          seen = map (\<lambda>se. (caller se, callSite se)) stored;
          virt = unseen seen (concat (map (\<lambda>base.
            case map_of (g_inEdges g) base of
              None \<Rightarrow> []
            | Some idxs \<Rightarrow> map (\<lambda>se. ((caller se, callSite se), (keyOf se)\<lparr>callee := d\<rparr>))
                (filter isDispatch (liveAt g idxs)))
            (transitiveClosure d (g_overrideBases g))));
          rets = unseen (map fst virt @ seen)
            (case map_of (g_returnedBy g) d of
               None \<Rightarrow> []
             | Some returners \<Rightarrow> concat (map (\<lambda>returner.
                 case map_of (g_inEdges g) returner of
                   None \<Rightarrow> []
                 | Some idxs \<Rightarrow> map (\<lambda>se. ((caller se, callSite se),
                     (keyOf se)\<lparr>callee := d, kind := returnKind se\<rparr>))
                     (filter (\<lambda>se. kind se = FunctionPointerReturn) (liveAt g idxs))) returners))
      in map keyOf stored @ map snd virt @ map snd rets)"

definition callersOf :: "(string \<Rightarrow> bool) \<Rightarrow> call_graph \<Rightarrow> string \<Rightarrow> CallGraphEdge list" where
  "callersOf isUTF8 g name =
     concat (map (\<lambda>u. map (materialize g) (callerRefsOf g u)) (resolveUsrIds isUTF8 g name))"

definition storedInDegree :: "call_graph \<Rightarrow> sid \<Rightarrow> nat" where
  "storedInDegree g i =
     (case map_of (g_inEdges g) i of
        None \<Rightarrow> 0
      | Some idxs \<Rightarrow> length (filter (\<lambda>idx. refs (g_edges g ! idx) > 0) idxs))"

definition storedInDegreeByName :: "(string \<Rightarrow> bool) \<Rightarrow> call_graph \<Rightarrow> string \<Rightarrow> nat" where
  "storedInDegreeByName isUTF8 g name =
     sum_list (map (storedInDegree g) (resolveUsrIds isUTF8 g name))"

definition nodeCount :: "call_graph \<Rightarrow> nat" where
  "nodeCount g = length (g_nodes g)"

definition edgeCount :: "call_graph \<Rightarrow> nat" where
  "edgeCount g = g_liveEdgeCount g"

definition allNodes :: "call_graph \<Rightarrow> CallGraphNode list" where
  "allNodes g = map snd (g_nodes g)"

fun pickNode :: "call_graph \<Rightarrow> sid list \<Rightarrow> CallGraphNode option \<Rightarrow> CallGraphNode option" where
  "pickNode g [] best = best"
| "pickNode g (u # us) best =
     (case map_of (g_nodes g) u of
        None \<Rightarrow> pickNode g us best
      | Some n \<Rightarrow>
          (case best of
             None \<Rightarrow> pickNode g us (Some n)
           | Some b \<Rightarrow> pickNode g us (if usr n < usr b then Some n else best)))"

definition findNode :: "(string \<Rightarrow> bool) \<Rightarrow> call_graph \<Rightarrow> string \<Rightarrow> CallGraphNode option" where
  "findNode isUTF8 g name = pickNode g (resolveUsrIds isUTF8 g name) None"

section \<open>Class hierarchy, overrides, implementations, returns\<close>

definition addDerivedClass :: "call_graph \<Rightarrow> string \<Rightarrow> string \<Rightarrow> call_graph" where
  "addDerivedClass g baseClass derivedClass =
     (if g_readOnly g then g
      else let (b, g) = internRaw g baseClass; (d, g) = internRaw g derivedClass
           in g\<lparr>g_derivedClasses := um_push_new (g_derivedClasses g) b d\<rparr>)"

definition getDerivedClasses :: "(string \<Rightarrow> bool) \<Rightarrow> call_graph \<Rightarrow> string \<Rightarrow> string list" where
  "getDerivedClasses isUTF8 g baseClass =
     (case findText isUTF8 g baseClass of
        None \<Rightarrow> []
      | Some i \<Rightarrow> map (resolve (g_interner g)) (um_get (g_derivedClasses g) i))"

function derivedLoop ::
  "(sid, sid list) umap \<Rightarrow> sid list \<Rightarrow> sid list \<Rightarrow> sid list \<Rightarrow> sid list" where
  "derivedLoop rel [] visited result = result"
| "derivedLoop rel (cls # stack) visited result =
     (if cls \<in> set visited then derivedLoop rel stack visited result
      else case map_of rel cls of
             None \<Rightarrow> derivedLoop rel stack (cls # visited) result
           | Some ds \<Rightarrow> derivedLoop rel (rev ds @ stack) (cls # visited) (result @ ds))"
  by pat_completeness auto
termination
proof (relation "measures [\<lambda>(rel, stack, visited, result). card (fst ` set rel - set visited),
    \<lambda>(rel, stack, visited, result). length stack]", goal_cases)
  case (3 rel cls stack visited result)
  have "card (fst ` set rel - set (cls # visited)) \<le> card (fst ` set rel - set visited)"
    by (intro card_mono) auto
  then show ?case by auto
next
  case (4 rel cls stack visited result ds)
  then have "cls \<in> fst ` set rel - set visited"
    by (force dest: map_of_SomeD)
  then have "card (fst ` set rel - set (cls # visited)) < card (fst ` set rel - set visited)"
    by (intro psubset_card_mono) auto
  then show ?case by simp
qed auto

definition getAllDerivedClasses :: "(string \<Rightarrow> bool) \<Rightarrow> call_graph \<Rightarrow> string \<Rightarrow> string list" where
  "getAllDerivedClasses isUTF8 g baseClass =
     (case findText isUTF8 g baseClass of
        None \<Rightarrow> []
      | Some i \<Rightarrow> map (resolve (g_interner g)) (derivedLoop (g_derivedClasses g) [i] [] []))"

definition linkOverride :: "call_graph \<Rightarrow> sid \<Rightarrow> sid \<Rightarrow> call_graph" where
  "linkOverride g b o' =
     g\<lparr>g_methodOverrides := um_push_new (g_methodOverrides g) b o',
       g_overrideBases := um_push_new (g_overrideBases g) o' b\<rparr>"

definition addMethodOverride :: "call_graph \<Rightarrow> string \<Rightarrow> string \<Rightarrow> call_graph" where
  "addMethodOverride g baseMethod overrideMethod =
     (if g_readOnly g then g
      else let (b, g) = internRaw g baseMethod; (o', g) = internRaw g overrideMethod
           in linkOverride g b o')"

text \<open>The first occurrences of the ids in order (the \<open>seen\<close> set of the name queries).\<close>

definition getOverrides :: "(string \<Rightarrow> bool) \<Rightarrow> call_graph \<Rightarrow> string \<Rightarrow> string list" where
  "getOverrides isUTF8 g baseMethod =
     map (displayFor g) (fresh [] (concat (map (\<lambda>u. um_get (g_methodOverrides g) u)
       (resolveUsrIds isUTF8 g baseMethod))))"

definition getTransitiveOverrides :: "(string \<Rightarrow> bool) \<Rightarrow> call_graph \<Rightarrow> string \<Rightarrow> string list" where
  "getTransitiveOverrides isUTF8 g baseMethod =
     map (displayFor g) (fresh [] (concat (map (\<lambda>u. transitiveClosure u (g_methodOverrides g))
       (resolveUsrIds isUTF8 g baseMethod))))"

definition getOverriddenBases :: "(string \<Rightarrow> bool) \<Rightarrow> call_graph \<Rightarrow> string \<Rightarrow> string list" where
  "getOverriddenBases isUTF8 g method =
     map (displayFor g) (fresh [] (concat (map (\<lambda>u. transitiveClosure u (g_overrideBases g))
       (resolveUsrIds isUTF8 g method))))"

definition addEffectiveImpl :: "call_graph \<Rightarrow> string \<Rightarrow> string \<Rightarrow> call_graph" where
  "addEffectiveImpl g concreteClass implMethod =
     (if g_readOnly g then g
      else let (i, g) = internRaw g implMethod; (c, g) = internRaw g concreteClass
           in g\<lparr>g_effectiveImplClasses := um_set_insert (g_effectiveImplClasses g) i c\<rparr>)"

definition getClassesForImpl :: "(string \<Rightarrow> bool) \<Rightarrow> call_graph \<Rightarrow> string \<Rightarrow> string list" where
  "getClassesForImpl isUTF8 g implMethod =
     map (resolve (g_interner g)) (fresh [] (concat (map
       (\<lambda>u. um_get (g_effectiveImplClasses g) u) (resolveUsrIds isUTF8 g implMethod))))"

definition linkReturn :: "call_graph \<Rightarrow> sid \<Rightarrow> sid \<Rightarrow> call_graph" where
  "linkReturn g f r =
     (if r \<in> set (um_get (g_functionReturns g) f) then g
      else g\<lparr>g_functionReturns := um_set_insert (g_functionReturns g) f r,
             g_returnedBy := um_push (g_returnedBy g) r f\<rparr>)"

definition addFunctionReturn :: "call_graph \<Rightarrow> string \<Rightarrow> string \<Rightarrow> call_graph" where
  "addFunctionReturn g funcName returnedFunc =
     (if g_readOnly g then g
      else let (f, g) = internRaw g funcName; (r, g) = internRaw g returnedFunc
           in linkReturn g f r)"

definition getFunctionReturns :: "(string \<Rightarrow> bool) \<Rightarrow> call_graph \<Rightarrow> string \<Rightarrow> string list" where
  "getFunctionReturns isUTF8 g funcName =
     fold set_insert (map (displayFor g) (concat (map (\<lambda>u. um_get (g_functionReturns g) u)
       (resolveUsrIds isUTF8 g funcName)))) []"

end
