(* ===== verification/CallGraphUpdate.thy ===== *)
theory CallGraphUpdate
  imports CallGraph
begin

text \<open>
  The bulk updates of the call graph (\<open>src/callgraph/CallGraph.cpp\<close>): the shard merge
  \<open>absorb\<close>, the removal of translation units and the compaction of the edge table, and
  the well-formedness invariant \<open>graph_wf\<close> all mutators keep. \<open>absorb\<close> models the merge
  of two distinct graphs (the source returns at once when a graph is merged into itself).
\<close>

section \<open>Shard merge\<close>

definition absorbNode ::
  "call_graph \<Rightarrow> sid list \<Rightarrow> sid \<times> CallGraphNode \<Rightarrow> call_graph \<Rightarrow> call_graph" where
  "absorbNode sh remap kn g =
     (let (k, node) = kn;
          nameId = remap ! k;
          g = (case map_of (g_nodes g) nameId of
                 None \<Rightarrow> let (displayId, g) = internStr g (qualifiedName node)
                         in insertNode g nameId displayId node
               | Some old \<Rightarrow> g\<lparr>g_nodes := um_put (g_nodes g) nameId (backfill old node)\<rparr>)
      in case map_of (g_nodeContributors sh) k of
           None \<Rightarrow> g
         | Some tus \<Rightarrow> fold (\<lambda>t g. contribute g nameId (remap ! t)) tus g)"

definition remapEdge :: "sid list \<Rightarrow> StoredEdge \<Rightarrow> StoredEdge" where
  "remapEdge remap src =
     src\<lparr>caller := remap ! caller src, callee := remap ! callee src,
         callSite := remap ! callSite src\<rparr>"

text \<open>The second component of the result is \<open>edgeRemap\<close>; a dead shard edge has no image.\<close>

fun absorbEdges :: "sid list \<Rightarrow> StoredEdge list \<Rightarrow> call_graph \<Rightarrow> call_graph \<times> nat option list" where
  "absorbEdges remap [] g = (g, [])"
| "absorbEdges remap (src # es) g =
     (if refs src = 0
      then let (g', m) = absorbEdges remap es g in (g', None # m)
      else let (idx, g1) = registerEdge g (remapEdge remap src);
               (g', m) = absorbEdges remap es g1
           in (g', Some idx # m))"

definition absorbTu ::
  "sid list \<Rightarrow> nat option list \<Rightarrow> sid \<times> nat list \<Rightarrow> (sid, nat list) umap \<Rightarrow> (sid, nat list) umap" where
  "absorbTu remap edgeRemap ti m =
     (let (tu, idxs) = ti; tuId = remap ! tu
      in um_put m tuId (um_get m tuId @ List.map_filter (\<lambda>i. edgeRemap ! i) idxs))"

definition absorbDerived ::
  "sid list \<Rightarrow> sid \<times> sid list \<Rightarrow> (sid, sid list) umap \<Rightarrow> (sid, sid list) umap" where
  "absorbDerived remap bv m =
     (let (base, vec) = bv; b = remap ! base
      in um_put m b (fold add_new (map (\<lambda>d. remap ! d) vec) (um_get m b)))"

definition absorbOverrides :: "sid list \<Rightarrow> sid \<times> sid list \<Rightarrow> call_graph \<Rightarrow> call_graph" where
  "absorbOverrides remap bv g =
     (let (base, vec) = bv in fold (\<lambda>o' g. linkOverride g (remap ! base) (remap ! o')) vec g)"

definition absorbImpls ::
  "sid list \<Rightarrow> sid \<times> sid list \<Rightarrow> (sid, sid list) umap \<Rightarrow> (sid, sid list) umap" where
  "absorbImpls remap ic m =
     (let (impl, classes) = ic; i = remap ! impl
      in um_put m i (fold set_insert (map (\<lambda>c. remap ! c) classes) (um_get m i)))"

definition absorbReturns :: "sid list \<Rightarrow> sid \<times> sid list \<Rightarrow> call_graph \<Rightarrow> call_graph" where
  "absorbReturns remap fr g =
     (let (fn, rets) = fr in fold (\<lambda>r g. linkReturn g (remap ! fn) (remap ! r)) rets g)"

definition absorb :: "call_graph \<Rightarrow> call_graph \<Rightarrow> call_graph" where
  "absorb g sh =
     (if g_readOnly g then g
      else
        let (remap, it) = intern_all intern (g_interner g) (strings (g_interner sh));
            g = g\<lparr>g_interner := it\<rparr>;
            g = fold (absorbNode sh remap) (g_nodes sh) g;
            (g, edgeRemap) = absorbEdges remap (g_edges sh) g;
            g = g\<lparr>g_tuEdges := fold (absorbTu remap edgeRemap) (g_tuEdges sh) (g_tuEdges g)\<rparr>;
            g = g\<lparr>g_derivedClasses :=
                  fold (absorbDerived remap) (g_derivedClasses sh) (g_derivedClasses g)\<rparr>;
            g = fold (absorbOverrides remap) (g_methodOverrides sh) g;
            g = g\<lparr>g_effectiveImplClasses :=
                  fold (absorbImpls remap) (g_effectiveImplClasses sh) (g_effectiveImplClasses g)\<rparr>
        in fold (absorbReturns remap) (g_functionReturns sh) g)"

section \<open>Removal of translation units\<close>

text \<open>The locals of the first pass of \<open>removeTUs\<close>.\<close>

record release_state =
  r_graph :: call_graph
  r_dead :: "nat list"
  r_callers :: "sid list"
  r_callees :: "sid list"
  r_removed :: nat

definition setRefs :: "StoredEdge list \<Rightarrow> nat \<Rightarrow> nat \<Rightarrow> StoredEdge list" where
  "setRefs es idx n = es[idx := (es ! idx)\<lparr>refs := n\<rparr>]"

definition releaseEdge :: "nat \<Rightarrow> release_state \<Rightarrow> release_state" where
  "releaseEdge idx r =
     (let g = r_graph r; edge = g_edges g ! idx in
      if refs edge = 0 then r
      else if refs edge - 1 > 0
      then r\<lparr>r_graph := g\<lparr>g_edges := setRefs (g_edges g) idx (refs edge - 1)\<rparr>\<rparr>
      else r\<lparr>r_graph := g\<lparr>g_edges := setRefs (g_edges g) idx 0,
                          g_edgeIndex := um_erase (g_edgeIndex g) (keyOf edge),
                          g_liveEdgeCount := g_liveEdgeCount g - 1\<rparr>,
             r_dead := add_new idx (r_dead r),
             r_callers := add_new (caller edge) (r_callers r),
             r_callees := add_new (callee edge) (r_callees r),
             r_removed := r_removed r + 1\<rparr>)"

definition releaseTu :: "sid \<Rightarrow> release_state \<Rightarrow> release_state" where
  "releaseTu tuId r =
     (case map_of (g_tuEdges (r_graph r)) tuId of
        None \<Rightarrow> r
      | Some idxs \<Rightarrow>
          let r = fold releaseEdge idxs r
          in r\<lparr>r_graph := (r_graph r)\<lparr>g_tuEdges := um_erase (g_tuEdges (r_graph r)) tuId\<rparr>\<rparr>)"

definition scrub :: "nat list \<Rightarrow> sid \<Rightarrow> (sid, nat list) umap \<Rightarrow> (sid, nat list) umap" where
  "scrub dead c m = um_put m c (filter (\<lambda>i. i \<notin> set dead) (um_get m c))"

text \<open>Dropping a node also drops its disambiguation entry.\<close>

definition dropNode :: "sid \<Rightarrow> call_graph \<Rightarrow> call_graph" where
  "dropNode nodeId g =
     (case map_of (g_nodes g) nodeId of
        None \<Rightarrow> g
      | Some n \<Rightarrow>
          let bn = (case findId (g_interner g) (qualifiedName n) of
                 None \<Rightarrow> g_byName g
               | Some displayId \<Rightarrow>
                   (case map_of (g_byName g) displayId of
                      None \<Rightarrow> g_byName g
                    | Some vec \<Rightarrow>
                        let vec' = removeAll nodeId vec
                        in if vec' = [] then um_erase (g_byName g) displayId
                           else um_put (g_byName g) displayId vec'))
          in g\<lparr>g_byName := bn, g_nodes := um_erase (g_nodes g) nodeId\<rparr>)"

definition releaseNode :: "sid \<Rightarrow> sid \<Rightarrow> call_graph \<Rightarrow> call_graph" where
  "releaseNode tuId nodeId g =
     (case map_of (g_nodeContributors g) nodeId of
        None \<Rightarrow> g
      | Some tus \<Rightarrow>
          let tus' = removeAll tuId tus in
          if tus' = []
          then let g = dropNode nodeId g
               in g\<lparr>g_nodeContributors := um_erase (g_nodeContributors g) nodeId\<rparr>
          else g\<lparr>g_nodeContributors := um_put (g_nodeContributors g) nodeId tus'\<rparr>)"

definition releaseTuNodes :: "sid \<Rightarrow> call_graph \<Rightarrow> call_graph" where
  "releaseTuNodes tuId g =
     (case map_of (g_tuNodes g) tuId of
        None \<Rightarrow> g
      | Some ns \<Rightarrow>
          let g = fold (releaseNode tuId) ns g
          in g\<lparr>g_tuNodes := um_erase (g_tuNodes g) tuId\<rparr>)"

definition tuIdsOf :: "call_graph \<Rightarrow> string list \<Rightarrow> sid list" where
  "tuIdsOf g tuPaths =
     fresh [] (List.map_filter (\<lambda>p. findId (g_interner g) (toIndexText p)) tuPaths)"

definition removeTUs :: "call_graph \<Rightarrow> string list \<Rightarrow> nat \<times> call_graph" where
  "removeTUs g tuPaths =
     (if g_readOnly g then (0, g)
      else
        let tuIds = tuIdsOf g tuPaths;
            r = fold releaseTu tuIds
              \<lparr>r_graph = g, r_dead = [], r_callers = [], r_callees = [], r_removed = 0\<rparr>;
            g = r_graph r;
            g = g\<lparr>g_outEdges := fold (scrub (r_dead r)) (r_callers r) (g_outEdges g),
                  g_inEdges := fold (scrub (r_dead r)) (r_callees r) (g_inEdges g)\<rparr>;
            g = fold releaseTuNodes tuIds g
        in (r_removed r, g))"

definition removeTU :: "call_graph \<Rightarrow> string \<Rightarrow> nat \<times> call_graph" where
  "removeTU g tuPath = removeTUs g [tuPath]"

section \<open>Compaction\<close>

text \<open>The locals of the loop of \<open>compact\<close>.\<close>

record compact_state =
  c_edges :: "StoredEdge list"
  c_index :: "(EdgeRef, nat) umap"
  c_out :: "(sid, nat list) umap"
  c_in :: "(sid, nat list) umap"
  c_remap :: "(nat, nat) umap"

definition compactEdge :: "nat \<times> StoredEdge \<Rightarrow> compact_state \<Rightarrow> compact_state" where
  "compactEdge oe st =
     (let (old, edge) = oe in
      if refs edge = 0 then st
      else let neu = length (c_edges st) in
        \<lparr>c_edges = c_edges st @ [edge],
         c_index = um_emplace (c_index st) (keyOf edge) neu,
         c_out = um_push (c_out st) (caller edge) neu,
         c_in = um_push (c_in st) (callee edge) neu,
         c_remap = um_emplace (c_remap st) old neu\<rparr>)"

definition compactTu ::
  "(nat, nat) umap \<Rightarrow> sid \<times> nat list \<Rightarrow> (sid, nat list) umap \<Rightarrow> (sid, nat list) umap" where
  "compactTu remap ti m =
     (let (tuId, indices) = ti;
          vec = um_get m tuId @ List.map_filter (\<lambda>old. map_of remap old) indices
      in if vec = [] then um_erase m tuId else um_put m tuId vec)"

definition compact :: "call_graph \<Rightarrow> call_graph" where
  "compact g =
     (if g_readOnly g then g
      else
        let st = fold compactEdge (enumerate 0 (g_edges g))
              \<lparr>c_edges = [], c_index = [], c_out = [], c_in = [], c_remap = []\<rparr>;
            newTuEdges = fold (compactTu (c_remap st)) (g_tuEdges g) []
        in g\<lparr>g_edges := c_edges st, g_edgeIndex := c_index st, g_outEdges := c_out st,
             g_inEdges := c_in st, g_tuEdges := newTuEdges\<rparr>)"

end
