(* ===== verification/CallGraphInv.thy ===== *)
theory CallGraphInv
  imports CallGraphUpdate
begin

text \<open>
  The invariant of the call graph and its preservation by every mutator. The tables of the
  graph describe each other redundantly; \<open>graph_wf\<close> says how. The registration counts
  and the per-TU lists are read as multisets of edge indices: \<open>erefs\<close> holds an index once
  per registration of its edge, and the provenance \<open>tuMset\<close> is contained in it.
\<close>

section \<open>The invariant\<close>

abbreviation live :: "('a StoredEdge_scheme) \<Rightarrow> bool" where
  "live e \<equiv> 0 < refs e"

definition erefs :: "StoredEdge list \<Rightarrow> nat multiset" where
  "erefs es = sum_list (map (\<lambda>i. replicate_mset (refs (es ! i)) i) [0..<length es])"

definition tuMset :: "('t, nat list) umap \<Rightarrow> nat multiset" where
  "tuMset m = sum_list (map (\<lambda>(t, is). mset is) m)"

definition edges_ok :: "interner \<Rightarrow> StoredEdge list \<Rightarrow> bool" where
  "edges_ok it es \<longleftrightarrow> (\<forall>e \<in> set es. caller e < internerSize it \<and> callee e < internerSize it \<and>
     callSite e < internerSize it)"

definition index_ok :: "StoredEdge list \<Rightarrow> (EdgeRef, nat) umap \<Rightarrow> nat \<Rightarrow> bool" where
  "index_ok es m n \<longleftrightarrow>
     (\<forall>k i. map_of m k = Some i \<longleftrightarrow> i < length es \<and> live (es ! i) \<and> keyOf (es ! i) = k) \<and>
     n = length (filter live es)"

definition adj_ok ::
  "StoredEdge list \<Rightarrow> (StoredEdge \<Rightarrow> sid) \<Rightarrow> (sid, nat list) umap \<Rightarrow> bool" where
  "adj_ok es sel m \<longleftrightarrow>
     (\<forall>c. um_get m c = filter (\<lambda>i. live (es ! i) \<and> sel (es ! i) = c) [0..<length es])"

definition tu_ok :: "interner \<Rightarrow> StoredEdge list \<Rightarrow> (sid, nat list) umap \<Rightarrow> bool" where
  "tu_ok it es m \<longleftrightarrow> um_ok m \<and> tuMset m \<subseteq># erefs es \<and> (\<forall>t \<in> fst ` set m. t < internerSize it)"

definition nodes_ok ::
  "interner \<Rightarrow> (sid, CallGraphNode) umap \<Rightarrow> (sid, sid list) umap \<Rightarrow> bool" where
  "nodes_ok it nds bn \<longleftrightarrow> um_ok nds \<and>
     (\<forall>k n. map_of nds k = Some n \<longrightarrow>
        findId it (usr n) = Some k \<and> findId it (qualifiedName n) \<noteq> None) \<and>
     (\<forall>d k. k \<in> set (um_get bn d) \<longleftrightarrow>
        (\<exists>n. map_of nds k = Some n \<and> findId it (qualifiedName n) = Some d)) \<and>
     (\<forall>d. distinct (um_get bn d))"

definition inverse_ok :: "(sid, sid list) umap \<Rightarrow> (sid, sid list) umap \<Rightarrow> bool" where
  "inverse_ok m m' \<longleftrightarrow> (\<forall>a b. b \<in> set (um_get m a) \<longleftrightarrow> a \<in> set (um_get m' b))"

definition contrib_ok ::
  "(sid, CallGraphNode) umap \<Rightarrow> (sid, sid list) umap \<Rightarrow> (sid, sid list) umap \<Rightarrow> bool" where
  "contrib_ok nds con tun \<longleftrightarrow> inverse_ok con tun \<and> (\<forall>t. distinct (um_get tun t)) \<and>
     (\<forall>k. um_get con k \<noteq> [] \<longrightarrow> map_of nds k \<noteq> None)"

definition graph_wf :: "call_graph \<Rightarrow> bool" where
  "graph_wf g \<longleftrightarrow>
     interner_wf (g_interner g) \<and>
     edges_ok (g_interner g) (g_edges g) \<and>
     index_ok (g_edges g) (g_edgeIndex g) (g_liveEdgeCount g) \<and>
     adj_ok (g_edges g) caller (g_outEdges g) \<and>
     adj_ok (g_edges g) callee (g_inEdges g) \<and>
     tu_ok (g_interner g) (g_edges g) (g_tuEdges g) \<and>
     nodes_ok (g_interner g) (g_nodes g) (g_byName g) \<and>
     contrib_ok (g_nodes g) (g_nodeContributors g) (g_tuNodes g) \<and>
     inverse_ok (g_methodOverrides g) (g_overrideBases g) \<and>
     inverse_ok (g_functionReturns g) (g_returnedBy g)"

lemma graph_wfD:
  assumes "graph_wf g"
  shows "interner_wf (g_interner g)"
    and "edges_ok (g_interner g) (g_edges g)"
    and "index_ok (g_edges g) (g_edgeIndex g) (g_liveEdgeCount g)"
    and "adj_ok (g_edges g) caller (g_outEdges g)"
    and "adj_ok (g_edges g) callee (g_inEdges g)"
    and "tu_ok (g_interner g) (g_edges g) (g_tuEdges g)"
    and "nodes_ok (g_interner g) (g_nodes g) (g_byName g)"
    and "contrib_ok (g_nodes g) (g_nodeContributors g) (g_tuNodes g)"
    and "inverse_ok (g_methodOverrides g) (g_overrideBases g)"
    and "inverse_ok (g_functionReturns g) (g_returnedBy g)"
  using assms by (simp_all add: graph_wf_def)

lemma index_okD:
  assumes "index_ok es m n" and "map_of m k = Some i"
  shows "i < length es" and "live (es ! i)" and "keyOf (es ! i) = k"
  using assms by (simp_all add: index_ok_def)

section \<open>Registration counts\<close>

lemma count_sum_replicate:
  "distinct xs \<Longrightarrow> count (sum_list (map (\<lambda>i. replicate_mset (f i) i) xs)) j =
     (if j \<in> set xs then f j else 0)"
  by (induction xs) auto

lemma count_erefs: "count (erefs es) i = (if i < length es then refs (es ! i) else 0)"
  by (simp add: erefs_def count_sum_replicate)

lemma in_erefs: "i \<in># erefs es \<longleftrightarrow> i < length es \<and> live (es ! i)"
  by (simp flip: count_greater_zero_iff add: count_erefs)

lemma erefs_append [simp]:
  "erefs (es @ [e]) = erefs es + replicate_mset (refs e) (length es)"
  by (rule multiset_eqI) (auto simp: count_erefs nth_append less_Suc_eq)

lemma length_setRefs [simp]: "length (setRefs es i n) = length es"
  by (simp add: setRefs_def)

lemma nth_setRefs:
  "i < length es \<Longrightarrow> setRefs es i n ! j = (if j = i then (es ! i)\<lparr>refs := n\<rparr> else es ! j)"
  by (simp add: setRefs_def nth_list_update)

lemma keyOf_setRefs [simp]: "i < length es \<Longrightarrow> keyOf (setRefs es i n ! j) = keyOf (es ! j)"
  by (simp add: nth_setRefs keyOf_def)

lemma keyOf_sel [simp]:
  "caller (keyOf e) = caller e" "callee (keyOf e) = callee e" "callSite (keyOf e) = callSite e"
  "kind (keyOf e) = kind e" "confidence (keyOf e) = confidence e"
  "execContext (keyOf e) = execContext e" "indirectionDepth (keyOf e) = indirectionDepth e"
  by (simp_all add: keyOf_def)

lemma keyOf_eq_iff: "keyOf e = keyOf e' \<longleftrightarrow>
  caller e = caller e' \<and> callee e = callee e' \<and> callSite e = callSite e' \<and> kind e = kind e' \<and>
  confidence e = confidence e' \<and> execContext e = execContext e' \<and>
  indirectionDepth e = indirectionDepth e'"
  by (simp add: keyOf_def)

lemma keyOf_refs [simp]: "keyOf (e\<lparr>refs := n\<rparr>) = keyOf e"
  by (simp add: keyOf_def)

lemma erefs_setRefs_add:
  "i < length es \<Longrightarrow>
     erefs (setRefs es i (refs (es ! i) + n)) = erefs es + replicate_mset n i"
  by (rule multiset_eqI) (auto simp: count_erefs nth_setRefs)

lemma erefs_setRefs_sub:
  "i < length es \<Longrightarrow> erefs (setRefs es i (refs (es ! i) - 1)) = erefs es - {#i#}"
  by (rule multiset_eqI) (auto simp: count_erefs nth_setRefs)

section \<open>Provenance multisets\<close>

lemma tuMset_Nil [simp]: "tuMset [] = {#}"
  by (simp add: tuMset_def)

lemma tuMset_Cons [simp]: "tuMset ((t, is) # m) = mset is + tuMset m"
  by (simp add: tuMset_def)

lemma tuMset_put:
  "um_ok m \<Longrightarrow> tuMset (um_put m t is) + mset (um_get m t) = tuMset m + mset is"
proof (induction m)
  case (Cons a m)
  obtain t' is' where a: "a = (t', is')" by (cases a)
  show ?case
  proof (cases "t' = t")
    case True
    then show ?thesis by (simp add: a um_put_def um_get_def)
  next
    case False
    then have "um_get (a # m) t = um_get m t"
      and "um_put (a # m) t is = (t', is') # um_put m t is"
      by (auto simp: a um_put_def um_get_def)
    then show ?thesis
      using Cons by (simp add: a ac_simps)
  qed
qed (simp add: um_put_def)

lemma tuMset_push: "um_ok m \<Longrightarrow> tuMset (um_push m t i) = add_mset i (tuMset m)"
  using tuMset_put [of m t "um_get m t @ [i]"] by (simp add: um_push_def)

lemma tuMset_append:
  "um_ok m \<Longrightarrow> tuMset (um_put m t (um_get m t @ is)) = tuMset m + mset is"
proof -
  assume "um_ok m"
  from tuMset_put [OF this, of t "um_get m t @ is"]
  have "tuMset (um_put m t (um_get m t @ is)) + mset (um_get m t) =
    (tuMset m + mset is) + mset (um_get m t)"
    by (simp add: ac_simps)
  then show ?thesis by simp
qed

lemma um_erase_Cons:
  "um_erase ((t', v) # m) t = (if t' = t then um_erase m t else (t', v) # um_erase m t)"
  by (simp add: um_erase_def)

lemma um_erase_fresh: "t \<notin> fst ` set m \<Longrightarrow> um_erase m t = m"
  by (simp add: um_erase_def)

lemma tuMset_erase: "um_ok m \<Longrightarrow> tuMset (um_erase m t) + mset (um_get m t) = tuMset m"
proof (induction m)
  case (Cons a m)
  obtain t' is' where a: "a = (t', is')" by (cases a)
  show ?case
  proof (cases "t' = t")
    case True
    then have "um_erase m t = m" and "um_get (a # m) t = is'"
      using Cons.prems by (auto simp: a um_erase_fresh um_get_def)
    with True show ?thesis by (simp add: a um_erase_Cons)
  next
    case False
    then show ?thesis
      using Cons by (simp add: a um_erase_Cons um_get_def)
  qed
qed (simp add: um_erase_def)

lemma keys_um_erase: "fst ` set (um_erase m k) \<subseteq> fst ` set m"
  by (auto simp: um_erase_def AList.delete_eq)

lemma mset_get_subset_tuMset: "um_ok m \<Longrightarrow> mset (um_get m t) \<subseteq># tuMset m"
  using tuMset_erase [of m t] by (metis mset_subset_eq_add_right)

section \<open>Growth of the interner\<close>

lemma edges_ok_grows: "edges_ok it es \<Longrightarrow> grows it it' \<Longrightarrow> edges_ok it' es"
  by (fastforce simp: edges_ok_def grows_def)

lemma tu_ok_grows: "tu_ok it es m \<Longrightarrow> grows it it' \<Longrightarrow> tu_ok it' es m"
  by (fastforce simp: tu_ok_def grows_def)

lemma nodes_okD:
  assumes "nodes_ok it nds bn"
  shows "um_ok nds"
    and "map_of nds k = Some n \<Longrightarrow> findId it (usr n) = Some k"
    and "map_of nds k = Some n \<Longrightarrow> \<exists>d. findId it (qualifiedName n) = Some d"
    and "k \<in> set (um_get bn d) \<longleftrightarrow>
      (\<exists>n. map_of nds k = Some n \<and> findId it (qualifiedName n) = Some d)"
    and "distinct (um_get bn d)"
  using assms unfolding nodes_ok_def by auto

lemma nodes_ok_grows:
  assumes "nodes_ok it nds bn" and "grows it it'"
  shows "nodes_ok it' nds bn"
proof -
  note D = nodes_okD [OF assms(1)]
  have st: "findId it s = Some i \<Longrightarrow> findId it' s = Some i" for s i
    using assms(2) by (simp add: grows_def)
  have q: "map_of nds k = Some n \<Longrightarrow> findId it' (qualifiedName n) = findId it (qualifiedName n)" for k n
    using D(3) [of k n] st by fastforce
  have "(\<exists>n. map_of nds k = Some n \<and> findId it' (qualifiedName n) = Some d) \<longleftrightarrow>
    k \<in> set (um_get bn d)" for k d
    unfolding D(4) by (auto simp: q)
  then show ?thesis
    unfolding nodes_ok_def using D st by (fastforce simp: q)
qed

lemma graph_wf_grows:
  assumes "graph_wf g" and "grows (g_interner g) it"
  shows "graph_wf (g\<lparr>g_interner := it\<rparr>)"
  using assms edges_ok_grows tu_ok_grows nodes_ok_grows
  by (auto simp: graph_wf_def grows_def [of _ it])

text \<open>What interning one string through the graph does.\<close>

definition interned :: "call_graph \<Rightarrow> string \<Rightarrow> sid \<Rightarrow> call_graph \<Rightarrow> bool" where
  "interned g s i g' \<longleftrightarrow> (\<exists>it. g' = g\<lparr>g_interner := it\<rparr> \<and> grows (g_interner g) it \<and>
     findId it s = Some i)"

lemma internStr_interned:
  assumes "interner_wf (g_interner g)" and "internStr g s = (i, g')"
  shows "interned g s i g'"
proof -
  obtain it where it: "intern (g_interner g) s = (i, it)" and g': "g' = g\<lparr>g_interner := it\<rparr>"
    using assms(2) by (auto simp: internStr_def split: prod.splits)
  then show ?thesis
    using grows_intern [OF assms(1) it] st.intern_result(3) [OF assms(1) it]
    by (auto simp: interned_def)
qed

lemma internRaw_eq: "internRaw g s = internStr g (toIndexText s)"
  by (simp add: internRaw_def toIndexText_def)

lemma internRaw_interned:
  "interner_wf (g_interner g) \<Longrightarrow> internRaw g s = (i, g') \<Longrightarrow> interned g (toIndexText s) i g'"
  by (simp add: internRaw_eq internStr_interned)

lemma interned_wf: "graph_wf g \<Longrightarrow> interned g s i g' \<Longrightarrow> graph_wf g'"
  by (auto simp: interned_def graph_wf_grows)

lemma interned_facts:
  assumes "interned g s i g'"
  shows "interner_wf (g_interner g')" and "i < internerSize (g_interner g')"
    and "resolve (g_interner g') i = s" and "findId (g_interner g') s = Some i"
    and "grows (g_interner g) (g_interner g')"
proof -
  show f: "findId (g_interner g') s = Some i" and gr: "grows (g_interner g) (g_interner g')"
    using assms by (auto simp: interned_def)
  from gr show wf: "interner_wf (g_interner g')"
    by (simp add: grows_def)
  show "i < internerSize (g_interner g')" and "resolve (g_interner g') i = s"
    using f findId_iff [OF wf] by auto
qed

lemma interned_fields:
  assumes "interned g s i g'"
  shows "g_nodes g' = g_nodes g" "g_byName g' = g_byName g" "g_edges g' = g_edges g"
    "g_edgeIndex g' = g_edgeIndex g" "g_outEdges g' = g_outEdges g" "g_inEdges g' = g_inEdges g"
    "g_derivedClasses g' = g_derivedClasses g" "g_methodOverrides g' = g_methodOverrides g"
    "g_overrideBases g' = g_overrideBases g"
    "g_effectiveImplClasses g' = g_effectiveImplClasses g"
    "g_functionReturns g' = g_functionReturns g" "g_returnedBy g' = g_returnedBy g"
    "g_tuEdges g' = g_tuEdges g" "g_nodeContributors g' = g_nodeContributors g"
    "g_tuNodes g' = g_tuNodes g" "g_liveEdgeCount g' = g_liveEdgeCount g"
    "g_readOnly g' = g_readOnly g"
  using assms by (auto simp: interned_def)

section \<open>Registering edges\<close>

lemma edges_ok_keys:
  assumes "edges_ok it es" and "length es' = length es"
    and "\<And>i. i < length es \<Longrightarrow> keyOf (es' ! i) = keyOf (es ! i)"
  shows "edges_ok it es'"
  unfolding edges_ok_def
proof
  fix e
  assume "e \<in> set es'"
  then obtain i where i: "i < length es" and e: "e = es' ! i"
    using assms(2) by (auto simp: in_set_conv_nth)
  then have "keyOf e = keyOf (es ! i)" and "es ! i \<in> set es"
    using assms(3) by auto
  then show "caller e < internerSize it \<and> callee e < internerSize it \<and> callSite e < internerSize it"
    using assms(1) unfolding edges_ok_def keyOf_eq_iff by metis
qed

lemma length_filter_nth_eq:
  assumes "length es' = length es" and "\<And>i. i < length es \<Longrightarrow> P (es' ! i) = P (es ! i)"
  shows "length (filter P es') = length (filter P es)"
  using assms by (simp add: length_filter_conv_card cong: conj_cong)

lemma adj_ok_cong:
  assumes "adj_ok es sel m" and "length es' = length es"
    and "\<And>i. i < length es \<Longrightarrow> live (es' ! i) = live (es ! i) \<and> sel (es' ! i) = sel (es ! i)"
  shows "adj_ok es' sel m"
  using assms unfolding adj_ok_def by (auto intro!: filter_cong)

lemma adj_ok_append:
  assumes "adj_ok es sel m" and "live e" and "sel e = c"
  shows "adj_ok (es @ [e]) sel (um_push m c (length es))"
  unfolding adj_ok_def
proof
  fix d
  have "filter (\<lambda>i. live ((es @ [e]) ! i) \<and> sel ((es @ [e]) ! i) = d) [0..<length es] =
    filter (\<lambda>i. live (es ! i) \<and> sel (es ! i) = d) [0..<length es]"
    by (rule filter_cong) (auto simp: nth_append)
  then show "um_get (um_push m c (length es)) d =
    filter (\<lambda>i. live ((es @ [e]) ! i) \<and> sel ((es @ [e]) ! i) = d) [0..<length (es @ [e])]"
    using assms by (auto simp: adj_ok_def)
qed

lemma index_ok_append:
  assumes "index_ok es m n" and "live e" and "map_of m (keyOf e) = None"
  shows "index_ok (es @ [e]) (um_emplace m (keyOf e) (length es)) (n + 1)"
proof -
  have "map_of (um_emplace m (keyOf e) (length es)) k = Some i \<longleftrightarrow>
    i < length (es @ [e]) \<and> live ((es @ [e]) ! i) \<and> keyOf ((es @ [e]) ! i) = k" for k i
  proof (cases "k = keyOf e")
    case True
    have "\<not> (i < length es \<and> live (es ! i) \<and> keyOf (es ! i) = keyOf e)"
      using assms(1,3) unfolding index_ok_def by (metis option.distinct(1))
    with True assms(2,3) show ?thesis
      by (auto simp: nth_append less_Suc_eq)
  next
    case False
    with assms(1) show ?thesis
      by (auto simp: index_ok_def nth_append less_Suc_eq)
  qed
  with assms show ?thesis
    by (simp add: index_ok_def)
qed

lemma tu_ok_erefs: "tu_ok it es m \<Longrightarrow> erefs es \<subseteq># erefs es' \<Longrightarrow> tu_ok it es' m"
  by (auto simp: tu_ok_def)

lemma registerEdge_hit:
  assumes "graph_wf g" and "map_of (g_edgeIndex g) (keyOf se) = Some idx"
  shows "registerEdge g se =
      (idx, g\<lparr>g_edges := setRefs (g_edges g) idx (refs (g_edges g ! idx) + refs se)\<rparr>)"
    and "idx < length (g_edges g)" and "live (g_edges g ! idx)"
    and "keyOf (g_edges g ! idx) = keyOf se"
  using assms(2) index_okD [OF graph_wfD(3) [OF assms(1)] assms(2)]
  by (simp_all add: registerEdge_def setRefs_def)

text \<open>Both branches of the insertion, in terms of the edge table.\<close>

lemma registerEdge_edges:
  assumes "graph_wf g" and "registerEdge g se = (idx, g')"
  shows "erefs (g_edges g') = erefs (g_edges g) + replicate_mset (refs se) idx \<and>
    idx < length (g_edges g') \<and> keyOf (g_edges g' ! idx) = keyOf se \<and>
    length (g_edges g) \<le> length (g_edges g') \<and>
    (\<forall>i < length (g_edges g). keyOf (g_edges g' ! i) = keyOf (g_edges g ! i))"
proof (cases "map_of (g_edgeIndex g) (keyOf se)")
  case None
  then show ?thesis
    using assms(2) by (auto simp: registerEdge_def Let_def nth_append)
next
  case (Some i)
  note h = registerEdge_hit [OF assms(1) Some]
  then show ?thesis
    using assms(2) by (auto simp: erefs_setRefs_add)
qed

lemma registerEdge_fields:
  assumes "registerEdge g se = (idx, g')"
  shows "g_interner g' = g_interner g" "g_tuEdges g' = g_tuEdges g" "g_nodes g' = g_nodes g"
    "g_readOnly g' = g_readOnly g" "g_methodOverrides g' = g_methodOverrides g"
    "g_functionReturns g' = g_functionReturns g"
  using assms by (auto simp: registerEdge_def Let_def split: option.splits)

lemma graph_wf_registerEdge:
  assumes wf: "graph_wf g" and reg: "registerEdge g se = (idx, g')" and "live se"
    and "caller se < internerSize (g_interner g)" "callee se < internerSize (g_interner g)"
      "callSite se < internerSize (g_interner g)"
  shows "graph_wf g'"
proof (cases "map_of (g_edgeIndex g) (keyOf se)")
  case None
  let ?es = "g_edges g"
  have g': "g' = g\<lparr>g_outEdges := um_push (g_outEdges g) (caller se) (length ?es),
      g_inEdges := um_push (g_inEdges g) (callee se) (length ?es), g_edges := ?es @ [se],
      g_edgeIndex := um_emplace (g_edgeIndex g) (keyOf se) (length ?es),
      g_liveEdgeCount := g_liveEdgeCount g + 1\<rparr>"
    using reg None by (auto simp: registerEdge_def Let_def)
  have "edges_ok (g_interner g) (?es @ [se])"
    using wf assms(4-6) by (auto simp: graph_wf_def edges_ok_def)
  moreover have "index_ok (?es @ [se]) (um_emplace (g_edgeIndex g) (keyOf se) (length ?es))
      (g_liveEdgeCount g + 1)"
    using wf assms(3) None by (intro index_ok_append) (auto simp: graph_wf_def)
  moreover have "adj_ok (?es @ [se]) caller (um_push (g_outEdges g) (caller se) (length ?es))"
    and "adj_ok (?es @ [se]) callee (um_push (g_inEdges g) (callee se) (length ?es))"
    using wf assms(3) by (auto intro!: adj_ok_append simp: graph_wf_def)
  moreover have "tu_ok (g_interner g) (?es @ [se]) (g_tuEdges g)"
    using wf by (auto intro!: tu_ok_erefs [where es = ?es] simp: graph_wf_def)
  ultimately show ?thesis
    unfolding g' graph_wf_def using graph_wfD [OF wf] by simp
next
  case (Some i)
  note h = registerEdge_hit [OF wf Some]
  let ?es = "g_edges g"
  let ?n = "refs (?es ! i) + refs se"
  let ?es' = "setRefs ?es i ?n"
  have g': "g' = g\<lparr>g_edges := ?es'\<rparr>"
    using reg h(1) by auto
  have key: "keyOf (?es' ! j) = keyOf (?es ! j)" for j
    using h(2) by simp
  have lv: "live (?es' ! j) = live (?es ! j)" for j
    using h(2,3) by (simp add: nth_setRefs)
  have sel: "caller (?es' ! j) = caller (?es ! j)" "callee (?es' ! j) = callee (?es ! j)" for j
    using key [of j] by (auto simp: keyOf_eq_iff)
  have "edges_ok (g_interner g) ?es'"
    using wf key by (auto intro: edges_ok_keys simp: graph_wf_def)
  moreover have "index_ok ?es' (g_edgeIndex g) (g_liveEdgeCount g)"
    using wf key lv length_filter_nth_eq [of ?es' ?es live] by (simp add: graph_wf_def index_ok_def)
  moreover have "adj_ok ?es' caller (g_outEdges g)" and "adj_ok ?es' callee (g_inEdges g)"
    using wf lv sel by (auto intro: adj_ok_cong simp: graph_wf_def)
  moreover have "tu_ok (g_interner g) ?es' (g_tuEdges g)"
    using wf h(2) by (auto intro!: tu_ok_erefs [where es = ?es] simp: graph_wf_def erefs_setRefs_add)
  ultimately show ?thesis
    using wf by (simp add: g' graph_wf_def)
qed

section \<open>Nodes and relations\<close>

lemma inverse_ok_Nil [simp]: "inverse_ok [] []"
  by (simp add: inverse_ok_def)

lemma inverse_ok_push_new:
  "inverse_ok m m' \<Longrightarrow> inverse_ok (um_push_new m a b) (um_push_new m' b a)"
  by (auto simp: inverse_ok_def)

lemma inverse_ok_set_push:
  "inverse_ok m m' \<Longrightarrow> inverse_ok (um_set_insert m a b) (um_push m' b a)"
  by (auto simp: inverse_ok_def)

lemma graph_wf_linkOverride: "graph_wf g \<Longrightarrow> graph_wf (linkOverride g b o')"
  by (simp add: graph_wf_def linkOverride_def inverse_ok_push_new)

lemma graph_wf_linkReturn: "graph_wf g \<Longrightarrow> graph_wf (linkReturn g f r)"
  by (simp add: graph_wf_def linkReturn_def inverse_ok_set_push)

lemma contrib_ok_add:
  assumes "contrib_ok nds con tun" and "map_of nds k \<noteq> None" and "t \<notin> set (um_get con k)"
  shows "contrib_ok nds (um_set_insert con k t) (um_push tun t k)"
  using assms inverse_ok_set_push [of con tun k t]
  by (auto simp: contrib_ok_def inverse_ok_def)

lemma graph_wf_contribute:
  assumes "graph_wf g" and "map_of (g_nodes g) k \<noteq> None"
  shows "graph_wf (contribute g k t)"
  using assms(1) contrib_ok_add [OF graph_wfD(8) [OF assms(1)] assms(2), of t]
  by (simp add: contribute_def graph_wf_def)

lemma backfill_sel [simp]:
  "usr (backfill old n) = usr old" "qualifiedName (backfill old n) = qualifiedName old"
  by (simp_all add: backfill_def)

lemma nodes_ok_update:
  assumes "nodes_ok it nds bn" and "map_of nds k = Some old"
    and "usr n = usr old" and "qualifiedName n = qualifiedName old"
  shows "nodes_ok it (um_put nds k n) bn"
  using assms unfolding nodes_ok_def by auto

lemma nodes_ok_insert:
  assumes ok: "nodes_ok it nds bn" and new: "map_of nds k = None"
    and u: "findId it (usr n) = Some k" and q: "findId it (qualifiedName n) = Some d"
  shows "nodes_ok it (um_put nds k n) (um_push_new bn d k)"
proof -
  note D = nodes_okD [OF ok]
  have "k \<notin> set (um_get bn d')" for d'
    using D(4) [of k d'] new by simp
  then show ?thesis
    unfolding nodes_ok_def using D u q new by auto
qed

lemma graph_wf_insertNode:
  assumes "graph_wf g" and "map_of (g_nodes g) k = None"
    and "findId (g_interner g) (usr n) = Some k" and "findId (g_interner g) (qualifiedName n) = Some d"
  shows "graph_wf (insertNode g k d n)"
proof -
  have "contrib_ok (um_put (g_nodes g) k n) (g_nodeContributors g) (g_tuNodes g)"
    using graph_wfD(8) [OF assms(1)] by (auto simp: contrib_ok_def)
  then show ?thesis
    using assms nodes_ok_insert [OF graph_wfD(7) [OF assms(1)] assms(2-4)]
    by (simp add: graph_wf_def insertNode_def)
qed

lemma graph_wf_updateNode:
  assumes "graph_wf g" and "map_of (g_nodes g) k = Some old"
  shows "graph_wf (g\<lparr>g_nodes := um_put (g_nodes g) k (backfill old n)\<rparr>)"
proof -
  have "contrib_ok (um_put (g_nodes g) k (backfill old n)) (g_nodeContributors g) (g_tuNodes g)"
    using graph_wfD(8) [OF assms(1)] by (auto simp: contrib_ok_def)
  then show ?thesis
    using assms(1) nodes_ok_update [OF graph_wfD(7) [OF assms(1)] assms(2), of "backfill old n"]
    by (simp add: graph_wf_def)
qed

section \<open>The mutators keep the invariant\<close>

lemma graph_wf_empty [simp]: "graph_wf emptyGraph"
  by (simp add: graph_wf_def emptyGraph_def edges_ok_def index_ok_def adj_ok_def tu_ok_def
      nodes_ok_def contrib_ok_def um_ok_def)

text \<open>The node table step shared by \<open>addNode\<close> and \<open>absorb\<close>.\<close>

definition mergeNode :: "call_graph \<Rightarrow> sid \<Rightarrow> sid \<Rightarrow> CallGraphNode \<Rightarrow> call_graph" where
  "mergeNode g k d n = (case map_of (g_nodes g) k of
     None \<Rightarrow> insertNode g k d n
   | Some old \<Rightarrow> g\<lparr>g_nodes := um_put (g_nodes g) k (backfill old n)\<rparr>)"

lemma graph_wf_mergeNode:
  assumes "graph_wf g" and "findId (g_interner g) (usr n) = Some k"
    and "findId (g_interner g) (qualifiedName n) = Some d"
  shows "graph_wf (mergeNode g k d n)" and "map_of (g_nodes (mergeNode g k d n)) k \<noteq> None"
proof -
  show "graph_wf (mergeNode g k d n)"
    using assms by (auto simp: mergeNode_def graph_wf_insertNode graph_wf_updateNode
        split: option.split)
  show "map_of (g_nodes (mergeNode g k d n)) k \<noteq> None"
    by (auto simp: mergeNode_def insertNode_def split: option.split)
qed

lemma mergeNode_fields [simp]:
  "g_interner (mergeNode g k d n) = g_interner g" "g_edges (mergeNode g k d n) = g_edges g"
  "g_tuEdges (mergeNode g k d n) = g_tuEdges g" "g_readOnly (mergeNode g k d n) = g_readOnly g"
  by (auto simp: mergeNode_def insertNode_def split: option.split)

lemma addNode_graph_wf:
  assumes wf: "graph_wf g"
  shows "graph_wf (addNode g node tuPath)"
proof (cases "g_readOnly g")
  case True
  with wf show ?thesis by (simp add: addNode_def)
next
  case False
  let ?n = "nodeText node"
  obtain k g1 where 1: "internStr g (usr ?n) = (k, g1)" by (cases "internStr g (usr ?n)")
  obtain d g2 where 2: "internStr g1 (qualifiedName ?n) = (d, g2)"
    by (cases "internStr g1 (qualifiedName ?n)")
  obtain t g4 where 4: "internRaw (mergeNode g2 k d ?n) tuPath = (t, g4)"
    by (cases "internRaw (mergeNode g2 k d ?n) tuPath")
  have i1: "interned g (usr ?n) k g1"
    using internStr_interned [OF graph_wfD(1) [OF wf] 1] .
  have wf1: "graph_wf g1" using wf i1 by (rule interned_wf)
  have i2: "interned g1 (qualifiedName ?n) d g2"
    using internStr_interned [OF graph_wfD(1) [OF wf1] 2] .
  have wf2: "graph_wf g2" using wf1 i2 by (rule interned_wf)
  have "findId (g_interner g2) (usr ?n) = Some k"
    using interned_facts(4) [OF i1] interned_facts(5) [OF i2] by (auto simp: grows_def)
  note m = graph_wf_mergeNode [OF wf2 this interned_facts(4) [OF i2]]
  have i4: "interned (mergeNode g2 k d ?n) (toIndexText tuPath) t g4"
    using internRaw_interned [OF graph_wfD(1) [OF m(1)] 4] .
  have "graph_wf (contribute g4 k t)"
    using interned_wf [OF m(1) i4] m(2) interned_fields(1) [OF i4]
    by (intro graph_wf_contribute) auto
  moreover have "addNode g node tuPath =
    (if tuPath = [] then mergeNode g2 k d ?n else contribute g4 k t)"
    using False 1 2 4 by (simp add: addNode_def Let_def mergeNode_def)
  ultimately show ?thesis
    using m(1) by simp
qed

lemma graph_wf_tag:
  assumes "graph_wf g" and "t < internerSize (g_interner g)"
    and "add_mset idx (tuMset (g_tuEdges g)) \<subseteq># erefs (g_edges g)"
  shows "graph_wf (tagTuEdge g t idx)"
proof -
  have "tu_ok (g_interner g) (g_edges g) (um_push (g_tuEdges g) t idx)"
    using graph_wfD(6) [OF assms(1)] assms(2,3) by (simp add: tu_ok_def tuMset_push)
  then show ?thesis
    using assms(1) by (simp add: graph_wf_def tagTuEdge_def)
qed

text \<open>\<open>addEdge\<close> in steps: three strings interned, one registration, one tag.\<close>

definition edgeRecord :: "CallGraphEdge \<Rightarrow> sid \<Rightarrow> sid \<Rightarrow> sid \<Rightarrow> StoredEdge" where
  "edgeRecord e c d s = \<lparr>caller = c, callee = d, callSite = s, kind = edgeKind e,
     confidence = edgeConfidence e, execContext = edgeExecContext e,
     indirectionDepth = edgeIndirectionDepth e, refs = 1\<rparr>"

lemma edgeRecord_sel [simp]:
  "caller (edgeRecord e c d s) = c" "callee (edgeRecord e c d s) = d"
  "callSite (edgeRecord e c d s) = s" "refs (edgeRecord e c d s) = 1"
  by (simp_all add: edgeRecord_def)

definition sameBut :: "call_graph \<Rightarrow> call_graph \<Rightarrow> bool" where
  "sameBut g g' \<longleftrightarrow> (\<exists>it. g' = g\<lparr>g_interner := it\<rparr> \<and> grows (g_interner g) it)"

lemma interned_sameBut: "interned g s i g' \<Longrightarrow> sameBut g g'"
  by (auto simp: interned_def sameBut_def)

lemma sameBut_trans: "sameBut a b \<Longrightarrow> sameBut b c \<Longrightarrow> sameBut a c"
  by (clarsimp simp: sameBut_def) (blast intro: grows_trans)

lemma sameBut_wf: "graph_wf g \<Longrightarrow> sameBut g g' \<Longrightarrow> graph_wf g'"
  by (auto simp: sameBut_def graph_wf_grows)

lemma sameBut_fields:
  assumes "sameBut g g'"
  shows "g_nodes g' = g_nodes g" "g_edges g' = g_edges g" "g_tuEdges g' = g_tuEdges g"
    "g_readOnly g' = g_readOnly g" "grows (g_interner g) (g_interner g')"
    "g_methodOverrides g' = g_methodOverrides g" "g_functionReturns g' = g_functionReturns g"
  using assms by (auto simp: sameBut_def)

lemma find_grows:
  "grows it it' \<Longrightarrow> findId it s = Some i \<Longrightarrow> findId it' s = Some i"
  by (simp add: grows_def)

lemma addEdge_steps:
  assumes wf: "graph_wf g" and rw: "\<not> g_readOnly g"
  obtains c d s g3 idx g4 where
    "sameBut g g3"
    "findId (g_interner g3) (toIndexText (callerName e)) = Some c"
    "findId (g_interner g3) (toIndexText (calleeName e)) = Some d"
    "findId (g_interner g3) (toIndexText (edgeCallSite e)) = Some s"
    "registerEdge g3 (edgeRecord e c d s) = (idx, g4)"
    "graph_wf g3" "graph_wf g4"
    "tuPath = [] \<Longrightarrow> addEdge g e tuPath = g4"
    "tuPath \<noteq> [] \<Longrightarrow> \<exists>t g5. interned g4 (toIndexText tuPath) t g5 \<and>
       addEdge g e tuPath = tagTuEdge g5 t idx"
proof -
  obtain c g1 where 1: "internRaw g (callerName e) = (c, g1)"
    by (cases "internRaw g (callerName e)")
  obtain d g2 where 2: "internRaw g1 (calleeName e) = (d, g2)"
    by (cases "internRaw g1 (calleeName e)")
  obtain s g3 where 3: "internRaw g2 (edgeCallSite e) = (s, g3)"
    by (cases "internRaw g2 (edgeCallSite e)")
  obtain idx g4 where 4: "registerEdge g3 (edgeRecord e c d s) = (idx, g4)"
    by (cases "registerEdge g3 (edgeRecord e c d s)")
  obtain t g5 where 5: "internRaw g4 tuPath = (t, g5)"
    by (cases "internRaw g4 tuPath")
  have i1: "interned g (toIndexText (callerName e)) c g1"
    using internRaw_interned [OF graph_wfD(1) [OF wf] 1] .
  have wf1: "graph_wf g1" using wf i1 by (rule interned_wf)
  have i2: "interned g1 (toIndexText (calleeName e)) d g2"
    using internRaw_interned [OF graph_wfD(1) [OF wf1] 2] .
  have wf2: "graph_wf g2" using wf1 i2 by (rule interned_wf)
  have i3: "interned g2 (toIndexText (edgeCallSite e)) s g3"
    using internRaw_interned [OF graph_wfD(1) [OF wf2] 3] .
  have wf3: "graph_wf g3" using wf2 i3 by (rule interned_wf)
  have same: "sameBut g g3"
    using i1 i2 i3 by (meson interned_sameBut sameBut_trans)
  have fc: "findId (g_interner g3) (toIndexText (callerName e)) = Some c"
    using interned_facts(4) [OF i1] interned_facts(5) [OF i2] interned_facts(5) [OF i3]
    by (blast intro: find_grows)
  have fd: "findId (g_interner g3) (toIndexText (calleeName e)) = Some d"
    using interned_facts(4) [OF i2] interned_facts(5) [OF i3] by (blast intro: find_grows)
  note fs = interned_facts(4) [OF i3]
  have lt: "c < internerSize (g_interner g3)" "d < internerSize (g_interner g3)"
    "s < internerSize (g_interner g3)"
    using fc fd fs findId_iff [OF graph_wfD(1) [OF wf3]] by auto
  have wf4: "graph_wf g4"
    by (rule graph_wf_registerEdge [OF wf3 4]) (simp_all add: lt)
  have i5: "interned g4 (toIndexText tuPath) t g5"
    using internRaw_interned [OF graph_wfD(1) [OF wf4] 5] .
  have "addEdge g e tuPath = (if tuPath = [] then g4 else tagTuEdge g5 t idx)"
    using rw 1 2 3 4 5 by (simp add: addEdge_def edgeRecord_def Let_def)
  with i5 show thesis
    by (intro that [OF same fc fd fs 4 wf3 wf4]) auto
qed

lemma addEdge_graph_wf:
  assumes wf: "graph_wf g"
  shows "graph_wf (addEdge g e tuPath)"
proof (cases "g_readOnly g")
  case True
  with wf show ?thesis by (simp add: addEdge_def)
next
  case False
  from addEdge_steps [OF wf False, of e tuPath]
  obtain c d s g3 idx g4 where 4: "registerEdge g3 (edgeRecord e c d s) = (idx, g4)"
    and wf3: "graph_wf g3" and wf4: "graph_wf g4"
    and no: "tuPath = [] \<Longrightarrow> addEdge g e tuPath = g4"
    and yes: "tuPath \<noteq> [] \<Longrightarrow> \<exists>t g5. interned g4 (toIndexText tuPath) t g5 \<and>
       addEdge g e tuPath = tagTuEdge g5 t idx"
    by metis
  show ?thesis
  proof (cases "tuPath = []")
    case True
    with no wf4 show ?thesis by simp
  next
    case False
    with yes obtain t g5 where i5: "interned g4 (toIndexText tuPath) t g5"
      and eq: "addEdge g e tuPath = tagTuEdge g5 t idx" by blast
    have "tuMset (g_tuEdges g3) \<subseteq># erefs (g_edges g3)"
      using graph_wfD(6) [OF wf3] by (simp add: tu_ok_def)
    then have "add_mset idx (tuMset (g_tuEdges g5)) \<subseteq># erefs (g_edges g5)"
      using registerEdge_edges [OF wf3 4] registerEdge_fields(2) [OF 4] interned_fields [OF i5]
      by simp
    then show ?thesis
      unfolding eq using interned_wf [OF wf4 i5] interned_facts(2) [OF i5]
      by (intro graph_wf_tag) auto
  qed
qed

lemma two_interned:
  assumes "graph_wf g" and "internRaw g a = (i, g1)" and "internRaw g1 b = (j, g2)"
  shows "graph_wf g2"
  using assms by (meson graph_wfD(1) internRaw_interned interned_wf)

lemma addMethodOverride_graph_wf: "graph_wf g \<Longrightarrow> graph_wf (addMethodOverride g b o')"
  by (auto simp: addMethodOverride_def split: prod.split intro: graph_wf_linkOverride two_interned)

lemma addFunctionReturn_graph_wf: "graph_wf g \<Longrightarrow> graph_wf (addFunctionReturn g f r)"
  by (auto simp: addFunctionReturn_def split: prod.split intro: graph_wf_linkReturn two_interned)

lemma graph_wf_side [simp]:
  "graph_wf (g\<lparr>g_derivedClasses := m\<rparr>) = graph_wf g"
  "graph_wf (g\<lparr>g_effectiveImplClasses := m\<rparr>) = graph_wf g"
  by (simp_all add: graph_wf_def)

lemma addDerivedClass_graph_wf: "graph_wf g \<Longrightarrow> graph_wf (addDerivedClass g b d)"
  by (auto simp: addDerivedClass_def split: prod.split intro: two_interned)

lemma addEffectiveImpl_graph_wf: "graph_wf g \<Longrightarrow> graph_wf (addEffectiveImpl g c i)"
  by (auto simp: addEffectiveImpl_def split: prod.split intro: two_interned)

end
