(* ===== verification/CallGraphRemove.thy ===== *)
theory CallGraphRemove
  imports CallGraphInv
begin

text \<open>
  Removal of translation units: the first pass releases registrations, the adjacency lists
  are scrubbed once, then the nodes of the removed units are released. \<open>released\<close> relates
  the state of the first pass to the edge table it started from.
\<close>

section \<open>Releasing edges\<close>

text \<open>The tables the first pass leaves alone.\<close>

definition edgeFrame :: "call_graph \<Rightarrow> call_graph \<Rightarrow> bool" where
  "edgeFrame g0 g \<longleftrightarrow>
     g_interner g = g_interner g0 \<and> g_nodes g = g_nodes g0 \<and> g_byName g = g_byName g0 \<and>
     g_outEdges g = g_outEdges g0 \<and> g_inEdges g = g_inEdges g0 \<and>
     g_derivedClasses g = g_derivedClasses g0 \<and> g_methodOverrides g = g_methodOverrides g0 \<and>
     g_overrideBases g = g_overrideBases g0 \<and>
     g_effectiveImplClasses g = g_effectiveImplClasses g0 \<and>
     g_functionReturns g = g_functionReturns g0 \<and> g_returnedBy g = g_returnedBy g0 \<and>
     g_nodeContributors g = g_nodeContributors g0 \<and> g_tuNodes g = g_tuNodes g0 \<and>
     g_readOnly g = g_readOnly g0"

lemma edgeFrame_refl [simp]: "edgeFrame g g"
  by (simp add: edgeFrame_def)

lemma edgeFrame_update [simp]:
  "edgeFrame g0 (g\<lparr>g_edges := es\<rparr>) = edgeFrame g0 g"
  "edgeFrame g0 (g\<lparr>g_edgeIndex := ix\<rparr>) = edgeFrame g0 g"
  "edgeFrame g0 (g\<lparr>g_liveEdgeCount := n\<rparr>) = edgeFrame g0 g"
  "edgeFrame g0 (g\<lparr>g_tuEdges := tu\<rparr>) = edgeFrame g0 g"
  by (simp_all add: edgeFrame_def)

definition released :: "call_graph \<Rightarrow> release_state \<Rightarrow> bool" where
  "released g0 r \<longleftrightarrow>
     (let g = r_graph r; es0 = g_edges g0; es = g_edges g in
      length es = length es0 \<and>
      (\<forall>i < length es0. keyOf (es ! i) = keyOf (es0 ! i) \<and> refs (es ! i) \<le> refs (es0 ! i)) \<and>
      index_ok es (g_edgeIndex g) (g_liveEdgeCount g) \<and>
      set (r_dead r) = {i. i < length es0 \<and> live (es0 ! i) \<and> \<not> live (es ! i)} \<and>
      distinct (r_dead r) \<and>
      set (r_callers r) = (\<lambda>i. caller (es0 ! i)) ` set (r_dead r) \<and>
      set (r_callees r) = (\<lambda>i. callee (es0 ! i)) ` set (r_dead r) \<and>
      r_removed r = length (r_dead r) \<and>
      edgeFrame g0 g)"

lemma releasedD:
  assumes "released g0 r"
  shows "length (g_edges (r_graph r)) = length (g_edges g0)"
    and "i < length (g_edges g0) \<Longrightarrow> keyOf (g_edges (r_graph r) ! i) = keyOf (g_edges g0 ! i)"
    and "i < length (g_edges g0) \<Longrightarrow> refs (g_edges (r_graph r) ! i) \<le> refs (g_edges g0 ! i)"
    and "index_ok (g_edges (r_graph r)) (g_edgeIndex (r_graph r)) (g_liveEdgeCount (r_graph r))"
    and "set (r_dead r) = {i. i < length (g_edges g0) \<and> live (g_edges g0 ! i) \<and>
           \<not> live (g_edges (r_graph r) ! i)}"
    and "distinct (r_dead r)"
    and "set (r_callers r) = (\<lambda>i. caller (g_edges g0 ! i)) ` set (r_dead r)"
    and "set (r_callees r) = (\<lambda>i. callee (g_edges g0 ! i)) ` set (r_dead r)"
    and "r_removed r = length (r_dead r)"
    and "edgeFrame g0 (r_graph r)"
  using assms by (auto simp: released_def Let_def)

lemma index_ok_kill:
  assumes ok: "index_ok es m n" and i: "i < length es" and "live (es ! i)"
  shows "index_ok (setRefs es i 0) (um_erase m (keyOf (es ! i))) (n - 1)"
proof -
  have uniq: "j = i" if "j < length es" "live (es ! j)" "keyOf (es ! j) = keyOf (es ! i)" for j
    using ok that i assms(3) unfolding index_ok_def by (metis option.inject)
  have "map_of (um_erase m (keyOf (es ! i))) k = Some j \<longleftrightarrow>
    j < length (setRefs es i 0) \<and> live (setRefs es i 0 ! j) \<and> keyOf (setRefs es i 0 ! j) = k" for k j
    using ok i uniq by (auto simp: index_ok_def nth_setRefs)
  moreover have "length (filter live (setRefs es i 0)) = n - 1"
  proof -
    have "length (filter live (setRefs es i 0)) = card ({j. j < length es \<and> live (es ! j)} - {i})"
      using i by (auto simp: length_filter_conv_card nth_setRefs intro!: arg_cong [where f = card])
    also have "\<dots> = card {j. j < length es \<and> live (es ! j)} - 1"
      using i assms(3) by simp
    finally show ?thesis
      using ok by (simp add: index_ok_def length_filter_conv_card)
  qed
  ultimately show ?thesis
    by (simp add: index_ok_def)
qed

lemma index_ok_refs:
  assumes ok: "index_ok es m n" and i: "i < length es" and "live (es ! i)" and "k \<noteq> 0"
  shows "index_ok (setRefs es i k) m n"
proof -
  have lv: "live (setRefs es i k ! j) = live (es ! j)" for j
    using assms by (simp add: nth_setRefs)
  show ?thesis
    using ok i lv length_filter_nth_eq [of "setRefs es i k" es live] by (simp add: index_ok_def)
qed

lemma releaseEdge_released:
  assumes rel: "released g0 r" and idx: "idx < length (g_edges g0)"
  shows "released g0 (releaseEdge idx r) \<and>
    erefs (g_edges (r_graph (releaseEdge idx r))) = erefs (g_edges (r_graph r)) - {#idx#} \<and>
    g_tuEdges (r_graph (releaseEdge idx r)) = g_tuEdges (r_graph r)"
proof -
  let ?g = "r_graph r"
  let ?es = "g_edges ?g"
  let ?e = "?es ! idx"
  note D = releasedD [OF rel]
  have lt: "idx < length ?es" using idx D(1) by simp
  consider (dead) "refs ?e = 0" | (dec) "refs ?e - 1 > 0" | (kill) "refs ?e = 1"
    by linarith
  then show ?thesis
  proof cases
    case dead
    then have "idx \<notin># erefs ?es" by (simp add: in_erefs)
    with dead rel show ?thesis
      by (simp add: releaseEdge_def Let_def)
  next
    case dec
    then have lv: "live ?e" and r': "releaseEdge idx r =
        r\<lparr>r_graph := ?g\<lparr>g_edges := setRefs ?es idx (refs ?e - 1)\<rparr>\<rparr>"
      by (simp_all add: releaseEdge_def Let_def)
    have "released g0 (releaseEdge idx r)"
      using D(10) dec index_ok_refs [OF D(4) lt lv, of "refs ?e - 1"] D(1-3,5-9) lt idx
      unfolding r' released_def Let_def
      by (auto simp: nth_setRefs intro: diff_le_self le_trans)
    with lt show ?thesis
      by (simp add: r' erefs_setRefs_sub del: One_nat_def)
  next
    case kill
    then have lv: "live ?e" and r': "releaseEdge idx r =
        r\<lparr>r_graph := ?g\<lparr>g_edges := setRefs ?es idx 0,
            g_edgeIndex := um_erase (g_edgeIndex ?g) (keyOf ?e),
            g_liveEdgeCount := g_liveEdgeCount ?g - 1\<rparr>,
          r_dead := add_new idx (r_dead r), r_callers := add_new (caller ?e) (r_callers r),
          r_callees := add_new (callee ?e) (r_callees r), r_removed := r_removed r + 1\<rparr>"
      by (simp_all add: releaseEdge_def Let_def)
    have nd: "idx \<notin> set (r_dead r)"
      using D(5) lv by simp
    then have an: "add_new idx (r_dead r) = r_dead r @ [idx]"
      by (simp add: add_new_def)
    have ek: "caller ?e = caller (g_edges g0 ! idx)" "callee ?e = callee (g_edges g0 ! idx)"
      "live (g_edges g0 ! idx)"
      using D(2,3) [OF idx] lv by (auto simp: keyOf_eq_iff)
    have "released g0 (releaseEdge idx r)"
      using D(10) index_ok_kill [OF D(4) lt lv] D(1-3,5-9) lt idx nd ek
      unfolding r' released_def Let_def an
      by (auto simp: nth_setRefs)
    moreover have "erefs (setRefs ?es idx 0) = erefs ?es - {#idx#}"
      using erefs_setRefs_sub [OF lt] kill by simp
    ultimately show ?thesis
      by (simp add: r')
  qed
qed

lemma releaseEdges_released:
  assumes "released g0 r" and "\<forall>i \<in> set idxs. i < length (g_edges g0)"
  shows "released g0 (fold releaseEdge idxs r) \<and>
    erefs (g_edges (r_graph (fold releaseEdge idxs r))) = erefs (g_edges (r_graph r)) - mset idxs \<and>
    g_tuEdges (r_graph (fold releaseEdge idxs r)) = g_tuEdges (r_graph r)"
  using assms
proof (induction idxs arbitrary: r)
  case (Cons i idxs)
  then have s: "released g0 (releaseEdge i r)"
    "erefs (g_edges (r_graph (releaseEdge i r))) = erefs (g_edges (r_graph r)) - {#i#}"
    "g_tuEdges (r_graph (releaseEdge i r)) = g_tuEdges (r_graph r)"
    using releaseEdge_released [of g0 r i] by auto
  then show ?case
    using Cons.IH [OF s(1)] Cons.prems(2) by simp
qed simp

lemma released_tu:
  "released g0 r \<Longrightarrow> released g0 (r\<lparr>r_graph := (r_graph r)\<lparr>g_tuEdges := tu\<rparr>\<rparr>)"
  unfolding released_def Let_def by auto

lemma releaseTu_released:
  assumes "released g0 r" and "um_ok (g_tuEdges (r_graph r))"
    and "\<forall>i \<in> set (um_get (g_tuEdges (r_graph r)) t). i < length (g_edges g0)"
  shows "released g0 (releaseTu t r) \<and>
    erefs (g_edges (r_graph (releaseTu t r))) =
      erefs (g_edges (r_graph r)) - mset (um_get (g_tuEdges (r_graph r)) t) \<and>
    g_tuEdges (r_graph (releaseTu t r)) = um_erase (g_tuEdges (r_graph r)) t"
proof (cases "map_of (g_tuEdges (r_graph r)) t")
  case None
  then have "t \<notin> fst ` set (g_tuEdges (r_graph r))"
    by (simp add: map_of_eq_None_iff)
  with None assms(1) show ?thesis
    by (simp add: releaseTu_def um_erase_fresh)
next
  case (Some idxs)
  then have "\<forall>i \<in> set idxs. i < length (g_edges g0)"
    using assms(3) by simp
  from releaseEdges_released [OF assms(1) this] Some show ?thesis
    by (simp add: releaseTu_def Let_def released_tu)
qed

section \<open>The adjacency lists\<close>

lemma um_get_scrub:
  "um_get (fold (scrub dead) cs m) c =
     (if c \<in> set cs then filter (\<lambda>i. i \<notin> set dead) (um_get m c) else um_get m c)"
  by (induction cs arbitrary: m) (auto simp: scrub_def)

lemma adj_ok_scrub:
  assumes ok: "adj_ok es0 sel m" and len: "length es = length es0"
    and dead: "set dead = {i. i < length es0 \<and> live (es0 ! i) \<and> \<not> live (es ! i)}"
    and sub: "\<And>i. i < length es0 \<Longrightarrow> live (es ! i) \<Longrightarrow> live (es0 ! i)"
    and sel: "\<And>i. i < length es0 \<Longrightarrow> sel (es ! i) = sel (es0 ! i)"
    and cs: "set cs = (\<lambda>i. sel (es0 ! i)) ` set dead"
  shows "adj_ok es sel (fold (scrub dead) cs m)"
  unfolding adj_ok_def
proof
  fix c
  have a: "um_get m c = filter (\<lambda>i. live (es0 ! i) \<and> sel (es0 ! i) = c) [0..<length es0]"
    using ok by (simp add: adj_ok_def)
  have "filter (\<lambda>i. live (es ! i) \<and> sel (es ! i) = c) [0..<length es] =
    filter (\<lambda>i. i \<notin> set dead) (um_get m c)"
    unfolding a filter_filter using len sub sel dead by (auto intro!: filter_cong)
  moreover have "filter (\<lambda>i. i \<notin> set dead) (um_get m c) = um_get m c" if "c \<notin> set cs"
    unfolding filter_id_conv a using that cs by auto
  ultimately show "um_get (fold (scrub dead) cs m) c =
    filter (\<lambda>i. live (es ! i) \<and> sel (es ! i) = c) [0..<length es]"
    by (simp add: um_get_scrub)
qed

section \<open>Releasing nodes\<close>

lemma nodes_ok_drop:
  assumes ok: "nodes_ok it nds bn" and n: "map_of nds k = Some n"
    and q: "findId it (qualifiedName n) = Some d"
    and bn': "\<And>c. um_get bn' c = (if c = d then removeAll k (um_get bn d) else um_get bn c)"
  shows "nodes_ok it (um_erase nds k) bn'"
proof -
  note D = nodes_okD [OF ok]
  have "j \<in> set (um_get bn' c) \<longleftrightarrow> (\<exists>m. map_of (um_erase nds k) j = Some m \<and>
      findId it (qualifiedName m) = Some c)" for j c
    using n q D(4) [of j c] D(4) [of j d] by (auto simp: bn')
  moreover have "distinct (um_get bn' c)" for c
    using D(5) by (simp add: bn' distinct_removeAll)
  ultimately show ?thesis
    unfolding nodes_ok_def using D(1-3) by auto
qed

lemma dropNode_nodes_ok:
  assumes ok: "nodes_ok (g_interner g) (g_nodes g) (g_byName g)"
  shows "nodes_ok (g_interner g) (g_nodes (dropNode k g)) (g_byName (dropNode k g)) \<and>
    map_of (g_nodes (dropNode k g)) j = (if j = k then None else map_of (g_nodes g) j)"
proof (cases "map_of (g_nodes g) k")
  case None
  with ok show ?thesis by (simp add: dropNode_def)
next
  case (Some n)
  then obtain d where d: "findId (g_interner g) (qualifiedName n) = Some d"
    using nodes_okD(3) [OF ok] by blast
  then have "k \<in> set (um_get (g_byName g) d)"
    using nodes_okD(4) [OF ok] Some by blast
  then obtain vec where vec: "map_of (g_byName g) d = Some vec"
    by (cases "map_of (g_byName g) d") auto
  have "nodes_ok (g_interner g) (um_erase (g_nodes g) k) (g_byName (dropNode k g))"
    by (rule nodes_ok_drop [OF ok Some d]) (use Some d vec in \<open>simp add: dropNode_def Let_def\<close>)
  with Some show ?thesis
    by (simp add: dropNode_def Let_def)
qed

lemma dropNode_fields [simp]:
  "g_nodeContributors (dropNode k g) = g_nodeContributors g" "g_tuNodes (dropNode k g) = g_tuNodes g"
  "g_interner (dropNode k g) = g_interner g"
  by (auto simp: dropNode_def Let_def split: option.split)

text \<open>The tables the last pass leaves alone.\<close>

definition nodeFrame :: "call_graph \<Rightarrow> call_graph \<Rightarrow> bool" where
  "nodeFrame g0 g \<longleftrightarrow>
     g_interner g = g_interner g0 \<and> g_edges g = g_edges g0 \<and> g_edgeIndex g = g_edgeIndex g0 \<and>
     g_outEdges g = g_outEdges g0 \<and> g_inEdges g = g_inEdges g0 \<and>
     g_derivedClasses g = g_derivedClasses g0 \<and> g_methodOverrides g = g_methodOverrides g0 \<and>
     g_overrideBases g = g_overrideBases g0 \<and>
     g_effectiveImplClasses g = g_effectiveImplClasses g0 \<and>
     g_functionReturns g = g_functionReturns g0 \<and> g_returnedBy g = g_returnedBy g0 \<and>
     g_tuEdges g = g_tuEdges g0 \<and> g_liveEdgeCount g = g_liveEdgeCount g0 \<and>
     g_readOnly g = g_readOnly g0"

lemma nodeFrame_refl [simp]: "nodeFrame g g"
  by (simp add: nodeFrame_def)

lemma nodeFrame_update [simp]: "nodeFrame g0 (g\<lparr>g_tuNodes := m\<rparr>) = nodeFrame g0 g"
  by (simp add: nodeFrame_def)

lemma nodeFrame_trans: "nodeFrame a b \<Longrightarrow> nodeFrame b c \<Longrightarrow> nodeFrame a c"
  by (simp add: nodeFrame_def)

lemma releaseNode_frame: "nodeFrame g (releaseNode t k g)"
  by (auto simp: releaseNode_def dropNode_def nodeFrame_def Let_def split: option.split)

lemma releaseNode_spec:
  assumes "nodes_ok (g_interner g) (g_nodes g) (g_byName g)"
  shows "nodes_ok (g_interner g) (g_nodes (releaseNode t k g)) (g_byName (releaseNode t k g)) \<and>
    g_tuNodes (releaseNode t k g) = g_tuNodes g \<and>
    um_get (g_nodeContributors (releaseNode t k g)) j =
      (if j = k then removeAll t (um_get (g_nodeContributors g) j) else um_get (g_nodeContributors g) j) \<and>
    (map_of (g_nodes (releaseNode t k g)) j = map_of (g_nodes g) j \<or>
     map_of (g_nodes (releaseNode t k g)) j = None \<and> j = k \<and>
       removeAll t (um_get (g_nodeContributors g) k) = []) \<and>
    (t \<in> set (um_get (g_nodeContributors g) k) \<longrightarrow>
      removeAll t (um_get (g_nodeContributors g) k) = [] \<longrightarrow>
      map_of (g_nodes (releaseNode t k g)) k = None)"
proof (cases "map_of (g_nodeContributors g) k")
  case None
  with assms show ?thesis by (simp add: releaseNode_def)
next
  case (Some tus)
  with dropNode_nodes_ok [OF assms, of k] assms show ?thesis
    by (auto simp: releaseNode_def Let_def)
qed

lemma releaseNodes_spec:
  assumes "nodes_ok (g_interner g) (g_nodes g) (g_byName g)" and "distinct ns"
    and "\<forall>k \<in> set ns. t \<in> set (um_get (g_nodeContributors g) k)"
  shows "nodeFrame g (fold (releaseNode t) ns g) \<and>
    nodes_ok (g_interner g) (g_nodes (fold (releaseNode t) ns g)) (g_byName (fold (releaseNode t) ns g)) \<and>
    g_tuNodes (fold (releaseNode t) ns g) = g_tuNodes g \<and>
    (\<forall>j. um_get (g_nodeContributors (fold (releaseNode t) ns g)) j =
      (if j \<in> set ns then removeAll t (um_get (g_nodeContributors g) j)
       else um_get (g_nodeContributors g) j)) \<and>
    (\<forall>j. map_of (g_nodes (fold (releaseNode t) ns g)) j =
      (if j \<in> set ns \<and> removeAll t (um_get (g_nodeContributors g) j) = [] then None
       else map_of (g_nodes g) j))"
  using assms
proof (induction ns arbitrary: g)
  case (Cons k ns)
  let ?g = "releaseNode t k g"
  note S = releaseNode_spec [OF Cons.prems(1), of t k]
  have fr: "nodeFrame g ?g" by (rule releaseNode_frame)
  then have it: "g_interner ?g = g_interner g" by (simp add: nodeFrame_def)
  have con: "um_get (g_nodeContributors ?g) j = (if j = k then
    removeAll t (um_get (g_nodeContributors g) j) else um_get (g_nodeContributors g) j)" for j
    using S by blast
  have nd: "map_of (g_nodes ?g) j = (if j = k \<and> removeAll t (um_get (g_nodeContributors g) k) = []
    then None else map_of (g_nodes g) j)" for j
    using S [of j] Cons.prems(3) by auto
  have "\<forall>j \<in> set ns. t \<in> set (um_get (g_nodeContributors ?g) j)"
    using Cons.prems(2,3) by (auto simp: con)
  note IH = Cons.IH [of ?g, unfolded it, OF _ _ this]
  have IH': "nodeFrame ?g (fold (releaseNode t) ns ?g)"
    "nodes_ok (g_interner g) (g_nodes (fold (releaseNode t) ns ?g)) (g_byName (fold (releaseNode t) ns ?g))"
    "g_tuNodes (fold (releaseNode t) ns ?g) = g_tuNodes ?g"
    "\<And>j. um_get (g_nodeContributors (fold (releaseNode t) ns ?g)) j =
      (if j \<in> set ns then removeAll t (um_get (g_nodeContributors ?g) j)
       else um_get (g_nodeContributors ?g) j)"
    "\<And>j. map_of (g_nodes (fold (releaseNode t) ns ?g)) j =
      (if j \<in> set ns \<and> removeAll t (um_get (g_nodeContributors ?g) j) = [] then None
       else map_of (g_nodes ?g) j)"
    using IH S Cons.prems(2) by auto
  have kn: "k \<notin> set ns" using Cons.prems(2) by simp
  show ?case
    using IH' S nodeFrame_trans [OF fr IH'(1)] kn by (auto simp: con nd)
qed simp

lemma contrib_okD:
  assumes "contrib_ok nds con tun"
  shows "t \<in> set (um_get con k) \<longleftrightarrow> k \<in> set (um_get tun t)" and "distinct (um_get tun t)"
    and "um_get con k \<noteq> [] \<Longrightarrow> map_of nds k \<noteq> None"
  using assms by (auto simp: contrib_ok_def inverse_ok_def)

lemma releaseTuNodes_spec:
  assumes nok: "nodes_ok (g_interner g) (g_nodes g) (g_byName g)"
    and cok: "contrib_ok (g_nodes g) (g_nodeContributors g) (g_tuNodes g)"
  shows "nodeFrame g (releaseTuNodes t g) \<and>
    nodes_ok (g_interner g) (g_nodes (releaseTuNodes t g)) (g_byName (releaseTuNodes t g)) \<and>
    contrib_ok (g_nodes (releaseTuNodes t g)) (g_nodeContributors (releaseTuNodes t g))
      (g_tuNodes (releaseTuNodes t g)) \<and>
    (\<forall>j. um_get (g_nodeContributors (releaseTuNodes t g)) j =
      removeAll t (um_get (g_nodeContributors g) j)) \<and>
    (\<forall>j. map_of (g_nodes (releaseTuNodes t g)) j =
      (if um_get (g_nodeContributors g) j \<noteq> [] \<and> removeAll t (um_get (g_nodeContributors g) j) = []
       then None else map_of (g_nodes g) j))"
proof -
  note C = contrib_okD [OF cok]
  let ?ns = "um_get (g_tuNodes g) t"
  let ?g1 = "fold (releaseNode t) ?ns g"
  let ?g2 = "?g1\<lparr>g_tuNodes := um_erase (g_tuNodes ?g1) t\<rparr>"
  have S: "nodeFrame g ?g1 \<and> nodes_ok (g_interner g) (g_nodes ?g1) (g_byName ?g1) \<and>
    g_tuNodes ?g1 = g_tuNodes g \<and>
    (\<forall>j. um_get (g_nodeContributors ?g1) j = (if j \<in> set ?ns
       then removeAll t (um_get (g_nodeContributors g) j) else um_get (g_nodeContributors g) j)) \<and>
    (\<forall>j. map_of (g_nodes ?g1) j = (if j \<in> set ?ns \<and> removeAll t (um_get (g_nodeContributors g) j) = []
       then None else map_of (g_nodes g) j))"
    by (rule releaseNodes_spec [OF nok]) (auto simp: C)
  have con: "um_get (g_nodeContributors ?g1) j = removeAll t (um_get (g_nodeContributors g) j)" for j
    using S C(1) [of t j] by (cases "j \<in> set ?ns") auto
  have nd: "map_of (g_nodes ?g1) j =
      (if um_get (g_nodeContributors g) j \<noteq> [] \<and> removeAll t (um_get (g_nodeContributors g) j) = []
       then None else map_of (g_nodes g) j)" for j
  proof -
    have "j \<in> set ?ns \<and> removeAll t (um_get (g_nodeContributors g) j) = [] \<longleftrightarrow>
      um_get (g_nodeContributors g) j \<noteq> [] \<and> removeAll t (um_get (g_nodeContributors g) j) = []"
      using C(1) [of t j] by (metis empty_iff empty_set removeAll_id)
    then show ?thesis using S by simp
  qed
  have eq: "releaseTuNodes t g = (if map_of (g_tuNodes g) t = None then g else ?g2)"
    by (auto simp: releaseTuNodes_def Let_def split: option.split)
  have cok2: "contrib_ok (g_nodes ?g1) (g_nodeContributors ?g1) (um_erase (g_tuNodes g) t)"
  proof -
    have "um_get (g_nodeContributors g) k \<noteq> []" if "um_get (g_nodeContributors ?g1) k \<noteq> []" for k
      using that con [of k] by auto
    then have "map_of (g_nodes ?g1) k \<noteq> None" if "um_get (g_nodeContributors ?g1) k \<noteq> []" for k
      using that con [of k] nd [of k] C(3) [of k] by simp
    then show ?thesis
      unfolding contrib_ok_def inverse_ok_def using C(1,2) con by simp
  qed
  show ?thesis
  proof (cases "map_of (g_tuNodes g) t = None")
    case True
    then have "?g1 = g" by simp
    with True S con nd cok show ?thesis
      by (simp add: eq)
  next
    case False
    moreover have "nodeFrame g ?g1" "nodes_ok (g_interner g) (g_nodes ?g1) (g_byName ?g1)"
      "g_tuNodes ?g1 = g_tuNodes g"
      using S by blast+
    moreover have "releaseTuNodes t g = ?g2"
      using False by (simp add: eq del: not_None_eq)
    ultimately show ?thesis
      using cok2 by (simp add: con nd)
  qed
qed

lemma releaseAllNodes_spec:
  assumes "nodes_ok (g_interner g) (g_nodes g) (g_byName g)"
    and "contrib_ok (g_nodes g) (g_nodeContributors g) (g_tuNodes g)"
  shows "nodeFrame g (fold releaseTuNodes ts g) \<and>
    nodes_ok (g_interner g) (g_nodes (fold releaseTuNodes ts g)) (g_byName (fold releaseTuNodes ts g)) \<and>
    contrib_ok (g_nodes (fold releaseTuNodes ts g)) (g_nodeContributors (fold releaseTuNodes ts g))
      (g_tuNodes (fold releaseTuNodes ts g)) \<and>
    (\<forall>j. um_get (g_nodeContributors (fold releaseTuNodes ts g)) j =
      filter (\<lambda>t. t \<notin> set ts) (um_get (g_nodeContributors g) j)) \<and>
    (\<forall>j. map_of (g_nodes (fold releaseTuNodes ts g)) j =
      (if um_get (g_nodeContributors g) j \<noteq> [] \<and> set (um_get (g_nodeContributors g) j) \<subseteq> set ts
       then None else map_of (g_nodes g) j))"
  using assms
proof (induction ts arbitrary: g)
  case Nil
  then show ?case by auto
next
  case (Cons t ts)
  let ?g = "releaseTuNodes t g"
  note S = releaseTuNodes_spec [OF Cons.prems, of t]
  then have fr: "nodeFrame g ?g" and it: "g_interner ?g = g_interner g"
    by (auto simp: nodeFrame_def)
  have con: "um_get (g_nodeContributors ?g) j = removeAll t (um_get (g_nodeContributors g) j)" for j
    using S by blast
  have nd: "map_of (g_nodes ?g) j =
      (if um_get (g_nodeContributors g) j \<noteq> [] \<and> removeAll t (um_get (g_nodeContributors g) j) = []
       then None else map_of (g_nodes g) j)" for j
    using S by blast
  have pre: "nodes_ok (g_interner ?g) (g_nodes ?g) (g_byName ?g)"
    "contrib_ok (g_nodes ?g) (g_nodeContributors ?g) (g_tuNodes ?g)"
    using S it by auto
  note IH = Cons.IH [OF pre, unfolded it]
  have "filter (\<lambda>u. u \<notin> set ts) (removeAll t xs) = filter (\<lambda>u. u \<notin> set (t # ts)) xs" for xs :: "sid list"
    by (induction xs) auto
  moreover have "(removeAll t xs \<noteq> [] \<and> set (removeAll t xs) \<subseteq> set ts \<or> xs \<noteq> [] \<and> removeAll t xs = []) \<longleftrightarrow>
    xs \<noteq> [] \<and> set xs \<subseteq> set (t # ts)" for xs :: "sid list"
    by (induction xs) auto
  ultimately show ?case
    using IH nodeFrame_trans [OF fr] by (auto simp: con nd)
qed

section \<open>\<open>removeTUs\<close>\<close>

lemma mset_sub_diff: "A + B \<subseteq># E \<Longrightarrow> A \<subseteq># E - B" for A B E :: "'a multiset"
  by (auto simp: mset_subset_eq_exists_conv)

lemma releaseTus_released:
  assumes "released g0 r" and "um_ok (g_tuEdges (r_graph r))" and "distinct ts"
    and "tuMset (g_tuEdges (r_graph r)) \<subseteq># erefs (g_edges (r_graph r))"
  shows "released g0 (fold releaseTu ts r) \<and>
    um_ok (g_tuEdges (r_graph (fold releaseTu ts r))) \<and>
    tuMset (g_tuEdges (r_graph (fold releaseTu ts r))) \<subseteq># erefs (g_edges (r_graph (fold releaseTu ts r))) \<and>
    erefs (g_edges (r_graph (fold releaseTu ts r))) =
      erefs (g_edges (r_graph r)) - sum_list (map (\<lambda>t. mset (um_get (g_tuEdges (r_graph r)) t)) ts) \<and>
    (\<forall>t. um_get (g_tuEdges (r_graph (fold releaseTu ts r))) t =
      (if t \<in> set ts then [] else um_get (g_tuEdges (r_graph r)) t)) \<and>
    fst ` set (g_tuEdges (r_graph (fold releaseTu ts r))) \<subseteq> fst ` set (g_tuEdges (r_graph r))"
  using assms
proof (induction ts arbitrary: r)
  case (Cons t ts)
  let ?m = "g_tuEdges (r_graph r)"
  let ?es = "g_edges (r_graph r)"
  let ?r = "releaseTu t r"
  have "mset (um_get ?m t) \<subseteq># erefs ?es"
    using mset_get_subset_tuMset [OF Cons.prems(2)] Cons.prems(4) by (rule subset_mset.order_trans)
  then have "\<forall>i \<in> set (um_get ?m t). i < length (g_edges g0)"
    using releasedD(1) [OF Cons.prems(1)] by (auto dest!: mset_subset_eqD simp: in_erefs)
  note S = releaseTu_released [OF Cons.prems(1,2) this]
  have er: "erefs (g_edges (r_graph ?r)) = erefs ?es - mset (um_get ?m t)"
    and tu: "g_tuEdges (r_graph ?r) = um_erase ?m t" and rel: "released g0 ?r"
    using S by auto
  have sub: "tuMset (um_erase ?m t) \<subseteq># erefs ?es - mset (um_get ?m t)"
    using Cons.prems(4) by (intro mset_sub_diff) (simp add: tuMset_erase [OF Cons.prems(2)])
  have p2: "um_ok (g_tuEdges (r_graph ?r))"
    using Cons.prems(2) by (simp add: tu)
  have p4: "tuMset (g_tuEdges (r_graph ?r)) \<subseteq># erefs (g_edges (r_graph ?r))"
    unfolding tu er by (rule sub)
  have d: "distinct ts" "t \<notin> set ts"
    using Cons.prems(3) by auto
  note IH = Cons.IH [OF rel p2 d(1) p4]
  have sm: "map (\<lambda>u. mset (um_get (g_tuEdges (r_graph ?r)) u)) ts = map (\<lambda>u. mset (um_get ?m u)) ts"
    using d(2) by (auto simp: tu)
  have "erefs (g_edges (r_graph (fold releaseTu ts ?r))) =
    erefs ?es - sum_list (map (\<lambda>t. mset (um_get ?m t)) (t # ts))"
    using IH sm er by simp
  moreover have "um_get (g_tuEdges (r_graph (fold releaseTu ts ?r))) u =
    (if u \<in> set (t # ts) then [] else um_get ?m u)" for u
    using IH tu by simp
  moreover have "fst ` set (g_tuEdges (r_graph (fold releaseTu ts ?r))) \<subseteq> fst ` set ?m"
    using IH keys_um_erase [of ?m t] unfolding tu by (blast intro: subset_trans)
  ultimately show ?case
    using IH unfolding fold_simps by blast
qed auto

definition tuRefs :: "call_graph \<Rightarrow> sid list \<Rightarrow> nat multiset" where
  "tuRefs g ts = sum_list (map (\<lambda>t. mset (um_get (g_tuEdges g) t)) ts)"

lemma removeTUs_full:
  assumes wf: "graph_wf g" and rw: "\<not> g_readOnly g" and eq: "removeTUs g paths = (n, g')"
  defines "ts \<equiv> tuIdsOf g paths"
  shows "graph_wf g'"
    and "g_interner g' = g_interner g"
    and "length (g_edges g') = length (g_edges g)"
    and "i < length (g_edges g) \<Longrightarrow> keyOf (g_edges g' ! i) = keyOf (g_edges g ! i)"
    and "erefs (g_edges g') = erefs (g_edges g) - tuRefs g ts"
    and "um_get (g_tuEdges g') t = (if t \<in> set ts then [] else um_get (g_tuEdges g) t)"
    and "n + edgeCount g' = edgeCount g"
    and "map_of (g_nodes g') k =
      (if um_get (g_nodeContributors g) k \<noteq> [] \<and> set (um_get (g_nodeContributors g) k) \<subseteq> set ts
       then None else map_of (g_nodes g) k)"
    and "g_methodOverrides g' = g_methodOverrides g" and "g_functionReturns g' = g_functionReturns g"
    and "g_readOnly g' = g_readOnly g"
proof -
  let ?init = "\<lparr>r_graph = g, r_dead = [], r_callers = [], r_callees = [], r_removed = 0\<rparr>"
  let ?r = "fold releaseTu ts ?init"
  let ?es = "g_edges (r_graph ?r)"
  let ?g2 = "(r_graph ?r)\<lparr>g_outEdges := fold (scrub (r_dead ?r)) (r_callers ?r) (g_outEdges (r_graph ?r)),
     g_inEdges := fold (scrub (r_dead ?r)) (r_callees ?r) (g_inEdges (r_graph ?r))\<rparr>"
  note W = graph_wfD [OF wf]
  have rel0: "released g ?init"
    using W(3) by (auto simp: released_def Let_def)
  have ts: "distinct ts"
    by (simp add: ts_def tuIdsOf_def fresh_distinct)
  have u: "um_ok (g_tuEdges (r_graph ?init))"
    "tuMset (g_tuEdges (r_graph ?init)) \<subseteq># erefs (g_edges (r_graph ?init))"
    using W(6) by (simp_all add: tu_ok_def)
  note X = releaseTus_released [OF rel0 u(1) ts u(2), unfolded release_state.select_convs]
  have S: "released g ?r" "um_ok (g_tuEdges (r_graph ?r))"
    "tuMset (g_tuEdges (r_graph ?r)) \<subseteq># erefs ?es"
    "erefs ?es = erefs (g_edges g) - tuRefs g ts"
    "um_get (g_tuEdges (r_graph ?r)) t = (if t \<in> set ts then [] else um_get (g_tuEdges g) t)"
    "fst ` set (g_tuEdges (r_graph ?r)) \<subseteq> fst ` set (g_tuEdges g)" for t
    using X unfolding tuRefs_def by blast+
  note D = releasedD [OF S(1)]
  have fr: "edgeFrame g (r_graph ?r)" by (rule D(10))
  have g': "n = r_removed ?r" "g' = fold releaseTuNodes ts ?g2"
    using eq rw by (simp_all add: removeTUs_def Let_def ts_def)
  have key: "keyOf (?es ! i) = keyOf (g_edges g ! i)" if "i < length (g_edges g)" for i
    using D(2) that .
  have sel: "caller (?es ! i) = caller (g_edges g ! i)" "callee (?es ! i) = callee (g_edges g ! i)"
    if "i < length (g_edges g)" for i
    using key [OF that] by (auto simp: keyOf_eq_iff)
  have sub: "live (g_edges g ! i)" if "i < length (g_edges g)" "live (?es ! i)" for i
    using D(3) [OF that(1)] that(2) by simp
  have out: "adj_ok ?es caller (fold (scrub (r_dead ?r)) (r_callers ?r) (g_outEdges g))"
    by (rule adj_ok_scrub [OF W(4) D(1) D(5) sub sel(1) D(7)])
  have inn: "adj_ok ?es callee (fold (scrub (r_dead ?r)) (r_callees ?r) (g_inEdges g))"
    by (rule adj_ok_scrub [OF W(5) D(1) D(5) sub sel(2) D(8)])
  have fld: "g_interner ?g2 = g_interner g" "g_nodes ?g2 = g_nodes g" "g_byName ?g2 = g_byName g"
    "g_nodeContributors ?g2 = g_nodeContributors g" "g_tuNodes ?g2 = g_tuNodes g"
    "g_outEdges ?g2 = fold (scrub (r_dead ?r)) (r_callers ?r) (g_outEdges g)"
    "g_inEdges ?g2 = fold (scrub (r_dead ?r)) (r_callees ?r) (g_inEdges g)"
    "g_methodOverrides ?g2 = g_methodOverrides g" "g_overrideBases ?g2 = g_overrideBases g"
    "g_functionReturns ?g2 = g_functionReturns g" "g_returnedBy ?g2 = g_returnedBy g"
    "g_edges ?g2 = ?es" "g_readOnly ?g2 = g_readOnly g"
    using fr by (simp_all add: edgeFrame_def)
  note N = releaseAllNodes_spec [of ?g2 ts, unfolded fld, OF W(7,8), folded g'(2)]
  have nf: "g_interner g' = g_interner g" "g_edges g' = ?es" "g_tuEdges g' = g_tuEdges (r_graph ?r)"
    "g_edgeIndex g' = g_edgeIndex (r_graph ?r)" "g_liveEdgeCount g' = g_liveEdgeCount (r_graph ?r)"
    "g_outEdges g' = g_outEdges ?g2" "g_inEdges g' = g_inEdges ?g2"
    "g_methodOverrides g' = g_methodOverrides g" "g_overrideBases g' = g_overrideBases g"
    "g_functionReturns g' = g_functionReturns g" "g_returnedBy g' = g_returnedBy g"
    "g_readOnly g' = g_readOnly g"
    using N fld by (simp_all add: nodeFrame_def)
  have eok: "edges_ok (g_interner g) ?es"
    by (rule edges_ok_keys [OF W(2) D(1) key])
  have tok: "tu_ok (g_interner g) ?es (g_tuEdges (r_graph ?r))"
    using S(2,3,6) W(6) unfolding tu_ok_def by blast
  show "graph_wf g'"
    unfolding graph_wf_def nf fld using W(1,9,10) eok D(4) out inn tok N by simp
  show "g_interner g' = g_interner g" "length (g_edges g') = length (g_edges g)"
    "g_methodOverrides g' = g_methodOverrides g" "g_functionReturns g' = g_functionReturns g"
    "g_readOnly g' = g_readOnly g"
    using nf D(1) by simp_all
  show "i < length (g_edges g) \<Longrightarrow> keyOf (g_edges g' ! i) = keyOf (g_edges g ! i)"
    using nf key by simp
  show "erefs (g_edges g') = erefs (g_edges g) - tuRefs g ts"
    "um_get (g_tuEdges g') t = (if t \<in> set ts then [] else um_get (g_tuEdges g) t)"
    using nf S(4,5) by simp_all
  show "map_of (g_nodes g') k =
      (if um_get (g_nodeContributors g) k \<noteq> [] \<and> set (um_get (g_nodeContributors g) k) \<subseteq> set ts
       then None else map_of (g_nodes g) k)"
    using N by blast
  have "card {i. i < length (g_edges g) \<and> live (g_edges g ! i)} =
    card (set (r_dead ?r)) + card {i. i < length ?es \<and> live (?es ! i)}"
    unfolding D(5) using sub D(1)
    by (subst card_Un_disjoint [symmetric]) (auto intro!: arg_cong [where f = card])
  then show "n + edgeCount g' = edgeCount g"
    using D(4,6,9) W(3) g'(1) nf(5)
    by (simp add: edgeCount_def index_ok_def length_filter_conv_card distinct_card)
qed

end
