(* ===== verification/CallGraphMerge.thy ===== *)
theory CallGraphMerge
  imports CallGraphRemove
begin

text \<open>
  Compaction and shard merge keep the invariant; both move the edge registrations along an
  index map (\<open>rank\<close> for the compaction, \<open>edgeRemap\<close> for the merge), which the multiset
  view turns into an image.
\<close>

section \<open>Compaction\<close>

definition rank :: "StoredEdge list \<Rightarrow> nat \<Rightarrow> nat" where
  "rank es i = length (filter live (take i es))"

lemma rank_append [simp]: "i \<le> length es \<Longrightarrow> rank (es @ xs) i = rank es i"
  by (simp add: rank_def)

lemma rank_length [simp]: "rank es (length es) = length (filter live es)"
  by (simp add: rank_def)

lemma rank_nth:
  assumes "i < length es" and "live (es ! i)"
  shows "rank es i < length (filter live es)" and "filter live es ! rank es i = es ! i"
proof -
  have "filter live es = filter live (take i es @ es ! i # drop (Suc i) es)"
    by (rule arg_cong [OF id_take_nth_drop [OF assms(1)]])
  then have "filter live es = filter live (take i es) @ es ! i # filter live (drop (Suc i) es)"
    using assms(2) by simp
  then show "rank es i < length (filter live es)" and "filter live es ! rank es i = es ! i"
    by (auto simp: rank_def nth_append)
qed

lemma erefs_filter: "erefs (filter live es) = image_mset (rank es) (erefs es)"
proof (induction es rule: rev_induct)
  case (snoc e es)
  have "image_mset (rank (es @ [e])) (erefs es) = image_mset (rank es) (erefs es)"
    by (rule image_mset_cong) (simp add: in_erefs)
  then show ?case
    using snoc by simp
qed (simp add: erefs_def)

definition distinct_keys :: "StoredEdge list \<Rightarrow> bool" where
  "distinct_keys es \<longleftrightarrow> distinct (map keyOf (filter live es))"

lemma index_ok_distinct_keys:
  assumes "index_ok es m n"
  shows "distinct_keys es"
proof -
  have u: "i = j" if "i < length es" "live (es ! i)" "j < length es" "live (es ! j)"
    "keyOf (es ! i) = keyOf (es ! j)" for i j
    using assms that unfolding index_ok_def by (metis option.inject)
  have "distinct (map (\<lambda>i. keyOf (es ! i)) (filter (\<lambda>i. live (es ! i)) [0..<length es]))"
    using u by (auto simp: distinct_map inj_on_def)
  then have "distinct (map keyOf (map (\<lambda>i. es ! i) (filter (\<lambda>i. live (es ! i)) [0..<length es])))"
    by (simp add: comp_def)
  then show ?thesis
    unfolding map_nth_filter [of es "\<lambda>e. live e"] distinct_keys_def .
qed

definition compacted :: "StoredEdge list \<Rightarrow> compact_state \<Rightarrow> bool" where
  "compacted es st \<longleftrightarrow> c_edges st = filter live es \<and>
     index_ok (c_edges st) (c_index st) (length (c_edges st)) \<and>
     adj_ok (c_edges st) caller (c_out st) \<and> adj_ok (c_edges st) callee (c_in st) \<and>
     (\<forall>i. map_of (c_remap st) i =
        (if i < length es \<and> live (es ! i) then Some (rank es i) else None))"

lemma compactEdge_compacted:
  assumes c: "compacted es st" and d: "distinct_keys (es @ [e])"
  shows "compacted (es @ [e]) (compactEdge (length es, e) st)"
proof (cases "live e")
  case False
  then show ?thesis
    using c by (auto simp: compacted_def compactEdge_def nth_append less_Suc_eq)
next
  case True
  let ?st = "compactEdge (length es, e) st"
  have "map_of (c_index st) (keyOf e) = None"
  proof (rule ccontr)
    assume "map_of (c_index st) (keyOf e) \<noteq> None"
    then obtain i where "i < length (c_edges st)" "keyOf (c_edges st ! i) = keyOf e"
      using c unfolding compacted_def index_ok_def by blast
    moreover have "c_edges st = filter live es"
      using c by (simp add: compacted_def)
    ultimately have "keyOf e \<in> set (map keyOf (filter live es))"
      unfolding set_map by (metis image_eqI nth_mem)
    with True d show False
      by (simp add: distinct_keys_def)
  qed
  note new = this
  have st': "?st = \<lparr>c_edges = c_edges st @ [e],
      c_index = um_emplace (c_index st) (keyOf e) (length (c_edges st)),
      c_out = um_push (c_out st) (caller e) (length (c_edges st)),
      c_in = um_push (c_in st) (callee e) (length (c_edges st)),
      c_remap = um_emplace (c_remap st) (length es) (length (c_edges st))\<rparr>"
    using True by (simp add: compactEdge_def Let_def)
  have C: "c_edges st = filter live es" "index_ok (c_edges st) (c_index st) (length (c_edges st))"
    "adj_ok (c_edges st) caller (c_out st)" "adj_ok (c_edges st) callee (c_in st)"
    "map_of (c_remap st) i = (if i < length es \<and> live (es ! i) then Some (rank es i) else None)" for i
    using c unfolding compacted_def by blast+
  have "map_of (um_emplace (c_remap st) (length es) (length (c_edges st))) i =
      (if i < length (es @ [e]) \<and> live ((es @ [e]) ! i) then Some (rank (es @ [e]) i) else None)" for i
    using C(1,5) True by (auto simp: nth_append less_Suc_eq)
  then show ?thesis
    unfolding compacted_def st' compact_state.select_convs
    using C(1) True index_ok_append [OF C(2) True new] adj_ok_append [OF C(3) True refl]
      adj_ok_append [OF C(4) True refl]
    by simp
qed

lemma fold_compactEdge:
  assumes "distinct_keys es"
  shows "compacted es (fold compactEdge (enumerate 0 es)
    \<lparr>c_edges = [], c_index = [], c_out = [], c_in = [], c_remap = []\<rparr>)"
  using assms
proof (induction es rule: rev_induct)
  case Nil
  then show ?case by (simp add: compacted_def index_ok_def adj_ok_def)
next
  case (snoc e es)
  then have "distinct_keys es" by (simp add: distinct_keys_def)
  then show ?case
    using compactEdge_compacted [OF snoc.IH snoc.prems] by (simp add: enumerate_append_eq)
qed

lemma map_filter_all:
  "(\<And>x. x \<in> set xs \<Longrightarrow> f x = Some (h x)) \<Longrightarrow> List.map_filter f xs = map h xs"
  by (induction xs) auto

lemma fold_compactTu:
  assumes "um_ok tu" and "um_ok m" and "fst ` set tu \<inter> fst ` set m = {}"
    and "\<forall>t. \<forall>i \<in> set (um_get tu t). map_of remap i = Some (h i)"
  shows "um_ok (fold (compactTu remap) tu m) \<and>
    tuMset (fold (compactTu remap) tu m) = tuMset m + image_mset h (tuMset tu) \<and>
    (\<forall>t. um_get (fold (compactTu remap) tu m) t = um_get m t @ map h (um_get tu t)) \<and>
    fst ` set (fold (compactTu remap) tu m) \<subseteq> fst ` set m \<union> fst ` set tu"
  using assms
proof (induction tu arbitrary: m)
  case (Cons a tu)
  obtain t idxs where a: "a = (t, idxs)" by (cases a)
  have t: "t \<notin> fst ` set tu" "t \<notin> fst ` set m" and ok: "um_ok tu"
    using Cons.prems by (auto simp: a)
  have mt: "um_get m t = []" "map_of m t = None" "um_get tu t = []" "map_of tu t = None"
    using t by (simp_all add: map_of_eq_None_iff)
  have vec: "List.map_filter (map_of remap) idxs = map h idxs"
    using Cons.prems(4) by (intro map_filter_all) (force simp: a um_get_def)
  let ?m = "compactTu remap a m"
  have m': "?m = (if idxs = [] then m else um_put m t (map h idxs))"
    using mt t(2) by (simp add: compactTu_def a vec um_erase_fresh)
  have ok': "um_ok ?m" and keys: "fst ` set ?m \<subseteq> insert t (fst ` set m)"
    using Cons.prems(2) by (auto simp: m')
  have get: "um_get (a # tu) u = (if u = t then idxs else um_get tu u)" for u
    by (simp add: a um_get_def)
  have dis: "fst ` set tu \<inter> fst ` set ?m = {}"
    using Cons.prems(3) t keys by (simp add: a) blast
  have rm: "\<forall>u. \<forall>i \<in> set (um_get tu u). map_of remap i = Some (h i)"
  proof (intro allI ballI)
    fix u i
    assume "i \<in> set (um_get tu u)"
    then have "i \<in> set (um_get (a # tu) u)"
      using mt(3) by (cases "u = t") (auto simp: get)
    then show "map_of remap i = Some (h i)"
      using Cons.prems(4) by blast
  qed
  note IH = Cons.IH [OF ok ok' dis rm]
  have tm: "tuMset ?m = tuMset m + image_mset h (mset idxs)"
    using tuMset_put [OF Cons.prems(2), of t "map h idxs"] mt(1) by (simp add: m')
  have gm: "um_get ?m u = um_get m u @ (if u = t then map h idxs else [])" for u
    using mt(1) by (simp add: m')
  have "um_get (fold (compactTu remap) tu ?m) u = um_get m u @ map h (um_get (a # tu) u)" for u
    using IH mt(3) by (simp add: gm get)
  moreover have "tuMset (fold (compactTu remap) tu ?m) = tuMset m + image_mset h (tuMset (a # tu))"
    using IH by (simp add: tm) (simp add: a)
  moreover have "fst ` set (fold (compactTu remap) tu ?m) \<subseteq> fst ` set m \<union> fst ` set (a # tu)"
  proof -
    have "fst ` set (a # tu) = insert t (fst ` set tu)" by (simp add: a)
    then show ?thesis using IH keys by blast
  qed
  ultimately show ?case
    using IH by simp
qed auto

lemma compact_full:
  assumes wf: "graph_wf g" and rw: "\<not> g_readOnly g"
  defines "es \<equiv> g_edges g"
  shows "graph_wf (compact g)"
    and "g_edges (compact g) = filter live es"
    and "g_interner (compact g) = g_interner g"
    and "um_get (g_tuEdges (compact g)) t = map (rank es) (um_get (g_tuEdges g) t)"
    and "g_nodes (compact g) = g_nodes g" "g_methodOverrides (compact g) = g_methodOverrides g"
      "g_overrideBases (compact g) = g_overrideBases g"
      "g_functionReturns (compact g) = g_functionReturns g"
      "g_returnedBy (compact g) = g_returnedBy g" "g_byName (compact g) = g_byName g"
proof -
  note W = graph_wfD [OF wf]
  let ?st = "fold compactEdge (enumerate 0 es)
    \<lparr>c_edges = [], c_index = [], c_out = [], c_in = [], c_remap = []\<rparr>"
  let ?tu = "fold (compactTu (c_remap ?st)) (g_tuEdges g) []"
  have c: "compacted es ?st"
    using fold_compactEdge [OF index_ok_distinct_keys [OF W(3)]] by (simp add: es_def)
  then have ce: "c_edges ?st = filter live es"
    and ca: "adj_ok (filter live es) caller (c_out ?st)" "adj_ok (filter live es) callee (c_in ?st)"
    and rm: "map_of (c_remap ?st) i = (if i < length es \<and> live (es ! i) then Some (rank es i) else None)" for i
    by (auto simp: compacted_def)
  have sub: "tuMset (g_tuEdges g) \<subseteq># erefs es" and tok: "um_ok (g_tuEdges g)"
    using W(6) by (auto simp: tu_ok_def es_def)
  have "i \<in># erefs es" if "i \<in> set (um_get (g_tuEdges g) t)" for i t
    using that mset_subset_eqD [OF subset_mset.order_trans
        [OF mset_get_subset_tuMset [OF tok, of t] sub], of i] by simp
  then have rmi: "\<forall>t. \<forall>i \<in> set (um_get (g_tuEdges g) t). map_of (c_remap ?st) i = Some (rank es i)"
    by (simp add: rm in_erefs)
  have T: "um_ok ?tu" "tuMset ?tu = image_mset (rank es) (tuMset (g_tuEdges g))"
    "um_get ?tu t = map (rank es) (um_get (g_tuEdges g) t)"
    "fst ` set ?tu \<subseteq> fst ` set (g_tuEdges g)" for t
    using fold_compactTu [OF tok um_ok_Nil _ rmi] by simp_all
  have g': "compact g = g\<lparr>g_edges := filter live es, g_edgeIndex := c_index ?st,
      g_outEdges := c_out ?st, g_inEdges := c_in ?st, g_tuEdges := ?tu\<rparr>"
    using rw ce by (simp add: compact_def Let_def es_def)
  have "tu_ok (g_interner g) (filter live es) ?tu"
    unfolding tu_ok_def erefs_filter T(2)
    using T(1,4) W(6) image_mset_subseteq_mono [OF sub, of "rank es"] unfolding tu_ok_def by blast
  moreover have "edges_ok (g_interner g) (filter live es)"
    using W(2) by (auto simp: edges_ok_def es_def)
  moreover have "index_ok (filter live es) (c_index ?st) (g_liveEdgeCount g)"
    using c W(3) by (simp add: compacted_def index_ok_def es_def)
  ultimately show "graph_wf (compact g)"
    using ca W unfolding g' graph_wf_def by simp
  show "um_get (g_tuEdges (compact g)) t = map (rank es) (um_get (g_tuEdges g) t)"
    using T by (simp add: g')
  show "g_edges (compact g) = filter live es"
    by (simp add: g')
qed (use rw in \<open>simp_all add: compact_def Let_def es_def\<close>)

section \<open>Shard merge\<close>

lemma contribute_fields [simp]:
  "g_nodes (contribute g k t) = g_nodes g" "g_interner (contribute g k t) = g_interner g"
  "g_edges (contribute g k t) = g_edges g" "g_tuEdges (contribute g k t) = g_tuEdges g"
  "g_readOnly (contribute g k t) = g_readOnly g"
  by (simp_all add: contribute_def)

lemma fold_contribute:
  assumes "graph_wf g" and "map_of (g_nodes g) k \<noteq> None"
  shows "graph_wf (fold (\<lambda>t g. contribute g k (f t)) ts g) \<and>
    g_interner (fold (\<lambda>t g. contribute g k (f t)) ts g) = g_interner g \<and>
    g_edges (fold (\<lambda>t g. contribute g k (f t)) ts g) = g_edges g \<and>
    g_tuEdges (fold (\<lambda>t g. contribute g k (f t)) ts g) = g_tuEdges g"
  using assms by (induction ts arbitrary: g) (simp_all add: graph_wf_contribute)

text \<open>What the node phase keeps: the invariant, the edges, the provenance of edges.\<close>

definition merging :: "call_graph \<Rightarrow> call_graph \<Rightarrow> bool" where
  "merging g g' \<longleftrightarrow> graph_wf g' \<and> grows (g_interner g) (g_interner g') \<and> g_edges g' = g_edges g \<and>
     g_tuEdges g' = g_tuEdges g"

lemma merging_trans: "merging a b \<Longrightarrow> merging b c \<Longrightarrow> merging a c"
  by (auto simp: merging_def intro: grows_trans)

lemma absorbNode_merging:
  assumes wf: "graph_wf g" and k: "findId (g_interner g) (usr n) = Some (remap ! k)"
  shows "merging g (absorbNode sh remap (k, n) g)"
proof -
  let ?k = "remap ! k"
  obtain d g1 where 1: "internStr g (qualifiedName n) = (d, g1)"
    by (cases "internStr g (qualifiedName n)")
  have i: "interned g (qualifiedName n) d g1"
    using internStr_interned [OF graph_wfD(1) [OF wf] 1] .
  note F = interned_facts [OF i]
  let ?g2 = "case map_of (g_nodes g) ?k of None \<Rightarrow> insertNode g1 ?k d n
    | Some old \<Rightarrow> g\<lparr>g_nodes := um_put (g_nodes g) ?k (backfill old n)\<rparr>"
  have g2: "merging g ?g2 \<and> map_of (g_nodes ?g2) ?k \<noteq> None"
  proof (cases "map_of (g_nodes g) ?k")
    case None
    then have "graph_wf (insertNode g1 ?k d n)"
      using interned_wf [OF wf i] find_grows [OF F(5) k] F(4) interned_fields(1) [OF i]
      by (intro graph_wf_insertNode) auto
    with None F(5) show ?thesis
      by (simp add: merging_def insertNode_def interned_fields [OF i])
  next
    case (Some old)
    then show ?thesis
      using graph_wf_updateNode [OF wf Some] graph_wfD(1) [OF wf] by (simp add: merging_def)
  qed
  then have m2: "merging g ?g2" and n2: "map_of (g_nodes ?g2) ?k \<noteq> None" by auto
  have eq: "absorbNode sh remap (k, n) g = (case map_of (g_nodeContributors sh) k of None \<Rightarrow> ?g2
    | Some tus \<Rightarrow> fold (\<lambda>t g. contribute g ?k (remap ! t)) tus ?g2)"
    using 1 by (simp add: absorbNode_def Let_def cong: option.case_cong)
  show ?thesis
  proof (cases "map_of (g_nodeContributors sh) k")
    case None
    with m2 show ?thesis unfolding eq by simp
  next
    case (Some tus)
    have "graph_wf ?g2" using m2 by (simp add: merging_def)
    from fold_contribute [OF this n2, of "\<lambda>t. remap ! t" tus] Some m2 show ?thesis
      unfolding eq by (simp add: merging_def)
  qed
qed

lemma fold_absorbNode:
  assumes "graph_wf g" and "\<forall>(k, n) \<in> set ns. findId (g_interner g) (usr n) = Some (remap ! k)"
  shows "merging g (fold (absorbNode sh remap) ns g)"
  using assms
proof (induction ns arbitrary: g)
  case Nil
  then show ?case by (simp add: merging_def graph_wfD(1))
next
  case (Cons a ns)
  obtain k n where a: "a = (k, n)" by (cases a)
  let ?g = "absorbNode sh remap a g"
  have m: "merging g ?g"
    using Cons.prems absorbNode_merging [of g n remap k sh] by (simp add: a)
  moreover have "merging ?g (fold (absorbNode sh remap) ns ?g)"
    using m Cons.prems(2) by (intro Cons.IH) (auto simp: merging_def intro: find_grows)
  ultimately show ?case
    by (simp add: merging_trans)
qed

lemma erefs_Cons: "erefs (e # es) = replicate_mset (refs e) 0 + image_mset Suc (erefs es)"
proof (induction es rule: rev_induct)
  case (snoc x es)
  have "erefs (e # es @ [x]) = erefs (e # es) + replicate_mset (refs x) (Suc (length es))"
    using erefs_append [of "e # es" x] by simp
  then show ?case
    using snoc by simp
qed (simp add: erefs_def)

lemma remapEdge_sel [simp]:
  "caller (remapEdge r e) = r ! caller e" "callee (remapEdge r e) = r ! callee e"
  "callSite (remapEdge r e) = r ! callSite e" "refs (remapEdge r e) = refs e"
  by (simp_all add: remapEdge_def)

lemma absorbEdges_spec:
  assumes "graph_wf g" and "absorbEdges remap es g = (g', m)"
    and "\<forall>e \<in> set es. remap ! caller e < internerSize (g_interner g) \<and>
      remap ! callee e < internerSize (g_interner g) \<and> remap ! callSite e < internerSize (g_interner g)"
  shows "graph_wf g' \<and> g_interner g' = g_interner g \<and> g_tuEdges g' = g_tuEdges g \<and>
    length m = length es \<and> length (g_edges g) \<le> length (g_edges g') \<and>
    (\<forall>i < length (g_edges g). keyOf (g_edges g' ! i) = keyOf (g_edges g ! i)) \<and>
    erefs (g_edges g') = erefs (g_edges g) + image_mset (\<lambda>i. the (m ! i)) (erefs es) \<and>
    (\<forall>i < length es. live (es ! i) \<longrightarrow> (\<exists>idx. m ! i = Some idx \<and> idx < length (g_edges g') \<and>
       keyOf (g_edges g' ! idx) = keyOf (remapEdge remap (es ! i))))"
  using assms
proof (induction es arbitrary: g m)
  case Nil
  then show ?case by (simp add: erefs_def)
next
  case (Cons e es)
  show ?case
  proof (cases "live e")
    case False
    then obtain m' where 2: "absorbEdges remap es g = (g', m')" and m: "m = None # m'"
      using Cons.prems(2) by (auto split: prod.splits)
    note IH = Cons.IH [OF Cons.prems(1) 2]
    from IH Cons.prems(3) False show ?thesis
      by (auto simp: m erefs_Cons image_mset.compositionality comp_def less_Suc_eq_0_disj)
  next
    case True
    obtain idx g1 where 1: "registerEdge g (remapEdge remap e) = (idx, g1)"
      by (cases "registerEdge g (remapEdge remap e)")
    then obtain m' where 2: "absorbEdges remap es g1 = (g', m')" and m: "m = Some idx # m'"
      using Cons.prems(2) True by (auto split: prod.splits)
    have wf1: "graph_wf g1"
      by (rule graph_wf_registerEdge [OF Cons.prems(1) 1]) (use True Cons.prems(3) in auto)
    note R = registerEdge_edges [OF Cons.prems(1) 1] and F = registerEdge_fields [OF 1]
    have "\<forall>e \<in> set es. remap ! caller e < internerSize (g_interner g1) \<and>
      remap ! callee e < internerSize (g_interner g1) \<and> remap ! callSite e < internerSize (g_interner g1)"
      using Cons.prems(3) F(1) by simp
    note IH = Cons.IH [OF wf1 2 this]
    have er: "erefs (g_edges g') = erefs (g_edges g) + image_mset (\<lambda>i. the (m ! i)) (erefs (e # es))"
      using IH R by (simp add: m erefs_Cons image_mset.compositionality comp_def)
    have old: "keyOf (g_edges g' ! i) = keyOf (g_edges g ! i)" if "i < length (g_edges g)" for i
      using IH R that by simp
    have new: "\<exists>idx. m ! i = Some idx \<and> idx < length (g_edges g') \<and>
       keyOf (g_edges g' ! idx) = keyOf (remapEdge remap ((e # es) ! i))"
      if "i < length (e # es)" "live ((e # es) ! i)" for i
      using that IH R by (cases i) (auto simp: m)
    show ?thesis
      using IH R F er old new by (auto simp: m)
  qed
qed

lemma fold_absorbTu:
  assumes "um_ok m" and "\<forall>t. \<forall>i \<in> set (um_get tu t). em ! i = Some (h i)" and "um_ok tu"
  shows "um_ok (fold (absorbTu remap em) tu m) \<and>
    tuMset (fold (absorbTu remap em) tu m) = tuMset m + image_mset h (tuMset tu) \<and>
    (\<forall>u. mset (um_get (fold (absorbTu remap em) tu m) u) = mset (um_get m u) +
       sum_list (map (\<lambda>(t, idxs). if remap ! t = u then image_mset h (mset idxs) else {#}) tu)) \<and>
    fst ` set (fold (absorbTu remap em) tu m) \<subseteq> fst ` set m \<union> (\<lambda>t. remap ! t) ` fst ` set tu"
  using assms
proof (induction tu arbitrary: m)
  case (Cons a tu)
  obtain t idxs where a: "a = (t, idxs)" by (cases a)
  have get: "um_get (a # tu) u = (if u = t then idxs else um_get tu u)" for u
    by (simp add: a um_get_def)
  have t: "um_get tu t = []" and ok: "um_ok tu"
    using Cons.prems(3) by (auto simp: a map_of_eq_None_iff)
  have "List.map_filter (\<lambda>i. em ! i) idxs = map h idxs"
    using Cons.prems(2) by (intro map_filter_all) (metis get)
  then have m': "absorbTu remap em a m = um_put m (remap ! t) (um_get m (remap ! t) @ map h idxs)"
    by (simp add: absorbTu_def a Let_def)
  let ?m = "absorbTu remap em a m"
  have ok': "um_ok ?m" using Cons.prems(1) by (simp add: m')
  have "\<forall>u. \<forall>i \<in> set (um_get tu u). em ! i = Some (h i)"
  proof (intro allI ballI)
    fix u i
    assume "i \<in> set (um_get tu u)"
    then have "i \<in> set (um_get (a # tu) u)"
      using t by (cases "u = t") (auto simp: get)
    then show "em ! i = Some (h i)"
      using Cons.prems(2) by blast
  qed
  note IH = Cons.IH [OF ok' this ok]
  have tm: "tuMset ?m = tuMset m + image_mset h (mset idxs)"
    using tuMset_append [OF Cons.prems(1)] by (simp add: m')
  have gm: "mset (um_get ?m u) = mset (um_get m u) +
    (if remap ! t = u then image_mset h (mset idxs) else {#})" for u
    by (auto simp: m')
  have km: "fst ` set ?m = insert (remap ! t) (fst ` set m)"
    by (simp add: m')
  have "tuMset (fold (absorbTu remap em) tu ?m) = tuMset m + image_mset h (tuMset (a # tu))"
    using IH by (simp add: tm) (simp add: a)
  moreover have "mset (um_get (fold (absorbTu remap em) tu ?m) u) = mset (um_get m u) +
       sum_list (map (\<lambda>(t, idxs). if remap ! t = u then image_mset h (mset idxs) else {#}) (a # tu))" for u
    using IH gm [of u] by (simp add: a)
  moreover have "fst ` set (fold (absorbTu remap em) tu ?m) \<subseteq>
    fst ` set m \<union> (\<lambda>t. remap ! t) ` fst ` set (a # tu)"
  proof -
    have "fst ` set (fold (absorbTu remap em) tu ?m) \<subseteq>
      insert (remap ! t) (fst ` set m) \<union> (\<lambda>t. remap ! t) ` fst ` set tu"
      using IH [THEN conjunct2, THEN conjunct2, THEN conjunct2] unfolding km .
    then show ?thesis by (auto simp: a)
  qed
  ultimately show ?case
    unfolding fold.simps comp_apply using IH [THEN conjunct1] by blast
qed auto

lemma linkOverride_fields [simp]:
  "g_interner (linkOverride g b o') = g_interner g" "g_edges (linkOverride g b o') = g_edges g"
  "g_tuEdges (linkOverride g b o') = g_tuEdges g" "g_nodes (linkOverride g b o') = g_nodes g"
  by (simp_all add: linkOverride_def)

lemma linkReturn_fields [simp]:
  "g_interner (linkReturn g f r) = g_interner g" "g_edges (linkReturn g f r) = g_edges g"
  "g_tuEdges (linkReturn g f r) = g_tuEdges g" "g_nodes (linkReturn g f r) = g_nodes g"
  by (simp_all add: linkReturn_def)

text \<open>The relation phases only touch the relation tables.\<close>

definition sameEdges :: "call_graph \<Rightarrow> call_graph \<Rightarrow> bool" where
  "sameEdges g g' \<longleftrightarrow> (graph_wf g \<longrightarrow> graph_wf g') \<and> g_interner g' = g_interner g \<and>
     g_edges g' = g_edges g \<and> g_tuEdges g' = g_tuEdges g \<and> g_nodes g' = g_nodes g"

lemma sameEdges_refl [simp]: "sameEdges g g"
  by (simp add: sameEdges_def)

lemma sameEdges_trans: "sameEdges a b \<Longrightarrow> sameEdges b c \<Longrightarrow> sameEdges a c"
  by (simp add: sameEdges_def)

lemma sameEdges_fold:
  assumes "\<And>x g. sameEdges g (f x g)"
  shows "sameEdges g (fold f xs g)"
proof (induction xs arbitrary: g)
  case (Cons x xs)
  show ?case
    using sameEdges_trans [OF assms [of g x] Cons.IH] by simp
qed simp

lemma absorbOverrides_sameEdges: "sameEdges g (absorbOverrides remap bv g)"
  by (cases bv) (auto simp: absorbOverrides_def sameEdges_def graph_wf_linkOverride
      intro!: sameEdges_fold [unfolded sameEdges_def])

lemma absorbReturns_sameEdges: "sameEdges g (absorbReturns remap fr g)"
  by (cases fr) (auto simp: absorbReturns_def sameEdges_def graph_wf_linkReturn
      intro!: sameEdges_fold [unfolded sameEdges_def])


lemma absorbNode_nodes:
  assumes "map_of (g_nodes g) (remap ! k) = o'"
  shows "map_of (g_nodes (absorbNode sh remap (k, n) g)) j =
    (if j = remap ! k then Some (case o' of None \<Rightarrow> n | Some old \<Rightarrow> backfill old n)
     else map_of (g_nodes g) j)"
proof -
  have f: "g_nodes (fold (\<lambda>t g. contribute g a (f t)) ts g') = g_nodes g'" for a and f :: "nat \<Rightarrow> nat" and ts g'
    by (induction ts arbitrary: g') simp_all
  show ?thesis
    using assms by (auto simp: absorbNode_def Let_def f insertNode_def internStr_def split: option.split prod.split)
qed

lemma fold_absorbNode_nodes:
  assumes "um_ok ns" and "inj_on (\<lambda>k. remap ! k) (fst ` set ns)"
  shows "(\<forall>k n. map_of ns k = Some n \<longrightarrow>
      map_of (g_nodes (fold (absorbNode sh remap) ns g)) (remap ! k) =
        Some (case map_of (g_nodes g) (remap ! k) of None \<Rightarrow> n | Some old \<Rightarrow> backfill old n)) \<and>
    (\<forall>j. j \<notin> (\<lambda>k. remap ! k) ` fst ` set ns \<longrightarrow>
      map_of (g_nodes (fold (absorbNode sh remap) ns g)) j = map_of (g_nodes g) j)"
  using assms
proof (induction ns arbitrary: g)
  case (Cons a ns)
  obtain k n where a: "a = (k, n)" by (cases a)
  let ?g = "absorbNode sh remap a g"
  have A: "map_of (g_nodes ?g) j = (if j = remap ! k then Some
      (case map_of (g_nodes g) (remap ! k) of None \<Rightarrow> n | Some old \<Rightarrow> backfill old n)
     else map_of (g_nodes g) j)" for j
    unfolding a by (rule absorbNode_nodes) simp
  have ok: "um_ok ns" "inj_on (\<lambda>k. remap ! k) (fst ` set ns)" and k: "k \<notin> fst ` set ns"
    "remap ! k \<notin> (\<lambda>k. remap ! k) ` fst ` set ns"
    using Cons.prems by (auto simp: a)
  have dom: "map_of ns k' = Some n' \<Longrightarrow> remap ! k' \<noteq> remap ! k" for k' n'
  proof
    assume "map_of ns k' = Some n'" and eq: "remap ! k' = remap ! k"
    then have "k' \<in> fst ` set ns" by (force dest: map_of_SomeD)
    with eq k(2) show False by (metis imageI)
  qed
  show ?case
    using Cons.IH [OF ok, of ?g] k dom A [unfolded a] by (auto simp: a)
qed simp

lemma absorbEdges_nodes: "absorbEdges remap es g = (g', m) \<Longrightarrow> g_nodes g' = g_nodes g"
proof (induction es arbitrary: g m)
  case (Cons e es)
  show ?case
  proof (cases "refs e = 0")
    case False
    obtain idx g1 where 1: "registerEdge g (remapEdge remap e) = (idx, g1)"
      by (cases "registerEdge g (remapEdge remap e)")
    with Cons False show ?thesis
      by (auto simp: registerEdge_fields(3) [OF 1] split: prod.splits)
  qed (use Cons in \<open>auto split: prod.splits\<close>)
qed simp

text \<open>The whole merge: how strings, nodes, registrations and provenance of both graphs appear in the result.\<close>

lemma absorb_full:
  assumes wf: "graph_wf g" and wfs: "graph_wf sh" and rw: "\<not> g_readOnly g"
  obtains remap em where
    "graph_wf (absorb g sh)"
    "grows (g_interner g) (g_interner (absorb g sh))"
    "\<forall>k < internerSize (g_interner sh). remap ! k < internerSize (g_interner (absorb g sh)) \<and>
       resolve (g_interner (absorb g sh)) (remap ! k) = resolve (g_interner sh) k"
    "erefs (g_edges (absorb g sh)) =
       erefs (g_edges g) + image_mset (\<lambda>i. the (em ! i)) (erefs (g_edges sh))"
    "\<forall>i < length (g_edges g). keyOf (g_edges (absorb g sh) ! i) = keyOf (g_edges g ! i)"
    "\<forall>i < length (g_edges sh). live (g_edges sh ! i) \<longrightarrow> (\<exists>idx. em ! i = Some idx \<and>
       keyOf (g_edges (absorb g sh) ! idx) = keyOf (remapEdge remap (g_edges sh ! i)))"
    "\<forall>u. mset (um_get (g_tuEdges (absorb g sh)) u) = mset (um_get (g_tuEdges g) u) +
       sum_list (map (\<lambda>(t, idxs). if remap ! t = u then image_mset (\<lambda>i. the (em ! i)) (mset idxs)
         else {#}) (g_tuEdges sh))"
    "\<forall>k n. map_of (g_nodes sh) k = Some n \<longrightarrow> map_of (g_nodes (absorb g sh)) (remap ! k) =
       Some (case map_of (g_nodes g) (remap ! k) of None \<Rightarrow> n | Some old \<Rightarrow> backfill old n)"
    "\<forall>j. j \<notin> (\<lambda>k. remap ! k) ` fst ` set (g_nodes sh) \<longrightarrow>
       map_of (g_nodes (absorb g sh)) j = map_of (g_nodes g) j"
proof -
  note W = graph_wfD [OF wf] and S = graph_wfD [OF wfs]
  obtain remap it where 1: "intern_all intern (g_interner g) (strings (g_interner sh)) = (remap, it)"
    by (cases "intern_all intern (g_interner g) (strings (g_interner sh))")
  note I = intern_all_strings [OF W(1) S(1) 1] and gr = grows_intern_all [OF W(1) 1]
  have wit: "interner_wf it" using I by simp
  have R: "remap ! k < internerSize it" "resolve it (remap ! k) = resolve (g_interner sh) k"
    if "k < internerSize (g_interner sh)" for k using I that by auto
  let ?g1 = "g\<lparr>g_interner := it\<rparr>"
  have wf1: "graph_wf ?g1" using wf gr by (rule graph_wf_grows)
  let ?g2 = "fold (absorbNode sh remap) (g_nodes sh) ?g1"
  have key: "k < internerSize (g_interner sh) \<and> findId it (usr n) = Some (remap ! k)"
    if "(k, n) \<in> set (g_nodes sh)" for k n
  proof -
    have "map_of (g_nodes sh) k = Some n"
      using nodes_okD(1) [OF S(7)] that by (simp add: um_ok_def)
    then have "findId (g_interner sh) (usr n) = Some k" by (rule nodes_okD(2) [OF S(7)])
    then show ?thesis
      using R findId_iff [OF S(1)] findId_iff [OF wit] by auto
  qed
  then have m2: "merging ?g1 ?g2"
    using wf1 by (intro fold_absorbNode) auto
  have inj: "inj_on (\<lambda>k. remap ! k) {..<internerSize (g_interner sh)}"
    using R(2) findId_iff [OF S(1)] by (intro inj_onI) (metis lessThan_iff option.inject)
  have "inj_on (\<lambda>k. remap ! k) (fst ` set (g_nodes sh))"
    by (rule inj_on_subset [OF inj]) (use key in auto)
  note N = fold_absorbNode_nodes [OF nodes_okD(1) [OF S(7)] this, where sh = sh and g = ?g1]
  obtain g3 em where 3: "absorbEdges remap (g_edges sh) ?g2 = (g3, em)"
    by (cases "absorbEdges remap (g_edges sh) ?g2")
  have wf2: "graph_wf ?g2" and gr2: "grows it (g_interner ?g2)" and e2: "g_edges ?g2 = g_edges g"
    "g_tuEdges ?g2 = g_tuEdges g"
    using m2 by (simp_all add: merging_def)
  have R2: "remap ! k < internerSize (g_interner ?g2)"
    "resolve (g_interner ?g2) (remap ! k) = resolve (g_interner sh) k"
    if "k < internerSize (g_interner sh)" for k
    using R [OF that] grows_resolve [OF gr2] gr2 by (auto simp: grows_def)
  have "\<forall>e \<in> set (g_edges sh). remap ! caller e < internerSize (g_interner ?g2) \<and>
    remap ! callee e < internerSize (g_interner ?g2) \<and> remap ! callSite e < internerSize (g_interner ?g2)"
    using S(2) R2(1) by (auto simp: edges_ok_def)
  note A = absorbEdges_spec [OF wf2 3 this] and AN = absorbEdges_nodes [OF 3]
  let ?h = "\<lambda>i. the (em ! i)"
  have S6: "um_ok (g_tuEdges sh)" "tuMset (g_tuEdges sh) \<subseteq># erefs (g_edges sh)"
    "\<forall>t \<in> fst ` set (g_tuEdges sh). t < internerSize (g_interner sh)"
    using S(6) by (auto simp: tu_ok_def)
  have "i \<in># erefs (g_edges sh)" if "i \<in> set (um_get (g_tuEdges sh) t)" for i t
    using that mset_subset_eqD [OF subset_mset.order_trans
        [OF mset_get_subset_tuMset [OF S6(1), of t] S6(2)], of i] by simp
  then have em: "\<forall>t. \<forall>i \<in> set (um_get (g_tuEdges sh) t). em ! i = Some (?h i)"
    using A by (fastforce simp: in_erefs)
  have t3: "g_tuEdges g3 = g_tuEdges g" "g_interner g3 = g_interner ?g2" "graph_wf g3"
    "erefs (g_edges g3) = erefs (g_edges g) + image_mset ?h (erefs (g_edges sh))"
    using A e2 by auto
  have tok3: "tu_ok (g_interner g3) (g_edges g3) (g_tuEdges g)"
    using graph_wfD(6) [OF t3(3)] t3(1) by simp
  let ?tu = "fold (absorbTu remap em) (g_tuEdges sh) (g_tuEdges g)"
  have "um_ok (g_tuEdges g)" using W(6) by (simp add: tu_ok_def)
  note T = fold_absorbTu [OF this em S6(1)]
  let ?g4 = "g3\<lparr>g_tuEdges := ?tu\<rparr>"
  have "tu_ok (g_interner g3) (g_edges g3) ?tu"
    unfolding tu_ok_def
  proof (intro conjI ballI)
    show "um_ok ?tu" using T by blast
    have "tuMset ?tu = tuMset (g_tuEdges g) + image_mset ?h (tuMset (g_tuEdges sh))"
      using T by blast
    then show "tuMset ?tu \<subseteq># erefs (g_edges g3)"
      using W(6) S6(2) unfolding t3(4)
      by (auto simp: tu_ok_def intro!: subset_mset.add_mono image_mset_subseteq_mono)
    fix t assume "t \<in> fst ` set ?tu"
    then have "t \<in> fst ` set (g_tuEdges g) \<union> (\<lambda>t. remap ! t) ` fst ` set (g_tuEdges sh)"
      using T by blast
    then show "t < internerSize (g_interner g3)"
      using tok3 S6(3) R2(1) t3(2) by (auto simp: tu_ok_def)
  qed
  then have wf4: "graph_wf ?g4"
    using t3(3) by (simp add: graph_wf_def)
  have same: "sameEdges ?g4 (absorb g sh)"
  proof -
    let ?g5 = "?g4\<lparr>g_derivedClasses :=
        fold (absorbDerived remap) (g_derivedClasses sh) (g_derivedClasses ?g4)\<rparr>"
    let ?g6 = "fold (absorbOverrides remap) (g_methodOverrides sh) ?g5"
    let ?g7 = "?g6\<lparr>g_effectiveImplClasses :=
        fold (absorbImpls remap) (g_effectiveImplClasses sh) (g_effectiveImplClasses ?g6)\<rparr>"
    have eq: "absorb g sh = fold (absorbReturns remap) (g_functionReturns sh) ?g7"
      using rw 1 3 t3(1) by (simp add: absorb_def Let_def)
    have 5: "sameEdges ?g4 ?g5" and 7: "sameEdges ?g6 ?g7" by (simp_all add: sameEdges_def)
    have 6: "sameEdges ?g5 ?g6" using absorbOverrides_sameEdges by (rule sameEdges_fold)
    have "sameEdges ?g7 (fold (absorbReturns remap) (g_functionReturns sh) ?g7)"
      using absorbReturns_sameEdges by (rule sameEdges_fold)
    then show ?thesis
      unfolding eq by (rule sameEdges_trans [OF sameEdges_trans [OF sameEdges_trans [OF 5 6] 7]])
  qed
  then have F: "graph_wf (absorb g sh)" "g_interner (absorb g sh) = g_interner ?g2"
    "g_edges (absorb g sh) = g_edges g3" "g_tuEdges (absorb g sh) = ?tu"
    "g_nodes (absorb g sh) = g_nodes ?g2"
    using wf4 t3(2) AN by (simp_all add: sameEdges_def)
  show thesis
  proof (rule that [of remap em])
    show "grows (g_interner g) (g_interner (absorb g sh))"
      unfolding F(2) using gr gr2 by (rule grows_trans)
    show "\<forall>i < length (g_edges g). keyOf (g_edges (absorb g sh) ! i) = keyOf (g_edges g ! i)"
      using A unfolding F(3) e2 by blast
    show "\<forall>i < length (g_edges sh). live (g_edges sh ! i) \<longrightarrow> (\<exists>idx. em ! i = Some idx \<and>
       keyOf (g_edges (absorb g sh) ! idx) = keyOf (remapEdge remap (g_edges sh ! i)))"
      using A unfolding F(3) by blast
    show "\<forall>u. mset (um_get (g_tuEdges (absorb g sh)) u) = mset (um_get (g_tuEdges g) u) +
       sum_list (map (\<lambda>(t, idxs). if remap ! t = u then image_mset (\<lambda>i. the (em ! i)) (mset idxs)
         else {#}) (g_tuEdges sh))"
      using T unfolding F(4) by blast
    show "\<forall>k n. map_of (g_nodes sh) k = Some n \<longrightarrow> map_of (g_nodes (absorb g sh)) (remap ! k) =
       Some (case map_of (g_nodes g) (remap ! k) of None \<Rightarrow> n | Some old \<Rightarrow> backfill old n)"
      unfolding F(5) using N [THEN conjunct1] by simp
    show "\<forall>j. j \<notin> (\<lambda>k. remap ! k) ` fst ` set (g_nodes sh) \<longrightarrow>
       map_of (g_nodes (absorb g sh)) j = map_of (g_nodes g) j"
      unfolding F(5) using N [THEN conjunct2] by simp
    show "\<forall>k < internerSize (g_interner sh). remap ! k < internerSize (g_interner (absorb g sh)) \<and>
       resolve (g_interner (absorb g sh)) (remap ! k) = resolve (g_interner sh) k"
      unfolding F(2) using R2 by blast
    show "erefs (g_edges (absorb g sh)) =
       erefs (g_edges g) + image_mset (\<lambda>i. the (em ! i)) (erefs (g_edges sh))"
      unfolding F(3) by (rule t3(4))
  qed (rule F(1))
qed

end
