(* ===== verification/CallGraphSpec.thy ===== *)
theory CallGraphSpec
  imports CallGraphMerge
begin

text \<open>
  The abstract view of the call graph's edges: a ledger of registrations. An edge of the
  program is its text (\<open>edge_text\<close>: caller, callee and call site as strings, and the four
  scalar fields); \<open>regs g\<close> is the multiset of live registrations and \<open>tuRegs g p\<close> the
  part of it that translation unit \<open>p\<close> contributed. Interning, the deduplicating edge
  table, its indices, tombstones and the renumberings of merge and compaction are invisible
  here: each mutator acts on the ledger by adding or subtracting multisets. The locale
  \<open>edge_ledger\<close> states these laws and derives what the incremental index relies on; it is
  interpreted on the operations of the model.
\<close>

section \<open>The ledger\<close>

type_synonym edge_text =
  "string \<times> string \<times> string \<times> EdgeKind \<times> Confidence \<times> ExecutionContext \<times> nat"

definition textOf :: "interner \<Rightarrow> EdgeRef \<Rightarrow> edge_text" where
  "textOf it r = (resolve it (caller r), resolve it (callee r), resolve it (callSite r), kind r,
     confidence r, execContext r, indirectionDepth r)"

definition edgeText :: "call_graph \<Rightarrow> nat \<Rightarrow> edge_text" where
  "edgeText g i = textOf (g_interner g) (keyOf (g_edges g ! i))"

definition regs :: "call_graph \<Rightarrow> edge_text multiset" where
  "regs g = image_mset (edgeText g) (erefs (g_edges g))"

definition tuRegs :: "call_graph \<Rightarrow> string \<Rightarrow> edge_text multiset" where
  "tuRegs g p = (case findId (g_interner g) (toIndexText p) of
     None \<Rightarrow> {#}
   | Some t \<Rightarrow> image_mset (edgeText g) (mset (um_get (g_tuEdges g) t)))"

text \<open>The ledger entry of an edge as the indexer reports it.\<close>

definition callText :: "CallGraphEdge \<Rightarrow> edge_text" where
  "callText e = (toIndexText (callerName e), toIndexText (calleeName e),
     toIndexText (edgeCallSite e), edgeKind e, edgeConfidence e, edgeExecContext e,
     edgeIndirectionDepth e)"

definition writable :: "call_graph \<Rightarrow> bool" where
  "writable g \<longleftrightarrow> graph_wf g \<and> \<not> g_readOnly g"

section \<open>Stability of texts\<close>

lemma textOf_grows:
  assumes "grows it it'" and "caller r < internerSize it" "callee r < internerSize it"
    "callSite r < internerSize it"
  shows "textOf it' r = textOf it r"
  using assms by (simp add: textOf_def grows_resolve)

lemma edges_ok_key:
  assumes "edges_ok it es" and "i < length es"
  shows "caller (es ! i) < internerSize it" "callee (es ! i) < internerSize it"
    "callSite (es ! i) < internerSize it"
  using assms nth_mem [OF assms(2)] by (auto simp: edges_ok_def)

lemma edgeText_stable:
  assumes "graph_wf g" and "grows (g_interner g) (g_interner g')" and "i < length (g_edges g)"
    and "keyOf (g_edges g' ! i) = keyOf (g_edges g ! i)"
  shows "edgeText g' i = edgeText g i"
  unfolding edgeText_def assms(4)
  using edges_ok_key [OF graph_wfD(2) [OF assms(1)] assms(3)]
  by (intro textOf_grows [OF assms(2)]) auto

lemma tu_index_live:
  assumes "graph_wf g" and "i \<in> set (um_get (g_tuEdges g) t)"
  shows "i < length (g_edges g)" and "live (g_edges g ! i)"
proof -
  have "tuMset (g_tuEdges g) \<subseteq># erefs (g_edges g)" "um_ok (g_tuEdges g)"
    using graph_wfD(6) [OF assms(1)] by (auto simp: tu_ok_def)
  then have "i \<in># erefs (g_edges g)"
    using assms(2) mset_subset_eqD [OF subset_mset.order_trans
        [OF mset_get_subset_tuMset [of "g_tuEdges g" t]], of _ i] by simp
  then show "i < length (g_edges g)" and "live (g_edges g ! i)"
    by (auto simp: in_erefs)
qed

lemma regs_stable:
  assumes "graph_wf g" and "grows (g_interner g) (g_interner g')"
    and "\<forall>i < length (g_edges g). keyOf (g_edges g' ! i) = keyOf (g_edges g ! i)"
  shows "image_mset (edgeText g') (erefs (g_edges g)) = regs g"
    and "image_mset (edgeText g') (mset (um_get (g_tuEdges g) t)) =
      image_mset (edgeText g) (mset (um_get (g_tuEdges g) t))"
  unfolding regs_def using assms edgeText_stable [OF assms(1,2)] tu_index_live [OF assms(1)]
  by (auto intro!: image_mset_cong simp: in_erefs)

lemma find_unknown:
  assumes "graph_wf g" and "grows (g_interner g) it" and "findId it s = Some t"
    and "findId (g_interner g) s = None"
  shows "um_get (g_tuEdges g) t = []"
proof (rule ccontr)
  assume "um_get (g_tuEdges g) t \<noteq> []"
  then have "t \<in> fst ` set (g_tuEdges g)"
    by (metis map_of_eq_None_iff um_get_None)
  then have lt: "t < internerSize (g_interner g)"
    using graph_wfD(6) [OF assms(1)] unfolding tu_ok_def by blast
  have "resolve it t = s"
    using assms(2,3) findId_iff by (auto simp: grows_def)
  then have "findId (g_interner g) s = Some t"
    using lt grows_resolve [OF assms(2) lt] findId_iff [OF graph_wfD(1) [OF assms(1)]] by simp
  with assms(4) show False by simp
qed

text \<open>
  Reading a unit's part of the ledger through any later id table: the id of the path in the
  grown interner finds the same entries.
\<close>

lemma tuRegs_grows:
  assumes "graph_wf g" and "grows (g_interner g) it" and "findId it (toIndexText p) = Some t"
  shows "tuRegs g p = image_mset (edgeText g) (mset (um_get (g_tuEdges g) t))"
proof (cases "findId (g_interner g) (toIndexText p)")
  case None
  then show ?thesis
    using find_unknown [OF assms None] by (simp add: tuRegs_def)
next
  case (Some t')
  then have "t' = t" using find_grows [OF assms(2) Some] assms(3) by simp
  with Some show ?thesis by (simp add: tuRegs_def)
qed

lemma tuRegs_none:
  assumes "grows (g_interner g) it" and "findId it (toIndexText p) = None"
  shows "tuRegs g p = {#}"
  using assms find_grows [OF assms(1)] by (cases "findId (g_interner g) (toIndexText p)") (auto simp: tuRegs_def)

lemma path_of_id:
  assumes "interner_wf it" and "findId it (toIndexText p) = Some t"
    and "findId it (toIndexText q) = Some t"
  shows "p = q"
proof -
  have "toIndexText p = toIndexText q"
    using assms(2,3) findId_iff [OF assms(1)] by auto
  then show ?thesis by simp
qed

section \<open>The mutators on the ledger\<close>

lemma addEdge_readOnly:
  assumes wf: "graph_wf g"
  shows "g_readOnly (addEdge g e p) = g_readOnly g"
proof (cases "g_readOnly g")
  case False
  from addEdge_steps [OF wf False, of e p]
  obtain c d s g3 idx g4 where "sameBut g g3" and 4: "registerEdge g3 (edgeRecord e c d s) = (idx, g4)"
    and no: "p = [] \<Longrightarrow> addEdge g e p = g4"
    and yes: "p \<noteq> [] \<Longrightarrow> \<exists>t g5. interned g4 (toIndexText p) t g5 \<and> addEdge g e p = tagTuEdge g5 t idx"
    by metis
  then have "g_readOnly g4 = g_readOnly g"
    by (simp add: sameBut_fields registerEdge_fields(4) [OF 4])
  then show ?thesis
    using no yes by (cases "p = []") (auto simp: tagTuEdge_def interned_fields)
qed (simp add: addEdge_def)

lemma addEdge_ledger:
  assumes wf: "graph_wf g" and rw: "\<not> g_readOnly g"
  shows "regs (addEdge g e p) = add_mset (callText e) (regs g) \<and>
    tuRegs (addEdge g e p) q =
      (if p \<noteq> [] \<and> q = p then add_mset (callText e) (tuRegs g q) else tuRegs g q)"
proof -
  from addEdge_steps [OF wf rw, of e p]
  obtain c d s g3 idx g4 where same: "sameBut g g3"
    and f: "findId (g_interner g3) (toIndexText (callerName e)) = Some c"
      "findId (g_interner g3) (toIndexText (calleeName e)) = Some d"
      "findId (g_interner g3) (toIndexText (edgeCallSite e)) = Some s"
    and 4: "registerEdge g3 (edgeRecord e c d s) = (idx, g4)"
    and wf3: "graph_wf g3" and wf4: "graph_wf g4"
    and no: "p = [] \<Longrightarrow> addEdge g e p = g4"
    and yes: "p \<noteq> [] \<Longrightarrow> \<exists>t g5. interned g4 (toIndexText p) t g5 \<and> addEdge g e p = tagTuEdge g5 t idx"
    by metis
  note B = sameBut_fields [OF same] and R = registerEdge_edges [OF wf3 4]
    and F = registerEdge_fields [OF 4]
  define g' where "g' = addEdge g e p"
  have g': "g_edges g' = g_edges g4 \<and> grows (g_interner g4) (g_interner g') \<and>
    (if p = [] then g_tuEdges g' = g_tuEdges g
     else \<exists>t. findId (g_interner g') (toIndexText p) = Some t \<and> g_tuEdges g' = um_push (g_tuEdges g) t idx)"
  proof (cases "p = []")
    case True
    then show ?thesis using no graph_wfD(1) [OF wf4] F B by (simp add: g'_def)
  next
    case False
    with yes obtain t g5 where i5: "interned g4 (toIndexText p) t g5"
      and eq: "g' = tagTuEdge g5 t idx" unfolding g'_def by blast
    show ?thesis
      using False interned_facts [OF i5] interned_fields [OF i5] F B
      by (auto simp: eq tagTuEdge_def)
  qed
  have gr: "grows (g_interner g) (g_interner g')"
    using g' B(5) F(1) grows_trans by metis
  have keys: "\<forall>i < length (g_edges g). keyOf (g_edges g' ! i) = keyOf (g_edges g ! i)"
    using R B g' by simp
  have k: "keyOf (g_edges g' ! idx) = keyOf (edgeRecord e c d s)" using R g' by simp
  have idx: "edgeText g' idx = callText e"
  proof -
    have "resolve (g_interner g') j = w" if "findId (g_interner g3) w = Some j" for w j
      using that g' F(1) findId_iff by (metis find_grows grows_def)
    then show ?thesis
      unfolding edgeText_def k using f
      by (simp add: textOf_def callText_def) (simp add: edgeRecord_def)
  qed
  have "regs g' = add_mset (callText e) (regs g)"
    using R B g' regs_stable(1) [OF wf gr keys] idx by (simp add: regs_def [of g'])
  moreover have "tuRegs g' q =
      (if p \<noteq> [] \<and> q = p then add_mset (callText e) (tuRegs g q) else tuRegs g q)"
  proof (cases "findId (g_interner g') (toIndexText q)")
    case None
    with g' show ?thesis
      using tuRegs_none [OF gr None] by (auto simp: tuRegs_def split: if_splits)
  next
    case (Some u)
    have base: "tuRegs g q = image_mset (edgeText g') (mset (um_get (g_tuEdges g) u))"
      unfolding tuRegs_grows [OF wf gr Some] by (rule regs_stable(2) [OF wf gr keys, symmetric])
    have "q = p" if "findId (g_interner g') (toIndexText p) = Some u"
      using path_of_id [OF _ Some that] gr by (simp add: grows_def)
    then show ?thesis
      using g' Some idx base by (auto simp: tuRegs_def [of g'] split: if_splits)
  qed
  ultimately show ?thesis unfolding g'_def ..
qed


subsection \<open>Merge\<close>

lemma absorbEdges_readOnly: "g_readOnly (fst (absorbEdges remap es g)) = g_readOnly g"
proof (induction es arbitrary: g)
  case (Cons e es)
  obtain idx g1 where 1: "registerEdge g (remapEdge remap e) = (idx, g1)"
    by (cases "registerEdge g (remapEdge remap e)")
  show ?case
    using Cons.IH [of g] Cons.IH [of g1] registerEdge_fields(4) [OF 1]
    by (simp add: 1 split_beta Let_def)
qed simp

lemma fold_readOnly:
  "(\<And>x g. g_readOnly (f x g) = g_readOnly g) \<Longrightarrow> g_readOnly (fold f xs g) = g_readOnly g"
  by (induction xs arbitrary: g) simp_all

lemma absorb_readOnly: "g_readOnly (absorb g sh) = g_readOnly g"
proof -
  have c: "g_readOnly (fold (\<lambda>t g. contribute g k (f t)) ts g) = g_readOnly g"
    for k and f :: "nat \<Rightarrow> nat" and ts g
    by (rule fold_readOnly) simp
  have n: "g_readOnly (absorbNode sh remap x g) = g_readOnly g" for remap x g
    by (auto simp: absorbNode_def c insertNode_def internStr_def Let_def split: option.split prod.split)
  have o': "g_readOnly (absorbOverrides remap x g) = g_readOnly g" for remap x g
    by (auto simp: absorbOverrides_def linkOverride_def split: prod.split intro!: fold_readOnly)
  have r: "g_readOnly (absorbReturns remap x g) = g_readOnly g" for remap x g
    by (auto simp: absorbReturns_def linkReturn_def split: prod.split if_splits intro!: fold_readOnly)
  show ?thesis
    by (simp add: absorb_def Let_def split_beta fold_readOnly [OF n] fold_readOnly [OF o']
        fold_readOnly [OF r] absorbEdges_readOnly)
qed

lemma sum_remapped:
  assumes "um_ok tu" and "\<forall>t' \<in> fst ` set tu. f t' = u \<longleftrightarrow> t' = t"
  shows "sum_list (map (\<lambda>(t, idxs). if f t = u then image_mset h (mset idxs) else {#}) tu) =
    image_mset h (mset (um_get tu t))"
  using assms
proof (induction tu)
  case (Cons a tu)
  obtain t' v where a: "a = (t', v)" by (cases a)
  have "um_get tu t = []" if "t' = t"
    using Cons.prems(1) that by (simp add: a map_of_eq_None_iff)
  then show ?case
    using Cons by (auto simp: a um_get_def)
qed simp

lemma sum_unmapped:
  "\<forall>t \<in> fst ` set tu. f t \<noteq> u \<Longrightarrow>
    sum_list (map (\<lambda>(t, idxs). if f t = u then image_mset h (mset idxs) else {#}) tu) = {#}"
  by (induction tu) auto

lemma absorb_ledger:
  assumes wf: "graph_wf g" and wfs: "graph_wf sh" and rw: "\<not> g_readOnly g"
  shows "regs (absorb g sh) = regs g + regs sh \<and>
    tuRegs (absorb g sh) p = tuRegs g p + tuRegs sh p"
proof -
  define g' where "g' = absorb g sh"
  obtain remap em where wf': "graph_wf g'"
    and gr: "grows (g_interner g) (g_interner g')"
    and R: "\<forall>k < internerSize (g_interner sh). remap ! k < internerSize (g_interner g') \<and>
       resolve (g_interner g') (remap ! k) = resolve (g_interner sh) k"
    and er: "erefs (g_edges g') =
       erefs (g_edges g) + image_mset (\<lambda>i. the (em ! i)) (erefs (g_edges sh))"
    and keys: "\<forall>i < length (g_edges g). keyOf (g_edges g' ! i) = keyOf (g_edges g ! i)"
    and em: "\<forall>i < length (g_edges sh). live (g_edges sh ! i) \<longrightarrow> (\<exists>idx. em ! i = Some idx \<and>
       keyOf (g_edges g' ! idx) = keyOf (remapEdge remap (g_edges sh ! i)))"
    and tu: "\<forall>u. mset (um_get (g_tuEdges g') u) = mset (um_get (g_tuEdges g) u) +
       sum_list (map (\<lambda>(t, idxs). if remap ! t = u then image_mset (\<lambda>i. the (em ! i)) (mset idxs)
         else {#}) (g_tuEdges sh))"
    unfolding g'_def by (rule absorb_full [OF wf wfs rw]) (rule that [unfolded g'_def])
  note S = graph_wfD [OF wfs] and I' = graph_wfD(1) [OF wf']
  have new: "edgeText g' (the (em ! i)) = edgeText sh i" if "i < length (g_edges sh)" "live (g_edges sh ! i)" for i
  proof -
    from em that obtain idx where idx: "em ! i = Some idx"
      and k: "keyOf (g_edges g' ! idx) = keyOf (remapEdge remap (g_edges sh ! i))" by blast
    note E = edges_ok_key [OF S(2) that(1)]
    show ?thesis
      using R E by (simp add: edgeText_def idx k textOf_def) (simp add: remapEdge_def)
  qed
  have "image_mset (\<lambda>i. edgeText g' (the (em ! i))) (erefs (g_edges sh)) = regs sh"
    unfolding regs_def by (rule image_mset_cong) (simp add: in_erefs new)
  then have "regs g' = regs g + regs sh"
    using regs_stable(1) [OF wf gr keys]
    by (simp add: regs_def [of g'] er image_mset.compositionality comp_def)
  moreover have "tuRegs g' p = tuRegs g p + tuRegs sh p"
  proof (cases "findId (g_interner g') (toIndexText p)")
    case None
    have "findId (g_interner sh) (toIndexText p) = None"
    proof (rule ccontr)
      assume "findId (g_interner sh) (toIndexText p) \<noteq> None"
      then obtain t where "t < internerSize (g_interner sh)" "resolve (g_interner sh) t = toIndexText p"
        using findId_iff [OF S(1)] by blast
      with R None show False using findId_iff [OF I'] by (metis option.distinct(1))
    qed
    with None tuRegs_none [OF gr None] show ?thesis by (simp add: tuRegs_def)
  next
    case (Some u)
    have ru: "resolve (g_interner g') u = toIndexText p" using Some findId_iff [OF I'] by blast
    have tk: "um_ok (g_tuEdges sh)" "\<forall>t \<in> fst ` set (g_tuEdges sh). t < internerSize (g_interner sh)"
      using S(6) unfolding tu_ok_def by auto
    have iff: "remap ! t = u \<longleftrightarrow> findId (g_interner sh) (toIndexText p) = Some t"
      if "t < internerSize (g_interner sh)" for t
      using R that ru findId_iff [OF S(1)] findId_iff [OF I'] Some by (metis option.inject)
    have "image_mset (edgeText g') (sum_list (map (\<lambda>(t, idxs). if remap ! t = u
        then image_mset (\<lambda>i. the (em ! i)) (mset idxs) else {#}) (g_tuEdges sh))) = tuRegs sh p"
    proof (cases "findId (g_interner sh) (toIndexText p)")
      case None
      then have "\<forall>t \<in> fst ` set (g_tuEdges sh). remap ! t \<noteq> u"
        using iff tk(2) by auto
      from sum_unmapped [OF this] None show ?thesis by (simp add: tuRegs_def)
    next
      case found: (Some t)
      have iff': "\<forall>t' \<in> fst ` set (g_tuEdges sh). remap ! t' = u \<longleftrightarrow> t' = t"
        using iff tk(2) found by auto
      have "image_mset (edgeText g' \<circ> (\<lambda>i. the (em ! i))) (mset (um_get (g_tuEdges sh) t)) =
        image_mset (edgeText sh) (mset (um_get (g_tuEdges sh) t))"
        using tu_index_live [OF wfs] new by (intro image_mset_cong) auto
      then show ?thesis
        unfolding sum_remapped [OF tk(1) iff'] using found
        by (simp add: tuRegs_def image_mset.compositionality)
    qed
    then show ?thesis
      using Some tu regs_stable(2) [OF wf gr keys]
      by (simp add: tuRegs_def [of g'] tuRegs_grows [OF wf gr Some])
  qed
  ultimately show ?thesis unfolding g'_def ..
qed


subsection \<open>Removal and compaction\<close>

lemma fresh_Nil_set [simp]: "set (fresh [] xs) = set xs"
  by (simp add: fresh_set)

lemma set_tuIdsOf:
  "set (tuIdsOf g ps) = {t. \<exists>p \<in> set ps. findId (g_interner g) (toIndexText p) = Some t}"
  by (force simp: tuIdsOf_def List.map_filter_def)

lemma sum_get_subset_tuMset:
  "um_ok m \<Longrightarrow> distinct ts \<Longrightarrow> sum_list (map (\<lambda>t. mset (um_get m t)) ts) \<subseteq># tuMset m"
proof (induction ts arbitrary: m)
  case (Cons t ts)
  have eq: "map (\<lambda>u. mset (um_get (um_erase m t) u)) ts = map (\<lambda>u. mset (um_get m u)) ts"
    using Cons.prems(2) by auto
  have "sum_list (map (\<lambda>u. mset (um_get (um_erase m t) u)) ts) \<subseteq># tuMset (um_erase m t)"
    using Cons.prems by (intro Cons.IH) auto
  then have "sum_list (map (\<lambda>u. mset (um_get m u)) ts) \<subseteq># tuMset (um_erase m t)"
    unfolding eq .
  then show ?case
    using tuMset_erase [OF Cons.prems(1), of t]
    by (metis (no_types, lifting) add.commute list.simps(9) subset_mset.add_le_cancel_left sum_list.Cons)
qed simp

lemma tuRefs_subset: "graph_wf g \<Longrightarrow> distinct ts \<Longrightarrow> tuRefs g ts \<subseteq># erefs (g_edges g)"
  using graph_wfD(6) [of g] sum_get_subset_tuMset [of "g_tuEdges g" ts]
  by (auto simp: tu_ok_def tuRefs_def)

lemma tuRefs_image:
  "image_mset f (tuRefs g ts) = sum_list (map (\<lambda>t. image_mset f (mset (um_get (g_tuEdges g) t))) ts)"
  by (induction ts) (simp_all add: tuRefs_def)

text \<open>The units of a batch, each counted once, by path or by id.\<close>

lemma sum_tuRegs:
  assumes "graph_wf g"
  shows "image_mset (edgeText g) (tuRefs g (tuIdsOf g ps)) = (\<Sum>p \<in> set ps. tuRegs g p)"
proof -
  let ?f = "\<lambda>p. findId (g_interner g) (toIndexText p)"
  let ?P = "{p \<in> set ps. ?f p \<noteq> None}"
  let ?T = "\<lambda>t. image_mset (edgeText g) (mset (um_get (g_tuEdges g) t))"
  have inj: "inj_on (\<lambda>p. the (?f p)) ?P"
  proof (rule inj_onI)
    fix p q assume pq: "p \<in> ?P" "q \<in> ?P" "the (?f p) = the (?f q)"
    then obtain t where "?f p = Some t" "?f q = Some t" by auto
    then show "p = q" by (rule path_of_id [OF graph_wfD(1) [OF assms]])
  qed
  have "(\<Sum>p \<in> set ps. tuRegs g p) = (\<Sum>p \<in> ?P. tuRegs g p)"
    by (rule sum.mono_neutral_right) (auto simp: tuRegs_def)
  also have "\<dots> = (\<Sum>p \<in> ?P. ?T (the (?f p)))"
    by (rule sum.cong) (auto simp: tuRegs_def)
  also have "\<dots> = (\<Sum>t \<in> (\<lambda>p. the (?f p)) ` ?P. ?T t)"
    using inj by (simp add: sum.reindex)
  also have "(\<lambda>p. the (?f p)) ` ?P = set (tuIdsOf g ps)"
    by (force simp: set_tuIdsOf)
  also have "(\<Sum>t \<in> set (tuIdsOf g ps). ?T t) = sum_list (map ?T (tuIdsOf g ps))"
    by (rule sum_list_distinct_conv_sum_set [symmetric]) (simp add: tuIdsOf_def fresh_distinct)
  finally show ?thesis by (simp add: tuRefs_image)
qed

lemma removeTUs_ledger:
  assumes wf: "graph_wf g" and rw: "\<not> g_readOnly g" and eq: "removeTUs g ps = (n, g')"
  shows "regs g' = regs g - (\<Sum>p \<in> set ps. tuRegs g p) \<and>
    (\<Sum>p \<in> set ps. tuRegs g p) \<subseteq># regs g \<and>
    tuRegs g' q = (if q \<in> set ps then {#} else tuRegs g q)"
proof -
  note F = removeTUs_full [OF wf rw eq]
  let ?ts = "tuIdsOf g ps"
  have same: "edgeText g' i = edgeText g i" if "i < length (g_edges g)" for i
    using F(2,4) that by (simp add: edgeText_def)
  have sub: "tuRefs g ?ts \<subseteq># erefs (g_edges g)"
    using tuRefs_subset [OF wf] by (simp add: tuIdsOf_def fresh_distinct)
  have "image_mset (edgeText g') (erefs (g_edges g')) = image_mset (edgeText g) (erefs (g_edges g) - tuRefs g ?ts)"
    unfolding F(5) by (rule image_mset_cong) (auto simp: in_erefs dest!: in_diffD intro: same)
  then have "regs g' = regs g - (\<Sum>p \<in> set ps. tuRegs g p)"
    using image_mset_Diff [OF sub, of "edgeText g"] sum_tuRegs [OF wf, of ps] by (simp add: regs_def)
  moreover have "(\<Sum>p \<in> set ps. tuRegs g p) \<subseteq># regs g"
    using image_mset_subseteq_mono [OF sub, of "edgeText g"] sum_tuRegs [OF wf, of ps]
    by (simp add: regs_def)
  moreover have "tuRegs g' q = (if q \<in> set ps then {#} else tuRegs g q)"
  proof (cases "findId (g_interner g) (toIndexText q)")
    case (Some t)
    have "p = q" if "findId (g_interner g) (toIndexText p) = Some t" for p
      using that Some by (rule path_of_id [OF graph_wfD(1) [OF wf]])
    then have "t \<in> set ?ts \<longleftrightarrow> q \<in> set ps"
      using Some unfolding set_tuIdsOf by blast
    moreover have "image_mset (edgeText g') (mset (um_get (g_tuEdges g) t)) =
      image_mset (edgeText g) (mset (um_get (g_tuEdges g) t))"
      using tu_index_live(1) [OF wf] by (intro image_mset_cong) (auto intro: same)
    ultimately show ?thesis
      using Some F(2,6) by (simp add: tuRegs_def)
  qed (simp add: tuRegs_def F(2))
  ultimately show ?thesis by blast
qed

lemma compact_ledger:
  assumes wf: "graph_wf g" and rw: "\<not> g_readOnly g"
  shows "regs (compact g) = regs g \<and> tuRegs (compact g) p = tuRegs g p"
proof -
  note F = compact_full [OF wf rw]
  let ?es = "g_edges g"
  have same: "edgeText (compact g) (rank ?es i) = edgeText g i" if "i < length ?es" "live (?es ! i)" for i
    using rank_nth [OF that] by (simp add: edgeText_def F(2,3))
  have "image_mset (edgeText (compact g) \<circ> rank ?es) (erefs ?es) = image_mset (edgeText g) (erefs ?es)"
    by (rule image_mset_cong) (auto simp: in_erefs intro: same)
  then have "regs (compact g) = regs g"
    by (simp add: regs_def F(2) erefs_filter image_mset.compositionality)
  moreover have "image_mset (edgeText (compact g) \<circ> rank ?es) (mset (um_get (g_tuEdges g) t)) =
    image_mset (edgeText g) (mset (um_get (g_tuEdges g) t))" for t
    using tu_index_live [OF wf] by (intro image_mset_cong) (auto intro: same)
  then have "tuRegs (compact g) p = tuRegs g p"
    by (simp add: tuRegs_def F(3,4) image_mset.compositionality flip: mset_map split: option.split)
  ultimately show ?thesis ..
qed

lemma edgeCount_ledger:
  assumes wf: "graph_wf g"
  shows "edgeCount g = card (set_mset (regs g))"
proof -
  note W = graph_wfD [OF wf]
  let ?L = "{i. i < length (g_edges g) \<and> live (g_edges g ! i)}"
  have res: "i = j" if "resolve (g_interner g) i = resolve (g_interner g) j"
    "i < internerSize (g_interner g)" "j < internerSize (g_interner g)" for i j
    using that findId_iff [OF W(1)] by (metis option.inject)
  have "inj_on (edgeText g) ?L"
  proof (rule inj_onI)
    fix i j assume ij: "i \<in> ?L" "j \<in> ?L" "edgeText g i = edgeText g j"
    then have "keyOf (g_edges g ! i) = keyOf (g_edges g ! j)"
      using edges_ok_key [OF W(2), of i] edges_ok_key [OF W(2), of j]
      by (auto simp: edgeText_def textOf_def keyOf_eq_iff intro: res)
    then show "i = j"
      using W(3) ij unfolding index_ok_def by (metis (no_types, lifting) mem_Collect_eq option.inject)
  qed
  then have "card (edgeText g ` ?L) = card ?L" by (rule card_image)
  moreover have "edgeText g ` ?L = set_mset (regs g)"
    by (auto simp: regs_def in_erefs)
  ultimately show ?thesis
    using W(3) by (simp add: edgeCount_def index_ok_def length_filter_conv_card)
qed


section \<open>The contract of an edge ledger\<close>

text \<open>
  What the incremental indexer relies on: every graph it holds is \<open>ok\<close>; recording an edge
  under a unit, merging a shard and removing units act on the ledger additively.
\<close>

locale edge_ledger =
  fixes ok :: "'g \<Rightarrow> bool"
    and all_of :: "'g \<Rightarrow> 'e multiset"
    and unit_of :: "'g \<Rightarrow> string \<Rightarrow> 'e multiset"
    and record_edge :: "'g \<Rightarrow> 'c \<Rightarrow> string \<Rightarrow> 'g"
    and entry :: "'c \<Rightarrow> 'e"
    and merge :: "'g \<Rightarrow> 'g \<Rightarrow> 'g"
    and drop_units :: "'g \<Rightarrow> string list \<Rightarrow> 'g"
    and squeeze :: "'g \<Rightarrow> 'g"
  assumes ok_record: "ok g \<Longrightarrow> ok (record_edge g e p)"
    and ok_merge: "ok g \<Longrightarrow> ok h \<Longrightarrow> ok (merge g h)"
    and ok_drop: "ok g \<Longrightarrow> ok (drop_units g ps)"
    and ok_squeeze: "ok g \<Longrightarrow> ok (squeeze g)"
    and all_record: "ok g \<Longrightarrow> all_of (record_edge g e p) = add_mset (entry e) (all_of g)"
    and unit_record: "ok g \<Longrightarrow> unit_of (record_edge g e p) q =
      (if p \<noteq> [] \<and> q = p then add_mset (entry e) (unit_of g q) else unit_of g q)"
    and all_merge: "ok g \<Longrightarrow> ok h \<Longrightarrow> all_of (merge g h) = all_of g + all_of h"
    and unit_merge: "ok g \<Longrightarrow> ok h \<Longrightarrow> unit_of (merge g h) q = unit_of g q + unit_of h q"
    and units_sub: "ok g \<Longrightarrow> (\<Sum>p \<in> set ps. unit_of g p) \<subseteq># all_of g"
    and all_drop: "ok g \<Longrightarrow> all_of (drop_units g ps) = all_of g - (\<Sum>p \<in> set ps. unit_of g p)"
    and unit_drop: "ok g \<Longrightarrow> unit_of (drop_units g ps) q = (if q \<in> set ps then {#} else unit_of g q)"
    and all_squeeze: "ok g \<Longrightarrow> all_of (squeeze g) = all_of g"
    and unit_squeeze: "ok g \<Longrightarrow> unit_of (squeeze g) q = unit_of g q"
begin

definition same :: "'g \<Rightarrow> 'g \<Rightarrow> bool" where
  "same g h \<longleftrightarrow> all_of g = all_of h \<and> unit_of g = unit_of h"

definition only_unit :: "'g \<Rightarrow> string \<Rightarrow> bool" where
  "only_unit g p \<longleftrightarrow> all_of g = unit_of g p \<and> (\<forall>q. q \<noteq> p \<longrightarrow> unit_of g q = {#})"

lemma merge_order:
  assumes "ok g" "ok a" "ok b"
  shows "same (merge (merge g a) b) (merge (merge g b) a)"
  using assms by (simp add: same_def fun_eq_iff ok_merge all_merge unit_merge ac_simps)

lemma merge_assoc:
  assumes "ok g" "ok a" "ok b"
  shows "same (merge (merge g a) b) (merge g (merge a b))"
  using assms by (simp add: same_def fun_eq_iff ok_merge all_merge unit_merge ac_simps)

lemma drop_merged:
  assumes "ok g" "ok s" and "only_unit s p" and "unit_of g p = {#}"
  shows "same (drop_units (merge g s) [p]) g"
  using assms
  by (auto simp: same_def only_unit_def fun_eq_iff ok_merge all_merge unit_merge all_drop unit_drop)

lemma drop_append:
  assumes "ok g"
  shows "same (drop_units (drop_units g ps) qs) (drop_units g (ps @ qs))"
proof -
  have "(\<Sum>q \<in> set qs. unit_of (drop_units g ps) q) = (\<Sum>q \<in> set qs - set ps. unit_of g q)"
    by (rule sum.mono_neutral_cong_right) (auto simp: unit_drop [OF assms])
  moreover have "set (ps @ qs) = set ps \<union> (set qs - set ps)" by auto
  then have "(\<Sum>q \<in> set (ps @ qs). unit_of g q) =
    (\<Sum>q \<in> set ps. unit_of g q) + (\<Sum>q \<in> set qs - set ps. unit_of g q)"
    by (simp only:) (rule sum.union_disjoint, auto)
  ultimately show ?thesis
    using assms by (auto simp: same_def fun_eq_iff ok_drop all_drop unit_drop)
qed

text \<open>Re-indexing a unit: the old shard leaves no trace.\<close>

lemma replace_unit:
  assumes "ok g" "ok old" "ok new" and "only_unit old p" and "unit_of g p = {#}"
  shows "same (merge (drop_units (merge g old) [p]) new) (merge g new)"
  using drop_merged [OF assms(1,2,4,5)] assms(1-3)
  by (simp add: same_def fun_eq_iff all_merge unit_merge ok_drop ok_merge)

lemma squeeze_same: "ok g \<Longrightarrow> same (squeeze g) g"
  by (simp add: same_def fun_eq_iff all_squeeze unit_squeeze)

lemma ok_fold_record: "ok g \<Longrightarrow> ok (fold (\<lambda>e g. record_edge g e p) es g)"
  by (induction es arbitrary: g) (simp_all add: ok_record)

lemma fold_record:
  assumes "ok g" "p \<noteq> []"
  shows "all_of (fold (\<lambda>e g. record_edge g e p) es g) = image_mset entry (mset es) + all_of g"
    and "unit_of (fold (\<lambda>e g. record_edge g e p) es g) q =
      (if q = p then image_mset entry (mset es) else {#}) + unit_of g q"
  using assms by (induction es arbitrary: g) (simp_all add: ok_record all_record unit_record)

end

definition removeTUsGraph :: "call_graph \<Rightarrow> string list \<Rightarrow> call_graph" where
  "removeTUsGraph g ps = snd (removeTUs g ps)"

lemma compact_readOnly [simp]: "g_readOnly (compact g) = g_readOnly g"
  by (simp add: compact_def Let_def)

interpretation cg: edge_ledger writable regs tuRegs addEdge callText absorb removeTUsGraph compact
proof unfold_locales
  fix g h :: call_graph and e p q ps
  assume g: "writable g"
  then have W: "graph_wf g" "\<not> g_readOnly g" by (auto simp: writable_def)
  obtain n g' where r: "removeTUs g ps = (n, g')" by (cases "removeTUs g ps")
  note R = removeTUs_full [OF W r] and RL = removeTUs_ledger [OF W r]
  show "writable (addEdge g e p)"
    using W by (simp add: writable_def addEdge_graph_wf addEdge_readOnly)
  show "writable (removeTUsGraph g ps)"
    using R(1,11) W r by (simp add: writable_def removeTUsGraph_def)
  show "writable (compact g)"
    using compact_full(1) [OF W] W by (simp add: writable_def)
  show "regs (addEdge g e p) = add_mset (callText e) (regs g)"
    "tuRegs (addEdge g e p) q =
      (if p \<noteq> [] \<and> q = p then add_mset (callText e) (tuRegs g q) else tuRegs g q)"
    using addEdge_ledger [OF W] by blast+
  show "(\<Sum>p \<in> set ps. tuRegs g p) \<subseteq># regs g"
    "regs (removeTUsGraph g ps) = regs g - (\<Sum>p \<in> set ps. tuRegs g p)"
    "tuRegs (removeTUsGraph g ps) q = (if q \<in> set ps then {#} else tuRegs g q)"
    using RL [of q] r by (simp_all add: removeTUsGraph_def)
  show "regs (compact g) = regs g" "tuRegs (compact g) q = tuRegs g q"
    using compact_ledger [OF W] by blast+
  assume "writable h"
  then have H: "graph_wf h" by (simp add: writable_def)
  show "writable (absorb g h)"
    using absorb_full [OF W(1) H W(2)] absorb_readOnly [of g h] W by (auto simp: writable_def)
  show "regs (absorb g h) = regs g + regs h" "tuRegs (absorb g h) q = tuRegs g q + tuRegs h q"
    using absorb_ledger [OF W(1) H W(2)] by blast+
qed

end
