(* ===== verification/CallGraphQuery.thy ===== *)
theory CallGraphQuery
  imports CallGraphSpec
begin

text \<open>
  The queries of the call graph against a relational reference: the closure over a relation
  table is reachability, \<open>calleeRefsOf\<close> and \<open>callerRefsOf\<close> are the two directions of one
  relation \<open>calls\<close> on (caller, callee, call site), and both depend on the live edges only, so
  compaction leaves every answer as it was.
\<close>

section \<open>Closure\<close>

definition relOf :: "(sid, sid list) umap \<Rightarrow> (sid \<times> sid) set" where
  "relOf m = {(a, b). b \<in> set (um_get m a)}"

lemma relOf_iff [simp]: "(a, b) \<in> relOf m \<longleftrightarrow> b \<in> set (um_get m a)"
  by (simp add: relOf_def)

lemma rtrancl_closed:
  assumes "(s, x) \<in> R\<^sup>*" and "s \<in> V" and "\<forall>v \<in> V. R `` {v} \<subseteq> V"
  shows "x \<in> V"
  using assms by (induction rule: rtrancl_induct) auto

lemma closureLoop_correct:
  assumes "insert s (set result) = set visited" and "s \<notin> set result" and "distinct result"
    and "set visited \<subseteq> (relOf rel)\<^sup>* `` {s}" and "set stack \<subseteq> set visited"
    and "\<forall>v \<in> set visited - set stack. relOf rel `` {v} \<subseteq> set visited"
  shows "set (closureLoop rel stack visited result) = (relOf rel)\<^sup>* `` {s} - {s} \<and>
    distinct (closureLoop rel stack visited result)"
  using assms
proof (induction rel stack visited result rule: closureLoop.induct)
  case (1 rel visited result)
  have s: "s \<in> set visited" using 1(1) by blast
  have cl: "\<forall>v \<in> set visited. relOf rel `` {v} \<subseteq> set visited" using 1(6) by simp
  have "(relOf rel)\<^sup>* `` {s} \<subseteq> set visited"
    using rtrancl_closed [OF _ s cl] by blast
  then have "set visited = (relOf rel)\<^sup>* `` {s}" using 1(4) by blast
  with 1(1-3) show ?case by auto
next
  case (2 rel cur stack visited result)
  show ?case
  proof (cases "map_of rel cur")
    case None
    then have "relOf rel `` {cur} = {}" by auto
    then have "\<forall>v \<in> set visited - set stack. relOf rel `` {v} \<subseteq> set visited"
      using "2.prems"(6) by fastforce
    then show ?thesis
      using 2 None by simp
  next
    case (Some nexts)
    let ?new = "fresh visited nexts"
    have succ: "relOf rel `` {cur} = set nexts" using Some by auto
    have cur: "cur \<in> set visited" using 2 by simp
    have new: "set ?new = set nexts - set visited" by (rule fresh_set)
    have reach: "set ?new \<subseteq> (relOf rel)\<^sup>* `` {s}"
    proof
      fix x assume "x \<in> set ?new"
      then have "(cur, x) \<in> relOf rel" using new succ by auto
      moreover have "(s, cur) \<in> (relOf rel)\<^sup>*" using cur 2 by auto
      ultimately show "x \<in> (relOf rel)\<^sup>* `` {s}" by (auto intro: rtrancl_into_rtrancl)
    qed
    have s: "s \<in> set visited" using 2 by auto
    have dis: "distinct (result @ ?new)" "s \<notin> set (result @ ?new)"
      using 2 new s fresh_distinct by auto
    have cl: "\<forall>v \<in> set (?new @ visited) - set (rev ?new @ stack). relOf rel `` {v} \<subseteq> set (?new @ visited)"
    proof
      fix v assume v: "v \<in> set (?new @ visited) - set (rev ?new @ stack)"
      then have vv: "v \<in> set visited" "v \<notin> set stack" by auto
      show "relOf rel `` {v} \<subseteq> set (?new @ visited)"
      proof (cases "v = cur")
        case True
        then show ?thesis using succ new by auto
      next
        case False
        then have "relOf rel `` {v} \<subseteq> set visited" using 2 vv by auto
        then show ?thesis by auto
      qed
    qed
    have "insert s (set (result @ ?new)) = set (?new @ visited)"
      using 2 by auto
    moreover have "set (?new @ visited) \<subseteq> (relOf rel)\<^sup>* `` {s}"
      using reach 2 by auto
    moreover have "set (rev ?new @ stack) \<subseteq> set (?new @ visited)"
      using 2 by auto
    ultimately show ?thesis
      using "2.IH"(2) [OF Some refl _ dis(2) dis(1) _ _ cl] Some by (simp add: Let_def)
  qed
qed

lemma transitiveClosure_loop:
  "transitiveClosure s rel = closureLoop rel [s] [s] []"
  by (simp add: transitiveClosure_def split: option.split)

lemma set_transitiveClosure:
  "set (transitiveClosure s rel) = (relOf rel)\<^sup>+ `` {s} - {s}"
  "distinct (transitiveClosure s rel)"
proof -
  have "(relOf rel)\<^sup>* `` {s} - {s} = (relOf rel)\<^sup>+ `` {s} - {s}"
    by (auto simp: rtrancl_eq_or_trancl)
  then show "set (transitiveClosure s rel) = (relOf rel)\<^sup>+ `` {s} - {s}"
    "distinct (transitiveClosure s rel)"
    unfolding transitiveClosure_loop
    using closureLoop_correct [of s "[]" "[s]" rel "[s]"] by auto
qed

lemma in_transitiveClosure:
  "d \<in> set (transitiveClosure s rel) \<longleftrightarrow> d \<noteq> s \<and> (s, d) \<in> (relOf rel)\<^sup>+"
  by (auto simp: set_transitiveClosure)

lemma relOf_inverse: "inverse_ok m m' \<Longrightarrow> relOf m' = (relOf m)\<inverse>"
  by (auto simp: inverse_ok_def relOf_def)

lemma closure_inverse:
  assumes "inverse_ok m m'"
  shows "x \<in> set (transitiveClosure s m) \<longleftrightarrow> s \<in> set (transitiveClosure x m')"
  by (auto simp: set_transitiveClosure relOf_inverse [OF assms] trancl_converse)

section \<open>Normal forms\<close>

definition liveEdges :: "call_graph \<Rightarrow> StoredEdge list" where
  "liveEdges g = filter live (g_edges g)"

lemma liveAt_adj:
  assumes "adj_ok (g_edges g) sel m"
  shows "liveAt g (um_get m c) = filter (\<lambda>e. sel e = c) (liveEdges g)"
proof -
  have "um_get m c = filter (\<lambda>i. live (g_edges g ! i) \<and> sel (g_edges g ! i) = c) [0..<length (g_edges g)]"
    using assms by (simp add: adj_ok_def)
  then have "liveAt g (um_get m c) = filter live (filter (\<lambda>e. live e \<and> sel e = c) (g_edges g))"
    using map_nth_filter [of "g_edges g" "\<lambda>e. live e \<and> sel e = c"] by (simp add: liveAt_def)
  then show ?thesis
    by (simp add: liveEdges_def conj_left_commute conj_commute)
qed

lemma liveAt_Nil [simp]: "liveAt g [] = []"
  by (simp add: liveAt_def)

definition outLive :: "call_graph \<Rightarrow> sid \<Rightarrow> StoredEdge list" where
  "outLive g c = filter (\<lambda>e. caller e = c) (liveEdges g)"

definition inLive :: "call_graph \<Rightarrow> sid \<Rightarrow> StoredEdge list" where
  "inLive g d = filter (\<lambda>e. callee e = d) (liveEdges g)"

lemma unseen_fst: "fst ` set (unseen seen cs) = fst ` set cs - set seen"
  by (induction seen cs rule: unseen.induct) auto

lemma unseen_sub: "set (unseen seen cs) \<subseteq> set cs"
  by (induction seen cs rule: unseen.induct) auto

lemma unseen_distinct: "distinct (map fst (unseen seen cs))"
proof (induction seen cs rule: unseen.induct)
  case (2 seen k r cs)
  have "k \<notin> fst ` set (unseen (k # seen) cs)" by (simp add: unseen_fst)
  with 2 show ?case by auto
qed simp

definition virtOut :: "call_graph \<Rightarrow> sid \<Rightarrow> ((sid \<times> sid) \<times> EdgeRef) list" where
  "virtOut g c = concat (map (\<lambda>se. if isDispatch se
     then map (\<lambda>ov. ((ov, callSite se), (keyOf se)\<lparr>callee := ov\<rparr>))
            (transitiveClosure (callee se) (g_methodOverrides g))
     else []) (outLive g c))"

definition retOut :: "call_graph \<Rightarrow> sid \<Rightarrow> ((sid \<times> sid) \<times> EdgeRef) list" where
  "retOut g c = concat (map (\<lambda>se. if kind se = FunctionPointerReturn
     then map (\<lambda>r. ((r, callSite se), (keyOf se)\<lparr>callee := r, kind := returnKind se\<rparr>))
            (um_get (g_functionReturns g) (callee se))
     else []) (outLive g c))"

definition virtIn :: "call_graph \<Rightarrow> sid \<Rightarrow> ((sid \<times> sid) \<times> EdgeRef) list" where
  "virtIn g d = concat (map (\<lambda>base.
     map (\<lambda>se. ((caller se, callSite se), (keyOf se)\<lparr>callee := d\<rparr>))
       (filter isDispatch (inLive g base))) (transitiveClosure d (g_overrideBases g)))"

definition retIn :: "call_graph \<Rightarrow> sid \<Rightarrow> ((sid \<times> sid) \<times> EdgeRef) list" where
  "retIn g d = concat (map (\<lambda>returner.
     map (\<lambda>se. ((caller se, callSite se), (keyOf se)\<lparr>callee := d, kind := returnKind se\<rparr>))
       (filter (\<lambda>se. kind se = FunctionPointerReturn) (inLive g returner)))
     (um_get (g_returnedBy g) d))"

abbreviation "plain xs \<equiv> filter (\<lambda>se. kind se \<noteq> FunctionPointerReturn) xs"

lemma map_of_get_case:
  "(case map_of m k of None \<Rightarrow> [] | Some v \<Rightarrow> f v) = (if map_of m k = None then [] else f (um_get m k))"
  by (auto split: option.split)

lemma calleeRefsOf_normal:
  assumes wf: "graph_wf g"
  defines "seen \<equiv> \<lambda>c. map (\<lambda>se. (callee se, callSite se))
    (filter (\<lambda>se. kind se = VirtualDispatch) (plain (outLive g c)))"
  shows "calleeRefsOf g c = map keyOf (plain (outLive g c)) @
    map snd (unseen (seen c) (virtOut g c)) @
    map snd (unseen (map fst (unseen (seen c) (virtOut g c)) @ seen c) (retOut g c))"
proof -
  have out: "liveAt g (um_get (g_outEdges g) c) = outLive g c"
    using liveAt_adj [OF graph_wfD(4) [OF wf]] by (simp add: outLive_def)
  show ?thesis
  proof (cases "map_of (g_outEdges g) c")
    case None
    then have "outLive g c = []" using out by simp
    with None show ?thesis by (simp add: calleeRefsOf_def virtOut_def retOut_def seen_def)
  next
    case (Some v)
    then have v: "liveAt g v = outLive g c" using out by simp
    have r: "(case map_of (g_functionReturns g) k of None \<Rightarrow> [] | Some rs \<Rightarrow> map f rs) =
      map f (um_get (g_functionReturns g) k)" for k and f :: "nat \<Rightarrow> (nat \<times> nat) \<times> EdgeRef"
      by (simp split: option.split)
    show ?thesis
      by (simp add: calleeRefsOf_def Some v r virtOut_def retOut_def seen_def Let_def
          cong: if_cong)
  qed
qed

lemma callerRefsOf_normal:
  assumes wf: "graph_wf g"
  defines "seen \<equiv> \<lambda>d. map (\<lambda>se. (caller se, callSite se)) (plain (inLive g d))"
  shows "callerRefsOf g d = map keyOf (plain (inLive g d)) @
    map snd (unseen (seen d) (virtIn g d)) @
    map snd (unseen (map fst (unseen (seen d) (virtIn g d)) @ seen d) (retIn g d))"
proof -
  have inn: "liveAt g (um_get (g_inEdges g) c) = inLive g c" for c
    using liveAt_adj [OF graph_wfD(5) [OF wf]] by (simp add: inLive_def)
  have c: "(case map_of (g_inEdges g) k of None \<Rightarrow> [] | Some idxs \<Rightarrow> F (liveAt g idxs)) = F (inLive g k)"
    if "F [] = []" for k and F :: "StoredEdge list \<Rightarrow> 'x list"
    using inn [of k] that by (auto split: option.split)
  have p: "(case map_of (g_inEdges g) k of None \<Rightarrow> [] | Some idxs \<Rightarrow> filter P (liveAt g idxs)) =
    filter P (inLive g k)" for k P
    by (rule c) simp
  have m: "(case map_of (g_inEdges g) k of None \<Rightarrow> []
    | Some idxs \<Rightarrow> map f (filter P (liveAt g idxs))) = map f (filter P (inLive g k))"
    for k P and f :: "StoredEdge \<Rightarrow> (nat \<times> nat) \<times> EdgeRef"
    by (auto simp: inn [of k, symmetric] split: option.split)
  have r: "(case map_of (g_returnedBy g) k of None \<Rightarrow> [] | Some rs \<Rightarrow> concat (map f rs)) =
      concat (map f (um_get (g_returnedBy g) k))" for k and f :: "nat \<Rightarrow> ((nat \<times> nat) \<times> EdgeRef) list"
    by (simp split: option.split)
  show ?thesis
    by (simp add: callerRefsOf_def p m r virtIn_def retIn_def seen_def Let_def)
qed


section \<open>The call relation\<close>

text \<open>
  \<open>calls g c d s\<close>: at call site \<open>s\<close>, \<open>c\<close> may call \<open>d\<close>, directly, by dynamic dispatch to an
  override of the named method, or through a function pointer returned by the called function.
\<close>

definition calls :: "call_graph \<Rightarrow> sid \<Rightarrow> sid \<Rightarrow> sid \<Rightarrow> bool" where
  "calls g c d s \<longleftrightarrow> (\<exists>e \<in> set (g_edges g). live e \<and> caller e = c \<and> callSite e = s \<and>
     (kind e \<noteq> FunctionPointerReturn \<and> callee e = d \<or>
      isDispatch e \<and> d \<noteq> callee e \<and> (callee e, d) \<in> (relOf (g_methodOverrides g))\<^sup>+ \<or>
      kind e = FunctionPointerReturn \<and> d \<in> set (um_get (g_functionReturns g) (callee e))))"

lemma fst_virtOut: "fst ` set (virtOut g c) = {(d, s). \<exists>e \<in> set (outLive g c).
    isDispatch e \<and> callSite e = s \<and> d \<in> set (transitiveClosure (callee e) (g_methodOverrides g))}"
  by (auto simp: virtOut_def image_iff Bex_def split: if_splits) (force+)?

lemma fst_retOut: "fst ` set (retOut g c) = {(d, s). \<exists>e \<in> set (outLive g c).
    kind e = FunctionPointerReturn \<and> callSite e = s \<and> d \<in> set (um_get (g_functionReturns g) (callee e))}"
  by (auto simp: retOut_def image_iff Bex_def split: if_splits) (force+)?

lemma fst_virtIn: "fst ` set (virtIn g d) = {(c, s). \<exists>b \<in> set (transitiveClosure d (g_overrideBases g)).
    \<exists>e \<in> set (inLive g b). isDispatch e \<and> caller e = c \<and> callSite e = s}"
  by (auto simp: virtIn_def image_iff Bex_def) (force+)?

lemma fst_retIn: "fst ` set (retIn g d) = {(c, s). \<exists>b \<in> set (um_get (g_returnedBy g) d).
    \<exists>e \<in> set (inLive g b). kind e = FunctionPointerReturn \<and> caller e = c \<and> callSite e = s}"
  by (auto simp: retIn_def image_iff Bex_def) (force+)?

lemma snd_virtOut: "x \<in> set (virtOut g c) \<Longrightarrow>
  fst x = (callee (snd x), callSite (snd x)) \<and> caller (snd x) = c"
  by (auto simp: virtOut_def outLive_def split: if_splits)

lemma snd_retOut: "x \<in> set (retOut g c) \<Longrightarrow>
  fst x = (callee (snd x), callSite (snd x)) \<and> caller (snd x) = c"
  by (auto simp: retOut_def outLive_def split: if_splits)

lemma snd_virtIn: "x \<in> set (virtIn g d) \<Longrightarrow>
  fst x = (caller (snd x), callSite (snd x)) \<and> callee (snd x) = d"
  by (auto simp: virtIn_def)

lemma snd_retIn: "x \<in> set (retIn g d) \<Longrightarrow>
  fst x = (caller (snd x), callSite (snd x)) \<and> callee (snd x) = d"
  by (auto simp: retIn_def)

text \<open>A scan that skips seen keys, seen from the keys: \<open>sel\<close> reads the key off a result.\<close>

lemma unseen_keys:
  assumes "\<forall>x \<in> set cs. fst x = sel (snd x)"
  shows "sel ` snd ` set (unseen seen cs) = fst ` set cs - set seen"
proof -
  have "sel ` snd ` set (unseen seen cs) = fst ` set (unseen seen cs)"
    using assms unseen_sub [of seen cs] by (force simp: image_image intro: image_cong)
  then show ?thesis by (simp add: unseen_fst)
qed

lemma refs_keys:
  assumes "\<forall>x \<in> set vs \<union> set rs. fst x = sel (snd x)"
    and "set seen \<subseteq> sel ` set st"
  shows "sel ` set (st @ map snd (unseen seen vs) @ map snd (unseen (map fst (unseen seen vs) @ seen) rs)) =
    sel ` set st \<union> fst ` set vs \<union> fst ` set rs"
proof -
  have v: "sel ` snd ` set (unseen seen vs) = fst ` set vs - set seen"
    and r: "sel ` snd ` set (unseen (map fst (unseen seen vs) @ seen) rs) =
      fst ` set rs - (fst ` set vs \<union> set seen)"
    using assms(1) by (subst unseen_keys; auto simp: unseen_fst)+
  show ?thesis
    unfolding set_append set_map image_Un v r using assms(2) by blast
qed

lemma set_outLive: "set (outLive g c) = {e \<in> set (g_edges g). live e \<and> caller e = c}"
  by (auto simp: outLive_def liveEdges_def)

lemma set_inLive: "set (inLive g d) = {e \<in> set (g_edges g). live e \<and> callee e = d}"
  by (auto simp: inLive_def liveEdges_def)

lemma stored_out: "(\<lambda>r. (callee r, callSite r)) ` set (map keyOf (plain (outLive g c))) =
  {(d, s). \<exists>e \<in> set (g_edges g). live e \<and> caller e = c \<and> callSite e = s \<and>
     kind e \<noteq> FunctionPointerReturn \<and> callee e = d}"
  by (force simp: set_outLive image_image)

lemma stored_in: "(\<lambda>r. (caller r, callSite r)) ` set (map keyOf (plain (inLive g d))) =
  {(c, s). \<exists>e \<in> set (g_edges g). live e \<and> caller e = c \<and> callSite e = s \<and>
     kind e \<noteq> FunctionPointerReturn \<and> callee e = d}"
  by (force simp: set_inLive image_image)

lemma callees_calls:
  assumes wf: "graph_wf g"
  shows "(\<lambda>r. (callee r, callSite r)) ` set (calleeRefsOf g c) = {(d, s). calls g c d s}"
    and "r \<in> set (calleeRefsOf g c) \<Longrightarrow> caller r = c"
proof -
  let ?seen = "map (\<lambda>se. (callee se, callSite se))
    (filter (\<lambda>se. kind se = VirtualDispatch) (plain (outLive g c)))"
  have s: "(\<lambda>r. (callee r, callSite r)) ` set (calleeRefsOf g c) =
    (\<lambda>r. (callee r, callSite r)) ` set (map keyOf (plain (outLive g c))) \<union>
    fst ` set (virtOut g c) \<union> fst ` set (retOut g c)"
    unfolding calleeRefsOf_normal [OF wf]
    by (rule refs_keys) (auto simp: image_image dest!: snd_virtOut snd_retOut)
  show "(\<lambda>r. (callee r, callSite r)) ` set (calleeRefsOf g c) = {(d, s). calls g c d s}"
    unfolding s fst_virtOut fst_retOut stored_out in_transitiveClosure set_outLive calls_def
    by (simp add: set_eq_iff) blast
  show "caller r = c" if "r \<in> set (calleeRefsOf g c)"
    using that unseen_sub snd_virtOut snd_retOut unfolding calleeRefsOf_normal [OF wf]
    by (fastforce simp: outLive_def)
qed

lemma callers_calls:
  assumes wf: "graph_wf g"
  shows "(\<lambda>r. (caller r, callSite r)) ` set (callerRefsOf g d) = {(c, s). calls g c d s}"
    and "r \<in> set (callerRefsOf g d) \<Longrightarrow> callee r = d"
proof -
  note W = graph_wfD [OF wf]
  have s: "(\<lambda>r. (caller r, callSite r)) ` set (callerRefsOf g d) =
    (\<lambda>r. (caller r, callSite r)) ` set (map keyOf (plain (inLive g d))) \<union>
    fst ` set (virtIn g d) \<union> fst ` set (retIn g d)"
    unfolding callerRefsOf_normal [OF wf]
    by (rule refs_keys) (auto simp: image_image dest!: snd_virtIn snd_retIn)
  have v: "b \<in> set (transitiveClosure d (g_overrideBases g)) \<longleftrightarrow>
    d \<noteq> b \<and> (b, d) \<in> (relOf (g_methodOverrides g))\<^sup>+" for b
    unfolding closure_inverse [OF W(9), symmetric] by (auto simp: set_transitiveClosure)
  have r: "b \<in> set (um_get (g_returnedBy g) d) \<longleftrightarrow> d \<in> set (um_get (g_functionReturns g) b)" for b
    using W(10) by (simp add: inverse_ok_def)
  show "(\<lambda>r. (caller r, callSite r)) ` set (callerRefsOf g d) = {(c, s). calls g c d s}"
    unfolding s fst_virtIn fst_retIn stored_in Bex_def v r set_inLive calls_def
    by (simp add: set_eq_iff) blast
  show "callee r = d" if "r \<in> set (callerRefsOf g d)"
    using that unseen_sub snd_virtIn snd_retIn unfolding callerRefsOf_normal [OF wf]
    by (fastforce simp: inLive_def)
qed


section \<open>Compaction and the queries\<close>

lemma compact_queries:
  assumes wf: "graph_wf g"
  shows "calleeRefsOf (compact g) c = calleeRefsOf g c"
    and "callerRefsOf (compact g) c = callerRefsOf g c"
    and "graph_wf (compact g)"
proof -
  have *: "graph_wf (compact g) \<and> calleeRefsOf (compact g) c = calleeRefsOf g c \<and>
    callerRefsOf (compact g) c = callerRefsOf g c"
  proof (cases "g_readOnly g")
    case False
    note F = compact_full [OF wf False]
    have "liveEdges (compact g) = liveEdges g"
      by (simp add: liveEdges_def F(2))
    then show ?thesis
      using F(1) by (simp add: calleeRefsOf_normal callerRefsOf_normal wf virtOut_def retOut_def virtIn_def
          retIn_def outLive_def inLive_def F(5-10) cong: if_cong)
  qed (simp add: compact_def wf)
  then show "calleeRefsOf (compact g) c = calleeRefsOf g c" "callerRefsOf (compact g) c = callerRefsOf g c"
    "graph_wf (compact g)"
    by auto
qed

lemma storedInDegree_live:
  assumes wf: "graph_wf g"
  shows "storedInDegree g d = length (inLive g d)"
proof -
  have "liveAt g (um_get (g_inEdges g) d) = inLive g d"
    using liveAt_adj [OF graph_wfD(5) [OF wf]] by (simp add: inLive_def)
  moreover have "length (liveAt g v) = length (filter (\<lambda>idx. refs (g_edges g ! idx) > 0) v)" for v
    by (simp add: liveAt_def filter_map comp_def)
  ultimately show ?thesis
    by (simp add: storedInDegree_def split: option.split) (metis liveAt_Nil um_get_None um_get_Some)
qed

section \<open>Name queries\<close>

text \<open>\<open>findNode\<close> on an ambiguous name picks the candidate with the least USR.\<close>

lemma pickNode_spec:
  "pickNode g us best = (let ns = List.map_filter (map_of (g_nodes g)) us in
     foldl (\<lambda>b n. case b of None \<Rightarrow> Some n | Some b' \<Rightarrow> if usr n < usr b' then Some n else b) best ns)"
  by (induction us arbitrary: best) (auto simp: Let_def split: option.split)

lemma pickNode_min:
  assumes "pickNode g us best = Some n"
  shows "(best = Some n \<or> (\<exists>u \<in> set us. map_of (g_nodes g) u = Some n)) \<and>
    (\<forall>b. best = Some b \<longrightarrow> usr n \<le> usr b) \<and>
    (\<forall>u \<in> set us. \<forall>m. map_of (g_nodes g) u = Some m \<longrightarrow> usr n \<le> usr m)"
  using assms
proof (induction us arbitrary: best)
  case (Cons u us)
  show ?case
  proof (cases "map_of (g_nodes g) u")
    case None
    with Cons show ?thesis by auto
  next
    case (Some m)
    let ?b = "case best of None \<Rightarrow> Some m | Some b \<Rightarrow> if usr m < usr b then Some m else best"
    have "pickNode g us ?b = Some n"
      using Cons.prems Some by (auto split: option.splits if_splits)
    from Cons.IH [OF this] Some show ?thesis
      by (cases best) (auto split: if_splits intro: order_trans)
  qed
qed simp

lemma pickNode_none:
  "pickNode g us best = None \<longleftrightarrow> best = None \<and> (\<forall>u \<in> set us. map_of (g_nodes g) u = None)"
  by (induction us arbitrary: best) (auto split: option.split)

text \<open>The classes derived from a base: every visited class contributes its direct ones.\<close>

lemma derivedLoop_correct:
  assumes "set result \<union> {i} \<subseteq> set visited \<union> set stack"
    and "set visited \<union> set stack \<subseteq> insert i (set result)"
    and "\<forall>v \<in> set visited. set (um_get rel v) \<subseteq> set result"
    and "set result = (\<Union>v \<in> set visited. set (um_get rel v))"
    and "set visited \<union> set stack \<subseteq> (relOf rel)\<^sup>* `` {i}"
  shows "set (derivedLoop rel stack visited result) = (relOf rel)\<^sup>+ `` {i}"
  using assms
proof (induction rel stack visited result rule: derivedLoop.induct)
  case (1 rel visited result)
  have cl: "\<forall>v \<in> set visited. relOf rel `` {v} \<subseteq> set visited"
    using 1 by fastforce
  have "i \<in> set visited" using 1 by auto
  from rtrancl_closed [OF _ this cl] 1 have "set visited = (relOf rel)\<^sup>* `` {i}" by auto
  then have "set result = (relOf rel) `` ((relOf rel)\<^sup>* `` {i})"
    using 1 by auto
  then show ?case
    by (auto simp: trancl_unfold_right)
next
  case (2 rel cls stack visited result)
  show ?case
  proof (cases "cls \<in> set visited")
    case True
    with 2 show ?thesis by (simp add: insert_absorb)
  next
    case new: False
    show ?thesis
    proof (cases "map_of rel cls")
      case None
      then show ?thesis
        using "2.IH"(2) [OF new None] "2.prems" new by auto
    next
      case (Some ds)
      have r: "(relOf rel)\<^sup>* `` {i} \<supseteq> set ds"
        using "2.prems"(5) Some by (auto intro: rtrancl_into_rtrancl)
      have p1: "set (result @ ds) \<union> {i} \<subseteq> set (cls # visited) \<union> set (rev ds @ stack)"
        and p2: "set (cls # visited) \<union> set (rev ds @ stack) \<subseteq> insert i (set (result @ ds))"
        using "2.prems"(1,2) by auto
      have p3: "\<forall>v \<in> set (cls # visited). set (um_get rel v) \<subseteq> set (result @ ds)"
        using "2.prems"(3) Some by auto
      have p4: "set (result @ ds) = (\<Union>v \<in> set (cls # visited). set (um_get rel v))"
        using "2.prems"(4) Some by auto
      have p5: "set (cls # visited) \<union> set (rev ds @ stack) \<subseteq> (relOf rel)\<^sup>* `` {i}"
        using "2.prems"(5) r by auto
      show ?thesis
        using "2.IH"(3) [OF new Some p1 p2 p3 p4 p5] new Some by simp
    qed
  qed
qed

end
