(* ===== verification/PathSearch.thy ===== *)
theory PathSearch
  imports CallGraphQuery
begin

text \<open>
  Path enumeration (\<open>include/vycor/callgraph/PathSearch.h\<close>,
  \<open>src/callgraph/PathSearch.cpp\<close>): the reverse depth-first search of \<open>findCallerPaths\<close> with
  its corridor, dead-end memo and limits. \<open>search_env\<close> holds the constant fields of the source's
  \<open>Search\<close> and \<open>search_state\<close> the mutable ones; \<open>currentEdges\<close>, \<open>onPath\<close> and
  \<open>onPathEdges\<close> follow the recursion and are arguments. The bitmask of stop reasons is the set of
  its bits. \<open>callersMemo\<close> caches a pure function and \<open>currentPath\<close> is never read; both are left
  out. The recursion carries fuel: \<open>None\<close> is running out of it, and the depth cap of the source
  bounds what is needed.
\<close>

section \<open>Data\<close>

datatype StopReason = PathLimit | DepthLimit | WorkBudget | HubPruned

definition stopReasonName :: "StopReason \<Rightarrow> string" where
  "stopReasonName r = (case r of PathLimit \<Rightarrow> ''path_limit'' | DepthLimit \<Rightarrow> ''depth_limit''
     | WorkBudget \<Rightarrow> ''work_budget'' | HubPruned \<Rightarrow> ''hub_pruned'')"

definition stopReasonNames :: "StopReason set \<Rightarrow> string list" where
  "stopReasonNames stops =
     map stopReasonName (filter (\<lambda>r. r \<in> stops) [PathLimit, DepthLimit, WorkBudget, HubPruned])"

definition kPathSearchDepthCap :: nat where
  "kPathSearchDepthCap = 1000"

record SearchLimits =
  maxPaths :: nat
  maxDepth :: nat
  maxFanIn :: nat
  maxWork :: nat

datatype CycleRule = SimpleNodes | SimpleEdges

record PathHop =
  hopCallerUsr :: string
  hopCalleeUsr :: string
  hopCaller :: string
  hopCallee :: string
  hopCallSite :: string
  hopKind :: EdgeKind
  hopConfidence :: Confidence
  hopExecContext :: ExecutionContext
  hopIndirectionDepth :: nat

type_synonym CallPath = "PathHop list"

record SkippedHub =
  hubUsr :: string
  hubName :: string
  hubInDegree :: nat

record PathSearchResult =
  paths :: "CallPath list"
  skippedHubs :: "SkippedHub list"
  stops :: "StopReason set"
  expansions :: nat
  targetKnown :: bool
  startKnown :: bool

definition stopped :: "PathSearchResult \<Rightarrow> StopReason \<Rightarrow> bool" where
  "stopped res r \<longleftrightarrow> r \<in> stops res"

definition complete :: "PathSearchResult \<Rightarrow> bool" where
  "complete res \<longleftrightarrow> targetKnown res \<and> startKnown res \<and> \<not> stopped res PathLimit \<and>
     \<not> stopped res WorkBudget \<and> \<not> stopped res HubPruned"

definition exhaustive :: "PathSearchResult \<Rightarrow> bool" where
  "exhaustive res \<longleftrightarrow> complete res \<and> stops res = {}"

section \<open>Canonical order of caller edges\<close>

definition kindRank :: "EdgeKind \<Rightarrow> nat" where
  "kindRank k = (case k of DirectCall \<Rightarrow> 0 | VirtualDispatch \<Rightarrow> 1 | FunctionPointer \<Rightarrow> 2
     | ConstructorCall \<Rightarrow> 3 | DestructorCall \<Rightarrow> 4 | OperatorCall \<Rightarrow> 5 | TemplateInstantiation \<Rightarrow> 6
     | LambdaCall \<Rightarrow> 7 | ThreadEntry \<Rightarrow> 8 | FunctionPointerReturn \<Rightarrow> 9)"

definition confidenceRank :: "Confidence \<Rightarrow> nat" where
  "confidenceRank c = (case c of Proven \<Rightarrow> 0 | Plausible \<Rightarrow> 1 | Unknown \<Rightarrow> 2)"

definition contextRank :: "ExecutionContext \<Rightarrow> nat" where
  "contextRank c = (case c of Synchronous \<Rightarrow> 0 | ThreadSpawn \<Rightarrow> 1 | AsyncTask \<Rightarrow> 2
     | PackagedTask \<Rightarrow> 3 | Invoke \<Rightarrow> 4)"

lemma kindRank_eq [simp]: "kindRank a = kindRank b \<longleftrightarrow> a = b"
  by (cases a; cases b; simp add: kindRank_def)

lemma confidenceRank_eq [simp]: "confidenceRank a = confidenceRank b \<longleftrightarrow> a = b"
  by (cases a; cases b; simp add: confidenceRank_def)

lemma contextRank_eq [simp]: "contextRank a = contextRank b \<longleftrightarrow> a = b"
  by (cases a; cases b; simp add: contextRank_def)

text \<open>The enumerations are ordered by their values.\<close>

instantiation EdgeKind :: linorder
begin

definition less_eq_EdgeKind :: "EdgeKind \<Rightarrow> EdgeKind \<Rightarrow> bool" where
  "less_eq_EdgeKind a b \<longleftrightarrow> kindRank a \<le> kindRank b"

definition less_EdgeKind :: "EdgeKind \<Rightarrow> EdgeKind \<Rightarrow> bool" where
  "less_EdgeKind a b \<longleftrightarrow> kindRank a < kindRank b"

instance
  by standard (auto simp: less_eq_EdgeKind_def less_EdgeKind_def)

end

instantiation Confidence :: linorder
begin

definition less_eq_Confidence :: "Confidence \<Rightarrow> Confidence \<Rightarrow> bool" where
  "less_eq_Confidence a b \<longleftrightarrow> confidenceRank a \<le> confidenceRank b"

definition less_Confidence :: "Confidence \<Rightarrow> Confidence \<Rightarrow> bool" where
  "less_Confidence a b \<longleftrightarrow> confidenceRank a < confidenceRank b"

instance
  by standard (auto simp: less_eq_Confidence_def less_Confidence_def)

end

instantiation ExecutionContext :: linorder
begin

definition less_eq_ExecutionContext :: "ExecutionContext \<Rightarrow> ExecutionContext \<Rightarrow> bool" where
  "less_eq_ExecutionContext a b \<longleftrightarrow> contextRank a \<le> contextRank b"

definition less_ExecutionContext :: "ExecutionContext \<Rightarrow> ExecutionContext \<Rightarrow> bool" where
  "less_ExecutionContext a b \<longleftrightarrow> contextRank a < contextRank b"

instance
  by standard (auto simp: less_eq_ExecutionContext_def less_ExecutionContext_def)

end

text \<open>
  \<open>std::sort\<close> with a comparator. The order of equivalent elements is unspecified in C++; the
  comparator below leaves only identical edges equivalent on well-formed graphs.
\<close>

fun insertBy :: "('a \<Rightarrow> 'a \<Rightarrow> bool) \<Rightarrow> 'a \<Rightarrow> 'a list \<Rightarrow> 'a list" where
  "insertBy lt x [] = [x]"
| "insertBy lt x (y # ys) = (if lt y x then y # insertBy lt x ys else x # y # ys)"

definition sortBy :: "('a \<Rightarrow> 'a \<Rightarrow> bool) \<Rightarrow> 'a list \<Rightarrow> 'a list" where
  "sortBy lt xs = foldr (insertBy lt) xs []"

definition callerLess :: "call_graph \<Rightarrow> EdgeRef \<Rightarrow> EdgeRef \<Rightarrow> bool" where
  "callerLess g a b =
     (let r = resolve (g_interner g) in
      if caller a \<noteq> caller b then r (caller a) < r (caller b)
      else if callSite a \<noteq> callSite b then r (callSite a) < r (callSite b)
      else if kind a \<noteq> kind b then kind a < kind b
      else if confidence a \<noteq> confidence b then confidence a < confidence b
      else if execContext a \<noteq> execContext b then execContext a < execContext b
      else indirectionDepth a < indirectionDepth b)"

definition sortCallerRefsCanonically :: "call_graph \<Rightarrow> EdgeRef list \<Rightarrow> EdgeRef list" where
  "sortCallerRefsCanonically g edges = sortBy (callerLess g) edges"

section \<open>Identities\<close>

definition referenced :: "(string \<Rightarrow> bool) \<Rightarrow> call_graph \<Rightarrow> sid \<Rightarrow> bool" where
  "referenced isUTF8 g i \<longleftrightarrow>
     findNode isUTF8 g (resolve (g_interner g) i) \<noteq> None \<or> callerRefsOf g i \<noteq> [] \<or>
     calleeRefsOf g i \<noteq> []"

definition resolveIds :: "(string \<Rightarrow> bool) \<Rightarrow> call_graph \<Rightarrow> string \<Rightarrow> sid list" where
  "resolveIds isUTF8 g name =
     (let known = \<lambda>s. (case findId (g_interner g) s of
             None \<Rightarrow> None
           | Some i \<Rightarrow> if referenced isUTF8 g i then Some i else None);
          ids = List.map_filter known (usrsForName isUTF8 g name);
          ids = (if ids = [] then (case known name of None \<Rightarrow> [] | Some i \<Rightarrow> [i]) else ids)
      in remdups_adj (sort ids))"

definition resolveKnownIds :: "(string \<Rightarrow> bool) \<Rightarrow> call_graph \<Rightarrow> string \<Rightarrow> sid list" where
  "resolveKnownIds = resolveIds"

section \<open>The corridor\<close>

definition admit :: "(EdgeRef \<Rightarrow> bool) option \<Rightarrow> EdgeRef \<Rightarrow> bool" where
  "admit filt e = (case filt of None \<Rightarrow> True | Some f \<Rightarrow> f e)"

definition corridorEdge :: "(EdgeRef \<Rightarrow> bool) option \<Rightarrow> nat \<Rightarrow> EdgeRef \<Rightarrow>
    (sid, nat) umap \<times> sid list \<Rightarrow> (sid, nat) umap \<times> sid list" where
  "corridorEdge filt dist edge mn =
     (let (m, next) = mn in
      if \<not> admit filt edge then (m, next)
      else case map_of m (callee edge) of
             Some _ \<Rightarrow> (m, next)
           | None \<Rightarrow> (um_put m (callee edge) dist, next @ [callee edge]))"

definition corridorLayer :: "call_graph \<Rightarrow> (EdgeRef \<Rightarrow> bool) option \<Rightarrow> nat \<Rightarrow> sid list \<Rightarrow>
    (sid, nat) umap \<Rightarrow> (sid, nat) umap \<times> sid list" where
  "corridorLayer g filt dist frontier m =
     fold (\<lambda>node mn. fold (corridorEdge filt dist) (calleeRefsOf g node) mn) frontier (m, [])"

definition calleeUniverse :: "call_graph \<Rightarrow> sid set" where
  "calleeUniverse g = (\<Union>c \<in> fst ` set (g_outEdges g). callee ` set (calleeRefsOf g c))"

lemma calleeUniverse: "r \<in> set (calleeRefsOf g c) \<Longrightarrow> callee r \<in> calleeUniverse g"
proof -
  assume r: "r \<in> set (calleeRefsOf g c)"
  then have "map_of (g_outEdges g) c \<noteq> None"
    by (cases "map_of (g_outEdges g) c") (simp_all add: calleeRefsOf_def)
  then have "c \<in> fst ` set (g_outEdges g)" by (simp add: map_of_eq_None_iff)
  with r show ?thesis by (auto simp: calleeUniverse_def)
qed

lemma finite_calleeUniverse [simp]: "finite (calleeUniverse g)"
  by (simp add: calleeUniverse_def)

lemma dom_um_put [simp]: "dom (map_of (um_put m k v)) = insert k (dom (map_of m))"
  by (auto simp: dom_def)

text \<open>A scan adds the targets of its edges that are new, each to the map and to the next layer.\<close>

lemma corridorEdges:
  assumes "fold (corridorEdge filt dist) es (m, nx) = (m', nx')"
  shows "\<exists>new. nx' = nx @ new \<and> distinct new \<and> set new \<inter> dom (map_of m) = {} \<and>
    set new = {callee e | e. e \<in> set es \<and> admit filt e} - dom (map_of m) \<and>
    (\<forall>k. map_of m' k = (if k \<in> set new then Some dist else map_of m k))"
  using assms
proof (induction es arbitrary: m nx)
  case (Cons e es)
  show ?case
  proof (cases "admit filt e \<and> map_of m (callee e) = None")
    case True
    let ?m = "um_put m (callee e) dist"
    have "fold (corridorEdge filt dist) es (?m, nx @ [callee e]) = (m', nx')"
      using Cons.prems True by (simp add: corridorEdge_def [of filt dist e])
    from Cons.IH [OF this] obtain new where new: "nx' = (nx @ [callee e]) @ new" "distinct new"
      "set new \<inter> dom (map_of ?m) = {}"
      "set new = {callee e | e. e \<in> set es \<and> admit filt e} - dom (map_of ?m)"
      "\<forall>k. map_of m' k = (if k \<in> set new then Some dist else map_of ?m k)" by blast
    have d: "dom (map_of ?m) = insert (callee e) (dom (map_of m))" by (auto simp: dom_def)
    have S: "{callee e' | e'. e' \<in> set (e # es) \<and> admit filt e'} =
      insert (callee e) {callee e' | e'. e' \<in> set es \<and> admit filt e'}" using True by auto
    note N = new(3,4) [unfolded d]
    have "set (callee e # new) = {callee e' | e'. e' \<in> set (e # es) \<and> admit filt e'} - dom (map_of m)"
      unfolding S using N True by auto
    moreover have "map_of m' k = (if k \<in> set (callee e # new) then Some dist else map_of m k)" for k
      using new(5) by simp
    moreover have "distinct (callee e # new)" "set (callee e # new) \<inter> dom (map_of m) = {}"
      using new(2) N True by auto
    ultimately show ?thesis
      using new(1) by (intro exI [of _ "callee e # new"]) simp
  next
    case False
    then have "fold (corridorEdge filt dist) es (m, nx) = (m', nx')"
      using Cons.prems by (auto simp: corridorEdge_def [of filt dist e] split: option.splits if_splits)
    from Cons.IH [OF this] False show ?thesis by fastforce
  qed
qed simp

lemma corridorLayer_flat:
  "corridorLayer g filt dist frontier m =
    fold (corridorEdge filt dist) (concat (map (calleeRefsOf g) frontier)) (m, [])"
proof -
  have "fold (\<lambda>node mn. fold (corridorEdge filt dist) (calleeRefsOf g node) mn) frontier mn =
    fold (corridorEdge filt dist) (concat (map (calleeRefsOf g) frontier)) mn" for mn
    by (induction frontier arbitrary: mn) simp_all
  then show ?thesis by (simp add: corridorLayer_def)
qed

lemma corridorLayer_spec:
  assumes "corridorLayer g filt dist frontier m = (m', next)"
  shows "distinct next \<and>
    set next = {callee e | e c. c \<in> set frontier \<and> e \<in> set (calleeRefsOf g c) \<and> admit filt e} - dom (map_of m) \<and>
    (\<forall>k. map_of m' k = (if k \<in> set next then Some dist else map_of m k))"
proof -
  have S: "{callee e | e. e \<in> set (concat (map (calleeRefsOf g) frontier)) \<and> admit filt e} =
    {callee e | e c. c \<in> set frontier \<and> e \<in> set (calleeRefsOf g c) \<and> admit filt e}" by auto
  show ?thesis
    using corridorEdges [OF assms [unfolded corridorLayer_flat], unfolded S] by auto
qed

function corridorLoop :: "call_graph \<Rightarrow> (EdgeRef \<Rightarrow> bool) option \<Rightarrow> sid list \<Rightarrow> nat \<Rightarrow>
    (sid, nat) umap \<Rightarrow> (sid, nat) umap" where
  "corridorLoop g filt frontier dist m =
     (if frontier = [] then m
      else let (m', next) = corridorLayer g filt (dist + 1) frontier m
           in corridorLoop g filt next (dist + 1) m')"
  by pat_completeness auto
termination
proof (relation "measure (\<lambda>(g, filt, frontier, dist, m).
    card (calleeUniverse g - dom (map_of m)) + (if frontier = [] then 0 else 1))", goal_cases)
  case (2 g filt frontier dist m x m' nx)
  then have L: "corridorLayer g filt (dist + 1) frontier m = (m', nx)" by simp
  note S = corridorLayer_spec [OF L]
  have sub: "set nx \<subseteq> calleeUniverse g - dom (map_of m)"
    using S calleeUniverse by auto
  have dom: "dom (map_of m') = dom (map_of m) \<union> set nx"
    using S by (auto simp: dom_def split: if_splits)
  show ?case
  proof (cases "nx = []")
    case True
    then show ?thesis using 2 dom by simp
  next
    case False
    then obtain x where "x \<in> set nx" by (cases nx) auto
    then have "card (calleeUniverse g - dom (map_of m')) < card (calleeUniverse g - dom (map_of m))"
      using sub dom by (intro psubset_card_mono) auto
    with 2 show ?thesis by simp
  qed
qed auto

definition corridor :: "call_graph \<Rightarrow> (EdgeRef \<Rightarrow> bool) option \<Rightarrow> sid list \<Rightarrow> (sid, nat) umap" where
  "corridor g filt starts =
     corridorLoop g filt starts 0 (fold (\<lambda>s m. um_emplace m s 0) starts [])"


section \<open>The search\<close>

record search_env =
  e_graph :: call_graph
  e_limits :: SearchLimits
  e_cycles :: CycleRule
  e_filter :: "(EdgeRef \<Rightarrow> bool) option"
  e_startSet :: "sid list"
  e_minFromStart :: "(sid, nat) umap"

record search_state =
  s_deadAt :: "(sid, nat) umap"
  s_found :: "EdgeRef list list"
  s_hubs :: "(sid, nat) umap"
  s_stops :: "StopReason set"
  s_expansions :: nat
  s_truncated :: bool

definition initState :: search_state where
  "initState = \<lparr>s_deadAt = [], s_found = [], s_hubs = [], s_stops = {}, s_expansions = 0,
     s_truncated = False\<rparr>"

definition pathLimitHit :: "search_env \<Rightarrow> search_state \<Rightarrow> bool" where
  "pathLimitHit env st \<longleftrightarrow>
     maxPaths (e_limits env) \<noteq> 0 \<and> length (s_found st) \<ge> maxPaths (e_limits env)"

definition searchCallersOf :: "search_env \<Rightarrow> sid \<Rightarrow> EdgeRef list" where
  "searchCallersOf env node =
     sortCallerRefsCanonically (e_graph env) (callerRefsOf (e_graph env) node)"

definition hasCorridorCaller :: "search_env \<Rightarrow> sid \<Rightarrow> bool" where
  "hasCorridorCaller env node \<longleftrightarrow>
     list_ex (\<lambda>e. admit (e_filter env) e \<and> map_of (e_minFromStart env) (caller e) \<noteq> None)
       (searchCallersOf env node)"

definition edgeKey :: "EdgeRef \<Rightarrow> sid \<times> sid \<times> sid" where
  "edgeKey e = (caller e, callee e, callSite e)"

definition excluded :: "search_env \<Rightarrow> sid list \<Rightarrow> (sid \<times> sid \<times> sid) list \<Rightarrow> EdgeRef \<Rightarrow> bool" where
  "excluded env onPath onEdges e =
     (case e_cycles env of
        SimpleNodes \<Rightarrow> caller e \<in> set onPath
      | SimpleEdges \<Rightarrow> edgeKey e \<in> set onEdges)"

definition pushKey :: "search_env \<Rightarrow> EdgeRef \<Rightarrow> (sid \<times> sid \<times> sid) list \<Rightarrow> (sid \<times> sid \<times> sid) list" where
  "pushKey env e onEdges = (if e_cycles env = SimpleEdges then edgeKey e # onEdges else onEdges)"

definition noteDead :: "(sid, nat) umap \<Rightarrow> sid \<Rightarrow> nat \<Rightarrow> (sid, nat) umap" where
  "noteDead m node depth =
     (case map_of m node of
        None \<Rightarrow> um_put m node depth
      | Some d \<Rightarrow> if depth < d then um_put m node depth else m)"

text \<open>The flags of \<open>dfs\<close> are the pair (\<open>kFound\<close>, \<open>kBlocked\<close>).\<close>

text \<open>
  The loop over a node's callers, given the recursive call. \<open>depth\<close>, \<open>edges\<close>, \<open>onPath\<close> and
  \<open>onEdges\<close> are those of the node whose callers are scanned.
\<close>

type_synonym search_result = "((bool \<times> bool) \<times> search_state) option"

fun dfsLoop :: "(sid \<Rightarrow> nat \<Rightarrow> EdgeRef list \<Rightarrow> sid list \<Rightarrow> (sid \<times> sid \<times> sid) list \<Rightarrow> search_state \<Rightarrow>
      search_result) \<Rightarrow> search_env \<Rightarrow> nat \<Rightarrow> EdgeRef list \<Rightarrow> sid list \<Rightarrow> (sid \<times> sid \<times> sid) list \<Rightarrow>
      EdgeRef list \<Rightarrow> bool \<times> bool \<Rightarrow> search_state \<Rightarrow> search_result" where
  "dfsLoop rec env depth edges onPath onEdges [] flags st = Some (flags, st)"
| "dfsLoop rec env depth edges onPath onEdges (e # es) flags st =
     (if \<not> admit (e_filter env) e
      then dfsLoop rec env depth edges onPath onEdges es flags st
      else case map_of (e_minFromStart env) (caller e) of
        None \<Rightarrow> dfsLoop rec env depth edges onPath onEdges es flags st
      | Some m \<Rightarrow>
          if maxDepth (e_limits env) \<noteq> 0 \<and> m + depth + 1 > maxDepth (e_limits env)
          then dfsLoop rec env depth edges onPath onEdges es flags
                 (st\<lparr>s_stops := insert DepthLimit (s_stops st)\<rparr>)
          else if excluded env onPath onEdges e
          then dfsLoop rec env depth edges onPath onEdges es (fst flags, True) st
          else
            (case rec (caller e) (depth + 1) (edges @ [e]) onPath
                    (pushKey env e onEdges) st of
               None \<Rightarrow> None
             | Some (fl, st) \<Rightarrow>
                 let flags = (fst flags \<or> fst fl, snd flags \<or> snd fl) in
                 if pathLimitHit env st
                 then Some ((fst flags, True),
                        if es \<noteq> [] then st\<lparr>s_truncated := True\<rparr> else st)
                 else dfsLoop rec env depth edges onPath onEdges es flags st))"

text \<open>The node's own part: the prunes of a hub, of the depth bound and of a filled path limit, or the loop.\<close>

definition dfsExpand :: "(sid \<Rightarrow> nat \<Rightarrow> EdgeRef list \<Rightarrow> sid list \<Rightarrow> (sid \<times> sid \<times> sid) list \<Rightarrow> search_state \<Rightarrow>
      search_result) \<Rightarrow> search_env \<Rightarrow> sid \<Rightarrow> nat \<Rightarrow> EdgeRef list \<Rightarrow> sid list \<Rightarrow> (sid \<times> sid \<times> sid) list \<Rightarrow>
      bool \<Rightarrow> search_state \<Rightarrow> search_result" where
  "dfsExpand rec env node depth edges onPath onEdges hit st =
     (let lim = e_limits env in
      if maxFanIn lim \<noteq> 0 \<and> depth > 0 \<and> storedInDegree (e_graph env) node > maxFanIn lim
      then Some ((hit, False),
        st\<lparr>s_hubs := um_emplace (s_hubs st) node (storedInDegree (e_graph env) node),
           s_stops := insert HubPruned (s_stops st)\<rparr>)
      else if maxDepth lim \<noteq> 0 \<and> depth \<ge> maxDepth lim
      then Some ((hit, False),
        if hasCorridorCaller env node
        then st\<lparr>s_stops := insert DepthLimit (s_stops st)\<rparr> else st)
      else if pathLimitHit env st
      then Some ((hit, True),
        if hasCorridorCaller env node then st\<lparr>s_truncated := True\<rparr> else st)
      else dfsLoop rec env depth edges onPath onEdges (searchCallersOf env node) (hit, False) st)"

definition dfsNode :: "(sid \<Rightarrow> nat \<Rightarrow> EdgeRef list \<Rightarrow> sid list \<Rightarrow> (sid \<times> sid \<times> sid) list \<Rightarrow> search_state \<Rightarrow>
      search_result) \<Rightarrow> search_env \<Rightarrow> sid \<Rightarrow> nat \<Rightarrow> EdgeRef list \<Rightarrow> sid list \<Rightarrow> (sid \<times> sid \<times> sid) list \<Rightarrow>
      search_state \<Rightarrow> search_result" where
  "dfsNode rec env node depth edges onPath onEdges st =
     (let lim = e_limits env in
      if pathLimitHit env st then Some ((False, True), st\<lparr>s_truncated := True\<rparr>)
      else if maxWork lim \<noteq> 0 \<and> s_expansions st \<ge> maxWork lim
      then Some ((False, True), st\<lparr>s_stops := insert WorkBudget (s_stops st)\<rparr>)
      else
        let st = st\<lparr>s_expansions := s_expansions st + 1\<rparr> in
        if (case map_of (s_deadAt st) node of None \<Rightarrow> False | Some d \<Rightarrow> depth \<ge> d)
        then Some ((False, False), st)
        else
          let hit = (node \<in> set (e_startSet env) \<and> depth > 0);
              st = (if hit then st\<lparr>s_found := s_found st @ [edges]\<rparr> else st)
          in case dfsExpand rec env node depth edges (node # onPath) onEdges hit st of
               None \<Rightarrow> None
             | Some (flags, st) \<Rightarrow>
                 Some (flags,
                   if fst flags \<or> snd flags then st
                   else st\<lparr>s_deadAt := noteDead (s_deadAt st) node depth\<rparr>))"

primrec dfs :: "nat \<Rightarrow> search_env \<Rightarrow> sid \<Rightarrow> nat \<Rightarrow> EdgeRef list \<Rightarrow> sid list \<Rightarrow> (sid \<times> sid \<times> sid) list \<Rightarrow>
      search_state \<Rightarrow> search_result" where
  "dfs 0 env = (\<lambda>node depth edges onPath onEdges st. None)"
| "dfs (Suc fuel) env = dfsNode (dfs fuel env) env"

fun searchTargets :: "nat \<Rightarrow> search_env \<Rightarrow> sid list \<Rightarrow> search_state \<Rightarrow> search_state option" where
  "searchTargets fuel env [] st = Some st"
| "searchTargets fuel env (t # ts) st =
     (if pathLimitHit env st then Some (st\<lparr>s_truncated := True\<rparr>)
      else case map_of (e_minFromStart env) t of
        None \<Rightarrow> searchTargets fuel env ts st
      | Some m \<Rightarrow>
          if maxDepth (e_limits env) \<noteq> 0 \<and> m > maxDepth (e_limits env)
          then searchTargets fuel env ts (st\<lparr>s_stops := insert DepthLimit (s_stops st)\<rparr>)
          else (case dfs fuel env t 0 [] [] [] st of
                  None \<Rightarrow> None
                | Some (_, st) \<Rightarrow> searchTargets fuel env ts st))"

definition capLimits :: "SearchLimits \<Rightarrow> SearchLimits" where
  "capLimits lim =
     (if maxDepth lim = 0 \<or> maxDepth lim > kPathSearchDepthCap
      then lim\<lparr>maxDepth := kPathSearchDepthCap\<rparr> else lim)"

definition displayOf :: "(string \<Rightarrow> bool) \<Rightarrow> call_graph \<Rightarrow> sid \<Rightarrow> string" where
  "displayOf isUTF8 g i =
     (let u = resolve (g_interner g) i
      in case findNode isUTF8 g u of None \<Rightarrow> u | Some n \<Rightarrow> qualifiedName n)"

definition hopOf :: "(string \<Rightarrow> bool) \<Rightarrow> call_graph \<Rightarrow> EdgeRef \<Rightarrow> PathHop" where
  "hopOf isUTF8 g e =
     \<lparr>hopCallerUsr = resolve (g_interner g) (caller e),
      hopCalleeUsr = resolve (g_interner g) (callee e),
      hopCaller = displayOf isUTF8 g (caller e), hopCallee = displayOf isUTF8 g (callee e),
      hopCallSite = resolve (g_interner g) (callSite e), hopKind = kind e,
      hopConfidence = confidence e, hopExecContext = execContext e,
      hopIndirectionDepth = indirectionDepth e\<rparr>"

definition startIds :: "(string \<Rightarrow> bool) \<Rightarrow> call_graph \<Rightarrow> string list \<Rightarrow> sid list" where
  "startIds isUTF8 g starts = fold add_new (concat (map (resolveIds isUTF8 g) starts)) []"

definition searchEnv :: "(string \<Rightarrow> bool) \<Rightarrow> call_graph \<Rightarrow> string list \<Rightarrow> SearchLimits \<Rightarrow> CycleRule \<Rightarrow>
    (EdgeRef \<Rightarrow> bool) option \<Rightarrow> search_env" where
  "searchEnv isUTF8 g starts limitsIn cycles filt =
     \<lparr>e_graph = g, e_limits = capLimits limitsIn, e_cycles = cycles, e_filter = filt,
      e_startSet = startIds isUTF8 g starts,
      e_minFromStart = corridor g filt (startIds isUTF8 g starts)\<rparr>"

definition findCallerPaths :: "(string \<Rightarrow> bool) \<Rightarrow> call_graph \<Rightarrow> string \<Rightarrow> string list \<Rightarrow> SearchLimits \<Rightarrow>
    CycleRule \<Rightarrow> (EdgeRef \<Rightarrow> bool) option \<Rightarrow> PathSearchResult option" where
  "findCallerPaths isUTF8 g target starts limitsIn cycles filt =
     (let targetIds = resolveIds isUTF8 g target;
          env = searchEnv isUTF8 g starts limitsIn cycles filt;
          res = \<lparr>paths = [], skippedHubs = [], stops = {}, expansions = 0,
                 targetKnown = (targetIds \<noteq> []), startKnown = (e_startSet env \<noteq> [])\<rparr>
      in if targetIds = [] \<or> e_startSet env = [] then Some res
         else
           let ordered = sort_key (resolve (g_interner g)) targetIds
           in case searchTargets (kPathSearchDepthCap + 1) env ordered initState of
                None \<Rightarrow> None
              | Some st \<Rightarrow> Some (res\<lparr>
                  paths := map (\<lambda>es. map (hopOf isUTF8 g) (rev es)) (s_found st),
                  skippedHubs := sort_key hubUsr (map (\<lambda>(i, deg). \<lparr>hubUsr = resolve (g_interner g) i,
                    hubName = displayOf isUTF8 g i, hubInDegree = deg\<rparr>) (s_hubs st)),
                  stops := (if s_truncated st then insert PathLimit (s_stops st) else s_stops st),
                  expansions := s_expansions st\<rparr>))"

section \<open>Callers\<close>

text \<open>The callers any query can return.\<close>

definition callerUniverse :: "call_graph \<Rightarrow> sid set" where
  "callerUniverse g = (\<Union>d \<in> fst ` set (g_inEdges g) \<union> fst ` set (g_overrideBases g) \<union> fst ` set (g_returnedBy g).
     caller ` set (callerRefsOf g d))"

lemma finite_callerUniverse [simp]: "finite (callerUniverse g)"
  by (simp add: callerUniverse_def)

lemma transitiveClosure_None: "map_of rel s = None \<Longrightarrow> transitiveClosure s rel = []"
  by (simp add: transitiveClosure_def)

lemma callerRefsOf_universe: "r \<in> set (callerRefsOf g d) \<Longrightarrow> caller r \<in> callerUniverse g"
proof -
  assume r: "r \<in> set (callerRefsOf g d)"
  have "d \<in> fst ` set (g_inEdges g) \<union> fst ` set (g_overrideBases g) \<union> fst ` set (g_returnedBy g)"
  proof (rule ccontr)
    assume "\<not> ?thesis"
    then have "map_of (g_inEdges g) d = None" "map_of (g_overrideBases g) d = None" "map_of (g_returnedBy g) d = None"
      by (simp_all add: map_of_eq_None_iff)
    then have "callerRefsOf g d = []" by (simp add: callerRefsOf_def transitiveClosure_None)
    with r show False by simp
  qed
  with r show ?thesis by (auto simp: callerUniverse_def)
qed

end
