(* ===== verification/PathSearchProofs.thy ===== *)
theory PathSearchProofs
  imports PathSearch
begin

text \<open>
  Correctness of the path search: the corridor holds shortest distances, the recursion always
  returns, and the recursion meets its specification. The specification has two halves: what is found
  is a walk to a start, whatever the filter; and every completion over hops that satisfy \<open>G\<close> is found when
  the state is untroubled. \<open>G\<close> implies that a hop keeps to the corridor and does not end in the set \<open>A\<close>
  of nodes whose memo entry is not to be trusted.
\<close>

section \<open>The corridor holds shortest distances\<close>

definition fstep :: "call_graph \<Rightarrow> (EdgeRef \<Rightarrow> bool) option \<Rightarrow> sid \<Rightarrow> sid \<Rightarrow> bool" where
  "fstep g filt a b \<longleftrightarrow> (\<exists>r \<in> set (calleeRefsOf g a). admit filt r \<and> callee r = b)"

inductive reaches :: "call_graph \<Rightarrow> (EdgeRef \<Rightarrow> bool) option \<Rightarrow> sid list \<Rightarrow> nat \<Rightarrow> sid \<Rightarrow> bool"
  for g filt starts where
  start: "s \<in> set starts \<Longrightarrow> reaches g filt starts 0 s"
| step: "reaches g filt starts k a \<Longrightarrow> fstep g filt a b \<Longrightarrow> reaches g filt starts (Suc k) b"

definition layered :: "call_graph \<Rightarrow> (EdgeRef \<Rightarrow> bool) option \<Rightarrow> sid list \<Rightarrow> sid list \<Rightarrow> nat \<Rightarrow>
    (sid, nat) umap \<Rightarrow> bool" where
  "layered g filt starts frontier dist m \<longleftrightarrow>
     (\<forall>n d. map_of m n = Some d \<longrightarrow> d \<le> dist \<and> reaches g filt starts d n) \<and>
     {n. map_of m n = Some dist} = set frontier \<and>
     (\<forall>n d b. map_of m n = Some d \<longrightarrow> d < dist \<longrightarrow> fstep g filt n b \<longrightarrow>
        (\<exists>d' \<le> Suc d. map_of m b = Some d')) \<and>
     (\<forall>s \<in> set starts. map_of m s = Some 0)"

lemma layeredD:
  assumes "layered g filt starts frontier dist m"
  shows "map_of m n = Some d \<Longrightarrow> d \<le> dist" and "map_of m n = Some d \<Longrightarrow> reaches g filt starts d n"
    and "map_of m n = Some dist \<longleftrightarrow> n \<in> set frontier"
    and "map_of m n = Some d \<Longrightarrow> d < dist \<Longrightarrow> fstep g filt n b \<Longrightarrow> \<exists>d' \<le> Suc d. map_of m b = Some d'"
    and "s \<in> set starts \<Longrightarrow> map_of m s = Some 0"
  using assms unfolding layered_def by auto

lemma corridorLayer_layered:
  assumes l: "layered g filt starts frontier dist m"
    and eq: "corridorLayer g filt (dist + 1) frontier m = (m', nx)"
  shows "layered g filt starts nx (dist + 1) m'"
proof -
  note L = layeredD [OF l] and S = corridorLayer_spec [OF eq]
  have nx: "set nx = {b. \<exists>c \<in> set frontier. fstep g filt c b} - dom (map_of m)"
    using S by (auto simp: fstep_def)
  have m': "map_of m' k = (if k \<in> set nx then Some (dist + 1) else map_of m k)" for k
    using S by blast
  have old: "map_of m k = Some d \<Longrightarrow> map_of m' k = Some d" for k d
    using nx by (auto simp: m')
  have new: "k \<in> set nx \<Longrightarrow> reaches g filt starts (dist + 1) k" for k
    using nx L(2,3) reaches.step by fastforce
  have f1: "d \<le> dist + 1 \<and> reaches g filt starts d n" if "map_of m' n = Some d" for n d
    using that L(1) [of n d] L(2) [of n d] new [of n] by (auto simp: m' split: if_splits)
  have f2: "{n. map_of m' n = Some (dist + 1)} = set nx"
  proof -
    have "map_of m n \<noteq> Some (dist + 1)" for n
      using L(1) [of n "dist + 1"] by auto
    then show ?thesis by (auto simp: m')
  qed
  have f3: "\<exists>d' \<le> Suc d. map_of m' b = Some d'"
    if n: "map_of m' n = Some d" and d: "d < dist + 1" and st: "fstep g filt n b" for n d b
  proof -
    have mn: "map_of m n = Some d" using n d by (auto simp: m' split: if_splits)
    show ?thesis
    proof (cases "d = dist")
      case True
      then have "n \<in> set frontier" using mn L(3) by blast
      then have "b \<in> set nx \<or> (\<exists>d'. map_of m b = Some d')" using nx st by auto
      then show ?thesis
      proof
        assume "b \<in> set nx"
        then show ?thesis using True by (simp add: m')
      next
        assume "\<exists>d'. map_of m b = Some d'"
        then obtain d' where "map_of m b = Some d'" by blast
        with L(1) [OF this] old True show ?thesis by fastforce
      qed
    next
      case False
      then obtain d' where "d' \<le> Suc d" "map_of m b = Some d'"
        using L(4) [OF mn _ st] d by auto
      with old show ?thesis by blast
    qed
  qed
  show ?thesis
    unfolding layered_def using f1 f2 f3 L(5) old by blast
qed

lemma corridorLoop_layered:
  assumes "layered g filt starts frontier dist m"
  shows "\<exists>dist'. layered g filt starts [] dist' (corridorLoop g filt frontier dist m)"
  using assms
proof (induction g filt frontier dist m rule: corridorLoop.induct)
  case (1 g filt frontier dist m)
  show ?case
  proof (cases "frontier = []")
    case True
    with 1 show ?thesis by (subst corridorLoop.simps) auto
  next
    case False
    obtain m' nx where eq: "corridorLayer g filt (dist + 1) frontier m = (m', nx)"
      by (cases "corridorLayer g filt (dist + 1) frontier m")
    from "1.IH" [OF False eq [symmetric] refl corridorLayer_layered [OF "1.prems" eq]] False eq
    show ?thesis by (subst corridorLoop.simps) simp
  qed
qed

lemma emplace_starts:
  "map_of (fold (\<lambda>s m. um_emplace m s 0) ss m) n =
    (case map_of m n of Some d \<Rightarrow> Some d | None \<Rightarrow> if n \<in> set ss then Some (0::nat) else None)"
  by (induction ss arbitrary: m) (auto split: option.split)

lemma corridor_shortest:
  "map_of (corridor g filt starts) n = Some d \<Longrightarrow> reaches g filt starts d n"
  "reaches g filt starts k n \<Longrightarrow> \<exists>d \<le> k. map_of (corridor g filt starts) n = Some d"
proof -
  let ?m = "fold (\<lambda>s m. um_emplace m s 0) starts []"
  have "layered g filt starts starts 0 ?m"
    by (auto simp: layered_def emplace_starts intro: reaches.start)
  then obtain dist where l: "layered g filt starts [] dist (corridor g filt starts)"
    using corridorLoop_layered unfolding corridor_def by blast
  note L = layeredD [OF l]
  show "map_of (corridor g filt starts) n = Some d \<Longrightarrow> reaches g filt starts d n"
    by (rule L(2))
  assume "reaches g filt starts k n"
  then show "\<exists>d \<le> k. map_of (corridor g filt starts) n = Some d"
  proof (induction rule: reaches.induct)
    case (start s)
    then show ?case using L(5) by blast
  next
    case (step k a b)
    then obtain d where d: "d \<le> k" "map_of (corridor g filt starts) a = Some d" by blast
    then have "d < dist" using L(1) [OF d(2)] L(3) [of a] by (cases "d = dist") auto
    from L(4) [OF d(2) this step.hyps(2)] d(1) show ?case
      using le_trans Suc_le_mono by blast
  qed
qed

section \<open>Walks, completions, the memo\<close>

fun walk :: "search_env \<Rightarrow> sid \<Rightarrow> EdgeRef list \<Rightarrow> bool" where
  "walk env n [] = True"
| "walk env n (e # es) \<longleftrightarrow> e \<in> set (searchCallersOf env n) \<and> admit (e_filter env) e \<and> walk env (caller e) es"

definition endOf :: "sid \<Rightarrow> EdgeRef list \<Rightarrow> sid" where
  "endOf n es = (if es = [] then n else caller (last es))"

lemma endOf_simps [simp]: "endOf n [] = n" "endOf n (e # es) = endOf (caller e) es"
  by (simp_all add: endOf_def)

text \<open>A path under the cycle rule, given the nodes and edge keys already on it.\<close>

fun avail :: "search_env \<Rightarrow> sid list \<Rightarrow> (sid \<times> sid \<times> sid) list \<Rightarrow> EdgeRef list \<Rightarrow> bool" where
  "avail env P E [] = True"
| "avail env P E (e # es) \<longleftrightarrow> \<not> excluded env P E e \<and> avail env (caller e # P) (pushKey env e E) es"

lemma avail_nodes:
  "e_cycles env = SimpleNodes \<Longrightarrow>
    avail env P E es \<longleftrightarrow> distinct (map caller es) \<and> set (map caller es) \<inter> set P = {}"
  by (induction es arbitrary: P E) (auto simp: excluded_def)

lemma avail_edges:
  "e_cycles env = SimpleEdges \<Longrightarrow>
    avail env P E es \<longleftrightarrow> distinct (map edgeKey es) \<and> set (map edgeKey es) \<inter> set E = {}"
  by (induction es arbitrary: P E) (auto simp: excluded_def pushKey_def)

definition completion :: "bool \<Rightarrow> (EdgeRef \<Rightarrow> bool) \<Rightarrow> search_env \<Rightarrow> sid \<Rightarrow> EdgeRef list \<Rightarrow> nat \<Rightarrow> bool" where
  "completion x G env n es d \<longleftrightarrow>
     walk env n es \<and> list_all G es \<and> endOf n es \<in> set (e_startSet env) \<and>
     (x \<or> d + length es \<le> maxDepth (e_limits env))"

definition memo_ok :: "bool \<Rightarrow> (EdgeRef \<Rightarrow> bool) \<Rightarrow> sid set \<Rightarrow> search_env \<Rightarrow> search_state \<Rightarrow> bool" where
  "memo_ok x G A env st \<longleftrightarrow>
     (\<forall>n d es. n \<notin> A \<longrightarrow> map_of (s_deadAt st) n = Some d \<longrightarrow> \<not> completion x G env n es d)"

definition untroubled :: "bool \<Rightarrow> search_state \<Rightarrow> bool" where
  "untroubled x st \<longleftrightarrow> HubPruned \<notin> s_stops st \<and> WorkBudget \<notin> s_stops st \<and> \<not> s_truncated st \<and>
     (x \<longrightarrow> DepthLimit \<notin> s_stops st)"

definition extends :: "search_state \<Rightarrow> search_state \<Rightarrow> bool" where
  "extends st st' \<longleftrightarrow> s_stops st \<subseteq> s_stops st' \<and> (s_truncated st \<longrightarrow> s_truncated st') \<and>
     set (s_found st) \<subseteq> set (s_found st')"

lemma extends_refl [simp]: "extends st st"
  by (simp add: extends_def)

lemma extends_trans: "extends a b \<Longrightarrow> extends b c \<Longrightarrow> extends a c"
  by (auto simp: extends_def)

lemma untroubled_extends: "extends st st' \<Longrightarrow> untroubled x st' \<Longrightarrow> untroubled x st"
  by (auto simp: extends_def untroubled_def)

definition corridor_ok :: "(EdgeRef \<Rightarrow> bool) \<Rightarrow> search_env \<Rightarrow> bool" where
  "corridor_ok G env \<longleftrightarrow>
     (\<forall>s \<in> set (e_startSet env). map_of (e_minFromStart env) s = Some 0) \<and>
     (\<forall>n e d. e \<in> set (searchCallersOf env n) \<longrightarrow> admit (e_filter env) e \<longrightarrow> G e \<longrightarrow>
        map_of (e_minFromStart env) (caller e) = Some d \<longrightarrow>
        (\<exists>d' \<le> Suc d. map_of (e_minFromStart env) n = Some d'))"

lemma corridor_ok_mono: "corridor_ok G env \<Longrightarrow> corridor_ok (\<lambda>_. False) env"
  by (simp add: corridor_ok_def)

lemma corridor_walk:
  assumes "corridor_ok G env" and "walk env n es" and "list_all G es" and "endOf n es \<in> set (e_startSet env)"
  shows "\<exists>d \<le> length es. map_of (e_minFromStart env) n = Some d"
  using assms(2-4)
proof (induction es arbitrary: n)
  case Nil
  then show ?case using assms(1) by (auto simp: corridor_ok_def)
next
  case (Cons e es)
  then obtain d where d: "d \<le> length es" "map_of (e_minFromStart env) (caller e) = Some d" by auto
  then obtain d' where "d' \<le> Suc d" "map_of (e_minFromStart env) n = Some d'"
    using assms(1) Cons.prems(1,2) unfolding corridor_ok_def by (auto; blast)
  with d show ?case by (intro exI [of _ d']) simp
qed

section \<open>Specification of the recursion\<close>

definition nodeSpec :: "bool \<Rightarrow> (EdgeRef \<Rightarrow> bool) \<Rightarrow> sid set \<Rightarrow> search_env \<Rightarrow> sid \<Rightarrow> nat \<Rightarrow> EdgeRef list \<Rightarrow> sid list \<Rightarrow> (sid \<times> sid \<times> sid) list \<Rightarrow>
    search_state \<Rightarrow> bool \<times> bool \<Rightarrow> search_state \<Rightarrow> bool" where
  "nodeSpec x G A env node depth edges P E st fl st' \<longleftrightarrow>
     extends st st' \<and>
     (\<forall>p \<in> set (s_found st'). p \<in> set (s_found st) \<or>
        (\<exists>es. p = edges @ es \<and> completion False (\<lambda>_. True) env node es depth \<and> avail env (node # P) E es \<and>
           (es = [] \<longrightarrow> depth > 0))) \<and>
     (untroubled x st' \<and> memo_ok x G A env st \<longrightarrow>
        (node \<notin> A \<longrightarrow> (\<forall>es. completion x G env node es depth \<and> avail env (node # P) E es \<and>
           (es = [] \<longrightarrow> depth > 0) \<longrightarrow> edges @ es \<in> set (s_found st'))) \<and>
        (depth > 0 \<or> node \<notin> set (e_startSet env) \<or> node \<in> A \<longrightarrow> memo_ok x G A env st') \<and>
        (node \<notin> A \<and> (depth > 0 \<or> node \<notin> set (e_startSet env)) \<and> fl = (False, False) \<longrightarrow>
           (\<forall>es. \<not> completion x G env node es depth)))"

definition loopSpec :: "bool \<Rightarrow> (EdgeRef \<Rightarrow> bool) \<Rightarrow> sid set \<Rightarrow> search_env \<Rightarrow> nat \<Rightarrow> EdgeRef list \<Rightarrow> sid list \<Rightarrow> (sid \<times> sid \<times> sid) list \<Rightarrow>
    EdgeRef list \<Rightarrow> bool \<times> bool \<Rightarrow> search_state \<Rightarrow> bool \<times> bool \<Rightarrow> search_state \<Rightarrow> bool" where
  "loopSpec x G A env depth edges P E cs flags st fl st' \<longleftrightarrow>
     extends st st' \<and>
     (\<forall>p \<in> set (s_found st'). p \<in> set (s_found st) \<or>
        (\<exists>e \<in> set cs. \<exists>es. p = edges @ e # es \<and> admit (e_filter env) e \<and>
           completion False (\<lambda>_. True) env (caller e) es (depth + 1) \<and> avail env P E (e # es))) \<and>
     (untroubled x st' \<and> memo_ok x G A env st \<longrightarrow>
        memo_ok x G A env st' \<and>
        (\<forall>e \<in> set cs. \<forall>es. admit (e_filter env) e \<and> G e \<and> completion x G env (caller e) es (depth + 1) \<and>
           avail env P E (e # es) \<longrightarrow> edges @ e # es \<in> set (s_found st')) \<and>
        (fst flags \<longrightarrow> fst fl) \<and> (snd flags \<longrightarrow> snd fl) \<and>
        (fl = (False, False) \<longrightarrow>
           (\<forall>e \<in> set cs. admit (e_filter env) e \<and> G e \<longrightarrow> (\<forall>es. \<not> completion x G env (caller e) es (depth + 1)))))"

lemma completion_cut:
  assumes "corridor_ok G env" and "completion x G env n es d"
  shows "\<exists>m. map_of (e_minFromStart env) n = Some m \<and> (x \<or> m + d \<le> maxDepth (e_limits env))"
  using corridor_walk [OF assms(1), of n es] assms(2) by (auto simp: completion_def)

text \<open>An edge the loop skips, because no completion runs through it, leaves the rest to do.\<close>

lemma loopSpec_skip:
  assumes "loopSpec x G A env depth edges P E cs flags st fl st'"
    and "admit (e_filter env) e \<Longrightarrow> G e \<Longrightarrow> \<forall>es. \<not> completion x G env (caller e) es (depth + 1)"
  shows "loopSpec x G A env depth edges P E (e # cs) flags st fl st'"
  using assms unfolding loopSpec_def by simp blast

lemma loopSpec_excluded:
  assumes "loopSpec x G A env depth edges P E cs (fst flags, True) st fl st'" and "excluded env P E e"
  shows "loopSpec x G A env depth edges P E (e # cs) flags st fl st'"
  using assms by (auto simp: loopSpec_def)


definition orFlags :: "bool \<times> bool \<Rightarrow> bool \<times> bool \<Rightarrow> bool \<times> bool" where
  "orFlags a b = (fst a \<or> fst b, snd a \<or> snd b)"

lemma loopSpec_visit:
  assumes hop: "G e \<Longrightarrow> caller e \<notin> A"
    and node: "nodeSpec x G A env (caller e) (depth + 1) (edges @ [e]) P (pushKey env e E) st fl1 st1"
    and rest: "loopSpec x G A env depth edges P E cs (orFlags flags fl1) st1 fl st'"
    and ex: "\<not> excluded env P E e" and ad: "admit (e_filter env) e"
  shows "loopSpec x G A env depth edges P E (e # cs) flags st fl st'"
  unfolding loopSpec_def
proof (intro conjI impI ballI allI)
  have ext: "extends st st1" "extends st1 st'"
    using node rest by (auto simp: nodeSpec_def loopSpec_def)
  then show "extends st st'" by (rule extends_trans)
  have sound1: "p \<in> set (s_found st) \<or> (\<exists>es. p = edges @ e # es \<and> completion False (\<lambda>_. True) env (caller e) es (depth + 1) \<and>
      avail env P E (e # es))" if "p \<in> set (s_found st1)" for p
    using node that ex unfolding nodeSpec_def by fastforce
  show "p \<in> set (s_found st) \<or> (\<exists>e' \<in> set (e # cs). \<exists>es. p = edges @ e' # es \<and> admit (e_filter env) e' \<and>
     completion False (\<lambda>_. True) env (caller e') es (depth + 1) \<and> avail env P E (e' # es))"
    if "p \<in> set (s_found st')" for p
  proof -
    have "p \<in> set (s_found st1) \<or> (\<exists>e' \<in> set cs. \<exists>es. p = edges @ e' # es \<and> admit (e_filter env) e' \<and>
     completion False (\<lambda>_. True) env (caller e') es (depth + 1) \<and> avail env P E (e' # es))"
      using rest that unfolding loopSpec_def by blast
    then show ?thesis using sound1 [of p] ad by (meson list.set_intros)
  qed
  assume u: "untroubled x st' \<and> memo_ok x G A env st"
  then have u1: "untroubled x st1" using ext(2) untroubled_extends by blast
  then have m1: "memo_ok x G A env st1" and
    c1: "\<And>es. G e \<Longrightarrow> completion x G env (caller e) es (depth + 1) \<Longrightarrow> avail env P E (e # es) \<Longrightarrow>
      edges @ e # es \<in> set (s_found st1)" and
    d1: "G e \<Longrightarrow> fl1 = (False, False) \<Longrightarrow> \<forall>es. \<not> completion x G env (caller e) es (depth + 1)"
    using node u hop unfolding nodeSpec_def by auto
  have R: "memo_ok x G A env st'" "\<forall>e \<in> set cs. \<forall>es. admit (e_filter env) e \<and> G e \<and>
      completion x G env (caller e) es (depth + 1) \<and> avail env P E (e # es) \<longrightarrow>
      edges @ e # es \<in> set (s_found st')"
    "fst flags \<or> fst fl1 \<longrightarrow> fst fl" "snd flags \<or> snd fl1 \<longrightarrow> snd fl"
    "fl = (False, False) \<longrightarrow> (\<forall>e \<in> set cs. admit (e_filter env) e \<and> G e \<longrightarrow>
       (\<forall>es. \<not> completion x G env (caller e) es (depth + 1)))"
    using rest u m1 unfolding loopSpec_def orFlags_def by auto
  show "memo_ok x G A env st'" by (rule R(1))
  show "fst flags \<Longrightarrow> fst fl" "snd flags \<Longrightarrow> snd fl" using R(3,4) by blast+
  show "edges @ e' # es \<in> set (s_found st')"
    if "e' \<in> set (e # cs)" and h: "admit (e_filter env) e' \<and> G e' \<and> completion x G env (caller e') es (depth + 1) \<and>
      avail env P E (e' # es)" for e' es
  proof (cases "e' = e")
    case True
    with h c1 [of es] ext(2) show ?thesis by (auto simp: extends_def)
  next
    case False
    with that R(2) show ?thesis by auto
  qed
  show "\<not> completion x G env (caller e') es (depth + 1)"
    if "fl = (False, False)" "e' \<in> set (e # cs)" "admit (e_filter env) e' \<and> G e'" for e' es
  proof (cases "e' = e")
    case True
    have "fl1 = (False, False)" using R(3,4) that(1) by (cases fl1) auto
    with d1 True that(3) show ?thesis by blast
  next
    case False
    with that R(5) show ?thesis by auto
  qed
qed

lemma loopSpec_refl: "loopSpec x G A env depth edges P E [] flags st flags st"
  by (simp add: loopSpec_def)

text \<open>The loop stopped by the path limit: nothing is lost unless the result says so.\<close>

lemma loopSpec_limit:
  assumes hop: "G e \<Longrightarrow> caller e \<notin> A"
    and node: "nodeSpec x G A env (caller e) (depth + 1) (edges @ [e]) P (pushKey env e E) st fl1 st1"
    and ex: "\<not> excluded env P E e" and ad: "admit (e_filter env) e"
  shows "loopSpec x G A env depth edges P E (e # cs) flags st (fst (orFlags flags fl1), True)
    (if cs \<noteq> [] then st1\<lparr>s_truncated := True\<rparr> else st1)"
proof (cases "cs = []")
  case True
  have "loopSpec x G A env depth edges P E [] (orFlags flags fl1) st1 (fst (orFlags flags fl1), True) st1"
    by (simp add: loopSpec_def)
  from loopSpec_visit [OF hop node this ex ad] True show ?thesis by simp
next
  case False
  have "loopSpec x G A env depth edges P E cs (orFlags flags fl1) st1 (fst (orFlags flags fl1), True)
      (st1\<lparr>s_truncated := True\<rparr>)"
    by (simp add: loopSpec_def extends_def untroubled_def)
  from loopSpec_visit [OF hop node this ex ad] False show ?thesis by simp
qed

lemma stops_update [simp]:
  "memo_ok x G A env (st\<lparr>s_stops := s\<rparr>) = memo_ok x G A env st" "memo_ok x G A env (st\<lparr>s_truncated := b\<rparr>) = memo_ok x G A env st"
  "memo_ok x G A env (st\<lparr>s_found := f\<rparr>) = memo_ok x G A env st" "memo_ok x G A env (st\<lparr>s_hubs := h\<rparr>) = memo_ok x G A env st"
  "memo_ok x G A env (st\<lparr>s_expansions := k\<rparr>) = memo_ok x G A env st"
  by (simp_all add: memo_ok_def)

lemma loopSpec_cut:
  assumes L: "loopSpec x G A env depth edges P E cs flags (st\<lparr>s_stops := insert DepthLimit (s_stops st)\<rparr>) fl st'"
    and no: "\<not> x \<Longrightarrow> G e \<Longrightarrow> \<forall>es. \<not> completion x G env (caller e) es (depth + 1)"
  shows "loopSpec x G A env depth edges P E (e # cs) flags st fl st'"
proof -
  have ext: "extends st (st\<lparr>s_stops := insert DepthLimit (s_stops st)\<rparr>)"
    by (auto simp: extends_def)
  have L': "loopSpec x G A env depth edges P E cs flags st fl st'"
    using L extends_trans [OF ext] unfolding loopSpec_def by simp
  show ?thesis
  proof (cases x)
    case True
    then have "\<not> untroubled x st'"
      using L by (auto simp: loopSpec_def extends_def untroubled_def)
    with L' show ?thesis unfolding loopSpec_def by auto
  next
    case False
    with L' no show ?thesis by (intro loopSpec_skip) auto
  qed
qed

lemma dfsLoop_spec:
  assumes ok: "corridor_ok G env" and hop: "\<And>e. G e \<Longrightarrow> caller e \<notin> A" and D: "maxDepth (e_limits env) \<noteq> 0"
    and rec: "\<And>n es P E st fl st'. depth + 1 \<le> maxDepth (e_limits env) \<Longrightarrow>
      rec n (depth + 1) es P E st = Some (fl, st') \<Longrightarrow> nodeSpec x G A env n (depth + 1) es P E st fl st'"
    and eq: "dfsLoop rec env depth edges P E cs flags st = Some (fl, st')"
  shows "loopSpec x G A env depth edges P E cs flags st fl st'"
  using eq
proof (induction cs arbitrary: flags st)
  case Nil
  then show ?case by (simp add: loopSpec_def)
next
  case (Cons e cs)
  show ?case
  proof (cases "admit (e_filter env) e")
    case False
    with Cons.prems have "loopSpec x G A env depth edges P E cs flags st fl st'"
      by (intro Cons.IH) simp
    with False show ?thesis by (intro loopSpec_skip) auto
  next
    case ad: True
    show ?thesis
    proof (cases "map_of (e_minFromStart env) (caller e)")
      case None
      with Cons.prems ad have "loopSpec x G A env depth edges P E cs flags st fl st'"
        by (intro Cons.IH) simp
      moreover have "\<not> completion x G env (caller e) es (depth + 1)" for es
        using completion_cut [OF ok, of x "caller e" es "depth + 1"] None by auto
      ultimately show ?thesis by (intro loopSpec_skip) auto
    next
      case (Some m)
      show ?thesis
      proof (cases "m + depth + 1 > maxDepth (e_limits env)")
        case True
        with Cons.prems ad Some D have
          "loopSpec x G A env depth edges P E cs flags (st\<lparr>s_stops := insert DepthLimit (s_stops st)\<rparr>) fl st'"
          by (intro Cons.IH) simp
        then show ?thesis
        proof (rule loopSpec_cut)
          show "\<forall>es. \<not> completion x G env (caller e) es (depth + 1)" if "\<not> x"
            using completion_cut [OF ok, of x "caller e" _ "depth + 1"] Some True that by auto
        qed
      next
        case near: False
        show ?thesis
        proof (cases "excluded env P E e")
          case True
          with Cons.prems ad Some near have "loopSpec x G A env depth edges P E cs (fst flags, True) st fl st'"
            by (intro Cons.IH) simp
          then show ?thesis using True by (rule loopSpec_excluded)
        next
          case ex: False
          then obtain fl1 st1 where 1: "rec (caller e) (depth + 1) (edges @ [e]) P (pushKey env e E) st = Some (fl1, st1)"
            using Cons.prems ad Some near by (auto split: option.splits)
          have N: "nodeSpec x G A env (caller e) (depth + 1) (edges @ [e]) P (pushKey env e E) st fl1 st1"
            using rec [OF _ 1] near by simp
          show ?thesis
          proof (cases "pathLimitHit env st1")
            case True
            then have "fl = (fst (orFlags flags fl1), True)"
              "st' = (if cs \<noteq> [] then st1\<lparr>s_truncated := True\<rparr> else st1)"
              using Cons.prems ad Some near ex 1 by (auto simp: orFlags_def Let_def)
            with loopSpec_limit [OF hop N ex ad] show ?thesis by simp
          next
            case False
            with Cons.prems ad Some near ex 1 have "loopSpec x G A env depth edges P E cs (orFlags flags fl1) st1 fl st'"
              by (intro Cons.IH) (simp add: orFlags_def Let_def)
            with hop N show ?thesis using ex ad by (rule loopSpec_visit)
          qed
        qed
      qed
    qed
  qed
qed


text \<open>The expansion of a node: everything but the node itself being a start.\<close>

definition expandSpec :: "bool \<Rightarrow> (EdgeRef \<Rightarrow> bool) \<Rightarrow> sid set \<Rightarrow> search_env \<Rightarrow> sid \<Rightarrow> nat \<Rightarrow> EdgeRef list \<Rightarrow> sid list \<Rightarrow> (sid \<times> sid \<times> sid) list \<Rightarrow>
    bool \<Rightarrow> search_state \<Rightarrow> bool \<times> bool \<Rightarrow> search_state \<Rightarrow> bool" where
  "expandSpec x G A env node depth edges P E hit st fl st' \<longleftrightarrow>
     extends st st' \<and>
     (\<forall>p \<in> set (s_found st'). p \<in> set (s_found st) \<or>
        (\<exists>e es. p = edges @ e # es \<and> completion False (\<lambda>_. True) env node (e # es) depth \<and> avail env P E (e # es))) \<and>
     (untroubled x st' \<and> memo_ok x G A env st \<longrightarrow>
        memo_ok x G A env st' \<and>
        (\<forall>e es. completion x G env node (e # es) depth \<and> avail env P E (e # es) \<longrightarrow>
           edges @ e # es \<in> set (s_found st')) \<and>
        (hit \<longrightarrow> fst fl) \<and>
        (fl = (False, False) \<longrightarrow> (\<forall>e es. \<not> completion x G env node (e # es) depth)))"

lemma completion_Cons:
  "completion x G env n (e # es) d \<longleftrightarrow>
     e \<in> set (searchCallersOf env n) \<and> admit (e_filter env) e \<and> G e \<and> completion x G env (caller e) es (d + 1)"
  by (auto simp: completion_def)

lemma hasCorridorCaller_completion:
  assumes "corridor_ok G env" and "completion x G env n (e # es) d"
  shows "hasCorridorCaller env n"
  using completion_cut [OF assms(1), of x "caller e" es "d + 1"] assms(2)
  by (auto simp: hasCorridorCaller_def list_ex_iff completion_Cons)

lemma expandSpec_loop:
  assumes "loopSpec x G A env depth edges P E (searchCallersOf env node) (hit, False) st fl st'"
  shows "expandSpec x G A env node depth edges P E hit st fl st'"
  using assms unfolding loopSpec_def expandSpec_def completion_Cons by auto

lemma dfsExpand_spec:
  assumes ok: "corridor_ok G env" and hop: "\<And>e. G e \<Longrightarrow> caller e \<notin> A" and D: "maxDepth (e_limits env) \<noteq> 0"
    and rec: "\<And>n es P E st fl st'. depth + 1 \<le> maxDepth (e_limits env) \<Longrightarrow>
      rec n (depth + 1) es P E st = Some (fl, st') \<Longrightarrow> nodeSpec x G A env n (depth + 1) es P E st fl st'"
    and eq: "dfsExpand rec env node depth edges P E hit st = Some (fl, st')"
  shows "expandSpec x G A env node depth edges P E hit st fl st'"
proof -
  let ?hub = "maxFanIn (e_limits env) \<noteq> 0 \<and> depth > 0 \<and>
    storedInDegree (e_graph env) node > maxFanIn (e_limits env)"
  consider (hub) "?hub" | (depth) "\<not> ?hub" "depth \<ge> maxDepth (e_limits env)"
    | (limit) "\<not> ?hub" "\<not> depth \<ge> maxDepth (e_limits env)" "pathLimitHit env st"
    | (loop) "\<not> ?hub" "\<not> depth \<ge> maxDepth (e_limits env)" "\<not> pathLimitHit env st" by blast
  then show ?thesis
  proof cases
    case hub
    with eq show ?thesis
      by (auto simp: dfsExpand_def Let_def expandSpec_def extends_def untroubled_def)
  next
    case depth
    have F: "\<not> completion x G env node (e # es) depth" if "x \<longrightarrow> \<not> hasCorridorCaller env node" for e es
      using that depth(2) hasCorridorCaller_completion [OF ok, of x node e es depth]
      by (auto simp: completion_def)
    have "fl = (hit, False)" "st' = (if hasCorridorCaller env node
        then st\<lparr>s_stops := insert DepthLimit (s_stops st)\<rparr> else st)"
      using eq depth D by (auto simp: dfsExpand_def Let_def)
    with F show ?thesis
      by (auto simp: expandSpec_def extends_def untroubled_def)
  next
    case limit
    then have c: "?hub = False" "(maxDepth (e_limits env) \<noteq> 0 \<and> maxDepth (e_limits env) \<le> depth) = False"
      "pathLimitHit env st = True" by blast+
    have r: "fl = (hit, True)" "st' = (if hasCorridorCaller env node then st\<lparr>s_truncated := True\<rparr> else st)"
      using eq unfolding dfsExpand_def Let_def c if_True if_False by simp_all
    show ?thesis
    proof (cases "hasCorridorCaller env node")
      case True
      with r show ?thesis by (simp add: expandSpec_def extends_def untroubled_def)
    next
      case False
      with hasCorridorCaller_completion [OF ok] r show ?thesis
        by (auto simp: expandSpec_def)
    qed
  next
    case loop
    then have c: "?hub = False" "(maxDepth (e_limits env) \<noteq> 0 \<and> maxDepth (e_limits env) \<le> depth) = False"
      "pathLimitHit env st = False" by blast+
    have "dfsLoop rec env depth edges P E (searchCallersOf env node) (hit, False) st = Some (fl, st')"
      using eq unfolding dfsExpand_def Let_def c if_True if_False .
    from dfsLoop_spec [OF ok hop D rec this] show ?thesis by (intro expandSpec_loop)
  qed
qed

lemma memo_ok_noteDead:
  assumes "memo_ok x G A env st" and "node \<notin> A \<Longrightarrow> \<forall>es. \<not> completion x G env node es depth"
  shows "memo_ok x G A env (st\<lparr>s_deadAt := noteDead (s_deadAt st) node depth\<rparr>)"
  using assms by (auto simp: memo_ok_def noteDead_def split: option.splits if_splits)

lemma completion_le: "completion x G env n es d \<Longrightarrow> d' \<le> d \<Longrightarrow> completion x G env n es d'"
  by (auto simp: completion_def)

lemma dfsNode_spec:
  assumes ok: "corridor_ok G env" and hop: "\<And>e. G e \<Longrightarrow> caller e \<notin> A" and D: "maxDepth (e_limits env) \<noteq> 0" and dep: "depth \<le> maxDepth (e_limits env)"
    and rec: "\<And>n es P E st fl st'. depth + 1 \<le> maxDepth (e_limits env) \<Longrightarrow>
      rec n (depth + 1) es P E st = Some (fl, st') \<Longrightarrow> nodeSpec x G A env n (depth + 1) es P E st fl st'"
    and eq: "dfsNode rec env node depth edges P E st = Some (fl, st')"
  shows "nodeSpec x G A env node depth edges P E st fl st'"
proof -
  let ?dead = "case map_of (s_deadAt st) node of None \<Rightarrow> False | Some d \<Rightarrow> depth \<ge> d"
  let ?work = "maxWork (e_limits env) \<noteq> 0 \<and> s_expansions st \<ge> maxWork (e_limits env)"
  consider (limit) "pathLimitHit env st" | (work) "\<not> pathLimitHit env st" "?work"
    | (dead) "\<not> pathLimitHit env st" "\<not> ?work" "?dead"
    | (go) "\<not> pathLimitHit env st" "\<not> ?work" "\<not> ?dead" by blast
  then show ?thesis
  proof cases
    case limit
    with eq show ?thesis by (auto simp: dfsNode_def Let_def nodeSpec_def extends_def untroubled_def)
  next
    case work
    with eq show ?thesis by (auto simp: dfsNode_def Let_def nodeSpec_def extends_def untroubled_def)
  next
    case dead
    then obtain d where d: "map_of (s_deadAt st) node = Some d" "d \<le> depth"
      by (auto split: option.splits)
    have r: "fl = (False, False)" "st' = st\<lparr>s_expansions := s_expansions st + 1\<rparr>"
      using eq dead by (auto simp: dfsNode_def Let_def)
    have "\<not> completion x G env node es depth" if "memo_ok x G A env st" "node \<notin> A" for es
      using that d completion_le unfolding memo_ok_def by blast
    with r show ?thesis by (auto simp: nodeSpec_def extends_def)
  next
    case go
    let ?hit = "node \<in> set (e_startSet env) \<and> depth > 0"
    let ?st1 = "st\<lparr>s_expansions := s_expansions st + 1\<rparr>"
    let ?st2 = "if ?hit then ?st1\<lparr>s_found := s_found ?st1 @ [edges]\<rparr> else ?st1"
    have c: "pathLimitHit env st = False" "?work = False"
      "(case map_of (s_deadAt ?st1) node of None \<Rightarrow> False | Some d \<Rightarrow> depth \<ge> d) = False"
      using go by (simp_all cong: option.case_cong)
    have step: "(case dfsExpand rec env node depth edges (node # P) E ?hit ?st2 of None \<Rightarrow> None
      | Some (flags, st) \<Rightarrow> Some (flags, if fst flags \<or> snd flags then st
          else st\<lparr>s_deadAt := noteDead (s_deadAt st) node depth\<rparr>)) = Some (fl, st')"
      using eq unfolding dfsNode_def Let_def c if_True if_False .
    obtain st3 where 3: "dfsExpand rec env node depth edges (node # P) E ?hit ?st2 = Some (fl, st3)"
      and st': "st' = (if fst fl \<or> snd fl then st3 else st3\<lparr>s_deadAt := noteDead (s_deadAt st3) node depth\<rparr>)"
      using step by (cases "dfsExpand rec env node depth edges (node # P) E ?hit ?st2") auto
    have X: "expandSpec x G A env node depth edges (node # P) E ?hit ?st2 fl st3"
      by (rule dfsExpand_spec [OF ok hop D _ 3]) (assumption, rule rec)
    have f': "s_found st' = s_found st3" "s_stops st' = s_stops st3" "s_truncated st' = s_truncated st3"
      by (simp_all add: st')
    have f2: "set (s_found ?st2) = set (s_found st) \<union> (if ?hit then {edges} else {})"
      "s_stops ?st2 = s_stops st" "s_truncated ?st2 = s_truncated st" "memo_ok x G A env ?st2 = memo_ok x G A env st"
      by auto
    have nil: "completion b H env node [] depth \<longleftrightarrow> node \<in> set (e_startSet env)" for b H
      using dep by (simp add: completion_def)
    have ext: "extends st st'"
      using X f' f2 by (auto simp: expandSpec_def extends_def)
    have sound: "\<forall>p \<in> set (s_found st'). p \<in> set (s_found st) \<or>
        (\<exists>es. p = edges @ es \<and> completion False (\<lambda>_. True) env node es depth \<and> avail env (node # P) E es \<and>
           (es = [] \<longrightarrow> depth > 0))"
    proof
      fix p assume "p \<in> set (s_found st')"
      then have "p \<in> set (s_found ?st2) \<or> (\<exists>e es. p = edges @ e # es \<and>
          completion False (\<lambda>_. True) env node (e # es) depth \<and> avail env (node # P) E (e # es))"
        using X f'(1) unfolding expandSpec_def by auto
      then show "p \<in> set (s_found st) \<or> (\<exists>es. p = edges @ es \<and> completion False (\<lambda>_. True) env node es depth \<and>
          avail env (node # P) E es \<and> (es = [] \<longrightarrow> depth > 0))"
      proof
        assume "p \<in> set (s_found ?st2)"
        then have "p \<in> set (s_found st) \<or> ?hit \<and> p = edges @ []" unfolding f2 by (auto split: if_splits)
        then show ?thesis
        proof
          assume h: "?hit \<and> p = edges @ []"
          then show ?thesis using nil by (intro disjI2 exI [of _ "[]"]) simp
        qed simp
      qed blast
    qed
    have good: "(node \<notin> A \<longrightarrow> (\<forall>es. completion x G env node es depth \<and> avail env (node # P) E es \<and>
           (es = [] \<longrightarrow> depth > 0) \<longrightarrow> edges @ es \<in> set (s_found st'))) \<and>
        (depth > 0 \<or> node \<notin> set (e_startSet env) \<or> node \<in> A \<longrightarrow> memo_ok x G A env st') \<and>
        (node \<notin> A \<and> (depth > 0 \<or> node \<notin> set (e_startSet env)) \<and> fl = (False, False) \<longrightarrow>
           (\<forall>es. \<not> completion x G env node es depth))"
      if u: "untroubled x st' \<and> memo_ok x G A env st"
    proof -
      have "untroubled x st3" using u f' by (simp add: untroubled_def)
      with u have X': "memo_ok x G A env st3"
        "\<forall>e es. completion x G env node (e # es) depth \<and> avail env (node # P) E (e # es) \<longrightarrow>
           edges @ e # es \<in> set (s_found st3)" "?hit \<longrightarrow> fst fl"
        "fl = (False, False) \<longrightarrow> (\<forall>e es. \<not> completion x G env node (e # es) depth)"
        using X f2(4) unfolding expandSpec_def by blast+
      have C: "edges @ es \<in> set (s_found st')" if "completion x G env node es depth"
        "avail env (node # P) E es" "es = [] \<longrightarrow> depth > 0" for es
      proof (cases es)
        case Nil
        then have "edges \<in> set (s_found ?st2)" using that nil f2 by simp
        then show ?thesis using X f'(1) Nil by (auto simp: expandSpec_def extends_def)
      next
        case (Cons e es')
        with that X'(2) f'(1) show ?thesis by auto
      qed
      have none: "\<not> completion x G env node es depth"
        if "fl = (False, False)" "depth > 0 \<or> node \<notin> set (e_startSet env)" for es
        using that X'(3,4) nil by (cases es) auto
      have "memo_ok x G A env st'" if "depth > 0 \<or> node \<notin> set (e_startSet env) \<or> node \<in> A"
      proof (cases "fl = (False, False)")
        case True
        with none that X'(1) show ?thesis by (auto simp: st' intro!: memo_ok_noteDead)
      next
        case False
        then have "fst fl \<or> snd fl" by (cases fl) auto
        with X'(1) show ?thesis by (simp add: st')
      qed
      with C none show ?thesis by blast
    qed
    show ?thesis
      unfolding nodeSpec_def using ext sound good by blast
  qed
qed

lemma dfs_spec:
  assumes ok: "corridor_ok G env" and hop: "\<And>e. G e \<Longrightarrow> caller e \<notin> A" and D: "maxDepth (e_limits env) \<noteq> 0"
  shows "depth \<le> maxDepth (e_limits env) \<Longrightarrow> dfs fuel env node depth edges P E st = Some (fl, st') \<Longrightarrow>
    nodeSpec x G A env node depth edges P E st fl st'"
proof (induction fuel arbitrary: node depth edges P E st fl st')
  case (Suc fuel)
  then show ?case
    using dfsNode_spec [OF ok hop D Suc.prems(1), of "dfs fuel env"] by simp
qed simp

text \<open>Enough fuel: one unit for every level left to the depth bound.\<close>

lemma dfsLoop_total:
  assumes "\<And>n es P E st. depth + 1 \<le> maxDepth (e_limits env) \<Longrightarrow> rec n (depth + 1) es P E st \<noteq> None"
    and "maxDepth (e_limits env) \<noteq> 0"
  shows "dfsLoop rec env depth edges P E cs flags st \<noteq> None"
proof (induction cs arbitrary: flags st)
  case (Cons e cs)
  show ?case
  proof (cases "map_of (e_minFromStart env) (caller e)")
    case (Some m)
    show ?thesis
    proof (cases "m + depth + 1 > maxDepth (e_limits env)")
      case True
      with Cons.IH Some assms(2) show ?thesis by simp
    next
      case False
      then obtain fl1 st1 where "rec (caller e) (depth + 1) (edges @ [e]) P (pushKey env e E) st = Some (fl1, st1)"
        using assms(1) [of "caller e" "edges @ [e]" P "pushKey env e E" st] by auto
      with Cons.IH Some False show ?thesis by (auto simp: Let_def)
    qed
  qed (use Cons.IH in auto)
qed simp

lemma dfsNode_total:
  assumes "\<And>es P E hit st. dfsExpand rec env node depth es P E hit st \<noteq> None"
  shows "dfsNode rec env node depth edges P E st \<noteq> None"
proof -
  have "(case dfsExpand rec env node depth es P E hit st of None \<Rightarrow> None
    | Some (flags, st) \<Rightarrow> Some (flags, f flags st)) \<noteq> None" for es P E hit st
    and f :: "bool \<times> bool \<Rightarrow> search_state \<Rightarrow> search_state"
    using assms by (auto split: option.split)
  then show ?thesis unfolding dfsNode_def Let_def by (simp del: not_None_eq)
qed

lemma dfs_total:
  assumes D: "maxDepth (e_limits env) \<noteq> 0"
  shows "maxDepth (e_limits env) < depth + fuel \<Longrightarrow> depth \<le> maxDepth (e_limits env) \<Longrightarrow>
    dfs fuel env node depth edges P E st \<noteq> None"
proof (induction fuel arbitrary: node depth edges P E st)
  case (Suc fuel)
  have L: "\<not> depth \<ge> maxDepth (e_limits env) \<Longrightarrow> dfsLoop (dfs fuel env) env depth es P E cs fl st' \<noteq> None" for es P E cs fl st'
    using Suc.prems by (intro dfsLoop_total Suc.IH D) auto
  have "dfsExpand (dfs fuel env) env node depth es P E hit st' \<noteq> None" for es P E hit st'
    using L D by (auto simp: dfsExpand_def Let_def)
  then show ?case
    unfolding dfs.simps by (rule dfsNode_total)
qed simp

end
