(* ===== verification/CallGraphProps.thy ===== *)
theory CallGraphProps
  imports CallGraphQuery
begin

text \<open>
  The properties of the call graph: the invariant of every graph the program can build, the
  ledger behaviour of each mutator, node merging, and the queries.
\<close>

section \<open>Graphs the program builds\<close>

text \<open>Every sequence of mutations from the empty graph; shards are such graphs too.\<close>

inductive built :: "call_graph \<Rightarrow> bool" where
  empty: "built emptyGraph"
| node: "built g \<Longrightarrow> built (addNode g n p)"
| edge: "built g \<Longrightarrow> built (addEdge g e p)"
| derived: "built g \<Longrightarrow> built (addDerivedClass g b d)"
| override: "built g \<Longrightarrow> built (addMethodOverride g b m)"
| impl: "built g \<Longrightarrow> built (addEffectiveImpl g c m)"
| returns: "built g \<Longrightarrow> built (addFunctionReturn g f r)"
| merge: "built g \<Longrightarrow> built sh \<Longrightarrow> built (absorb g sh)"
| remove: "built g \<Longrightarrow> built (snd (removeTUs g ps))"
| compacted: "built g \<Longrightarrow> built (compact g)"
| freeze: "built g \<Longrightarrow> built (g\<lparr>g_readOnly := b\<rparr>)"

lemma graph_wf_readOnly [simp]: "graph_wf (g\<lparr>g_readOnly := b\<rparr>) = graph_wf g"
  by (simp add: graph_wf_def)

lemma absorb_graph_wf: "graph_wf g \<Longrightarrow> graph_wf sh \<Longrightarrow> graph_wf (absorb g sh)"
  by (cases "g_readOnly g") (simp add: absorb_def, blast elim: absorb_full)

lemma removeTUs_graph_wf: "graph_wf g \<Longrightarrow> graph_wf (snd (removeTUs g ps))"
  using removeTUs_full(1) [of g ps "fst (removeTUs g ps)" "snd (removeTUs g ps)"]
  by (cases "g_readOnly g") (auto simp: removeTUs_def)

lemma built_wf: "built g \<Longrightarrow> graph_wf g"
  by (induction rule: built.induct)
    (simp_all add: addNode_graph_wf addEdge_graph_wf addDerivedClass_graph_wf addMethodOverride_graph_wf
      addEffectiveImpl_graph_wf addFunctionReturn_graph_wf absorb_graph_wf removeTUs_graph_wf
      compact_queries(3))

definition callEdge :: "string \<Rightarrow> string \<Rightarrow> string \<Rightarrow> CallGraphEdge" where
  "callEdge c d s = \<lparr>callerName = c, calleeName = d, edgeKind = DirectCall, edgeConfidence = Proven,
     edgeCallSite = s, edgeIndirectionDepth = 0, edgeExecContext = Synchronous, callerUsr = c,
     calleeUsr = d\<rparr>"

text \<open>The shard of one translation unit: its edges, recorded under its path.\<close>

definition shardOf :: "string \<Rightarrow> CallGraphEdge list \<Rightarrow> call_graph" where
  "shardOf p es = fold (\<lambda>e g. addEdge g e p) es emptyGraph"

lemma writable_empty [simp]: "writable emptyGraph"
  by (simp add: writable_def) (simp add: emptyGraph_def)

lemma empty_ledger [simp]: "regs emptyGraph = {#}" "tuRegs emptyGraph p = {#}"
  by (simp_all add: regs_def tuRegs_def emptyGraph_def erefs_def split: option.split)

lemma shardOf_writable [simp]: "writable (shardOf p es)"
  by (simp add: shardOf_def cg.ok_fold_record)

lemma shardOf_wf [simp]: "graph_wf (shardOf p es)" "\<not> g_readOnly (shardOf p es)"
  using shardOf_writable [of p es] by (auto simp: writable_def)

lemma shardOf_ledger:
  "p \<noteq> [] \<Longrightarrow> regs (shardOf p es) = image_mset callText (mset es)"
  "p \<noteq> [] \<Longrightarrow> tuRegs (shardOf p es) q = (if q = p then image_mset callText (mset es) else {#})"
  by (simp_all add: shardOf_def cg.fold_record)

lemma built_fold_edges: "built g \<Longrightarrow> built (fold (\<lambda>e g. addEdge g e p) es g)"
  by (induction es arbitrary: g) (simp_all add: built.edge)

lemma built_shardOf: "built (shardOf p es)"
  unfolding shardOf_def by (rule built_fold_edges [OF built.empty])

text \<open>C2: every graph the program can build from the empty graph by any sequence of mutators, shard
  merges, removals and compactions satisfies the graph invariant: edge indices resolve, the
  deduplication index holds exactly the live edges, the adjacency lists hold exactly the live edges
  of their node in table order, each unit's provenance is covered by registrations, names and nodes
  agree, and the override and return tables mirror their inverses.\<close>

theorem built_graph_wf: "built g \<Longrightarrow> graph_wf g"
  by (rule built_wf)

theorem built_graph_wf_witness:
  "graph_wf (snd (removeTUs (absorb (shardOf ''a'' [callEdge ''f'' ''g'' ''1'']) (shardOf ''b'' [])) [''a'']))"
  by (rule built_graph_wf [OF built.remove [OF built.merge [OF built_shardOf built_shardOf]]])

section \<open>Mutators\<close>

text \<open>Recording an edge adds exactly one registration of its text to the graph's ledger and, when a
  unit path is given, to that unit's part; every other unit's part is unchanged; the edge count
  grows by one exactly when no live edge had that text (deduplication).\<close>

theorem addEdge_registers:
  assumes "graph_wf g" and "\<not> g_readOnly g"
  shows "regs (addEdge g e p) = add_mset (callText e) (regs g) \<and>
    (\<forall>q. tuRegs (addEdge g e p) q =
       (if p \<noteq> [] \<and> q = p then add_mset (callText e) (tuRegs g q) else tuRegs g q)) \<and>
    edgeCount (addEdge g e p) = (if callText e \<in># regs g then edgeCount g else edgeCount g + 1)"
  using addEdge_ledger [OF assms] edgeCount_ledger [OF assms(1)]
    edgeCount_ledger [OF addEdge_graph_wf [OF assms(1)]]
  by (auto simp: insert_absorb)

theorem addEdge_registers_witness:
  "regs (addEdge (shardOf ''a'' [callEdge ''f'' ''g'' ''1'']) (callEdge ''f'' ''g'' ''1'') ''b'') =
    {#callText (callEdge ''f'' ''g'' ''1''), callText (callEdge ''f'' ''g'' ''1'')#}"
  using addEdge_registers [OF shardOf_wf, of "''a''" "[callEdge ''f'' ''g'' ''1'']" "callEdge ''f'' ''g'' ''1''" "''b''"]
  by (simp add: shardOf_ledger)

text \<open>C4: merging a shard adds its ledger to the graph's, in total and for every translation unit, and
  the merged graph holds each distinct edge once.\<close>

theorem absorb_adds_shard:
  assumes "graph_wf g" and "graph_wf sh" and "\<not> g_readOnly g"
  shows "regs (absorb g sh) = regs g + regs sh \<and>
    (\<forall>p. tuRegs (absorb g sh) p = tuRegs g p + tuRegs sh p) \<and>
    edgeCount (absorb g sh) = card (set_mset (regs g) \<union> set_mset (regs sh))"
  using absorb_ledger [OF assms] edgeCount_ledger [OF absorb_graph_wf [OF assms(1,2)]] by simp

theorem absorb_adds_shard_witness:
  "edgeCount (absorb (shardOf ''a'' [callEdge ''f'' ''g'' ''1'']) (shardOf ''b'' [callEdge ''f'' ''g'' ''1''])) = 1"
  using absorb_adds_shard [OF shardOf_wf(1) shardOf_wf(1) shardOf_wf(2)]
  by (simp add: shardOf_ledger)

text \<open>C3: removing a batch of translation units takes exactly their registrations out of the ledger (they
  are all in it), empties their parts and leaves every other unit's part; the returned number is the
  number of edges that disappeared; a node disappears exactly when it had contributing units and all
  of them were removed.\<close>

theorem removeTUs_removes_units:
  assumes "graph_wf g" and "\<not> g_readOnly g" and "removeTUs g ps = (n, g')"
  shows "regs g' + (\<Sum>p \<in> set ps. tuRegs g p) = regs g \<and>
    (\<forall>q. tuRegs g' q = (if q \<in> set ps then {#} else tuRegs g q)) \<and>
    n + edgeCount g' = edgeCount g \<and>
    (\<forall>k. map_of (g_nodes g') k =
       (if um_get (g_nodeContributors g) k \<noteq> [] \<and>
           set (um_get (g_nodeContributors g) k) \<subseteq> set (tuIdsOf g ps)
        then None else map_of (g_nodes g) k))"
proof -
  have "regs g' + (\<Sum>p \<in> set ps. tuRegs g p) = regs g"
    using removeTUs_ledger [OF assms] by (simp add: subset_mset.diff_add)
  then show ?thesis
    using removeTUs_ledger [OF assms] removeTUs_full(7,8) [OF assms] by blast
qed

theorem removeTUs_removes_units_witness:
  "regs (snd (removeTUs (absorb (shardOf ''a'' [callEdge ''f'' ''g'' ''1''])
     (shardOf ''b'' [callEdge ''h'' ''g'' ''2''])) [''a''])) = {#callText (callEdge ''h'' ''g'' ''2'')#}"
proof -
  let ?g = "absorb (shardOf ''a'' [callEdge ''f'' ''g'' ''1'']) (shardOf ''b'' [callEdge ''h'' ''g'' ''2''])"
  have g: "graph_wf ?g" "\<not> g_readOnly ?g"
    by (simp_all add: absorb_graph_wf absorb_readOnly)
  have L: "regs ?g = {#callText (callEdge ''h'' ''g'' ''2''), callText (callEdge ''f'' ''g'' ''1'')#}"
    "tuRegs ?g ''a'' = {#callText (callEdge ''f'' ''g'' ''1'')#}"
    using absorb_ledger [of "shardOf ''a'' [callEdge ''f'' ''g'' ''1'']" "shardOf ''b'' [callEdge ''h'' ''g'' ''2'']" "''a''"]
    by (simp_all add: shardOf_ledger)
  show ?thesis
    using removeTUs_removes_units [OF g, of "[''a'']" "fst (removeTUs ?g [''a''])" "snd (removeTUs ?g [''a''])"] L
    by simp
qed



text \<open>Shards may be merged in any order: the ledger of the result is the same, in total and per unit.\<close>

theorem absorb_order:
  assumes "graph_wf g" and "\<not> g_readOnly g" and "graph_wf a" and "\<not> g_readOnly a"
    and "graph_wf b" and "\<not> g_readOnly b"
  shows "regs (absorb (absorb g a) b) = regs (absorb (absorb g b) a) \<and>
    tuRegs (absorb (absorb g a) b) = tuRegs (absorb (absorb g b) a) \<and>
    edgeCount (absorb (absorb g a) b) = edgeCount (absorb (absorb g b) a)"
  using cg.merge_order [of g a b] assms
  by (simp add: writable_def cg.same_def edgeCount_ledger absorb_graph_wf)

theorem absorb_order_witness:
  "edgeCount (absorb (absorb emptyGraph (shardOf ''a'' [callEdge ''f'' ''g'' ''1''])) (shardOf ''b'' [])) =
    edgeCount (absorb (absorb emptyGraph (shardOf ''b'' [])) (shardOf ''a'' [callEdge ''f'' ''g'' ''1'']))"
  using absorb_order [OF _ _ shardOf_wf shardOf_wf, of emptyGraph] writable_empty
  by (simp add: writable_def)


text \<open>C12: compaction drops exactly the dead edge slots: the table then holds as many edges as the count
  says, all live; the ledger, every unit's part, and the answers of the caller and callee queries (in
  order) are unchanged.\<close>

theorem compact_invisible:
  assumes "graph_wf g" and "\<not> g_readOnly g"
  shows "length (g_edges (compact g)) = edgeCount (compact g) \<and>
    edgeCount (compact g) = edgeCount g \<and>
    (\<forall>e \<in> set (g_edges (compact g)). refs e \<noteq> 0) \<and>
    regs (compact g) = regs g \<and> tuRegs (compact g) = tuRegs g \<and>
    calleeRefsOf (compact g) = calleeRefsOf g \<and> callerRefsOf (compact g) = callerRefsOf g"
proof -
  note F = compact_full [OF assms] and L = compact_ledger [OF assms] and Q = compact_queries [OF assms(1)]
  have "edgeCount (compact g) = edgeCount g"
    using edgeCount_ledger [OF assms(1)] edgeCount_ledger [OF F(1)] L by simp
  moreover have "edgeCount g = length (filter live (g_edges g))"
    using graph_wfD(3) [OF assms(1)] by (simp add: edgeCount_def index_ok_def)
  ultimately show ?thesis
    using F(2) L Q by (auto simp: fun_eq_iff)
qed

theorem compact_invisible_witness:
  "length (g_edges (compact (snd (removeTUs (shardOf ''a'' [callEdge ''f'' ''g'' ''1'']) [''a''])))) = 0"
proof -
  let ?s = "shardOf ''a'' [callEdge ''f'' ''g'' ''1'']"
  let ?g = "snd (removeTUs ?s [''a''])"
  have w: "writable ?g"
    using cg.ok_drop [OF shardOf_writable, of "''a''" "[callEdge ''f'' ''g'' ''1'']" "[''a'']"]
    by (simp add: removeTUsGraph_def)
  have "regs ?g = {#}"
    using cg.all_drop [OF shardOf_writable, of "''a''" "[callEdge ''f'' ''g'' ''1'']" "[''a'']"]
    by (simp add: removeTUsGraph_def shardOf_ledger)
  then have "edgeCount ?g = 0"
    using edgeCount_ledger w by (simp add: writable_def)
  with compact_invisible [of ?g] w show ?thesis
    by (simp add: writable_def)
qed

text \<open>A read-only graph is frozen: every mutator returns it unchanged and a removal reports nothing
  removed.\<close>

theorem readOnly_frozen:
  assumes "g_readOnly g"
  shows "addNode g n p = g \<and> addEdge g e p = g \<and> addDerivedClass g b d = g \<and>
    addMethodOverride g b d = g \<and> addEffectiveImpl g b d = g \<and> addFunctionReturn g b d = g \<and>
    absorb g sh = g \<and> removeTUs g ps = (0, g) \<and> compact g = g"
  using assms by (simp add: addNode_def addEdge_def addDerivedClass_def addMethodOverride_def
      addEffectiveImpl_def addFunctionReturn_def absorb_def removeTUs_def compact_def)

theorem readOnly_frozen_witness:
  "addEdge (emptyGraph\<lparr>g_readOnly := True\<rparr>) (callEdge ''f'' ''g'' ''1'') ''a'' = emptyGraph\<lparr>g_readOnly := True\<rparr>"
  using readOnly_frozen [of "emptyGraph\<lparr>g_readOnly := True\<rparr>"] by simp

section \<open>Nodes\<close>

definition nodeAt :: "call_graph \<Rightarrow> string \<Rightarrow> CallGraphNode option" where
  "nodeAt g s = (case findId (g_interner g) s of None \<Rightarrow> None | Some k \<Rightarrow> map_of (g_nodes g) k)"

text \<open>After a merge the node of a USR is the graph's node completed by the shard's (non-empty file and
  class, non-zero line and set flags of the shard win), or the one there is; no other node changes.\<close>

theorem absorb_merges_nodes:
  assumes wf: "graph_wf g" and wfs: "graph_wf sh" and rw: "\<not> g_readOnly g"
  shows "nodeAt (absorb g sh) u = (case nodeAt sh u of
      None \<Rightarrow> nodeAt g u
    | Some n \<Rightarrow> Some (case nodeAt g u of None \<Rightarrow> n | Some old \<Rightarrow> backfill old n))"
proof -
  define g' where "g' = absorb g sh"
  obtain remap where wf': "graph_wf g'"
    and gr: "grows (g_interner g) (g_interner g')"
    and R: "\<forall>k < internerSize (g_interner sh). remap ! k < internerSize (g_interner g') \<and>
       resolve (g_interner g') (remap ! k) = resolve (g_interner sh) k"
    and hit: "\<forall>k n. map_of (g_nodes sh) k = Some n \<longrightarrow> map_of (g_nodes g') (remap ! k) =
       Some (case map_of (g_nodes g) (remap ! k) of None \<Rightarrow> n | Some old \<Rightarrow> backfill old n)"
    and miss: "\<forall>j. j \<notin> (\<lambda>k. remap ! k) ` fst ` set (g_nodes sh) \<longrightarrow>
       map_of (g_nodes g') j = map_of (g_nodes g) j"
    unfolding g'_def by (rule absorb_full [OF wf wfs rw]) (rule that [unfolded g'_def])
  note I = findId_iff [OF graph_wfD(1) [OF wf]] and S = findId_iff [OF graph_wfD(1) [OF wfs]]
    and I' = findId_iff [OF graph_wfD(1) [OF wf']]
  have sh_id: "findId (g_interner g') u = Some (remap ! k)" if "findId (g_interner sh) u = Some k" for k
    using that R S I' by auto
  have old: "nodeAt g u = map_of (g_nodes g) j" if "findId (g_interner g') u = Some j" for j
  proof (cases "findId (g_interner g) u")
    case None
    have "map_of (g_nodes g) j = None"
    proof (rule ccontr)
      assume "map_of (g_nodes g) j \<noteq> None"
      then obtain n where "map_of (g_nodes g) j = Some n" by blast
      then have "findId (g_interner g) (usr n) = Some j"
        by (rule nodes_okD(2) [OF graph_wfD(7) [OF wf]])
      moreover from this have "findId (g_interner g') (usr n) = Some j" by (rule find_grows [OF gr])
      then have "usr n = u" using that I' by auto
      ultimately show False using None by simp
    qed
    with None show ?thesis by (simp add: nodeAt_def)
  next
    case (Some i)
    with find_grows [OF gr Some] that show ?thesis by (simp add: nodeAt_def)
  qed
  have node_key: "findId (g_interner sh) (resolve (g_interner g') (remap ! k)) = Some k"
    if k: "k \<in> fst ` set (g_nodes sh)" for k
  proof -
    obtain n where "map_of (g_nodes sh) k = Some n"
      using k by (metis map_of_eq_None_iff not_Some_eq)
    from nodes_okD(2) [OF graph_wfD(7) [OF wfs] this] show ?thesis
      using R S by auto
  qed
  have "nodeAt g' u = (case nodeAt sh u of None \<Rightarrow> nodeAt g u
    | Some n \<Rightarrow> Some (case nodeAt g u of None \<Rightarrow> n | Some old \<Rightarrow> backfill old n))"
  proof (cases "nodeAt sh u")
    case None
    show ?thesis
    proof (cases "findId (g_interner g') u")
      case None': None
      then have "findId (g_interner g) u = None"
        using find_grows [OF gr] by (metis not_Some_eq)
      with None None' show ?thesis by (simp add: nodeAt_def)
    next
      case (Some j)
      have "j \<notin> (\<lambda>k. remap ! k) ` fst ` set (g_nodes sh)"
      proof
        assume "j \<in> (\<lambda>k. remap ! k) ` fst ` set (g_nodes sh)"
        then obtain k where k: "k \<in> fst ` set (g_nodes sh)" and j: "j = remap ! k" by auto
        from node_key [OF k] have "findId (g_interner sh) u = Some k"
          using Some I' by (auto simp: j)
        moreover have "map_of (g_nodes sh) k \<noteq> None" using k by (simp add: map_of_eq_None_iff)
        ultimately show False using None by (auto simp: nodeAt_def)
      qed
      with miss Some None old [OF Some] show ?thesis by (simp add: nodeAt_def)
    qed
  next
    case (Some n)
    then obtain k where k: "findId (g_interner sh) u = Some k" "map_of (g_nodes sh) k = Some n"
      by (auto simp: nodeAt_def split: option.splits)
    from hit k(2) Some sh_id [OF k(1)] old [OF sh_id [OF k(1)]] show ?thesis
      by (simp add: nodeAt_def)
  qed
  then show ?thesis unfolding g'_def .
qed

definition nodeOf :: "string \<Rightarrow> string \<Rightarrow> nat \<Rightarrow> CallGraphNode" where
  "nodeOf u f l = \<lparr>qualifiedName = u, nodeFile = f, nodeLine = l, isEntryPoint = False,
     isVirtual = False, enclosingClass = [], usr = u\<rparr>"

theorem absorb_merges_nodes_witness:
  "nodeAt (absorb (addNode emptyGraph (nodeOf ''f'' [] 0) []) (addNode emptyGraph (nodeOf ''f'' ''a.cpp'' 3) [])) ''f'' =
    Some (nodeOf ''f'' ''a.cpp'' 3)"
proof -
  have e: "graph_wf emptyGraph" "\<not> g_readOnly emptyGraph"
    using writable_empty by (simp_all add: writable_def)
  have w: "graph_wf (addNode emptyGraph n [])" for n
    by (simp add: addNode_graph_wf)
  have r: "\<not> g_readOnly (addNode emptyGraph (nodeOf ''f'' [] 0) [])"
    by code_simp
  have a: "nodeAt (addNode emptyGraph (nodeOf ''f'' [] 0) []) ''f'' = Some (nodeOf ''f'' [] 0)"
    by code_simp
  have b: "nodeAt (addNode emptyGraph (nodeOf ''f'' ''a.cpp'' 3) []) ''f'' = Some (nodeOf ''f'' ''a.cpp'' 3)"
    by code_simp
  show ?thesis
    using absorb_merges_nodes [OF w w r, of "nodeOf ''f'' ''a.cpp'' 3" "''f''"]
    by (simp add: a b) (simp add: backfill_def nodeOf_def)
qed

section \<open>Widths\<close>

text \<open>
  The 32-bit count of an edge never exceeds the number of registrations in the ledger, and an id never the
  number of interned strings: neither wraps while these fit 32 bits.
\<close>

lemma refs_le_regs:
  assumes "e \<in> set (g_edges g)"
  shows "refs e \<le> size (regs g)"
proof -
  obtain i where "i < length (g_edges g)" "g_edges g ! i = e" using assms by (metis in_set_conv_nth)
  then have "refs e = count (erefs (g_edges g)) i" by (simp add: count_erefs)
  also have "\<dots> \<le> size (regs g)" by (simp add: regs_def count_le_size)
  finally show ?thesis .
qed

lemma edge_ids_bounded:
  assumes "graph_wf g" and "e \<in> set (g_edges g)"
  shows "max (caller e) (max (callee e) (callSite e)) < internerSize (g_interner g)"
  using graph_wfD(2) [OF assms(1)] assms(2) by (simp add: edges_ok_def)

section \<open>Queries\<close>

text \<open>C5: the callee and the caller query are the two directions of one relation: \<open>d\<close> is reported as callee
  of \<open>c\<close> at site \<open>s\<close> exactly when \<open>c\<close> is reported as caller of \<open>d\<close> at \<open>s\<close>, and exactly when a live
  edge gives the call: directly, by dispatch to a transitive override, or through a returned function
  pointer.\<close>

theorem callers_callees_dual:
  assumes "graph_wf g"
  shows "((\<exists>r \<in> set (calleeRefsOf g c). callee r = d \<and> callSite r = s) \<longleftrightarrow> calls g c d s) \<and>
    ((\<exists>r \<in> set (callerRefsOf g d). caller r = c \<and> callSite r = s) \<longleftrightarrow> calls g c d s) \<and>
    (\<forall>r \<in> set (calleeRefsOf g c). caller r = c) \<and> (\<forall>r \<in> set (callerRefsOf g d). callee r = d)"
proof -
  have "(\<exists>r \<in> set (calleeRefsOf g c). callee r = d \<and> callSite r = s) \<longleftrightarrow>
    (d, s) \<in> (\<lambda>r. (callee r, callSite r)) ` set (calleeRefsOf g c)" by auto
  moreover have "(\<exists>r \<in> set (callerRefsOf g d). caller r = c \<and> callSite r = s) \<longleftrightarrow>
    (c, s) \<in> (\<lambda>r. (caller r, callSite r)) ` set (callerRefsOf g d)" by auto
  ultimately show ?thesis
    using callees_calls [OF assms] callers_calls [OF assms] by auto
qed

theorem callers_callees_dual_witness:
  "\<exists>r \<in> set (callerRefsOf (shardOf ''a'' [callEdge ''f'' ''g'' ''1'']) 1). caller r = 0 \<and> callSite r = 2"
proof -
  have "\<exists>r \<in> set (calleeRefsOf (shardOf ''a'' [callEdge ''f'' ''g'' ''1'']) 0). callee r = 1 \<and> callSite r = 2"
    by code_simp
  then show ?thesis
    using callers_callees_dual [OF shardOf_wf(1), of "''a''" "[callEdge ''f'' ''g'' ''1'']" 0 1 2] by simp
qed

text \<open>The transitive closure used for overrides and overridden bases returns, each once, exactly the ids
  reachable by one or more steps of the relation, less the start itself, cycles included.\<close>

theorem transitiveClosure_reachable:
  "set (transitiveClosure s rel) = {x. (s, x) \<in> (relOf rel)\<^sup>+} - {s} \<and> distinct (transitiveClosure s rel)"
  using set_transitiveClosure [of s rel] by (simp add: Image_singleton)

text \<open>On an ambiguous name \<open>findNode\<close> returns the candidate with the least USR, whatever the order the
  candidates were added in, and nothing exactly when no candidate has a node.\<close>

theorem findNode_least:
  "(case findNode isUTF8 g name of
      None \<Rightarrow> (\<forall>u \<in> set (resolveUsrIds isUTF8 g name). map_of (g_nodes g) u = None)
    | Some n \<Rightarrow> (\<exists>u \<in> set (resolveUsrIds isUTF8 g name). map_of (g_nodes g) u = Some n) \<and>
        (\<forall>u \<in> set (resolveUsrIds isUTF8 g name). \<forall>m. map_of (g_nodes g) u = Some m \<longrightarrow> usr n \<le> usr m))"
proof (cases "findNode isUTF8 g name")
  case None
  then have "\<forall>u \<in> set (resolveUsrIds isUTF8 g name). map_of (g_nodes g) u = None"
    by (simp add: findNode_def pickNode_none)
  with None show ?thesis by simp
next
  case (Some n)
  then show ?thesis
    using pickNode_min [of g "resolveUsrIds isUTF8 g name" None n] by (simp add: findNode_def)
qed

theorem findNode_least_witness:
  "case findNode (\<lambda>_. True) (addNode (addNode emptyGraph ((nodeOf ''f'' ''a'' 1)\<lparr>usr := ''u2''\<rparr>) [])
      ((nodeOf ''f'' ''b'' 2)\<lparr>usr := ''u1''\<rparr>) []) ''f'' of
    None \<Rightarrow> False | Some n \<Rightarrow> usr n = ''u1'' \<and> nodeFile n = ''b''"
proof -
  let ?g = "addNode (addNode emptyGraph ((nodeOf ''f'' ''a'' 1)\<lparr>usr := ''u2''\<rparr>) [])
      ((nodeOf ''f'' ''b'' 2)\<lparr>usr := ''u1''\<rparr>) []"
  have "resolveUsrIds (\<lambda>_. True) ?g ''f'' = [0, 2]"
    by code_simp
  moreover have "map_of (g_nodes ?g) 0 = Some ((nodeOf ''f'' ''a'' 1)\<lparr>usr := ''u2''\<rparr>)"
    "map_of (g_nodes ?g) 2 = Some ((nodeOf ''f'' ''b'' 2)\<lparr>usr := ''u1''\<rparr>)"
    by code_simp+
  ultimately show ?thesis
    using findNode_least [of "\<lambda>_. True" ?g "''f''"]
    by (auto split: option.splits simp: nodeOf_def)
qed

end
