(* ===== verification/EdgeFilter.thy ===== *)
theory EdgeFilter
  imports CallGraph
begin

text \<open>
  The edge filter of the query tools (\<open>src/src/query/EdgeFilter.h\<close>): which edges a search may follow, by kind,
  confidence and execution context. The tools pass \<open>allowsRef\<close> of the filter they parsed to the searches as
  their filter; the parsing of the JSON arguments is not modelled.
\<close>

record EdgeFilter =
  kinds :: "EdgeKind set"
  includeConfidences :: "Confidence set"
  useIncludeSet :: bool
  minConf :: Confidence
  execContexts :: "ExecutionContext set"

definition allowAll :: EdgeFilter where
  "allowAll = \<lparr>kinds = {}, includeConfidences = {}, useIncludeSet = False, minConf = Unknown,
     execContexts = {}\<rparr>"

text \<open>\<open>confidenceRank\<close> of \<open>src/src/query/Serialize.cpp\<close>: the stronger the evidence, the higher.\<close>

definition evidenceRank :: "Confidence \<Rightarrow> nat" where
  "evidenceRank c = (case c of Proven \<Rightarrow> 2 | Plausible \<Rightarrow> 1 | Unknown \<Rightarrow> 0)"

definition allowsFields :: "EdgeFilter \<Rightarrow> EdgeKind \<Rightarrow> Confidence \<Rightarrow> ExecutionContext \<Rightarrow> bool" where
  "allowsFields f k conf ctx =
     (if kinds f \<noteq> {} \<and> k \<notin> kinds f then False
      else if execContexts f \<noteq> {} \<and> ctx \<notin> execContexts f then False
      else if useIncludeSet f then conf \<in> includeConfidences f
      else evidenceRank conf \<ge> evidenceRank (minConf f))"

definition allowsRef :: "EdgeFilter \<Rightarrow> EdgeRef \<Rightarrow> bool" where
  "allowsRef f e = allowsFields f (kind e) (confidence e) (execContext e)"

lemma allowAll_allows [simp]: "allowsRef allowAll e"
  by (simp add: allowsRef_def allowsFields_def allowAll_def evidenceRank_def)

end
