(* ===== verification/PathSearchProps.thy ===== *)
theory PathSearchProps
  imports PathSearchProofs CallGraphProps EdgeFilter
begin

text \<open>
  The properties of \<open>findCallerPaths\<close>: it returns on every input, every path it reports is a simple
  path within the bounds, it reports all of them when it says so, up to two conditions on a path
  (\<open>forwardAdmitted\<close>, \<open>unshadowed\<close>), and its order is canonical.
\<close>

section \<open>Sorting\<close>

lemma set_insertBy [simp]: "set (insertBy lt x xs) = insert x (set xs)"
  by (induction xs) auto

lemma set_sortBy [simp]: "set (sortBy lt xs) = set xs"
  by (induction xs) (auto simp: sortBy_def)

lemma insertBy_insort:
  assumes "\<And>y. y \<in> set xs \<Longrightarrow> lt y x \<longleftrightarrow> f y < (f x :: 'b::linorder)"
  shows "insertBy lt x xs = insort_key f x xs"
  using assms by (induction xs) auto

lemma sortBy_sort_key:
  assumes "\<And>x y. x \<in> set xs \<Longrightarrow> y \<in> set xs \<Longrightarrow> lt x y \<longleftrightarrow> f x < (f y :: 'b::linorder)"
  shows "sortBy lt xs = sort_key f xs"
  using assms
proof (induction xs)
  case (Cons x xs)
  have "sortBy lt xs = sort_key f xs" using Cons by (intro Cons.IH) auto
  moreover have "insertBy lt x (sort_key f xs) = insort_key f x (sort_key f xs)"
    using Cons.prems by (intro insertBy_insort) auto
  ultimately show ?case by (simp add: sortBy_def)
qed (simp add: sortBy_def)

text \<open>What the canonical order compares: resolved strings and the scalar fields.\<close>

definition canonKey :: "call_graph \<Rightarrow> EdgeRef \<Rightarrow>
    string \<times> string \<times> EdgeKind \<times> Confidence \<times> ExecutionContext \<times> nat" where
  "canonKey g e = (resolve (g_interner g) (caller e), resolve (g_interner g) (callSite e), kind e,
     confidence e, execContext e, indirectionDepth e)"

lemma resolve_eq_iff:
  assumes "interner_wf it" and "i < internerSize it" and "j < internerSize it"
  shows "resolve it i = resolve it j \<longleftrightarrow> i = j"
  using assms findId_iff [OF assms(1)] by (metis option.inject)

lemma callerLess_canonKey:
  assumes "interner_wf (g_interner g)"
    and "caller a < internerSize (g_interner g)" "callSite a < internerSize (g_interner g)"
    and "caller b < internerSize (g_interner g)" "callSite b < internerSize (g_interner g)"
  shows "callerLess g a b \<longleftrightarrow> canonKey g a < canonKey g b"
  using resolve_eq_iff [OF assms(1), of "caller a" "caller b"] resolve_eq_iff [OF assms(1), of "callSite a" "callSite b"]
    assms(2-)
  by (auto simp: callerLess_def canonKey_def less_prod_def Let_def)

lemma callerRefs_bounds:
  assumes wf: "graph_wf g" and r: "r \<in> set (callerRefsOf g d)"
  shows "caller r < internerSize (g_interner g)" "callSite r < internerSize (g_interner g)"
proof -
  have "calls g (caller r) d (callSite r)"
    using callers_calls(1) [OF wf, of d] r by (force simp: set_eq_iff)
  then obtain e where "e \<in> set (g_edges g)" "caller e = caller r" "callSite e = callSite r"
    by (auto simp: calls_def)
  then show "caller r < internerSize (g_interner g)" "callSite r < internerSize (g_interner g)"
    using graph_wfD(2) [OF wf] by (auto simp: edges_ok_def)
qed

lemma sort_canonical:
  assumes "graph_wf g"
  shows "sortCallerRefsCanonically g (callerRefsOf g d) = sort_key (canonKey g) (callerRefsOf g d)"
  unfolding sortCallerRefsCanonically_def
  using callerRefs_bounds [OF assms] graph_wfD(1) [OF assms]
  by (intro sortBy_sort_key callerLess_canonKey) auto

lemma set_searchCallersOf [simp]: "set (searchCallersOf env n) = set (callerRefsOf (e_graph env) n)"
  by (simp add: searchCallersOf_def sortCallerRefsCanonically_def)

lemma distinct_remdups_adj_sort: "distinct (remdups_adj (sort xs))"
proof -
  have "sorted ys \<Longrightarrow> distinct (remdups_adj ys)" for ys :: "'a list"
    by (induction ys rule: remdups_adj.induct) auto
  then show ?thesis by simp
qed

section \<open>The environment of a search\<close>

text \<open>
  The search walks caller edges, but its corridor is grown along callee edges. The two queries hold the same
  calls (\<open>callers_calls\<close>, \<open>callees_calls\<close>), yet where several calls at one site reach the same function
  through an override or a returned function, each keeps the fields of the first one it meets. A filter on
  kind, confidence or execution context may therefore admit such a call backwards and not forwards. A path is
  \<open>forwardAdmitted\<close> when every hop's caller also reaches its callee by an admitted edge of the callee query.
\<close>

definition forwardAdmitted :: "call_graph \<Rightarrow> (EdgeRef \<Rightarrow> bool) option \<Rightarrow> EdgeRef list \<Rightarrow> bool" where
  "forwardAdmitted g filt es \<longleftrightarrow>
     (\<forall>e \<in> set es. \<exists>r \<in> set (calleeRefsOf g (caller e)). admit filt r \<and> callee r = callee e)"

text \<open>A filter that looks at the call relation only: caller, callee and call site.\<close>

definition callFilter :: "(EdgeRef \<Rightarrow> bool) option \<Rightarrow> bool" where
  "callFilter filt \<longleftrightarrow> (\<forall>a b. edgeKey a = edgeKey b \<longrightarrow> admit filt a = admit filt b)"

lemma callFilter_None [simp]: "callFilter None"
  by (simp add: callFilter_def admit_def)

lemma fstep_callFilter:
  assumes wf: "graph_wf g" and f: "callFilter filt"
    and e: "e \<in> set (callerRefsOf g n)" and a: "admit filt e"
  shows "fstep g filt (caller e) (callee e)"
proof -
  have ce: "callee e = n" using callers_calls(2) [OF wf e] .
  have "calls g (caller e) n (callSite e)"
    using callers_calls(1) [OF wf, of n] e by (force simp: set_eq_iff)
  then have "(n, callSite e) \<in> (\<lambda>r. (callee r, callSite r)) ` set (calleeRefsOf g (caller e))"
    using callees_calls(1) [OF wf, of "caller e"] by simp
  then obtain r where r: "r \<in> set (calleeRefsOf g (caller e))" "callee r = n" "callSite r = callSite e"
    by auto
  then have "edgeKey r = edgeKey e"
    using callees_calls(2) [OF wf r(1)] ce by (simp add: edgeKey_def)
  then have "admit filt r" using f a unfolding callFilter_def by blast
  with r ce show ?thesis by (auto simp: fstep_def)
qed

text \<open>A stored call is the same edge in both queries, so it is admitted forwards when it is admitted.\<close>

lemma fstep_stored:
  assumes wf: "graph_wf g" and e: "e \<in> set (g_edges g)" "live e" "kind e \<noteq> FunctionPointerReturn"
    and a: "admit filt (keyOf e)"
  shows "fstep g filt (caller e) (callee e)"
proof -
  have "keyOf e \<in> set (calleeRefsOf g (caller e))"
    using e by (auto simp: calleeRefsOf_normal [OF wf] set_outLive)
  then show ?thesis using a by (auto simp: fstep_def)
qed

text \<open>
  A filter by kind and confidence, like one of the query tools that selects no execution contexts. It admits
  a call through an override forwards too: the representatives of both queries are plausible dispatches. So only
  the calls of functions that a call returns are left, whose kind depends on the execution context.
\<close>

definition kindFilter :: "(EdgeRef \<Rightarrow> bool) option \<Rightarrow> bool" where
  "kindFilter filt \<longleftrightarrow> (\<forall>a b. edgeKey a = edgeKey b \<longrightarrow> kind a = kind b \<longrightarrow> confidence a = confidence b \<longrightarrow>
     admit filt a = admit filt b)"

lemma kindFilter_allowsRef: "execContexts f = {} \<Longrightarrow> kindFilter (Some (allowsRef f))"
  by (simp add: kindFilter_def admit_def allowsRef_def allowsFields_def)

lemma callerRef_cases:
  assumes wf: "graph_wf g" and r: "e \<in> set (callerRefsOf g n)"
  obtains (stored) se where "se \<in> set (inLive g n)" "kind se \<noteq> FunctionPointerReturn" "e = keyOf se"
    | (override) "(n, callSite e) \<in> fst ` set (virtOut g (caller e))" "kind e = VirtualDispatch" "confidence e = Plausible"
        "\<And>se. se \<in> set (inLive g n) \<Longrightarrow> kind se \<noteq> FunctionPointerReturn \<Longrightarrow> (caller se, callSite se) \<noteq> (caller e, callSite e)"
    | (returned) se where "se \<in> set (g_edges g)" "kind se = FunctionPointerReturn" "caller se = caller e"
proof -
  let ?seen = "map (\<lambda>se. (caller se, callSite se)) (plain (inLive g n))"
  have "e \<in> set (map keyOf (plain (inLive g n))) \<or> e \<in> snd ` set (unseen ?seen (virtIn g n)) \<or> e \<in> snd ` set (retIn g n)"
    using r unfolding callerRefsOf_normal [OF wf] by (auto dest!: subsetD [OF unseen_sub])
  then show ?thesis
  proof (elim disjE)
    assume "e \<in> set (map keyOf (plain (inLive g n)))"
    then show ?thesis by (auto intro: stored)
  next
    assume "e \<in> snd ` set (unseen ?seen (virtIn g n))"
    then obtain x where x: "x \<in> set (unseen ?seen (virtIn g n))" "e = snd x" by blast
    then have v: "x \<in> set (virtIn g n)" using unseen_sub by blast
    have k: "fst x = (caller e, callSite e)" using snd_virtIn [OF v] x(2) by simp
    have "fst x \<in> fst ` set (unseen ?seen (virtIn g n))" using x(1) by blast
    then have new: "(caller e, callSite e) \<notin> set ?seen" by (simp add: unseen_fst k)
    have d: "kind e = VirtualDispatch" "confidence e = Plausible"
      using v x(2) by (auto simp: virtIn_def isDispatch_def)
    have "(caller e, callSite e) \<in> fst ` set (virtIn g n)" using v k by (metis image_eqI)
    then obtain b se where b: "b \<in> set (transitiveClosure n (g_overrideBases g))" "se \<in> set (inLive g b)"
      "isDispatch se" "caller se = caller e" "callSite se = callSite e" unfolding fst_virtIn by auto
    have "n \<noteq> b \<and> (b, n) \<in> (relOf (g_methodOverrides g))\<^sup>+"
      using b(1) unfolding closure_inverse [OF graph_wfD(9) [OF wf], symmetric] by (auto simp: set_transitiveClosure)
    then have "n \<in> set (transitiveClosure b (g_methodOverrides g))" by (simp add: in_transitiveClosure)
    with b have "(n, callSite e) \<in> fst ` set (virtOut g (caller e))"
      unfolding fst_virtOut by (auto simp: set_inLive set_outLive)
    moreover have "(caller se, callSite se) \<noteq> (caller e, callSite e)"
      if "se \<in> set (inLive g n)" "kind se \<noteq> FunctionPointerReturn" for se
      using new that by (metis (mono_tags, lifting) image_eqI list.set_map mem_Collect_eq set_filter)
    ultimately show ?thesis using d by (intro override)
  next
    assume "e \<in> snd ` set (retIn g n)"
    then show ?thesis by (auto simp: retIn_def set_inLive intro: returned)
  qed
qed

lemma fstep_kindFilter:
  assumes wf: "graph_wf g" and f: "kindFilter filt" and e: "e \<in> set (callerRefsOf g n)" and a: "admit filt e"
    and ret: "\<And>se. se \<in> set (g_edges g) \<Longrightarrow> caller se = caller e \<Longrightarrow> kind se \<noteq> FunctionPointerReturn"
  shows "fstep g filt (caller e) (callee e)"
  using wf e
proof (cases rule: callerRef_cases)
  case (stored se)
  then show ?thesis using fstep_stored [OF wf, of se filt] a by (auto simp: set_inLive)
next
  case override
  let ?c = "caller e"
  let ?seen = "map (\<lambda>se. (callee se, callSite se)) (filter (\<lambda>se. kind se = VirtualDispatch) (plain (outLive g ?c)))"
  have "(n, callSite e) \<notin> set ?seen"
  proof
    assume "(n, callSite e) \<in> set ?seen"
    then obtain se where "se \<in> set (inLive g n)" "kind se = VirtualDispatch" "(caller se, callSite se) = (?c, callSite e)"
      by (auto simp: set_outLive set_inLive)
    with override(4) [of se] show False by simp
  qed
  then have "(n, callSite e) \<in> fst ` set (unseen ?seen (virtOut g ?c))"
    using override(1) by (simp add: unseen_fst)
  then obtain x where x: "x \<in> set (unseen ?seen (virtOut g ?c))" "fst x = (n, callSite e)" by force
  then have v: "x \<in> set (virtOut g ?c)" using unseen_sub by blast
  have ce: "callee e = n" using callers_calls(2) [OF wf e] .
  have "kind (snd x) = VirtualDispatch" "confidence (snd x) = Plausible"
    using v by (auto simp: virtOut_def isDispatch_def split: if_splits)
  moreover have "edgeKey (snd x) = edgeKey e" using snd_virtOut [OF v] x(2) ce by (simp add: edgeKey_def)
  ultimately have "admit filt (snd x)" using f a override(2,3) unfolding kindFilter_def by metis
  moreover have "snd x \<in> set (calleeRefsOf g ?c)"
    unfolding calleeRefsOf_normal [OF wf] using x(1) by simp
  ultimately show ?thesis using snd_virtOut [OF v] x(2) ce by (auto simp: fstep_def)
next
  case (returned se)
  with ret show ?thesis by blast
qed

text \<open>The hops the completeness of a search speaks of: admitted forwards and not ending in \<open>A\<close>.\<close>

definition goodHop :: "call_graph \<Rightarrow> (EdgeRef \<Rightarrow> bool) option \<Rightarrow> sid set \<Rightarrow> EdgeRef \<Rightarrow> bool" where
  "goodHop g filt A e \<longleftrightarrow> fstep g filt (caller e) (callee e) \<and> caller e \<notin> A"

lemma corridor_start: "s \<in> set starts \<Longrightarrow> map_of (corridor g filt starts) s = Some 0"
  using corridor_shortest(2) [OF reaches.start] by auto

lemma searchEnv_corridor_ok:
  assumes wf: "graph_wf g"
  shows "corridor_ok (goodHop g filt A) (searchEnv isUTF8 g starts lim cycles filt)"
proof -
  let ?S = "startIds isUTF8 g starts"
  have "\<exists>d' \<le> Suc d. map_of (corridor g filt ?S) n = Some d'"
    if e: "e \<in> set (callerRefsOf g n)" and h: "goodHop g filt A e"
      and d: "map_of (corridor g filt ?S) (caller e) = Some d" for n e d
  proof -
    have "fstep g filt (caller e) n" using h callers_calls(2) [OF wf e] by (simp add: goodHop_def)
    with corridor_shortest(1) [OF d] show ?thesis
      by (intro corridor_shortest(2) reaches.step)
  qed
  then show ?thesis
    by (simp add: corridor_ok_def searchEnv_def corridor_start)
qed

lemma capLimits_maxDepth [simp]:
  "maxDepth (capLimits lim) \<noteq> 0" "maxDepth (capLimits lim) \<le> kPathSearchDepthCap"
  by (auto simp: capLimits_def kPathSearchDepthCap_def)

lemma searchTargets_total:
  assumes "maxDepth (e_limits env) \<noteq> 0" and "maxDepth (e_limits env) < fuel"
  shows "searchTargets fuel env ts st \<noteq> None"
proof (induction ts arbitrary: st)
  case (Cons t ts)
  have "dfs fuel env t 0 [] [] [] st \<noteq> None"
    using dfs_total [OF assms(1)] assms(2) by simp
  then show ?case
    using Cons.IH by (auto split: option.split)
qed simp

definition targetPath :: "bool \<Rightarrow> (EdgeRef \<Rightarrow> bool) \<Rightarrow> search_env \<Rightarrow> sid \<Rightarrow> EdgeRef list \<Rightarrow> bool" where
  "targetPath x G env t es \<longleftrightarrow> es \<noteq> [] \<and> completion x G env t es 0 \<and> avail env [t] [] es"

lemma searchTargets_cases:
  assumes "searchTargets fuel env (t # ts) st = Some st'"
  obtains (limit) "pathLimitHit env st" "st' = st\<lparr>s_truncated := True\<rparr>"
    | (skip) "map_of (e_minFromStart env) t = None" "searchTargets fuel env ts st = Some st'"
    | (cut) d where "map_of (e_minFromStart env) t = Some d" "d > maxDepth (e_limits env)"
        "searchTargets fuel env ts (st\<lparr>s_stops := insert DepthLimit (s_stops st)\<rparr>) = Some st'"
    | (go) fl st1 where "dfs fuel env t 0 [] [] [] st = Some (fl, st1)" "searchTargets fuel env ts st1 = Some st'"
proof (cases "pathLimitHit env st")
  case True
  with assms show ?thesis by (intro limit) simp_all
next
  case nl: False
  show ?thesis
  proof (cases "map_of (e_minFromStart env) t")
    case None
    with assms nl show ?thesis by (intro skip) simp_all
  next
    case (Some d)
    show ?thesis
    proof (cases "maxDepth (e_limits env) \<noteq> 0 \<and> d > maxDepth (e_limits env)")
      case True
      with assms nl Some show ?thesis by (intro cut [OF Some]) simp_all
    next
      case False
      then have "(case dfs fuel env t 0 [] [] [] st of None \<Rightarrow> None
          | Some (_, st) \<Rightarrow> searchTargets fuel env ts st) = Some st'"
        using assms nl Some by (cases "maxDepth (e_limits env) = 0") simp_all
      then show ?thesis by (cases "dfs fuel env t 0 [] [] [] st") (auto intro: go)
    qed
  qed
qed

text \<open>Every path found is one, whatever the corridor holds.\<close>

lemma searchTargets_sound:
  assumes starts: "corridor_ok (\<lambda>_. False) env" and D: "maxDepth (e_limits env) \<noteq> 0"
    and eq: "searchTargets fuel env ts st = Some st'"
  shows "extends st st' \<and>
    (\<forall>p \<in> set (s_found st'). p \<in> set (s_found st) \<or> (\<exists>t \<in> set ts. targetPath False (\<lambda>_. True) env t p))"
  using eq
proof (induction ts arbitrary: st)
  case (Cons t ts)
  from Cons.prems show ?case
  proof (cases rule: searchTargets_cases)
    case limit
    then show ?thesis by (auto simp: extends_def)
  next
    case skip
    from Cons.IH [OF skip(2)] show ?thesis by auto
  next
    case cut
    from Cons.IH [OF cut(3)] show ?thesis by (auto simp: extends_def)
  next
    case (go fl st1)
    have N: "nodeSpec False (\<lambda>_. False) {} env t 0 [] [] [] st fl st1"
      by (rule dfs_spec [OF starts _ D _ go(1)]) simp_all
    have "p \<in> set (s_found st) \<or> targetPath False (\<lambda>_. True) env t p" if "p \<in> set (s_found st1)" for p
      using N that unfolding nodeSpec_def targetPath_def by auto
    moreover have "extends st st'"
      using N Cons.IH [OF go(2)] extends_trans unfolding nodeSpec_def by blast
    ultimately show ?thesis using Cons.IH [OF go(2)] by fastforce
  qed
qed auto

text \<open>
  The memo entry of a target that is itself a start is written at depth 0, where reaching a start does not
  count, so it may hide that start from the targets searched after it. \<open>A\<close> holds those starts.
\<close>

lemma searchTargets_complete:
  assumes ok: "corridor_ok G env" and hop: "\<And>e. G e \<Longrightarrow> caller e \<notin> A" and D: "maxDepth (e_limits env) \<noteq> 0"
    and eq: "searchTargets fuel env (pre @ t # post) st = Some st'"
    and A: "set pre \<inter> set (e_startSet env) \<subseteq> A" "t \<notin> A"
    and u: "untroubled x st'" and m: "memo_ok x G A env st" and p: "targetPath x G env t es"
  shows "es \<in> set (s_found st')"
  using eq A m
proof (induction pre arbitrary: st)
  case Nil
  note ext = conjunct1 [OF searchTargets_sound [OF corridor_ok_mono [OF ok] D]]
  obtain d where d: "map_of (e_minFromStart env) t = Some d" "x \<or> d \<le> maxDepth (e_limits env)"
    using completion_cut [OF ok, of x t es 0] p by (auto simp: targetPath_def)
  from Nil.prems(1) have "searchTargets fuel env (t # post) st = Some st'" by simp
  then show ?case
  proof (cases rule: searchTargets_cases)
    case limit
    then show ?thesis using u by (simp add: untroubled_def)
  next
    case (cut d')
    from ext [OF cut(3)] u cut(1,2) d show ?thesis by (auto simp: extends_def untroubled_def)
  next
    case (go fl st1)
    have "nodeSpec x G A env t 0 [] [] [] st fl st1"
      by (rule dfs_spec [OF ok hop D _ go(1)]) simp_all
    then have "es \<in> set (s_found st1)"
      using untroubled_extends [OF ext [OF go(2)] u] Nil.prems(3,4) p unfolding nodeSpec_def targetPath_def by auto
    then show ?thesis using ext [OF go(2)] by (auto simp: extends_def)
  qed (use d in simp)
next
  case (Cons t' pre)
  note ext = conjunct1 [OF searchTargets_sound [OF corridor_ok_mono [OF ok] D]]
  have A': "set pre \<inter> set (e_startSet env) \<subseteq> A" using Cons.prems(2) by auto
  from Cons.prems(1) have "searchTargets fuel env (t' # pre @ t # post) st = Some st'" by simp
  then show ?case
  proof (cases rule: searchTargets_cases)
    case limit
    then show ?thesis using u by (simp add: untroubled_def)
  next
    case skip
    from Cons.IH [OF skip(2) A' Cons.prems(3,4)] show ?thesis .
  next
    case cut
    from Cons.IH [OF cut(3) A' Cons.prems(3)] Cons.prems(4) show ?thesis by simp
  next
    case (go fl st1)
    have "nodeSpec x G A env t' 0 [] [] [] st fl st1"
      by (rule dfs_spec [OF ok hop D _ go(1)]) simp_all
    then have "memo_ok x G A env st1"
      using untroubled_extends [OF ext [OF go(2)] u] Cons.prems(2,4) unfolding nodeSpec_def by auto
    from Cons.IH [OF go(2) A' Cons.prems(3) this] show ?thesis .
  qed
qed


section \<open>Budgets\<close>

definition bounded :: "search_env \<Rightarrow> search_state \<Rightarrow> bool" where
  "bounded env st \<longleftrightarrow>
     (maxPaths (e_limits env) \<noteq> 0 \<longrightarrow> length (s_found st) \<le> maxPaths (e_limits env)) \<and>
     (maxWork (e_limits env) \<noteq> 0 \<longrightarrow> s_expansions st \<le> maxWork (e_limits env))"

lemma bounded_update [simp]:
  "bounded env (st\<lparr>s_stops := r\<rparr>) = bounded env st" "bounded env (st\<lparr>s_truncated := b\<rparr>) = bounded env st"
  "bounded env (st\<lparr>s_hubs := h\<rparr>) = bounded env st" "bounded env (st\<lparr>s_deadAt := m\<rparr>) = bounded env st"
  by (simp_all add: bounded_def)

definition keepsBound :: "search_env \<Rightarrow> (sid \<Rightarrow> nat \<Rightarrow> EdgeRef list \<Rightarrow> sid list \<Rightarrow> (sid \<times> sid \<times> sid) list \<Rightarrow>
    search_state \<Rightarrow> search_result) \<Rightarrow> bool" where
  "keepsBound env rec \<longleftrightarrow> (\<forall>n d es P E st fl st'. rec n d es P E st = Some (fl, st') \<longrightarrow>
     bounded env st \<longrightarrow> bounded env st')"

lemma dfsLoop_bounded:
  assumes rec: "keepsBound env rec"
  shows "dfsLoop rec env depth edges P E cs flags st = Some (fl, st') \<Longrightarrow> bounded env st \<Longrightarrow> bounded env st'"
proof (induction cs arbitrary: flags st)
  case (Cons e cs)
  then show ?case
    using rec unfolding keepsBound_def by (auto simp: Let_def split: if_splits option.splits)
qed simp

lemma dfsExpand_bounded:
  assumes rec: "keepsBound env rec"
    and "dfsExpand rec env node depth edges P E hit st = Some (fl, st')" and "bounded env st"
  shows "bounded env st'"
proof -
  have "dfsLoop rec env depth edges P E (searchCallersOf env node) (hit, False) st = Some (fl, st') \<Longrightarrow>
      bounded env st'"
    using dfsLoop_bounded [OF rec] assms(3) by blast
  then show ?thesis
    using assms(2,3) by (auto simp: dfsExpand_def Let_def split: if_splits)
qed

lemma dfsNode_bounded:
  assumes rec: "keepsBound env rec"
    and eq: "dfsNode rec env node depth edges P E st = Some (fl, st')" and b: "bounded env st"
  shows "bounded env st'"
proof (cases "pathLimitHit env st \<or> maxWork (e_limits env) \<noteq> 0 \<and> s_expansions st \<ge> maxWork (e_limits env)")
  case True
  with eq b show ?thesis by (auto simp: dfsNode_def Let_def split: if_splits)
next
  case False
  let ?st = "st\<lparr>s_expansions := s_expansions st + 1\<rparr>"
  have b1: "bounded env ?st" using False b by (auto simp: bounded_def)
  have b2: "bounded env (?st\<lparr>s_found := s_found ?st @ [edges]\<rparr>)"
    using False b1 by (auto simp: bounded_def pathLimitHit_def)
  let ?hit = "node \<in> set (e_startSet env) \<and> depth > 0"
  let ?st2 = "if ?hit then ?st\<lparr>s_found := s_found ?st @ [edges]\<rparr> else ?st"
  have b3: "bounded env ?st2" using b1 b2 by simp
  have c: "pathLimitHit env st = False"
    "(maxWork (e_limits env) \<noteq> 0 \<and> maxWork (e_limits env) \<le> s_expansions st) = False"
    using False by auto
  show ?thesis
  proof (cases "case map_of (s_deadAt ?st) node of None \<Rightarrow> False | Some d \<Rightarrow> d \<le> depth")
    case True
    then have "st' = ?st" using eq unfolding dfsNode_def Let_def c if_False by simp
    with b1 show ?thesis by simp
  next
    case False
    then have "(case dfsExpand rec env node depth edges (node # P) E ?hit ?st2 of None \<Rightarrow> None
      | Some (flags, st) \<Rightarrow> Some (flags, if fst flags \<or> snd flags then st
          else st\<lparr>s_deadAt := noteDead (s_deadAt st) node depth\<rparr>)) = Some (fl, st')"
      using eq unfolding dfsNode_def Let_def c by (simp only: if_False)
    then obtain st3 where "dfsExpand rec env node depth edges (node # P) E ?hit ?st2 = Some (fl, st3)"
      and "st' = st3 \<or> st' = st3\<lparr>s_deadAt := noteDead (s_deadAt st3) node depth\<rparr>"
      by (cases "dfsExpand rec env node depth edges (node # P) E ?hit ?st2") (auto split: if_splits)
    moreover from this(1) have "bounded env st3"
      using dfsExpand_bounded [OF rec] b3 by blast
    ultimately show ?thesis by auto
  qed
qed

lemma dfs_keepsBound: "keepsBound env (dfs fuel env)"
proof (induction fuel)
  case (Suc fuel)
  show ?case
    unfolding keepsBound_def dfs.simps using dfsNode_bounded [OF Suc.IH] by blast
qed (simp add: keepsBound_def)

lemma dfs_bounded:
  "dfs fuel env node depth edges P E st = Some (fl, st') \<Longrightarrow> bounded env st \<Longrightarrow> bounded env st'"
  using dfs_keepsBound [of env fuel] unfolding keepsBound_def by blast

lemma searchTargets_bounded:
  "searchTargets fuel env ts st = Some st' \<Longrightarrow> bounded env st \<Longrightarrow> bounded env st'"
  by (induction ts arbitrary: st) (auto split: if_splits option.splits intro: dfs_bounded)

section \<open>Results\<close>

text \<open>The reference notion of a path: a chain of caller edges from the target back to a start, under the
  cycle rule.\<close>

fun callChain :: "call_graph \<Rightarrow> (EdgeRef \<Rightarrow> bool) option \<Rightarrow> sid \<Rightarrow> EdgeRef list \<Rightarrow> bool" where
  "callChain g filt n [] = True"
| "callChain g filt n (e # es) \<longleftrightarrow>
     e \<in> set (callerRefsOf g n) \<and> admit filt e \<and> callChain g filt (caller e) es"

definition simplePath :: "call_graph \<Rightarrow> (EdgeRef \<Rightarrow> bool) option \<Rightarrow> CycleRule \<Rightarrow> sid list \<Rightarrow> sid \<Rightarrow>
    EdgeRef list \<Rightarrow> bool" where
  "simplePath g filt cycles starts t es \<longleftrightarrow>
     es \<noteq> [] \<and> callChain g filt t es \<and> endOf t es \<in> set starts \<and>
     (case cycles of
        SimpleNodes \<Rightarrow> distinct (t # map caller es)
      | SimpleEdges \<Rightarrow> distinct (map edgeKey es))"

definition pathOf :: "(string \<Rightarrow> bool) \<Rightarrow> call_graph \<Rightarrow> EdgeRef list \<Rightarrow> CallPath" where
  "pathOf isUTF8 g es = map (hopOf isUTF8 g) (rev es)"

lemma walk_callChain: "walk env n es \<longleftrightarrow> callChain (e_graph env) (e_filter env) n es"
  by (induction es arbitrary: n) auto

lemma targetPath_simplePath:
  "targetPath x G (searchEnv isUTF8 g starts lim cycles filt) t es \<longleftrightarrow>
     simplePath g filt cycles (startIds isUTF8 g starts) t es \<and> list_all G es \<and>
     (x \<or> length es \<le> maxDepth (capLimits lim))"
proof -
  let ?env = "searchEnv isUTF8 g starts lim cycles filt"
  have "avail ?env [t] [] es \<longleftrightarrow> (case cycles of SimpleNodes \<Rightarrow> distinct (t # map caller es)
    | SimpleEdges \<Rightarrow> distinct (map edgeKey es))"
    by (cases cycles) (auto simp: avail_nodes avail_edges searchEnv_def)
  then show ?thesis
    by (auto simp: targetPath_def simplePath_def completion_def walk_callChain searchEnv_def)
qed

lemma forwardAdmitted_fstep: "forwardAdmitted g filt es \<longleftrightarrow> (\<forall>e \<in> set es. fstep g filt (caller e) (callee e))"
  by (simp add: forwardAdmitted_def fstep_def)

lemma forwardAdmitted_callFilter:
  assumes "graph_wf g" and "callFilter filt"
  shows "callChain g filt n es \<Longrightarrow> forwardAdmitted g filt es"
  by (induction es arbitrary: n) (auto simp: forwardAdmitted_fstep fstep_callFilter [OF assms])

lemma forwardAdmitted_kindFilter:
  assumes "graph_wf g" and "kindFilter filt" and "\<forall>se \<in> set (g_edges g). kind se \<noteq> FunctionPointerReturn"
  shows "callChain g filt n es \<Longrightarrow> forwardAdmitted g filt es"
  using assms(3)
  by (induction es arbitrary: n) (auto simp: forwardAdmitted_fstep fstep_kindFilter [OF assms(1,2)])

text \<open>
  No caller on the path is a start that is itself a candidate of the target name searched before \<open>t\<close>
  (candidates are searched in the order of their usrs). This always holds of an unambiguous target.
\<close>

definition unshadowed :: "(string \<Rightarrow> bool) \<Rightarrow> call_graph \<Rightarrow> string \<Rightarrow> string list \<Rightarrow> sid \<Rightarrow> EdgeRef list \<Rightarrow> bool" where
  "unshadowed isUTF8 g target starts t es \<longleftrightarrow>
     (\<forall>e \<in> set es. caller e \<in> set (startIds isUTF8 g starts) \<longrightarrow> caller e \<in> set (resolveIds isUTF8 g target) \<longrightarrow>
        resolve (g_interner g) t \<le> resolve (g_interner g) (caller e))"

lemma unshadowed_single:
  assumes "t \<in> set (resolveIds isUTF8 g target)" and "length (resolveIds isUTF8 g target) = 1"
  shows "unshadowed isUTF8 g target starts t es"
  using assms by (auto simp: unshadowed_def length_Suc_conv)

lemma unshadowed_disjoint:
  assumes "set (resolveIds isUTF8 g target) \<inter> set (startIds isUTF8 g starts) = {}"
  shows "unshadowed isUTF8 g target starts t es"
  using assms by (auto simp: unshadowed_def)

lemma resolveIds_known:
  assumes "graph_wf g" and "i \<in> set (resolveIds isUTF8 g name)"
  shows "i < internerSize (g_interner g)"
proof -
  have "\<exists>s. findId (g_interner g) s = Some i"
    using assms(2) unfolding resolveIds_def Let_def
    by (auto simp: List.map_filter_def split: if_splits option.splits)
  then show ?thesis using findId_iff [OF graph_wfD(1) [OF assms(1)]] by blast
qed

text \<open>The candidates searched before \<open>t\<close>.\<close>

lemma sorted_before:
  assumes "sort_key f ts = pre @ t # post" and "distinct ts" and "inj_on f (set ts)"
  shows "set pre = {u \<in> set ts. f u < f t}"
proof -
  have ts: "set ts = set pre \<union> {t} \<union> set post" using arg_cong [OF assms(1), of set] by auto
  have d: "distinct (pre @ t # post)" using assms(1,2) by (metis distinct_sort)
  have o: "sorted (map f (pre @ t # post))" using assms(1) by (metis sorted_sort_key)
  have "f u < f t" if "u \<in> set pre" for u
  proof -
    have "f u \<le> f t" "u \<noteq> t" using o d that by (auto simp: sorted_append)
    moreover have "f u \<noteq> f t" using inj_onD [OF assms(3), of u t] that ts \<open>u \<noteq> t\<close> by auto
    ultimately show ?thesis by simp
  qed
  moreover have "f t \<le> f u" if "u \<in> set post" for u
    using o that by (auto simp: sorted_append)
  ultimately show ?thesis unfolding ts by force
qed

text \<open>The run behind a result.\<close>

lemma findCallerPaths_run:
  assumes "findCallerPaths isUTF8 g target starts lim cycles filt = Some r"
    and "targetKnown r" and "startKnown r"
  obtains st where "searchTargets (kPathSearchDepthCap + 1) (searchEnv isUTF8 g starts lim cycles filt)
      (sort_key (resolve (g_interner g)) (resolveIds isUTF8 g target)) initState = Some st"
    and "paths r = map (pathOf isUTF8 g) (s_found st)"
    and "stops r = (if s_truncated st then insert PathLimit (s_stops st) else s_stops st)"
    and "expansions r = s_expansions st"
  using assms
  by (auto simp: findCallerPaths_def Let_def pathOf_def split: if_splits option.splits)

lemma findCallerPaths_unknown:
  assumes "findCallerPaths isUTF8 g target starts lim cycles filt = Some r"
    and "\<not> (targetKnown r \<and> startKnown r)"
  shows "paths r = []" and "expansions r = 0"
  using assms by (auto simp: findCallerPaths_def Let_def split: if_splits option.splits)

lemma initState_sel [simp]: "s_found initState = []" "memo_ok x G A env initState" "bounded env initState"
  by (simp_all add: initState_def memo_ok_def bounded_def)

lemma findCallerPaths_core:
  assumes eq: "findCallerPaths isUTF8 g target starts lim cycles filt = Some r"
    and known: "targetKnown r" "startKnown r"
  shows "\<forall>p \<in> set (paths r). \<exists>t \<in> set (resolveIds isUTF8 g target). \<exists>es.
      targetPath False (\<lambda>_. True) (searchEnv isUTF8 g starts lim cycles filt) t es \<and> p = pathOf isUTF8 g es"
    and "graph_wf g \<Longrightarrow> complete r \<Longrightarrow> (x \<longrightarrow> DepthLimit \<notin> stops r) \<Longrightarrow>
      t \<in> set (resolveIds isUTF8 g target) \<Longrightarrow>
      simplePath g filt cycles (startIds isUTF8 g starts) t es \<Longrightarrow>
      x \<or> length es \<le> maxDepth (capLimits lim) \<Longrightarrow>
      forwardAdmitted g filt es \<Longrightarrow> unshadowed isUTF8 g target starts t es \<Longrightarrow>
      pathOf isUTF8 g es \<in> set (paths r)"
proof -
  let ?env = "searchEnv isUTF8 g starts lim cycles filt"
  let ?r = "resolve (g_interner g)"
  let ?ts = "sort_key ?r (resolveIds isUTF8 g target)"
  obtain st where st: "searchTargets (kPathSearchDepthCap + 1) ?env ?ts initState = Some st"
    and ps: "paths r = map (pathOf isUTF8 g) (s_found st)"
    and stp: "stops r = (if s_truncated st then insert PathLimit (s_stops st) else s_stops st)"
    using findCallerPaths_run [OF eq known] .
  have D: "maxDepth (e_limits ?env) \<noteq> 0" by (simp add: searchEnv_def del: neq0_conv)
  have "corridor_ok (\<lambda>_. False) ?env"
    by (simp add: corridor_ok_def searchEnv_def corridor_start)
  from searchTargets_sound [OF this D st]
  show "\<forall>p \<in> set (paths r). \<exists>t \<in> set (resolveIds isUTF8 g target). \<exists>es.
      targetPath False (\<lambda>_. True) ?env t es \<and> p = pathOf isUTF8 g es"
    unfolding ps by fastforce
  assume wf: "graph_wf g" and c: "complete r" "x \<longrightarrow> DepthLimit \<notin> stops r"
    and t: "t \<in> set (resolveIds isUTF8 g target)"
    and p: "simplePath g filt cycles (startIds isUTF8 g starts) t es"
      "x \<or> length es \<le> maxDepth (capLimits lim)" "forwardAdmitted g filt es"
    and sh: "unshadowed isUTF8 g target starts t es"
  have u: "untroubled x st"
    using c by (auto simp: untroubled_def complete_def stopped_def stp split: if_splits)
  obtain pre post where split: "?ts = pre @ t # post"
    using t by (metis set_sort split_list)
  have W: "interner_wf (g_interner g)" using graph_wfD(1) [OF wf] .
  have "inj_on ?r (set (resolveIds isUTF8 g target))"
    using resolve_eq_iff [OF W] resolveIds_known [OF wf] by (intro inj_onI) blast
  moreover have "distinct (resolveIds isUTF8 g target)"
    by (simp add: resolveIds_def Let_def distinct_remdups_adj_sort)
  ultimately have pre: "set pre = {u \<in> set (resolveIds isUTF8 g target). ?r u < ?r t}"
    using sorted_before [OF split] by blast
  define A where "A = set pre \<inter> set (startIds isUTF8 g starts)"
  have "list_all (goodHop g filt A) es"
    using p(3) sh unfolding list_all_iff goodHop_def forwardAdmitted_fstep unshadowed_def A_def pre
    by fastforce
  then have tp: "targetPath x (goodHop g filt A) ?env t es"
    using p by (simp add: targetPath_simplePath)
  have "es \<in> set (s_found st)"
  proof (rule searchTargets_complete [OF searchEnv_corridor_ok [OF wf] _ D st [unfolded split] _ _ u _ tp])
    show "\<And>e. goodHop g filt A e \<Longrightarrow> caller e \<notin> A" by (simp add: goodHop_def)
    show "set pre \<inter> set (e_startSet ?env) \<subseteq> A" by (simp add: A_def searchEnv_def)
    show "t \<notin> A" by (simp add: A_def pre)
  qed simp
  then show "pathOf isUTF8 g es \<in> set (paths r)"
    by (simp add: ps)
qed


section \<open>Properties\<close>

definition lim0 :: SearchLimits where
  "lim0 = \<lparr>maxPaths = 5, maxDepth = 3, maxFanIn = 0, maxWork = 50\<rparr>"

definition chainGraph :: call_graph where
  "chainGraph = shardOf ''x'' [callEdge ''a'' ''b'' ''1'', callEdge ''b'' ''c'' ''2'']"

definition chainEdges :: "EdgeRef list" where
  "chainEdges = [\<lparr>caller = 1, callee = 4, callSite = 5, kind = DirectCall, confidence = Proven,
       execContext = Synchronous, indirectionDepth = 0\<rparr>,
     \<lparr>caller = 0, callee = 1, callSite = 2, kind = DirectCall, confidence = Proven,
       execContext = Synchronous, indirectionDepth = 0\<rparr>]"

abbreviation chainSearch :: "PathSearchResult option" where
  "chainSearch \<equiv> findCallerPaths (\<lambda>_. True) chainGraph ''c'' [''a''] lim0 SimpleNodes None"

definition chainResult :: PathSearchResult where
  "chainResult = \<lparr>paths = [map (hopOf (\<lambda>_. True) chainGraph) (rev chainEdges)], skippedHubs = [],
     stops = {}, expansions = 3, targetKnown = True, startKnown = True\<rparr>"

lemma chain_wf: "graph_wf chainGraph"
  by (simp add: chainGraph_def)

lemma chain_search: "chainSearch = Some chainResult"
  by code_simp

lemma chain_exhaustive: "exhaustive chainResult" "complete chainResult"
  by (simp_all add: chainResult_def exhaustive_def complete_def stopped_def)

lemma chain_ids: "resolveIds (\<lambda>_. True) chainGraph ''c'' = [4]"
  by code_simp

lemma chain_simple: "simplePath chainGraph None SimpleNodes (startIds (\<lambda>_. True) chainGraph [''a'']) 4 chainEdges"
  by code_simp

text \<open>The same search under a filter of the query tools: confidence at least Plausible.\<close>

definition plausibleUp :: EdgeFilter where
  "plausibleUp = allowAll\<lparr>minConf := Plausible\<rparr>"

lemma filtered_search:
  "findCallerPaths (\<lambda>_. True) chainGraph ''c'' [''a''] lim0 SimpleNodes (Some (allowsRef plausibleUp)) =
    Some chainResult"
  by code_simp

lemma filtered_simple:
  "simplePath chainGraph (Some (allowsRef plausibleUp)) SimpleNodes (startIds (\<lambda>_. True) chainGraph [''a'']) 4 chainEdges"
  by code_simp

lemma filtered_forward: "forwardAdmitted chainGraph (Some (allowsRef plausibleUp)) chainEdges"
  by code_simp

lemma findCallerPaths_total: "\<exists>r. findCallerPaths isUTF8 g target starts lim cycles filt = Some r"
proof -
  let ?env = "searchEnv isUTF8 g starts lim cycles filt"
  have D: "maxDepth (e_limits ?env) \<noteq> 0" "maxDepth (e_limits ?env) < kPathSearchDepthCap + 1"
    using capLimits_maxDepth(1) [of lim] capLimits_maxDepth(2) [of lim]
    by (simp_all add: searchEnv_def less_Suc_eq_le del: capLimits_maxDepth)
  obtain st where "searchTargets (kPathSearchDepthCap + 1) ?env
      (sort_key (resolve (g_interner g)) (resolveIds isUTF8 g target)) initState = Some st"
    using searchTargets_total [OF D] by blast
  then show ?thesis
    by (simp add: findCallerPaths_def Let_def)
qed

text \<open>C8: the path search returns a result on every graph, name, start list, limit, cycle rule and filter:
  the depth cap bounds the recursion.\<close>

theorem findCallerPaths_returns:
  "\<exists>r. findCallerPaths isUTF8 g target starts lim cycles filt = Some r"
  by (rule findCallerPaths_total)

text \<open>C7: every reported path is a simple path of the call relation from a start to a candidate of the
  target, each of whose edges the filter admits, non-empty and no longer than the depth bound, read in call
  direction. It holds of every graph, filter and cycle rule.\<close>

theorem findCallerPaths_sound:
  assumes "findCallerPaths isUTF8 g target starts lim cycles filt = Some r"
  shows "\<forall>p \<in> set (paths r). \<exists>t \<in> set (resolveIds isUTF8 g target). \<exists>es.
    simplePath g filt cycles (startIds isUTF8 g starts) t es \<and>
    length es \<le> maxDepth (capLimits lim) \<and> p = pathOf isUTF8 g es"
proof (cases "targetKnown r \<and> startKnown r")
  case True
  from findCallerPaths_core(1) [OF assms] True show ?thesis
    by (simp add: targetPath_simplePath list_all_iff)
qed (simp add: findCallerPaths_unknown [OF assms])

theorem findCallerPaths_sound_witness:
  "\<exists>t \<in> set (resolveIds (\<lambda>_. True) chainGraph ''c''). \<exists>es.
     simplePath chainGraph (Some (allowsRef plausibleUp)) SimpleNodes (startIds (\<lambda>_. True) chainGraph [''a'']) t es \<and>
     length es \<le> 3 \<and> pathOf (\<lambda>_. True) chainGraph chainEdges = pathOf (\<lambda>_. True) chainGraph es"
  using findCallerPaths_sound [OF filtered_search]
  by (simp add: chainResult_def pathOf_def lim0_def capLimits_def kPathSearchDepthCap_def)

text \<open>C1: when the result says it is complete, every simple path from a start to a candidate \<open>t\<close> of the target
  that is within the depth bound is reported, for every filter, under two conditions on the path. Each of
  its hops is also admitted in the callee query the corridor is grown along (\<open>forwardAdmitted\<close>: this holds of
  every stored call, \<open>fstep_stored\<close>, of every path when there is no filter or when it looks at caller, callee and
  site only, \<open>forwardAdmitted_callFilter\<close>, and, when the filter also looks at kind and confidence, of every call
  but those of returned functions, \<open>fstep_kindFilter\<close>; it can fail for a call through an override when the filter
  selects execution contexts). And none of its callers is a start that is itself a candidate of the target
  name searched before \<open>t\<close> (\<open>unshadowed\<close>: always so when the name has one candidate or no candidate is a start).\<close>

theorem findCallerPaths_complete:
  assumes "graph_wf g"
    and "findCallerPaths isUTF8 g target starts lim cycles filt = Some r" and "complete r"
    and "t \<in> set (resolveIds isUTF8 g target)"
    and "simplePath g filt cycles (startIds isUTF8 g starts) t es"
    and "length es \<le> maxDepth (capLimits lim)"
    and "forwardAdmitted g filt es" and "unshadowed isUTF8 g target starts t es"
  shows "pathOf isUTF8 g es \<in> set (paths r)"
  using findCallerPaths_core(2) [OF assms(2) _ _ assms(1), of False t es] assms(3-)
  by (simp add: complete_def)

theorem findCallerPaths_complete_witness:
  "pathOf (\<lambda>_. True) chainGraph chainEdges \<in> set (paths chainResult)"
proof (rule findCallerPaths_complete [OF chain_wf filtered_search chain_exhaustive(2) _ filtered_simple])
  show "length chainEdges \<le> maxDepth (capLimits lim0)"
    by (simp add: chainEdges_def lim0_def capLimits_def kPathSearchDepthCap_def)
  show "unshadowed (\<lambda>_. True) chainGraph ''c'' [''a''] 4 chainEdges"
    by (rule unshadowed_single) (simp_all add: chain_ids)
qed (simp_all add: chain_ids filtered_forward)

text \<open>C6: when the result says it is exhaustive, every simple path from a start to a candidate of the target is
  reported, whatever its length, for every filter and under the same two conditions on the path as the
  completeness within the depth bound: its hops are admitted in the callee query too, and no caller on it is a
  start that is a candidate of the target searched earlier.\<close>

theorem findCallerPaths_exhaustive:
  assumes "graph_wf g"
    and "findCallerPaths isUTF8 g target starts lim cycles filt = Some r" and "exhaustive r"
    and "t \<in> set (resolveIds isUTF8 g target)"
    and "simplePath g filt cycles (startIds isUTF8 g starts) t es"
    and "forwardAdmitted g filt es" and "unshadowed isUTF8 g target starts t es"
  shows "pathOf isUTF8 g es \<in> set (paths r)"
  using findCallerPaths_core(2) [OF assms(2) _ _ assms(1), of True t es] assms(3-)
  by (simp add: complete_def exhaustive_def)

theorem findCallerPaths_exhaustive_witness:
  "map (hopOf (\<lambda>_. True) chainGraph) (rev chainEdges) \<in> set (paths chainResult)"
  using findCallerPaths_exhaustive [OF chain_wf filtered_search chain_exhaustive(1) _ filtered_simple filtered_forward]
    unshadowed_single [of 4 "\<lambda>_. True" chainGraph "''c''" "[''a'']" chainEdges]
  by (simp add: chain_ids pathOf_def)

text \<open>C13: the budgets hold: at most \<open>maxPaths\<close> paths are reported and at most \<open>maxWork\<close> nodes expanded,
  where 0 means no limit.\<close>

theorem findCallerPaths_budget:
  assumes "findCallerPaths isUTF8 g target starts lim cycles filt = Some r"
  shows "(maxPaths lim = 0 \<or> length (paths r) \<le> maxPaths lim) \<and>
    (maxWork lim = 0 \<or> expansions r \<le> maxWork lim)"
proof (cases "targetKnown r \<and> startKnown r")
  case True
  let ?env = "searchEnv isUTF8 g starts lim cycles filt"
  from True obtain st where "searchTargets (kPathSearchDepthCap + 1) ?env
      (sort_key (resolve (g_interner g)) (resolveIds isUTF8 g target)) initState = Some st"
    and "paths r = map (pathOf isUTF8 g) (s_found st)" "expansions r = s_expansions st"
    using findCallerPaths_run [OF assms] by metis
  moreover from this(1) have "bounded ?env st" by (rule searchTargets_bounded) simp
  moreover have "maxPaths (e_limits ?env) = maxPaths lim" "maxWork (e_limits ?env) = maxWork lim"
    by (simp_all add: searchEnv_def capLimits_def)
  ultimately show ?thesis by (auto simp: bounded_def)
qed (simp add: findCallerPaths_unknown [OF assms])

theorem findCallerPaths_budget_witness:
  "length (paths chainResult) \<le> 5 \<and> expansions chainResult \<le> 50"
  using findCallerPaths_budget [OF chain_search] by (simp add: lim0_def)

text \<open>The order in which callers are expanded is canonical: it depends on the resolved strings and the
  scalar fields of the edges only, so two graphs whose caller edges read the same expand them in the same
  order, whatever the order of insertion.\<close>

theorem sortCallerRefs_canonical:
  assumes "graph_wf g" and "graph_wf g'"
    and "mset (map (canonKey g) (callerRefsOf g d)) = mset (map (canonKey g') (callerRefsOf g' d'))"
  shows "map (canonKey g) (sortCallerRefsCanonically g (callerRefsOf g d)) =
    map (canonKey g') (sortCallerRefsCanonically g' (callerRefsOf g' d'))"
proof -
  have "map f (sort_key f xs) = sort (map f xs)" for f :: "EdgeRef \<Rightarrow> 'k::linorder" and xs
    by (rule properties_for_sort [symmetric]) simp_all
  then show ?thesis
    using sort_canonical [OF assms(1), of d] sort_canonical [OF assms(2), of d'] assms(3)
    by (metis sorted_list_of_multiset_mset)
qed


theorem sortCallerRefs_canonical_witness:
  "map (canonKey (shardOf ''x'' [callEdge ''b'' ''c'' ''2'', callEdge ''a'' ''c'' ''1'']))
     (sortCallerRefsCanonically (shardOf ''x'' [callEdge ''b'' ''c'' ''2'', callEdge ''a'' ''c'' ''1''])
       (callerRefsOf (shardOf ''x'' [callEdge ''b'' ''c'' ''2'', callEdge ''a'' ''c'' ''1'']) 1)) =
   map (canonKey (shardOf ''x'' [callEdge ''a'' ''c'' ''1'', callEdge ''b'' ''c'' ''2'']))
     (sortCallerRefsCanonically (shardOf ''x'' [callEdge ''a'' ''c'' ''1'', callEdge ''b'' ''c'' ''2''])
       (callerRefsOf (shardOf ''x'' [callEdge ''a'' ''c'' ''1'', callEdge ''b'' ''c'' ''2'']) 1))"
proof (rule sortCallerRefs_canonical [OF shardOf_wf(1) shardOf_wf(1)])
  have a: "map (canonKey (shardOf ''x'' [callEdge ''b'' ''c'' ''2'', callEdge ''a'' ''c'' ''1'']))
      (callerRefsOf (shardOf ''x'' [callEdge ''b'' ''c'' ''2'', callEdge ''a'' ''c'' ''1'']) 1) =
    [(''b'', ''2'', DirectCall, Proven, Synchronous, 0), (''a'', ''1'', DirectCall, Proven, Synchronous, 0)]"
    by code_simp
  have b: "map (canonKey (shardOf ''x'' [callEdge ''a'' ''c'' ''1'', callEdge ''b'' ''c'' ''2'']))
      (callerRefsOf (shardOf ''x'' [callEdge ''a'' ''c'' ''1'', callEdge ''b'' ''c'' ''2'']) 1) =
    [(''a'', ''1'', DirectCall, Proven, Synchronous, 0), (''b'', ''2'', DirectCall, Proven, Synchronous, 0)]"
    by code_simp
  show "mset (map (canonKey (shardOf ''x'' [callEdge ''b'' ''c'' ''2'', callEdge ''a'' ''c'' ''1'']))
      (callerRefsOf (shardOf ''x'' [callEdge ''b'' ''c'' ''2'', callEdge ''a'' ''c'' ''1'']) 1)) =
    mset (map (canonKey (shardOf ''x'' [callEdge ''a'' ''c'' ''1'', callEdge ''b'' ''c'' ''2'']))
      (callerRefsOf (shardOf ''x'' [callEdge ''a'' ''c'' ''1'', callEdge ''b'' ''c'' ''2'']) 1))"
    unfolding a b by simp
qed

end
