(* ===== verification/DeadCode.thy ===== *)
theory DeadCode
  imports CallGraphQuery
begin

text \<open>
  Dead-code analysis (\<open>include/vycor/check/DeadCodeAnalyzer.h\<close>,
  \<open>src/check/DeadCodeAnalyzer.cpp\<close>): the breadth-first liveness walk with deferred virtual
  dispatch, the two analyses, the verdict table and the diagnostics. \<open>bfs_state\<close> holds the locals
  of \<open>bfs\<close>; a \<open>std::set\<close> of strings is an ascending list. A \<open>Diagnostic\<close> keeps the fields
  this component fills.
\<close>

section \<open>Model\<close>

datatype Liveness = Alive | OptimisticallyAlive | Dead

datatype DiagnosticKind = DeadCode_Pessimistic | DeadCode_Optimistic

record Diagnostic =
  diagKind :: DiagnosticKind
  callLocation :: string
  resolvedDecl :: string
  message :: string

record bfs_state =
  alive :: "string list"
  bqueue :: "string list"
  constructedClasses :: "string list"
  deferredVirtualEdges :: "string list"
  changed :: bool

definition markAlive :: "string \<Rightarrow> bfs_state \<Rightarrow> bfs_state" where
  "markAlive u st =
     (if u \<in> set (alive st) then st
      else st\<lparr>alive := set_insert u (alive st), bqueue := bqueue st @ [u]\<rparr>)"

definition seed :: "(string \<Rightarrow> bool) \<Rightarrow> call_graph \<Rightarrow> string \<Rightarrow> bfs_state \<Rightarrow> bfs_state" where
  "seed isUTF8 g name st = fold markAlive (usrsForName isUTF8 g name) st"

definition constructible :: "(string \<Rightarrow> bool) \<Rightarrow> call_graph \<Rightarrow> string list \<Rightarrow> string \<Rightarrow> bool" where
  "constructible isUTF8 g constructed u \<longleftrightarrow>
     list_ex (\<lambda>cls. cls \<in> set constructed) (getClassesForImpl isUTF8 g u) \<or>
     (case findNode isUTF8 g u of
        None \<Rightarrow> False
      | Some n \<Rightarrow> enclosingClass n \<noteq> [] \<and> enclosingClass n \<in> set constructed)"

definition shouldFollowEdge ::
    "(string \<Rightarrow> bool) \<Rightarrow> call_graph \<Rightarrow> bool \<Rightarrow> string list \<Rightarrow> CallGraphEdge \<Rightarrow> bool" where
  "shouldFollowEdge isUTF8 g includeVirtualPlausible constructed edge =
     (if edgeConfidence edge = Proven then True
      else if \<not> includeVirtualPlausible then False
      else if edgeKind edge = FunctionPointer then True
      else if edgeKind edge = VirtualDispatch then constructible isUTF8 g constructed (calleeUsr edge)
      else True)"

definition noteConstructed :: "(string \<Rightarrow> bool) \<Rightarrow> call_graph \<Rightarrow> CallGraphEdge \<Rightarrow> bfs_state \<Rightarrow> bfs_state" where
  "noteConstructed isUTF8 g edge st =
     (if edgeKind edge = ConstructorCall
      then (case findNode isUTF8 g (calleeUsr edge) of
              None \<Rightarrow> st
            | Some n \<Rightarrow>
                if enclosingClass n \<noteq> [] \<and> enclosingClass n \<notin> set (constructedClasses st)
                then st\<lparr>constructedClasses := set_insert (enclosingClass n) (constructedClasses st),
                        changed := True\<rparr>
                else st)
      else st)"

definition scanEdge :: "(string \<Rightarrow> bool) \<Rightarrow> call_graph \<Rightarrow> bool \<Rightarrow> CallGraphEdge \<Rightarrow> bfs_state \<Rightarrow> bfs_state" where
  "scanEdge isUTF8 g opt edge st =
     (let st = noteConstructed isUTF8 g edge st in
      if shouldFollowEdge isUTF8 g opt (constructedClasses st) edge
      then markAlive (calleeUsr edge) st
      else if opt \<and> edgeKind edge = VirtualDispatch \<and> edgeConfidence edge = Plausible
      then st\<lparr>deferredVirtualEdges := deferredVirtualEdges st @ [calleeUsr edge]\<rparr>
      else st)"

text \<open>The usrs a walk can add: targets of edges that leave some node.\<close>

definition usrUniverse :: "call_graph \<Rightarrow> string set" where
  "usrUniverse g = (\<Union>c \<in> fst ` set (g_outEdges g).
     (\<lambda>r. resolve (g_interner g) (callee r)) ` set (calleeRefsOf g c))"

lemma finite_usrUniverse [simp]: "finite (usrUniverse g)"
  by (simp add: usrUniverse_def)

lemma calleesOf_universe:
  assumes "e \<in> set (calleesOf isUTF8 g name)"
  shows "calleeUsr e \<in> usrUniverse g"
proof -
  obtain c r where r: "r \<in> set (calleeRefsOf g c)" and e: "e = materialize g r"
    using assms by (auto simp: calleesOf_def)
  then have "map_of (g_outEdges g) c \<noteq> None"
    by (cases "map_of (g_outEdges g) c") (simp_all add: calleeRefsOf_def)
  then have "c \<in> fst ` set (g_outEdges g)" by (simp add: map_of_eq_None_iff)
  with r show ?thesis by (auto simp: e usrUniverse_def materialize_def)
qed

lemma noteConstructed_fields [simp]:
  "alive (noteConstructed isUTF8 g e st) = alive st" "bqueue (noteConstructed isUTF8 g e st) = bqueue st"
  "deferredVirtualEdges (noteConstructed isUTF8 g e st) = deferredVirtualEdges st"
  by (auto simp: noteConstructed_def split: option.split)

text \<open>Marking and scanning only add, and what they queue is newly alive.\<close>

definition work :: "string set \<Rightarrow> bfs_state \<Rightarrow> nat" where
  "work U st = length (bqueue st) + card (U - set (alive st))"

lemma markAlive_work: "finite U \<Longrightarrow> u \<in> U \<Longrightarrow> work U (markAlive u st) \<le> work U st"
proof -
  assume U: "finite U" "u \<in> U"
  show ?thesis
  proof (cases "u \<in> set (alive st)")
    case False
    then have "U - set (alive st) = insert u (U - insert u (set (alive st)))" using U by auto
    then have "card (U - set (alive st)) = Suc (card (U - insert u (set (alive st))))"
      using U by (metis card_insert_disjoint DiffD2 finite_Diff insertI1)
    with False show ?thesis by (simp add: markAlive_def work_def)
  qed (simp add: markAlive_def)
qed

lemma scanEdge_work:
  assumes "finite U" and "calleeUsr e \<in> U"
  shows "work U (scanEdge isUTF8 g opt e st) \<le> work U st"
  using markAlive_work [OF assms, of "noteConstructed isUTF8 g e st"]
  by (simp add: scanEdge_def Let_def work_def)

lemma fold_scanEdge_work:
  assumes "finite U" and "\<forall>e \<in> set es. calleeUsr e \<in> U"
  shows "work U (fold (scanEdge isUTF8 g opt) es st) \<le> work U st"
  using assms(2)
proof (induction es arbitrary: st)
  case (Cons e es)
  then show ?case
    using scanEdge_work [OF assms(1), of e isUTF8 g opt st] by (fastforce intro: order_trans)
qed simp

function drain :: "(string \<Rightarrow> bool) \<Rightarrow> call_graph \<Rightarrow> bool \<Rightarrow> bfs_state \<Rightarrow> bfs_state" where
  "drain isUTF8 g opt st =
     (case bqueue st of
        [] \<Rightarrow> st
      | current # rest \<Rightarrow>
          drain isUTF8 g opt
            (fold (scanEdge isUTF8 g opt) (calleesOf isUTF8 g current) (st\<lparr>bqueue := rest\<rparr>)))"
  by pat_completeness auto
termination
proof (relation "measure (\<lambda>(isUTF8, g, opt, st). work (usrUniverse g) st)", goal_cases)
  case (2 isUTF8 g opt st current rest)
  have "work (usrUniverse g) (fold (scanEdge isUTF8 g opt) (calleesOf isUTF8 g current) (st\<lparr>bqueue := rest\<rparr>))
    \<le> work (usrUniverse g) (st\<lparr>bqueue := rest\<rparr>)"
    by (rule fold_scanEdge_work) (auto intro: calleesOf_universe)
  also have "\<dots> < work (usrUniverse g) st"
    using 2 by (simp add: work_def)
  finally show ?case by simp
qed simp

declare drain.simps [simp del]

definition recheckOne :: "(string \<Rightarrow> bool) \<Rightarrow> call_graph \<Rightarrow> string \<Rightarrow> bfs_state \<Rightarrow> bfs_state" where
  "recheckOne isUTF8 g u st =
     (if constructible isUTF8 g (constructedClasses st) u
      then (if u \<in> set (alive st) then st
            else st\<lparr>alive := set_insert u (alive st), bqueue := bqueue st @ [u], changed := True\<rparr>)
      else st\<lparr>deferredVirtualEdges := deferredVirtualEdges st @ [u]\<rparr>)"

text \<open>\<open>stillDeferred\<close> is collected in the emptied \<open>deferredVirtualEdges\<close>.\<close>

definition recheck :: "(string \<Rightarrow> bool) \<Rightarrow> call_graph \<Rightarrow> bfs_state \<Rightarrow> bfs_state" where
  "recheck isUTF8 g st =
     fold (recheckOne isUTF8 g) (deferredVirtualEdges st) (st\<lparr>deferredVirtualEdges := []\<rparr>)"

definition bfsRound :: "(string \<Rightarrow> bool) \<Rightarrow> call_graph \<Rightarrow> bool \<Rightarrow> bfs_state \<Rightarrow> bfs_state" where
  "bfsRound isUTF8 g opt st =
     (let st = drain isUTF8 g opt (st\<lparr>changed := False\<rparr>)
      in if changed st \<and> opt then recheck isUTF8 g st else st)"


text \<open>A round that leaves \<open>changed\<close> set has constructed a new class, and there are finitely many.\<close>

definition classUniverse :: "call_graph \<Rightarrow> string set" where
  "classUniverse g = enclosingClass ` snd ` set (g_nodes g)"

lemma findNode_in_nodes: "findNode isUTF8 g u = Some n \<Longrightarrow> n \<in> snd ` set (g_nodes g)"
  using pickNode_min [of g "resolveUsrIds isUTF8 g u" None n]
  by (force simp: findNode_def dest: map_of_SomeD)

definition grew :: "call_graph \<Rightarrow> bfs_state \<Rightarrow> bfs_state \<Rightarrow> bool" where
  "grew g st st' \<longleftrightarrow>
     set (alive st) \<subseteq> set (alive st') \<and> set (constructedClasses st) \<subseteq> set (constructedClasses st') \<and>
     set (deferredVirtualEdges st') \<subseteq> usrUniverse g \<union> set (deferredVirtualEdges st) \<and>
     (changed st' \<longrightarrow> changed st \<or>
        (\<exists>c \<in> classUniverse g. c \<in> set (constructedClasses st') \<and> c \<notin> set (constructedClasses st)))"

lemma grew_refl [simp]: "grew g st st"
  by (auto simp: grew_def)

lemma grew_trans: "grew g a b \<Longrightarrow> grew g b c \<Longrightarrow> grew g a c"
  unfolding grew_def by blast

lemma grew_markAlive: "grew g st (markAlive u st)"
  by (auto simp: grew_def markAlive_def)

lemma grew_noteConstructed: "grew g st (noteConstructed isUTF8 g e st)"
proof (cases "findNode isUTF8 g (calleeUsr e)")
  case (Some n)
  then have "enclosingClass n \<in> classUniverse g"
    using findNode_in_nodes [OF Some] by (auto simp: classUniverse_def)
  then show ?thesis by (auto simp: grew_def noteConstructed_def Some)
qed (simp add: noteConstructed_def)

lemma grew_scanEdge:
  assumes "calleeUsr e \<in> usrUniverse g"
  shows "grew g st (scanEdge isUTF8 g opt e st)"
proof -
  let ?st = "noteConstructed isUTF8 g e st"
  have "grew g ?st (scanEdge isUTF8 g opt e st)"
    using assms grew_markAlive [of g ?st] by (auto simp: scanEdge_def Let_def grew_def)
  with grew_noteConstructed show ?thesis by (rule grew_trans)
qed

lemma grew_fold:
  assumes "\<And>x st. x \<in> set xs \<Longrightarrow> grew g st (f x st)"
  shows "grew g st (fold f xs st)"
  using assms
proof (induction xs arbitrary: st)
  case (Cons x xs)
  have "grew g (f x st) (fold f xs (f x st))" using Cons.prems by (intro Cons.IH) auto
  then show ?case using Cons.prems grew_trans by (metis fold_simps(2) list.set_intros(1))
qed simp

lemma grew_drain: "grew g st (drain isUTF8 g opt st)"
proof (induction isUTF8 g opt st rule: drain.induct)
  case (1 isUTF8 g opt st)
  show ?case
  proof (cases "bqueue st")
    case Nil
    then show ?thesis by (simp add: drain.simps)
  next
    case (Cons u rest)
    let ?st = "fold (scanEdge isUTF8 g opt) (calleesOf isUTF8 g u) (st\<lparr>bqueue := rest\<rparr>)"
    have "grew g (st\<lparr>bqueue := rest\<rparr>) ?st"
      by (intro grew_fold grew_scanEdge calleesOf_universe)
    then have "grew g st ?st" by (simp add: grew_def)
    with "1.IH" [OF Cons] have "grew g st (drain isUTF8 g opt ?st)" by (meson grew_trans)
    with Cons show ?thesis by (subst drain.simps) simp
  qed
qed

text \<open>The recheck, in closed form over the deferred usrs.\<close>

lemma recheck_fields:
  "set (alive (fold (recheckOne isUTF8 g) us st)) =
     set (alive st) \<union> {u \<in> set us. constructible isUTF8 g (constructedClasses st) u}"
  "constructedClasses (fold (recheckOne isUTF8 g) us st) = constructedClasses st"
  "deferredVirtualEdges (fold (recheckOne isUTF8 g) us st) =
     deferredVirtualEdges st @ filter (\<lambda>u. \<not> constructible isUTF8 g (constructedClasses st) u) us"
  "changed st \<Longrightarrow> changed (fold (recheckOne isUTF8 g) us st)"
  by (induction us arbitrary: st) (auto simp: recheckOne_def)

lemma bfsRound_cases:
  obtains (plain) "bfsRound isUTF8 g opt st = drain isUTF8 g opt (st\<lparr>changed := False\<rparr>)"
      "changed (drain isUTF8 g opt (st\<lparr>changed := False\<rparr>)) \<Longrightarrow> \<not> opt"
  | (rechecked) "bfsRound isUTF8 g opt st = recheck isUTF8 g (drain isUTF8 g opt (st\<lparr>changed := False\<rparr>))"
      "changed (drain isUTF8 g opt (st\<lparr>changed := False\<rparr>))" "opt"
proof (cases "changed (drain isUTF8 g opt (st\<lparr>changed := False\<rparr>)) \<and> opt")
  case True
  then have "bfsRound isUTF8 g opt st = recheck isUTF8 g (drain isUTF8 g opt (st\<lparr>changed := False\<rparr>))"
    unfolding bfsRound_def Let_def by (rule if_P)
  with True rechecked show ?thesis by blast
next
  case False
  then have "bfsRound isUTF8 g opt st = drain isUTF8 g opt (st\<lparr>changed := False\<rparr>)"
    unfolding bfsRound_def Let_def by (rule if_not_P)
  with False plain show ?thesis by blast
qed

lemma bfsRound_grew:
  "set (alive st) \<subseteq> set (alive (bfsRound isUTF8 g opt st))"
  "set (constructedClasses st) \<subseteq> set (constructedClasses (bfsRound isUTF8 g opt st))"
  "set (deferredVirtualEdges (bfsRound isUTF8 g opt st)) \<subseteq> usrUniverse g \<union> set (deferredVirtualEdges st)"
  "changed (bfsRound isUTF8 g opt st) \<Longrightarrow> \<exists>c \<in> classUniverse g.
     c \<in> set (constructedClasses (bfsRound isUTF8 g opt st)) \<and> c \<notin> set (constructedClasses st)"
proof -
  let ?d = "drain isUTF8 g opt (st\<lparr>changed := False\<rparr>)"
  have G: "grew g (st\<lparr>changed := False\<rparr>) ?d" by (rule grew_drain)
  have r: "set (alive ?d) \<subseteq> set (alive (recheck isUTF8 g ?d))"
    "constructedClasses (recheck isUTF8 g ?d) = constructedClasses ?d"
    "set (deferredVirtualEdges (recheck isUTF8 g ?d)) \<subseteq> set (deferredVirtualEdges ?d)"
    by (auto simp: recheck_def recheck_fields)
  show "set (alive st) \<subseteq> set (alive (bfsRound isUTF8 g opt st))"
    "set (constructedClasses st) \<subseteq> set (constructedClasses (bfsRound isUTF8 g opt st))"
    "set (deferredVirtualEdges (bfsRound isUTF8 g opt st)) \<subseteq> usrUniverse g \<union> set (deferredVirtualEdges st)"
    using G r by (cases rule: bfsRound_cases [of isUTF8 g opt st]; auto simp: grew_def)+
  show "\<exists>c \<in> classUniverse g. c \<in> set (constructedClasses (bfsRound isUTF8 g opt st)) \<and> c \<notin> set (constructedClasses st)"
    if "changed (bfsRound isUTF8 g opt st)"
    using G r(2) that by (cases rule: bfsRound_cases [of isUTF8 g opt st]) (simp_all add: grew_def)
qed

function bfsRounds :: "(string \<Rightarrow> bool) \<Rightarrow> call_graph \<Rightarrow> bool \<Rightarrow> bfs_state \<Rightarrow> bfs_state" where
  "bfsRounds isUTF8 g opt st =
     (let st' = bfsRound isUTF8 g opt st
      in if changed st' then bfsRounds isUTF8 g opt st' else st')"
  by pat_completeness auto
termination
proof (relation "measure (\<lambda>(isUTF8, g, opt, st). card (classUniverse g - set (constructedClasses st)))", goal_cases)
  case (2 isUTF8 g opt st st')
  then obtain c where "c \<in> classUniverse g" "c \<in> set (constructedClasses st')" "c \<notin> set (constructedClasses st)"
    using bfsRound_grew(4) by blast
  then have "classUniverse g - set (constructedClasses st') \<subset> classUniverse g - set (constructedClasses st)"
    using bfsRound_grew(2) [of st isUTF8 g opt] 2 by auto
  then show ?case
    by (auto intro!: psubset_card_mono simp: classUniverse_def)
qed simp

declare bfsRounds.simps [simp del]

record analyzer =
  entryPoints :: "string list"
  publicApi :: "string list"
  pessimisticAlive :: "string list"
  optimisticAlive :: "string list"

definition DeadCodeAnalyzer :: "string list \<Rightarrow> string list \<Rightarrow> analyzer" where
  "DeadCodeAnalyzer eps api = \<lparr>entryPoints = eps, publicApi = fold set_insert api [],
     pessimisticAlive = [], optimisticAlive = []\<rparr>"

definition bfs :: "(string \<Rightarrow> bool) \<Rightarrow> call_graph \<Rightarrow> analyzer \<Rightarrow> bool \<Rightarrow> string list" where
  "bfs isUTF8 g an opt =
     (let st = \<lparr>alive = [], bqueue = [], constructedClasses = [], deferredVirtualEdges = [], changed = True\<rparr>;
          st = fold (seed isUTF8 g) (entryPoints an) st;
          st = fold (seed isUTF8 g) (publicApi an) st
      in alive (bfsRounds isUTF8 g opt st))"

definition analyzePessimistic :: "(string \<Rightarrow> bool) \<Rightarrow> call_graph \<Rightarrow> analyzer \<Rightarrow> analyzer" where
  "analyzePessimistic isUTF8 g an = an\<lparr>pessimisticAlive := bfs isUTF8 g an False\<rparr>"

definition analyzeOptimistic :: "(string \<Rightarrow> bool) \<Rightarrow> call_graph \<Rightarrow> analyzer \<Rightarrow> analyzer" where
  "analyzeOptimistic isUTF8 g an = an\<lparr>optimisticAlive := bfs isUTF8 g an True\<rparr>"

definition livenessRank :: "Liveness \<Rightarrow> nat" where
  "livenessRank l = (case l of Alive \<Rightarrow> 2 | OptimisticallyAlive \<Rightarrow> 1 | Dead \<Rightarrow> 0)"

definition verdict :: "analyzer \<Rightarrow> CallGraphNode \<Rightarrow> Liveness" where
  "verdict an n =
     (if usr n \<in> set (pessimisticAlive an) then Alive
      else if usr n \<in> set (optimisticAlive an) then OptimisticallyAlive else Dead)"

definition mergeVerdict :: "analyzer \<Rightarrow> CallGraphNode \<Rightarrow> (string, Liveness) umap \<Rightarrow> (string, Liveness) umap" where
  "mergeVerdict an n results =
     (case map_of results (qualifiedName n) of
        None \<Rightarrow> um_put results (qualifiedName n) (verdict an n)
      | Some l \<Rightarrow>
          if livenessRank (verdict an n) > livenessRank l
          then um_put results (qualifiedName n) (verdict an n) else results)"

definition getResults :: "call_graph \<Rightarrow> analyzer \<Rightarrow> (string, Liveness) umap" where
  "getResults g an = fold (mergeVerdict an) (allNodes g) []"

definition diagnose :: "(string \<Rightarrow> bool) \<Rightarrow> call_graph \<Rightarrow> string \<times> Liveness \<Rightarrow> Diagnostic option" where
  "diagnose isUTF8 g kv =
     (let (name, l) = kv in
      case findNode isUTF8 g name of
        None \<Rightarrow> None
      | Some n \<Rightarrow>
          if nodeFile n \<noteq> [] \<and> hd (nodeFile n) = CHR ''<'' then None
          else
            (let loc = nodeFile n @ '':'' @ toString (nodeLine n) in
             case l of
               Dead \<Rightarrow> Some \<lparr>diagKind = DeadCode_Pessimistic, callLocation = loc, resolvedDecl = name,
                 message = ''Dead code: '' @ name @ '' is not reachable from any entry point.''\<rparr>
             | OptimisticallyAlive \<Rightarrow> Some \<lparr>diagKind = DeadCode_Optimistic, callLocation = loc,
                 resolvedDecl = name,
                 message = ''Possibly dead code: '' @ name @
                   '' is only reachable through plausible (not proven) call paths.''\<rparr>
             | Alive \<Rightarrow> None))"

definition getDiagnostics :: "(string \<Rightarrow> bool) \<Rightarrow> call_graph \<Rightarrow> analyzer \<Rightarrow> Diagnostic list" where
  "getDiagnostics isUTF8 g an = List.map_filter (diagnose isUTF8 g) (getResults g an)"

end
