(* ===== verification/DeadCodeProps.thy ===== *)
theory DeadCodeProps
  imports DeadCode CallGraphProps
begin

text \<open>
  The liveness walk computes least closed sets, and the verdicts follow: what the pessimistic walk keeps
  the optimistic one keeps, and a name is dead only when no candidate of it is reached.
\<close>

section \<open>Closed sets\<close>

definition seeds :: "(string \<Rightarrow> bool) \<Rightarrow> call_graph \<Rightarrow> analyzer \<Rightarrow> string set" where
  "seeds isUTF8 g an = (\<Union>n \<in> set (entryPoints an) \<union> set (publicApi an). set (usrsForName isUTF8 g n))"

text \<open>The classes whose construction the usrs in \<open>S\<close> make visible.\<close>

definition built_classes :: "(string \<Rightarrow> bool) \<Rightarrow> call_graph \<Rightarrow> string set \<Rightarrow> string set" where
  "built_classes isUTF8 g S = {c. c \<noteq> [] \<and> (\<exists>u \<in> S. \<exists>e \<in> set (calleesOf isUTF8 g u). \<exists>n.
     edgeKind e = ConstructorCall \<and> findNode isUTF8 g (calleeUsr e) = Some n \<and> enclosingClass n = c)}"

definition reachable_impl :: "(string \<Rightarrow> bool) \<Rightarrow> call_graph \<Rightarrow> string set \<Rightarrow> string \<Rightarrow> bool" where
  "reachable_impl isUTF8 g C u \<longleftrightarrow> (\<exists>c \<in> set (getClassesForImpl isUTF8 g u). c \<in> C) \<or>
     (\<exists>n. findNode isUTF8 g u = Some n \<and> enclosingClass n \<noteq> [] \<and> enclosingClass n \<in> C)"

definition followed :: "(string \<Rightarrow> bool) \<Rightarrow> call_graph \<Rightarrow> bool \<Rightarrow> string set \<Rightarrow> CallGraphEdge \<Rightarrow> bool" where
  "followed isUTF8 g opt C e \<longleftrightarrow> edgeConfidence e = Proven \<or>
     opt \<and> (edgeKind e = VirtualDispatch \<longrightarrow> reachable_impl isUTF8 g C (calleeUsr e))"

definition closed_live :: "(string \<Rightarrow> bool) \<Rightarrow> call_graph \<Rightarrow> bool \<Rightarrow> string set \<Rightarrow> bool" where
  "closed_live isUTF8 g opt S \<longleftrightarrow> (\<forall>u \<in> S. \<forall>e \<in> set (calleesOf isUTF8 g u).
     followed isUTF8 g opt (built_classes isUTF8 g S) e \<longrightarrow> calleeUsr e \<in> S)"

text \<open>The indexer gives every virtual dispatch a proven or plausible confidence.\<close>

definition dispatch_known :: "(string \<Rightarrow> bool) \<Rightarrow> call_graph \<Rightarrow> bool" where
  "dispatch_known isUTF8 g \<longleftrightarrow> (\<forall>u. \<forall>e \<in> set (calleesOf isUTF8 g u).
     edgeKind e = VirtualDispatch \<longrightarrow> edgeConfidence e \<noteq> Unknown)"

definition dispatch_edges_known :: "call_graph \<Rightarrow> bool" where
  "dispatch_edges_known g \<longleftrightarrow>
     list_all (\<lambda>se. kind se = VirtualDispatch \<longrightarrow> confidence se \<noteq> Unknown) (g_edges g)"

lemma dispatch_known_stored:
  assumes wf: "graph_wf g" and k: "dispatch_edges_known g"
  shows "dispatch_known isUTF8 g"
proof -
  have "confidence r \<noteq> Unknown" if "r \<in> set (calleeRefsOf g c)" "kind r = VirtualDispatch" for r c
  proof -
    have "r \<in> set (map keyOf (plain (outLive g c))) \<or> r \<in> snd ` set (virtOut g c) \<or> r \<in> snd ` set (retOut g c)"
      using that(1) unfolding calleeRefsOf_normal [OF wf]
      by (auto dest!: subsetD [OF unseen_sub])
    then show ?thesis
      using that(2) k
      by (auto simp: virtOut_def retOut_def returnKind_def isDispatch_def set_outLive dispatch_edges_known_def
          list_all_iff split: if_splits)
  qed
  then show ?thesis by (auto simp: dispatch_known_def calleesOf_def materialize_def)
qed

lemma constructible_iff:
  "constructible isUTF8 g cs u \<longleftrightarrow> reachable_impl isUTF8 g (set cs) u"
  by (auto simp: constructible_def reachable_impl_def list_ex_iff split: option.split)

lemma shouldFollow_iff:
  "shouldFollowEdge isUTF8 g opt cs e \<longleftrightarrow> followed isUTF8 g opt (set cs) e"
  by (auto simp: shouldFollowEdge_def followed_def constructible_iff)

lemma reachable_impl_mono:
  "C \<subseteq> D \<Longrightarrow> reachable_impl isUTF8 g C u \<Longrightarrow> reachable_impl isUTF8 g D u"
  by (auto simp: reachable_impl_def)

lemma followed_mono: "C \<subseteq> D \<Longrightarrow> followed isUTF8 g opt C e \<Longrightarrow> followed isUTF8 g opt D e"
  using reachable_impl_mono by (auto simp: followed_def)

lemma built_classes_mono: "S \<subseteq> T \<Longrightarrow> built_classes isUTF8 g S \<subseteq> built_classes isUTF8 g T"
  by (auto simp: built_classes_def)

section \<open>The walk stays inside every closed set\<close>

definition inside :: "(string \<Rightarrow> bool) \<Rightarrow> call_graph \<Rightarrow> bool \<Rightarrow> string set \<Rightarrow> bfs_state \<Rightarrow> bool" where
  "inside isUTF8 g opt S st \<longleftrightarrow> set (alive st) \<subseteq> S \<and> set (bqueue st) \<subseteq> set (alive st) \<and>
     set (constructedClasses st) \<subseteq> built_classes isUTF8 g S \<and>
     (\<forall>d \<in> set (deferredVirtualEdges st). reachable_impl isUTF8 g (built_classes isUTF8 g S) d \<longrightarrow> d \<in> S)"

lemma inside_markAlive: "inside isUTF8 g opt S st \<Longrightarrow> u \<in> S \<Longrightarrow> inside isUTF8 g opt S (markAlive u st)"
  by (auto simp: inside_def markAlive_def)

lemma inside_noteConstructed:
  assumes "inside isUTF8 g opt S st" and "u \<in> S" and "e \<in> set (calleesOf isUTF8 g u)"
  shows "inside isUTF8 g opt S (noteConstructed isUTF8 g e st)"
  using assms by (auto simp: inside_def noteConstructed_def built_classes_def split: option.split)

lemma inside_scanEdge:
  assumes S: "closed_live isUTF8 g opt S" and i: "inside isUTF8 g opt S st"
    and u: "u \<in> S" "e \<in> set (calleesOf isUTF8 g u)"
  shows "inside isUTF8 g opt S (scanEdge isUTF8 g opt e st)"
proof -
  let ?st = "noteConstructed isUTF8 g e st"
  let ?C = "built_classes isUTF8 g S"
  have i': "inside isUTF8 g opt S ?st" using inside_noteConstructed [OF i u] .
  have cl: "calleeUsr e \<in> S" if "followed isUTF8 g opt ?C e"
    using S u that by (auto simp: closed_live_def)
  have "followed isUTF8 g opt ?C e" if "shouldFollowEdge isUTF8 g opt (constructedClasses ?st) e"
    using that i' followed_mono unfolding shouldFollow_iff inside_def by blast
  moreover have "followed isUTF8 g opt ?C e"
    if "opt" "edgeKind e = VirtualDispatch" "reachable_impl isUTF8 g ?C (calleeUsr e)"
    using that by (simp add: followed_def)
  ultimately show ?thesis
    using cl i' inside_markAlive [OF i'] by (auto simp: scanEdge_def Let_def inside_def)
qed

lemma inside_fold:
  assumes "\<And>x st. x \<in> set xs \<Longrightarrow> inside isUTF8 g opt S st \<Longrightarrow> inside isUTF8 g opt S (f x st)"
    and "inside isUTF8 g opt S st"
  shows "inside isUTF8 g opt S (fold f xs st)"
  using assms by (induction xs arbitrary: st) auto

lemma inside_drain:
  assumes S: "closed_live isUTF8 g opt S"
  shows "inside isUTF8 g opt S st \<Longrightarrow> inside isUTF8 g opt S (drain isUTF8 g opt st)"
  using S
proof (induction isUTF8 g opt st rule: drain.induct)
  case (1 isUTF8 g opt st)
  show ?case
  proof (cases "bqueue st")
    case Nil
    with 1 show ?thesis by (simp add: drain.simps)
  next
    case (Cons u rest)
    have "inside isUTF8 g opt S (st\<lparr>bqueue := rest\<rparr>)" "u \<in> S"
      using "1.prems"(1) Cons by (auto simp: inside_def)
    then have "inside isUTF8 g opt S (fold (scanEdge isUTF8 g opt) (calleesOf isUTF8 g u) (st\<lparr>bqueue := rest\<rparr>))"
      using "1.prems"(2) by (intro inside_fold inside_scanEdge) auto
    from "1.IH" [OF Cons this "1.prems"(2)] Cons show ?thesis by (subst drain.simps) simp
  qed
qed

lemma inside_recheckOne:
  assumes "inside isUTF8 g opt S st" and "reachable_impl isUTF8 g (built_classes isUTF8 g S) u \<longrightarrow> u \<in> S"
  shows "inside isUTF8 g opt S (recheckOne isUTF8 g u st)"
proof -
  have "constructible isUTF8 g (constructedClasses st) u \<Longrightarrow> u \<in> S"
    using assms reachable_impl_mono unfolding constructible_iff inside_def by blast
  with assms show ?thesis by (auto simp: recheckOne_def inside_def)
qed

lemma inside_round:
  assumes S: "closed_live isUTF8 g opt S" and i: "inside isUTF8 g opt S st"
  shows "inside isUTF8 g opt S (bfsRound isUTF8 g opt st)"
proof -
  let ?d = "drain isUTF8 g opt (st\<lparr>changed := False\<rparr>)"
  have d: "inside isUTF8 g opt S ?d"
    using i by (intro inside_drain [OF S]) (simp add: inside_def)
  have "inside isUTF8 g opt S (recheck isUTF8 g ?d)"
    unfolding recheck_def using d
    by (intro inside_fold inside_recheckOne) (auto simp: inside_def)
  with d show ?thesis by (cases rule: bfsRound_cases [of isUTF8 g opt st]) simp_all
qed

lemma inside_rounds:
  assumes S: "closed_live isUTF8 g opt S"
  shows "inside isUTF8 g opt S st \<Longrightarrow> inside isUTF8 g opt S (bfsRounds isUTF8 g opt st)"
  using S
proof (induction isUTF8 g opt st rule: bfsRounds.induct)
  case (1 isUTF8 g opt st)
  have r: "inside isUTF8 g opt S (bfsRound isUTF8 g opt st)"
    using 1 inside_round by blast
  show ?case
    using "1.IH" [OF refl _ r] 1 r by (subst bfsRounds.simps) (simp add: Let_def)
qed

section \<open>The walk closes its set\<close>

text \<open>Processed usrs: alive and no longer queued.\<close>

definition settled :: "(string \<Rightarrow> bool) \<Rightarrow> call_graph \<Rightarrow> bool \<Rightarrow> bfs_state \<Rightarrow> CallGraphEdge \<Rightarrow> bool" where
  "settled isUTF8 g opt st e \<longleftrightarrow>
     (\<forall>n. edgeKind e = ConstructorCall \<and> findNode isUTF8 g (calleeUsr e) = Some n \<and> enclosingClass n \<noteq> [] \<longrightarrow>
        enclosingClass n \<in> set (constructedClasses st)) \<and>
     (calleeUsr e \<in> set (alive st) \<or>
      edgeConfidence e \<noteq> Proven \<and>
        (opt \<longrightarrow> edgeKind e = VirtualDispatch \<and> calleeUsr e \<in> set (deferredVirtualEdges st)))"

definition deferred_ok :: "(string \<Rightarrow> bool) \<Rightarrow> call_graph \<Rightarrow> bfs_state \<Rightarrow> bool" where
  "deferred_ok isUTF8 g st \<longleftrightarrow> changed st \<or>
     (\<forall>d \<in> set (deferredVirtualEdges st). \<not> reachable_impl isUTF8 g (set (constructedClasses st)) d)"

definition scanned :: "(string \<Rightarrow> bool) \<Rightarrow> call_graph \<Rightarrow> bool \<Rightarrow> bfs_state \<Rightarrow> bool" where
  "scanned isUTF8 g opt st \<longleftrightarrow> deferred_ok isUTF8 g st \<and> (opt \<or> deferredVirtualEdges st = []) \<and>
     (\<forall>u \<in> set (alive st) - set (bqueue st). \<forall>e \<in> set (calleesOf isUTF8 g u). settled isUTF8 g opt st e)"

definition adds :: "bfs_state \<Rightarrow> bfs_state \<Rightarrow> bool" where
  "adds st st' \<longleftrightarrow> set (alive st) \<subseteq> set (alive st') \<and> set (constructedClasses st) \<subseteq> set (constructedClasses st') \<and>
     set (deferredVirtualEdges st) \<subseteq> set (deferredVirtualEdges st') \<and>
     set (alive st') - set (bqueue st') \<subseteq> set (alive st) - set (bqueue st)"

lemma adds_trans: "adds a b \<Longrightarrow> adds b c \<Longrightarrow> adds a c"
  unfolding adds_def by blast

lemma adds_refl [simp]: "adds st st"
  by (simp add: adds_def)

lemma settled_adds: "settled isUTF8 g opt st e \<Longrightarrow> adds st st' \<Longrightarrow> settled isUTF8 g opt st' e"
  by (auto simp: settled_def adds_def)

lemma adds_markAlive: "adds st (markAlive u st)"
  by (auto simp: adds_def markAlive_def)

lemma adds_noteConstructed: "adds st (noteConstructed isUTF8 g e st)"
  by (auto simp: adds_def noteConstructed_def split: option.split)

lemma scanEdge_cases:
  fixes e st isUTF8 g
  defines "st1 \<equiv> noteConstructed isUTF8 g e st"
  obtains (follow) "followed isUTF8 g opt (set (constructedClasses st1)) e"
      "scanEdge isUTF8 g opt e st = markAlive (calleeUsr e) st1"
  | (postpone) "\<not> followed isUTF8 g opt (set (constructedClasses st1)) e" "opt" "edgeKind e = VirtualDispatch"
      "scanEdge isUTF8 g opt e st = st1\<lparr>deferredVirtualEdges := deferredVirtualEdges st1 @ [calleeUsr e]\<rparr>"
  | (drop) "\<not> followed isUTF8 g opt (set (constructedClasses st1)) e"
      "\<not> (opt \<and> edgeKind e = VirtualDispatch \<and> edgeConfidence e = Plausible)"
      "scanEdge isUTF8 g opt e st = st1"
proof -
  have s: "scanEdge isUTF8 g opt e st =
     (if followed isUTF8 g opt (set (constructedClasses st1)) e then markAlive (calleeUsr e) st1
      else if opt \<and> edgeKind e = VirtualDispatch \<and> edgeConfidence e = Plausible
      then st1\<lparr>deferredVirtualEdges := deferredVirtualEdges st1 @ [calleeUsr e]\<rparr> else st1)"
    by (simp only: scanEdge_def Let_def shouldFollow_iff st1_def)
  show thesis
  proof (cases "followed isUTF8 g opt (set (constructedClasses st1)) e")
    case True
    with s show ?thesis by (intro follow) (simp_all only: if_True)
  next
    case F: False
    show ?thesis
    proof (cases "opt \<and> edgeKind e = VirtualDispatch \<and> edgeConfidence e = Plausible")
      case True
      from s have "scanEdge isUTF8 g opt e st = st1\<lparr>deferredVirtualEdges := deferredVirtualEdges st1 @ [calleeUsr e]\<rparr>"
        unfolding if_not_P [OF F] if_P [OF True] .
      with F True postpone show ?thesis by blast
    next
      case False
      from s have "scanEdge isUTF8 g opt e st = st1" unfolding if_not_P [OF F] if_not_P [OF False] .
      with F False show ?thesis by (rule drop)
    qed
  qed
qed

lemma adds_scanEdge: "adds st (scanEdge isUTF8 g opt e st)"
proof -
  let ?st = "noteConstructed isUTF8 g e st"
  have "adds ?st (scanEdge isUTF8 g opt e st)"
    using adds_markAlive [of ?st]
    by (cases rule: scanEdge_cases [of isUTF8 g opt e st]) (simp_all add: adds_def subset_insertI2)
  with adds_noteConstructed show ?thesis by (rule adds_trans)
qed

lemma deferred_ok_noteConstructed:
  "deferred_ok isUTF8 g st \<Longrightarrow> deferred_ok isUTF8 g (noteConstructed isUTF8 g e st)"
  by (auto simp: deferred_ok_def noteConstructed_def split: option.split)

lemma scanEdge_settles:
  assumes k: "opt \<Longrightarrow> dispatch_known isUTF8 g" and e: "e \<in> set (calleesOf isUTF8 g u)"
    and d: "deferred_ok isUTF8 g st"
  shows "settled isUTF8 g opt (scanEdge isUTF8 g opt e st) e"
    and "deferred_ok isUTF8 g (scanEdge isUTF8 g opt e st)"
proof -
  let ?st = "noteConstructed isUTF8 g e st"
  have c: "enclosingClass n \<in> set (constructedClasses ?st)"
    if "edgeKind e = ConstructorCall" "findNode isUTF8 g (calleeUsr e) = Some n" "enclosingClass n \<noteq> []" for n
    using that by (auto simp: noteConstructed_def)
  have nk: "opt \<Longrightarrow> edgeKind e = VirtualDispatch \<Longrightarrow> edgeConfidence e \<noteq> Proven \<Longrightarrow> edgeConfidence e = Plausible"
    using k e by (cases "edgeConfidence e") (auto simp: dispatch_known_def)
  have d': "deferred_ok isUTF8 g ?st" using d by (rule deferred_ok_noteConstructed)
  show "settled isUTF8 g opt (scanEdge isUTF8 g opt e st) e"
  proof (cases rule: scanEdge_cases [of isUTF8 g opt e st])
    case follow
    then show ?thesis using c by (simp add: settled_def markAlive_def)
  next
    case postpone
    then show ?thesis using c by (auto simp: settled_def followed_def)
  next
    case drop
    then show ?thesis using c nk by (auto simp: settled_def followed_def)
  qed
  show "deferred_ok isUTF8 g (scanEdge isUTF8 g opt e st)"
    using d' by (cases rule: scanEdge_cases [of isUTF8 g opt e st])
      (simp_all add: deferred_ok_def markAlive_def followed_def)
qed

lemma scanEdges_settle:
  assumes k: "opt \<Longrightarrow> dispatch_known isUTF8 g"
  shows "set es \<subseteq> set (calleesOf isUTF8 g u) \<Longrightarrow> deferred_ok isUTF8 g st \<Longrightarrow>
    adds st (fold (scanEdge isUTF8 g opt) es st) \<and> deferred_ok isUTF8 g (fold (scanEdge isUTF8 g opt) es st) \<and>
    (\<forall>e \<in> set es. settled isUTF8 g opt (fold (scanEdge isUTF8 g opt) es st) e)"
proof (induction es arbitrary: st)
  case (Cons e es)
  let ?st = "scanEdge isUTF8 g opt e st"
  let ?fin = "fold (scanEdge isUTF8 g opt) es ?st"
  have e: "e \<in> set (calleesOf isUTF8 g u)" using Cons.prems(1) by simp
  note s = scanEdge_settles [OF k e Cons.prems(2), of opt]
  have IH: "adds ?st ?fin" "deferred_ok isUTF8 g ?fin" "\<forall>e \<in> set es. settled isUTF8 g opt ?fin e"
    using Cons.IH [OF _ s(2)] Cons.prems(1) by simp_all
  have "adds st ?fin" using adds_scanEdge IH(1) by (rule adds_trans)
  moreover have "settled isUTF8 g opt ?fin e" using s(1) IH(1) by (rule settled_adds)
  ultimately show ?case using IH by simp
qed simp

lemma pessimistic_defers_nothing:
  assumes "\<not> opt"
  shows "deferredVirtualEdges (fold (scanEdge isUTF8 g opt) es st) = deferredVirtualEdges st"
  using assms by (induction es arbitrary: st) (simp_all add: scanEdge_def Let_def markAlive_def)

lemma drain_scanned:
  assumes "opt \<Longrightarrow> dispatch_known isUTF8 g" and "scanned isUTF8 g opt st"
  shows "scanned isUTF8 g opt (drain isUTF8 g opt st) \<and> bqueue (drain isUTF8 g opt st) = []"
  using assms
proof (induction isUTF8 g opt st rule: drain.induct)
  case (1 isUTF8 g opt st)
  show ?case
  proof (cases "bqueue st")
    case Nil
    with 1 show ?thesis by (simp add: drain.simps)
  next
    case (Cons u rest)
    let ?r = "st\<lparr>bqueue := rest\<rparr>"
    let ?st = "fold (scanEdge isUTF8 g opt) (calleesOf isUTF8 g u) ?r"
    have "deferred_ok isUTF8 g ?r" using "1.prems"(2) by (simp add: scanned_def deferred_ok_def)
    note s = scanEdges_settle [OF "1.prems"(1) subset_refl this, of opt u]
    have "settled isUTF8 g opt ?st e"
      if v: "v \<in> set (alive ?st) - set (bqueue ?st)" and e: "e \<in> set (calleesOf isUTF8 g v)" for v e
    proof (cases "v = u")
      case False
      then have "v \<in> set (alive st) - set (bqueue st)" using s v Cons by (auto simp: adds_def)
      then have "settled isUTF8 g opt ?r e"
        using "1.prems"(2) e by (simp add: scanned_def settled_def)
      with s show ?thesis using settled_adds by blast
    qed (use s e in blast)
    moreover have "opt \<or> deferredVirtualEdges ?st = []"
    proof (cases opt)
      case False
      with "1.prems"(2) show ?thesis
        unfolding pessimistic_defers_nothing [OF False] by (simp add: scanned_def)
    qed simp
    ultimately have "scanned isUTF8 g opt ?st"
      using s by (simp add: scanned_def)
    from "1.IH" [OF Cons "1.prems"(1) this] Cons show ?thesis by (subst (1 2) drain.simps) simp
  qed
qed

lemma recheck_bqueue: "set (bqueue st) \<subseteq> set (bqueue (fold (recheckOne isUTF8 g) us st))"
proof (induction us arbitrary: st)
  case (Cons u us)
  have "set (bqueue st) \<subseteq> set (bqueue (recheckOne isUTF8 g u st))" by (auto simp: recheckOne_def)
  with Cons [of "recheckOne isUTF8 g u st"] show ?case by simp
qed simp

lemma recheck_queues:
  "set (alive (fold (recheckOne isUTF8 g) us st)) - set (bqueue (fold (recheckOne isUTF8 g) us st))
     \<subseteq> set (alive st)"
proof (induction us arbitrary: st)
  case (Cons u us)
  have "set (alive (recheckOne isUTF8 g u st)) \<subseteq> set (alive st) \<union> set (bqueue (recheckOne isUTF8 g u st))"
    by (auto simp: recheckOne_def)
  with Cons [of "recheckOne isUTF8 g u st"] recheck_bqueue [of "recheckOne isUTF8 g u st" isUTF8 g us]
  show ?case by auto
qed simp

text \<open>At the start of a round no deferred usr is constructible.\<close>

definition restful :: "(string \<Rightarrow> bool) \<Rightarrow> call_graph \<Rightarrow> bool \<Rightarrow> bfs_state \<Rightarrow> bool" where
  "restful isUTF8 g opt st \<longleftrightarrow> scanned isUTF8 g opt (st\<lparr>changed := False\<rparr>)"

lemma restful_recheck:
  assumes s: "scanned isUTF8 g opt st" and q: "bqueue st = []"
  shows "restful isUTF8 g opt (recheck isUTF8 g st)"
proof -
  let ?st = "recheck isUTF8 g st"
  have f: "set (alive ?st) = set (alive st) \<union>
      {u \<in> set (deferredVirtualEdges st). constructible isUTF8 g (constructedClasses st) u}"
    "constructedClasses ?st = constructedClasses st"
    "deferredVirtualEdges ?st =
       filter (\<lambda>u. \<not> constructible isUTF8 g (constructedClasses st) u) (deferredVirtualEdges st)"
    by (simp_all add: recheck_def recheck_fields)
  have "set (alive ?st) - set (bqueue ?st) \<subseteq> set (alive st)"
    using recheck_queues [of isUTF8 g "deferredVirtualEdges st" "st\<lparr>deferredVirtualEdges := []\<rparr>"]
    by (simp add: recheck_def)
  then have "settled isUTF8 g opt ?st e"
    if "u \<in> set (alive ?st) - set (bqueue ?st)" "e \<in> set (calleesOf isUTF8 g u)" for u e
  proof -
    have "settled isUTF8 g opt st e"
      using that s q \<open>_ \<subseteq> set (alive st)\<close> by (auto simp: scanned_def)
    then show ?thesis unfolding settled_def f by (auto simp: f(3))
  qed
  then show ?thesis
    using s by (auto simp: restful_def scanned_def deferred_ok_def settled_def f constructible_iff)
qed

lemma round_restful:
  assumes k: "opt \<Longrightarrow> dispatch_known isUTF8 g" and r: "restful isUTF8 g opt st"
  shows "restful isUTF8 g opt (bfsRound isUTF8 g opt st)"
    and "\<not> changed (bfsRound isUTF8 g opt st) \<Longrightarrow> bqueue (bfsRound isUTF8 g opt st) = []"
proof -
  let ?d = "drain isUTF8 g opt (st\<lparr>changed := False\<rparr>)"
  have d: "scanned isUTF8 g opt ?d" "bqueue ?d = []"
    using drain_scanned [OF k r [unfolded restful_def]] by simp_all
  show "restful isUTF8 g opt (bfsRound isUTF8 g opt st)"
  proof (cases rule: bfsRound_cases [of isUTF8 g opt st])
    case plain
    then show ?thesis
      using d by (auto simp: restful_def scanned_def deferred_ok_def settled_def)
  next
    case rechecked
    then show ?thesis using restful_recheck [OF d] by simp
  qed
  show "bqueue (bfsRound isUTF8 g opt st) = []" if "\<not> changed (bfsRound isUTF8 g opt st)"
    using that d(2)
    by (cases rule: bfsRound_cases [of isUTF8 g opt st]) (simp_all add: recheck_def recheck_fields)
qed

lemma rounds_restful:
  assumes "opt \<Longrightarrow> dispatch_known isUTF8 g" and "restful isUTF8 g opt st"
  shows "restful isUTF8 g opt (bfsRounds isUTF8 g opt st) \<and> bqueue (bfsRounds isUTF8 g opt st) = []"
  using assms
proof (induction isUTF8 g opt st rule: bfsRounds.induct)
  case (1 isUTF8 g opt st)
  note r = round_restful [OF "1.prems"]
  show ?case
    using "1.IH" [OF refl _ "1.prems"(1) r(1)] r
    by (subst (1 2) bfsRounds.simps) (simp add: Let_def)
qed

lemma restful_closed:
  assumes r: "restful isUTF8 g opt st" and q: "bqueue st = []"
  shows "closed_live isUTF8 g opt (set (alive st))"
  unfolding closed_live_def
proof (intro ballI impI)
  fix u e
  assume u: "u \<in> set (alive st)" and e: "e \<in> set (calleesOf isUTF8 g u)"
    and f: "followed isUTF8 g opt (built_classes isUTF8 g (set (alive st))) e"
  have s: "settled isUTF8 g opt st e'" if "v \<in> set (alive st)" "e' \<in> set (calleesOf isUTF8 g v)" for v e'
    using r q that by (auto simp: restful_def scanned_def settled_def)
  then have "built_classes isUTF8 g (set (alive st)) \<subseteq> set (constructedClasses st)"
    unfolding built_classes_def settled_def by blast
  with f have "followed isUTF8 g opt (set (constructedClasses st)) e" using followed_mono by blast
  with s [OF u e] r show "calleeUsr e \<in> set (alive st)"
    by (auto simp: settled_def followed_def restful_def scanned_def deferred_ok_def)
qed

section \<open>The analyses\<close>

definition startState :: "(string \<Rightarrow> bool) \<Rightarrow> call_graph \<Rightarrow> analyzer \<Rightarrow> bfs_state" where
  "startState isUTF8 g an = fold (seed isUTF8 g) (publicApi an) (fold (seed isUTF8 g) (entryPoints an)
     \<lparr>alive = [], bqueue = [], constructedClasses = [], deferredVirtualEdges = [], changed = True\<rparr>)"

lemma fold_markAlive:
  "set (alive (fold markAlive us st)) = set (alive st) \<union> set us"
  "set (alive st) = set (bqueue st) \<Longrightarrow> set (bqueue (fold markAlive us st)) = set (alive (fold markAlive us st))"
  "constructedClasses (fold markAlive us st) = constructedClasses st"
  "deferredVirtualEdges (fold markAlive us st) = deferredVirtualEdges st"
  by (induction us arbitrary: st) (simp_all add: markAlive_def insert_absorb)

lemma fold_seed:
  "set (alive (fold (seed isUTF8 g) ns st)) = set (alive st) \<union> (\<Union>n \<in> set ns. set (usrsForName isUTF8 g n))"
  "set (alive st) = set (bqueue st) \<Longrightarrow>
     set (bqueue (fold (seed isUTF8 g) ns st)) = set (alive (fold (seed isUTF8 g) ns st))"
  "constructedClasses (fold (seed isUTF8 g) ns st) = constructedClasses st"
  "deferredVirtualEdges (fold (seed isUTF8 g) ns st) = deferredVirtualEdges st"
  by (induction ns arbitrary: st) (simp_all add: seed_def fold_markAlive Un_assoc)

lemma startState_fields:
  "set (alive (startState isUTF8 g an)) = seeds isUTF8 g an"
  "set (bqueue (startState isUTF8 g an)) = seeds isUTF8 g an"
  "constructedClasses (startState isUTF8 g an) = []" "deferredVirtualEdges (startState isUTF8 g an) = []"
  by (simp_all add: startState_def seeds_def fold_seed)

lemma bfs_startState: "bfs isUTF8 g an opt = alive (bfsRounds isUTF8 g opt (startState isUTF8 g an))"
  by (simp add: bfs_def startState_def Let_def)

lemma rounds_alive: "set (alive st) \<subseteq> set (alive (bfsRounds isUTF8 g opt st))"
proof (induction isUTF8 g opt st rule: bfsRounds.induct)
  case (1 isUTF8 g opt st)
  show ?case
    using "1.IH" [OF refl] bfsRound_grew(1) [of st isUTF8 g opt]
    by (subst bfsRounds.simps) (auto simp: Let_def)
qed

lemma bfs_seeds: "seeds isUTF8 g an \<subseteq> set (bfs isUTF8 g an opt)"
  using rounds_alive [of "startState isUTF8 g an"] by (simp add: bfs_startState startState_fields)

lemma bfs_closed:
  assumes "opt \<Longrightarrow> dispatch_known isUTF8 g"
  shows "closed_live isUTF8 g opt (set (bfs isUTF8 g an opt))"
proof -
  have "restful isUTF8 g opt (startState isUTF8 g an)"
    by (auto simp: restful_def scanned_def deferred_ok_def startState_fields)
  from rounds_restful [OF assms this] show ?thesis
    unfolding bfs_startState by (blast intro: restful_closed)
qed

lemma bfs_inside:
  assumes "closed_live isUTF8 g opt S" and "seeds isUTF8 g an \<subseteq> S"
  shows "set (bfs isUTF8 g an opt) \<subseteq> S"
proof -
  have "inside isUTF8 g opt S (startState isUTF8 g an)"
    using assms(2) by (simp add: inside_def startState_fields)
  from inside_rounds [OF assms(1) this] show ?thesis
    by (simp add: bfs_startState inside_def)
qed

lemma closed_live_weaken: "closed_live isUTF8 g True S \<Longrightarrow> closed_live isUTF8 g False S"
  by (auto simp: closed_live_def followed_def)







text \<open>A program that constructs one of two classes whose methods a virtual call may reach.\<close>

definition dispatchGraph :: call_graph where
  "dispatchGraph =
     (let edge = (\<lambda>c d k conf. (callEdge c d ''1'')\<lparr>edgeKind := k, edgeConfidence := conf\<rparr>);
          g = fold (\<lambda>e g. addEdge g e []) [edge ''main'' ''A::A'' ConstructorCall Proven,
                edge ''main'' ''I::run'' VirtualDispatch Plausible] emptyGraph;
          g = addMethodOverride (addMethodOverride g ''I::run'' ''A::run'') ''I::run'' ''B::run'';
          g = fold (\<lambda>(u, c) g. addNode g ((nodeOf u ''a.cpp'' 1)\<lparr>enclosingClass := c\<rparr>) [])
                [(''main'', []), (''A::A'', ''A''), (''A::run'', ''A''), (''B::run'', ''B'')] g
      in g)"

lemma dispatchGraph_wf: "graph_wf dispatchGraph"
  unfolding dispatchGraph_def Let_def by (intro built_wf) (simp add: built.intros)


text \<open>Usrs joined by an edge of proven confidence.\<close>

definition proven_step :: "(string \<Rightarrow> bool) \<Rightarrow> call_graph \<Rightarrow> (string \<times> string) set" where
  "proven_step isUTF8 g =
     {(u, calleeUsr e) | u e. e \<in> set (calleesOf isUTF8 g u) \<and> edgeConfidence e = Proven}"

text \<open>
  C22: the pessimistic walk finds exactly the usrs that chains of proven call edges reach from the entry
  points and the public API.
\<close>

theorem pessimistic_reachable:
  "set (bfs isUTF8 g an False) = (proven_step isUTF8 g)\<^sup>* `` seeds isUTF8 g an"
proof (rule equalityI)
  have "closed_live isUTF8 g False ((proven_step isUTF8 g)\<^sup>* `` seeds isUTF8 g an)"
    unfolding closed_live_def followed_def proven_step_def
    by (blast intro: rtrancl_into_rtrancl)
  then show "set (bfs isUTF8 g an False) \<subseteq> (proven_step isUTF8 g)\<^sup>* `` seeds isUTF8 g an"
    by (rule bfs_inside) blast
  have c: "closed_live isUTF8 g False (set (bfs isUTF8 g an False))" by (rule bfs_closed) simp
  have "v \<in> set (bfs isUTF8 g an False)"
    if "(u, v) \<in> (proven_step isUTF8 g)\<^sup>*" "u \<in> set (bfs isUTF8 g an False)" for u v
    using that(1)
  proof induction
    case (step v w)
    with c show ?case by (auto simp: proven_step_def closed_live_def followed_def)
  qed (rule that(2))
  then show "(proven_step isUTF8 g)\<^sup>* `` seeds isUTF8 g an \<subseteq> set (bfs isUTF8 g an False)"
    using bfs_seeds by blast
qed

section \<open>Verdicts\<close>

text \<open>
  The pessimistic analysis is the cautious one: whatever it keeps alive the optimistic analysis keeps
  alive too.
\<close>

theorem pessimistic_below_optimistic:
  assumes "graph_wf g" and "dispatch_edges_known g"
  shows "set (pessimisticAlive (analyzePessimistic isUTF8 g an)) \<subseteq>
    set (optimisticAlive (analyzeOptimistic isUTF8 g an))"
proof -
  have "closed_live isUTF8 g False (set (bfs isUTF8 g an True))"
    by (rule closed_live_weaken [OF bfs_closed [OF dispatch_known_stored [OF assms]]])
  from bfs_inside [OF this bfs_seeds] show ?thesis
    by (simp add: analyzePessimistic_def analyzeOptimistic_def)
qed

theorem pessimistic_below_optimistic_witness:
  "set (pessimisticAlive (analyzePessimistic (\<lambda>_. True) dispatchGraph (DeadCodeAnalyzer [''main''] []))) \<subseteq>
    set (optimisticAlive (analyzeOptimistic (\<lambda>_. True) dispatchGraph (DeadCodeAnalyzer [''main''] [])))"
proof -
  have "dispatch_edges_known dispatchGraph" by code_simp
  from pessimistic_below_optimistic [OF dispatchGraph_wf this] show ?thesis .
qed

definition usrsNamed :: "call_graph \<Rightarrow> string \<Rightarrow> string set" where
  "usrsNamed g name = usr ` {n \<in> set (allNodes g). qualifiedName n = name}"

definition summary :: "analyzer \<Rightarrow> string set \<Rightarrow> Liveness" where
  "summary an us = (if us \<inter> set (pessimisticAlive an) \<noteq> {} then Alive
     else if us \<inter> set (optimisticAlive an) \<noteq> {} then OptimisticallyAlive else Dead)"

lemma verdict_summary: "verdict an n = summary an {usr n}"
  by (simp add: verdict_def summary_def)

lemma summary_insert:
  "us \<noteq> {} \<Longrightarrow> summary an (insert u us) =
     (if livenessRank (summary an {u}) > livenessRank (summary an us) then summary an {u} else summary an us)"
  by (auto simp: summary_def livenessRank_def)

lemma mergeVerdict_map:
  "map_of (fold (mergeVerdict an) ns []) name =
     (if \<exists>n \<in> set ns. qualifiedName n = name
      then Some (summary an (usr ` {n \<in> set ns. qualifiedName n = name})) else None)"
proof (induction ns rule: rev_induct)
  case (snoc n ns)
  let ?us = "usr ` {m \<in> set ns. qualifiedName m = qualifiedName n}"
  have s: "usr ` {m \<in> set (ns @ [n]). qualifiedName m = qualifiedName n} = insert (usr n) ?us" by auto
  show ?case
  proof (cases "qualifiedName n = name")
    case False
    then have "{m \<in> set (ns @ [n]). qualifiedName m = name} = {m \<in> set ns. qualifiedName m = name}" by auto
    moreover have "map_of (mergeVerdict an n m) name = map_of m name" for m
      using False by (simp add: mergeVerdict_def split: option.split)
    ultimately show ?thesis using False snoc by simp
  next
    case True
    show ?thesis
    proof (cases "?us = {}")
      case E: True
      then have "map_of (fold (mergeVerdict an) ns []) name = None" using snoc True by auto
      then have "map_of (mergeVerdict an n (fold (mergeVerdict an) ns [])) name = Some (summary an {usr n})"
        using True by (subst mergeVerdict_def) (simp add: verdict_summary)
      moreover have "usr ` {m \<in> set (ns @ [n]). qualifiedName m = name} = {usr n}"
        using E True by auto
      ultimately show ?thesis using True by simp
    next
      case F: False
      then have "map_of (fold (mergeVerdict an) ns []) name = Some (summary an ?us)" using snoc True by auto
      then have "map_of (mergeVerdict an n (fold (mergeVerdict an) ns [])) name =
          Some (summary an (insert (usr n) ?us))"
        using True unfolding summary_insert [OF F] by (subst mergeVerdict_def) (simp add: verdict_summary)
      with True s show ?thesis by simp
    qed
  qed
qed simp

lemma getResults_map:
  "map_of (getResults g an) name =
     (if usrsNamed g name = {} then None else Some (summary an (usrsNamed g name)))"
  by (auto simp: getResults_def mergeVerdict_map usrsNamed_def)

lemma getResults_ok: "um_ok (getResults g an)"
proof -
  have "um_ok m \<Longrightarrow> um_ok (fold (mergeVerdict an) ns m)" for ns m
    by (induction ns arbitrary: m) (auto simp: mergeVerdict_def split: option.split)
  then show ?thesis by (simp add: getResults_def)
qed

text \<open>
  The verdict of a display name is the most alive verdict among the nodes that carry it: alive when one
  of them is pessimistically alive, optimistically alive when one is so only optimistically, dead when none
  is reached; and exactly the display names of the graph's nodes have a verdict, one each.
\<close>

theorem getResults_most_alive:
  "map_of (getResults g an) name =
     (if usrsNamed g name = {} then None
      else if usrsNamed g name \<inter> set (pessimisticAlive an) \<noteq> {} then Some Alive
      else if usrsNamed g name \<inter> set (optimisticAlive an) \<noteq> {} then Some OptimisticallyAlive
      else Some Dead) \<and> um_ok (getResults g an)"
  using getResults_ok [of g an]
  by (simp add: getResults_map summary_def)

definition deadDiag :: "string \<Rightarrow> CallGraphNode \<Rightarrow> Diagnostic" where
  "deadDiag name n = \<lparr>diagKind = DeadCode_Pessimistic,
     callLocation = nodeFile n @ '':'' @ toString (nodeLine n), resolvedDecl = name,
     message = ''Dead code: '' @ name @ '' is not reachable from any entry point.''\<rparr>"

definition maybeDeadDiag :: "string \<Rightarrow> CallGraphNode \<Rightarrow> Diagnostic" where
  "maybeDeadDiag name n = \<lparr>diagKind = DeadCode_Optimistic,
     callLocation = nodeFile n @ '':'' @ toString (nodeLine n), resolvedDecl = name,
     message = ''Possibly dead code: '' @ name @
       '' is only reachable through plausible (not proven) call paths.''\<rparr>"

definition isBuiltinFile :: "string \<Rightarrow> bool" where
  "isBuiltinFile f \<longleftrightarrow> (\<exists>r. f = CHR ''<'' # r)"

lemma diagnose_Some:
  "diagnose isUTF8 g (name, l) = Some d \<longleftrightarrow> (\<exists>n. findNode isUTF8 g name = Some n \<and> \<not> isBuiltinFile (nodeFile n) \<and>
     (l = Dead \<and> d = deadDiag name n \<or> l = OptimisticallyAlive \<and> d = maybeDeadDiag name n))"
  by (cases "findNode isUTF8 g name"; cases l; cases "nodeFile (the (findNode isUTF8 g name))")
    (auto simp: diagnose_def deadDiag_def maybeDeadDiag_def isBuiltinFile_def)

lemma diagnose_name: "diagnose isUTF8 g kv = Some d \<Longrightarrow> resolvedDecl d = fst kv"
  by (cases kv) (auto simp: diagnose_Some deadDiag_def maybeDeadDiag_def)

lemma diagnosed_distinct:
  "um_ok m \<Longrightarrow> distinct (map resolvedDecl (List.map_filter (diagnose isUTF8 g) m))"
proof (induction m)
  case (Cons kv m)
  have "resolvedDecl ` set (List.map_filter (diagnose isUTF8 g) m) \<subseteq> fst ` set m"
    using diagnose_name by (force simp: set_map_filter)
  with Cons diagnose_name [of isUTF8 g kv] show ?case
    by (auto simp: um_ok_def split: option.split)
qed simp

text \<open>
  The diagnostics are exact: a dead-code diagnostic is issued for precisely the display names none of
  whose nodes is alive in either analysis, a possibly-dead one for those alive only optimistically, except
  where the node's file is a compiler pseudo-file; each name gets at most one.
\<close>

theorem getDiagnostics_exact:
  "(d \<in> set (getDiagnostics isUTF8 g an) \<longleftrightarrow>
     (\<exists>name n. usrsNamed g name \<noteq> {} \<and> usrsNamed g name \<inter> set (pessimisticAlive an) = {} \<and>
        findNode isUTF8 g name = Some n \<and> \<not> isBuiltinFile (nodeFile n) \<and>
        d = (if usrsNamed g name \<inter> set (optimisticAlive an) = {} then deadDiag name n else maybeDeadDiag name n))) \<and>
   distinct (map resolvedDecl (getDiagnostics isUTF8 g an))"
proof -
  have "d \<in> set (getDiagnostics isUTF8 g an) \<longleftrightarrow>
      (\<exists>name l. map_of (getResults g an) name = Some l \<and> diagnose isUTF8 g (name, l) = Some d)"
    using getResults_ok [of g an] by (force simp: getDiagnostics_def set_map_filter um_ok_def)
  also have "\<dots> \<longleftrightarrow> (\<exists>name n. usrsNamed g name \<noteq> {} \<and> usrsNamed g name \<inter> set (pessimisticAlive an) = {} \<and>
        findNode isUTF8 g name = Some n \<and> \<not> isBuiltinFile (nodeFile n) \<and>
        d = (if usrsNamed g name \<inter> set (optimisticAlive an) = {} then deadDiag name n else maybeDeadDiag name n))"
    by (intro arg_cong [where f = Ex] ext) (auto simp: getResults_map diagnose_Some summary_def)
  finally show ?thesis
    using diagnosed_distinct [OF getResults_ok] by (simp add: getDiagnostics_def)
qed

end
