(* ===== verification/ControlFlow.thy ===== *)
theory ControlFlow
  imports IndexText Interner
begin

text \<open>
  The control-flow index (\<open>include/vycor/callgraph/ControlFlowIndex.h\<close>,
  \<open>src/callgraph/ControlFlowIndex.cpp\<close>): per call site the enclosing try/catch scopes, guards and
  live RAII locals, stored deduplicated. The model is the resident form of the index (\<open>mapped_\<close>
  null); the mapped read-only form is not modelled. Field \<open>i_x\<close> of \<open>cf_index\<close> is the member
  \<open>x_\<close>; the sentinel \<open>kNoString\<close> of a stored \<open>tuPath\<close> is \<open>None\<close>. The fields of the
  public struct carry the prefix \<open>cx\<close>, those of \<open>StoredContext\<close> the prefix \<open>sc\<close>. Numbers are
  natural numbers; a 32-bit number enters a set key as the four bytes of its value modulo \<open>2 ^ 32\<close>,
  least significant first. The mutex and the \<open>reserve\<close> calls are left out.
\<close>

section \<open>Data\<close>

datatype RaiiKind = Lock | SmartPtr | Other

record RaiiLocal =
  typeName :: string
  varName :: string
  declLocation :: string
  raiiKind :: RaiiKind

record CatchHandlerInfo =
  caughtType :: string
  isCatchAll :: bool
  handlerLocation :: string
  bodySummary :: string
  rethrows :: bool

record TryCatchScope =
  tryLocation :: string
  enclosingFunction :: string
  handlers :: "CatchHandlerInfo list"
  nestingDepth :: nat

datatype NoexceptSpec = NoSpec | Noexcept | NoexceptFalse | ThrowNone | UnknownSpec

record ConditionalGuard =
  conditionText :: string
  guardLocation :: string
  inTrueBranch :: bool
  isAssertion :: bool

record CallSiteContext =
  cxCallerName :: string
  cxCalleeName :: string
  cxCallSite :: string
  cxCallerUsr :: string
  cxCalleeUsr :: string
  cxTuPath :: string
  enclosingTryCatches :: "TryCatchScope list"
  enclosingGuards :: "ConditionalGuard list"
  callerNoexcept :: NoexceptSpec
  insideCatchBlock :: bool
  liveRaiiLocals :: "RaiiLocal list"

record StoredRaiiLocal =
  sTypeName :: sid
  sVarName :: sid
  sDeclLocation :: sid
  sKind :: RaiiKind

record StoredContext =
  scCaller :: sid
  scCallee :: sid
  scCallerDisplay :: sid
  scCalleeDisplay :: sid
  scSite :: sid
  scTuPath :: "sid option"
  scScopeSet :: nat
  scGuardSet :: nat
  scRaiiSet :: nat
  scNoexcept :: NoexceptSpec
  scInsideCatch :: bool
  scLive :: bool

record cf_index =
  i_interner :: interner
  i_contexts :: "StoredContext list"
  i_scopeSets :: "TryCatchScope list list"
  i_guardSets :: "ConditionalGuard list list"
  i_raiiSets :: "StoredRaiiLocal list list"
  i_scopeSetIds :: "(string, nat) umap"
  i_guardSetIds :: "(string, nat) umap"
  i_raiiSetIds :: "(string, nat) umap"
  i_byCallee :: "(sid, nat list) umap"
  i_byCaller :: "(sid, nat list) umap"
  i_byCalleeDisplay :: "(sid, nat list) umap"
  i_byCallerDisplay :: "(sid, nat list) umap"
  i_bySite :: "(sid, nat list) umap"
  i_byTu :: "(sid, nat list) umap"
  i_noProvenance :: "nat list"
  i_liveCount :: nat

section \<open>Set keys\<close>

fun keyBytes :: "nat \<Rightarrow> nat \<Rightarrow> string" where
  "keyBytes 0 v = []"
| "keyBytes (Suc n) v = char_of v # keyBytes n (v div 256)"

definition keyU32 :: "nat \<Rightarrow> string" where
  "keyU32 v = keyBytes 4 v"

definition keyStr :: "string \<Rightarrow> string" where
  "keyStr s = keyU32 (length s) @ s"

definition keyBool :: "bool \<Rightarrow> string" where
  "keyBool b = [char_of (if b then 1 else 0 :: nat)]"

definition handlerKey :: "CatchHandlerInfo \<Rightarrow> string" where
  "handlerKey h = keyStr (caughtType h) @ keyBool (isCatchAll h) @ keyBool (rethrows h) @
     keyStr (handlerLocation h) @ keyStr (bodySummary h)"

definition scopeKey :: "TryCatchScope \<Rightarrow> string" where
  "scopeKey scope = keyStr (tryLocation scope) @ keyStr (enclosingFunction scope) @
     keyU32 (nestingDepth scope) @ keyU32 (length (handlers scope)) @
     concat (map handlerKey (handlers scope))"

definition scopeSetKey :: "TryCatchScope list \<Rightarrow> string" where
  "scopeSetKey scopes = concat (map scopeKey scopes)"

definition guardKey :: "ConditionalGuard \<Rightarrow> string" where
  "guardKey g = keyStr (conditionText g) @ keyStr (guardLocation g) @ keyBool (inTrueBranch g) @
     keyBool (isAssertion g)"

definition guardSetKey :: "ConditionalGuard list \<Rightarrow> string" where
  "guardSetKey guards = concat (map guardKey guards)"

definition raiiKindCode :: "RaiiKind \<Rightarrow> nat" where
  "raiiKindCode k = (case k of Lock \<Rightarrow> 0 | SmartPtr \<Rightarrow> 1 | Other \<Rightarrow> 2)"

definition raiiKey :: "StoredRaiiLocal \<Rightarrow> string" where
  "raiiKey l = keyU32 (sTypeName l) @ keyU32 (sVarName l) @ keyU32 (sDeclLocation l) @
     [char_of (raiiKindCode (sKind l))]"

definition raiiSetKey :: "StoredRaiiLocal list \<Rightarrow> string" where
  "raiiSetKey locals = concat (map raiiKey locals)"

section \<open>Construction and insertion\<close>

definition emptyIndex :: cf_index where
  "emptyIndex = \<lparr>i_interner = empty_interner, i_contexts = [], i_scopeSets = [[]], i_guardSets = [[]],
     i_raiiSets = [[]], i_scopeSetIds = [], i_guardSetIds = [], i_raiiSetIds = [], i_byCallee = [],
     i_byCaller = [], i_byCalleeDisplay = [], i_byCallerDisplay = [], i_bySite = [], i_byTu = [],
     i_noProvenance = [], i_liveCount = 0\<rparr>"

definition moveIndex :: "cf_index \<Rightarrow> cf_index" where
  "moveIndex other = other\<lparr>i_interner := moveInterner (i_interner other)\<rparr>"

text \<open>The body the three set tables share.\<close>

definition internSet ::
  "string \<Rightarrow> 'a list \<Rightarrow> 'a list list \<Rightarrow> (string, nat) umap \<Rightarrow> nat \<times> 'a list list \<times> (string, nat) umap" where
  "internSet key xs sets ids =
     (if xs = [] then (0, sets, ids)
      else case map_of ids key of
             Some i \<Rightarrow> (i, sets, ids)
           | None \<Rightarrow> (length sets, sets @ [xs], um_emplace ids key (length sets)))"

definition internScopeSet :: "cf_index \<Rightarrow> string \<Rightarrow> TryCatchScope list \<Rightarrow> nat \<times> cf_index" where
  "internScopeSet x key scopes =
     (let (i, sets, ids) = internSet key scopes (i_scopeSets x) (i_scopeSetIds x)
      in (i, x\<lparr>i_scopeSets := sets, i_scopeSetIds := ids\<rparr>))"

definition internGuardSet :: "cf_index \<Rightarrow> string \<Rightarrow> ConditionalGuard list \<Rightarrow> nat \<times> cf_index" where
  "internGuardSet x key guards =
     (let (i, sets, ids) = internSet key guards (i_guardSets x) (i_guardSetIds x)
      in (i, x\<lparr>i_guardSets := sets, i_guardSetIds := ids\<rparr>))"

definition internRaiiSet :: "cf_index \<Rightarrow> string \<Rightarrow> StoredRaiiLocal list \<Rightarrow> nat \<times> cf_index" where
  "internRaiiSet x key locals =
     (let (i, sets, ids) = internSet key locals (i_raiiSets x) (i_raiiSetIds x)
      in (i, x\<lparr>i_raiiSets := sets, i_raiiSetIds := ids\<rparr>))"

text \<open>The record to store is passed as one value, with \<open>scLive\<close> set.\<close>

definition insertStored :: "cf_index \<Rightarrow> StoredContext \<Rightarrow> bool \<Rightarrow> cf_index" where
  "insertStored x se trackTu =
     (let idx = length (i_contexts x) in
      x\<lparr>i_byCallee := um_push (i_byCallee x) (scCallee se) idx,
        i_byCaller := um_push (i_byCaller x) (scCaller se) idx,
        i_byCalleeDisplay := (if scCalleeDisplay se \<noteq> scCallee se
          then um_push (i_byCalleeDisplay x) (scCalleeDisplay se) idx else i_byCalleeDisplay x),
        i_byCallerDisplay := (if scCallerDisplay se \<noteq> scCaller se
          then um_push (i_byCallerDisplay x) (scCallerDisplay se) idx else i_byCallerDisplay x),
        i_bySite := um_push (i_bySite x) (scSite se) idx,
        i_byTu := (case scTuPath se of
            Some t \<Rightarrow> if trackTu then um_push (i_byTu x) t idx else i_byTu x
          | None \<Rightarrow> i_byTu x),
        i_noProvenance := (if trackTu \<and> scTuPath se = None then i_noProvenance x @ [idx] else i_noProvenance x),
        i_contexts := i_contexts x @ [se],
        i_liveCount := i_liveCount x + 1\<rparr>)"

definition handlerText :: "CatchHandlerInfo \<Rightarrow> CatchHandlerInfo" where
  "handlerText h = h\<lparr>caughtType := makeIndexText (caughtType h),
     handlerLocation := makeIndexText (handlerLocation h), bodySummary := makeIndexText (bodySummary h)\<rparr>"

definition scopeText :: "TryCatchScope \<Rightarrow> TryCatchScope" where
  "scopeText scope = scope\<lparr>tryLocation := makeIndexText (tryLocation scope),
     enclosingFunction := makeIndexText (enclosingFunction scope),
     handlers := map handlerText (handlers scope)\<rparr>"

definition guardText :: "ConditionalGuard \<Rightarrow> ConditionalGuard" where
  "guardText g = g\<lparr>conditionText := makeIndexText (conditionText g),
     guardLocation := makeIndexText (guardLocation g)\<rparr>"

definition raiiText :: "RaiiLocal \<Rightarrow> RaiiLocal" where
  "raiiText l = l\<lparr>typeName := makeIndexText (typeName l), varName := makeIndexText (varName l),
     declLocation := makeIndexText (declLocation l)\<rparr>"

definition contextText :: "CallSiteContext \<Rightarrow> CallSiteContext" where
  "contextText ctx = ctx\<lparr>
     cxCallerName := makeIndexText (cxCallerName ctx), cxCalleeName := makeIndexText (cxCalleeName ctx),
     cxCallerUsr := makeIndexText (cxCallerUsr ctx), cxCalleeUsr := makeIndexText (cxCalleeUsr ctx),
     cxCallSite := makeIndexText (cxCallSite ctx), cxTuPath := makeIndexText (cxTuPath ctx),
     liveRaiiLocals := map raiiText (liveRaiiLocals ctx),
     enclosingTryCatches := map scopeText (enclosingTryCatches ctx),
     enclosingGuards := map guardText (enclosingGuards ctx)\<rparr>"

fun internLocals :: "interner \<Rightarrow> RaiiLocal list \<Rightarrow> StoredRaiiLocal list \<times> interner" where
  "internLocals it [] = ([], it)"
| "internLocals it (l # ls) =
     (let (t, it) = intern it (typeName l);
          (v, it) = intern it (varName l);
          (d, it) = intern it (declLocation l);
          (rest, it) = internLocals it ls
      in (\<lparr>sTypeName = t, sVarName = v, sDeclLocation = d, sKind = raiiKind l\<rparr> # rest, it))"

definition addCallSiteContext :: "cf_index \<Rightarrow> CallSiteContext \<Rightarrow> cf_index" where
  "addCallSiteContext x ctx0 =
     (let ctx = contextText ctx0;
          it = i_interner x;
          (calleeDisplayId, it) = intern it (cxCalleeName ctx);
          (callerDisplayId, it) = intern it (cxCallerName ctx);
          (calleeId, it) = (if cxCalleeUsr ctx = [] then (calleeDisplayId, it) else intern it (cxCalleeUsr ctx));
          (callerId, it) = (if cxCallerUsr ctx = [] then (callerDisplayId, it) else intern it (cxCallerUsr ctx));
          (siteId, it) = intern it (cxCallSite ctx);
          (tuId, it) = (if cxTuPath ctx = [] then (None, it)
                        else let (t, it) = intern it (cxTuPath ctx) in (Some t, it));
          (locals, it) = internLocals it (liveRaiiLocals ctx);
          x = x\<lparr>i_interner := it\<rparr>;
          (scopeSet, x) = internScopeSet x (scopeSetKey (enclosingTryCatches ctx)) (enclosingTryCatches ctx);
          (guardSet, x) = internGuardSet x (guardSetKey (enclosingGuards ctx)) (enclosingGuards ctx);
          (raiiSet, x) = internRaiiSet x (raiiSetKey locals) locals
      in insertStored x \<lparr>scCaller = callerId, scCallee = calleeId, scCallerDisplay = callerDisplayId,
           scCalleeDisplay = calleeDisplayId, scSite = siteId, scTuPath = tuId, scScopeSet = scopeSet,
           scGuardSet = guardSet, scRaiiSet = raiiSet, scNoexcept = callerNoexcept ctx,
           scInsideCatch = insideCatchBlock ctx, scLive = True\<rparr> True)"

section \<open>Queries\<close>

definition stringOf :: "cf_index \<Rightarrow> sid \<Rightarrow> string" where
  "stringOf x i = (if i \<ge> internerSize (i_interner x) then [] else resolve (i_interner x) i)"

definition raiiOf :: "cf_index \<Rightarrow> StoredRaiiLocal \<Rightarrow> RaiiLocal" where
  "raiiOf x l = \<lparr>typeName = stringOf x (sTypeName l), varName = stringOf x (sVarName l),
     declLocation = stringOf x (sDeclLocation l), raiiKind = sKind l\<rparr>"

definition materializeCtx :: "cf_index \<Rightarrow> StoredContext \<Rightarrow> CallSiteContext" where
  "materializeCtx x se =
     \<lparr>cxCallerName = stringOf x (scCallerDisplay se), cxCalleeName = stringOf x (scCalleeDisplay se),
      cxCallSite = stringOf x (scSite se), cxCallerUsr = stringOf x (scCaller se),
      cxCalleeUsr = stringOf x (scCallee se),
      cxTuPath = (case scTuPath se of None \<Rightarrow> [] | Some t \<Rightarrow> stringOf x t),
      enclosingTryCatches = i_scopeSets x ! scScopeSet se, enclosingGuards = i_guardSets x ! scGuardSet se,
      callerNoexcept = scNoexcept se, insideCatchBlock = scInsideCatch se,
      liveRaiiLocals = map (raiiOf x) (i_raiiSets x ! scRaiiSet se)\<rparr>"

definition cfFindId :: "(string \<Rightarrow> bool) \<Rightarrow> cf_index \<Rightarrow> string \<Rightarrow> sid option" where
  "cfFindId isUTF8 x raw = findId (i_interner x) (lookupText isUTF8 raw)"

definition storedAt :: "cf_index \<Rightarrow> nat \<Rightarrow> StoredContext" where
  "storedAt x pos = i_contexts x ! pos"

definition sitePositions :: "(string \<Rightarrow> bool) \<Rightarrow> cf_index \<Rightarrow> string \<Rightarrow> nat list" where
  "sitePositions isUTF8 x callSite =
     (case cfFindId isUTF8 x callSite of None \<Rightarrow> [] | Some i \<Rightarrow> um_get (i_bySite x) i)"

datatype Side = Caller | Callee

definition usrMap :: "cf_index \<Rightarrow> Side \<Rightarrow> (sid, nat list) umap" where
  "usrMap x side = (case side of Caller \<Rightarrow> i_byCaller x | Callee \<Rightarrow> i_byCallee x)"

definition displayMap :: "cf_index \<Rightarrow> Side \<Rightarrow> (sid, nat list) umap" where
  "displayMap x side = (case side of Caller \<Rightarrow> i_byCallerDisplay x | Callee \<Rightarrow> i_byCalleeDisplay x)"

definition namePositions :: "(string \<Rightarrow> bool) \<Rightarrow> cf_index \<Rightarrow> Side \<Rightarrow> string \<Rightarrow> nat list" where
  "namePositions isUTF8 x side name =
     (case cfFindId isUTF8 x name of
        None \<Rightarrow> []
      | Some i \<Rightarrow>
          (case map_of (usrMap x side) i of
             Some ps \<Rightarrow> ps
           | None \<Rightarrow> um_get (displayMap x side) i))"

definition liveStored :: "cf_index \<Rightarrow> nat list \<Rightarrow> StoredContext list" where
  "liveStored x ps = filter scLive (map (storedAt x) ps)"

definition contextsAtSite :: "(string \<Rightarrow> bool) \<Rightarrow> cf_index \<Rightarrow> string \<Rightarrow> CallSiteContext list" where
  "contextsAtSite isUTF8 x callSite =
     map (materializeCtx x) (liveStored x (sitePositions isUTF8 x callSite))"

definition contextAtSite :: "(string \<Rightarrow> bool) \<Rightarrow> cf_index \<Rightarrow> string \<Rightarrow> CallSiteContext option" where
  "contextAtSite isUTF8 x callSite =
     (case liveStored x (sitePositions isUTF8 x callSite) of
        [] \<Rightarrow> None
      | se # _ \<Rightarrow> Some (materializeCtx x se))"

definition contextAtSiteOf ::
    "(string \<Rightarrow> bool) \<Rightarrow> cf_index \<Rightarrow> string \<Rightarrow> string \<Rightarrow> CallSiteContext option" where
  "contextAtSiteOf isUTF8 x callSite callerUsrOrName =
     (case cfFindId isUTF8 x callerUsrOrName of
        None \<Rightarrow> None
      | Some c \<Rightarrow>
          map_option (materializeCtx x)
            (List.find (\<lambda>se. scCaller se = c \<or> scCallerDisplay se = c)
              (liveStored x (sitePositions isUTF8 x callSite))))"

text \<open>The comparator of \<open>contextForEdge\<close> as a key: the hop's callee first, then the fields in turn.\<close>

definition edgeRank :: "string \<Rightarrow> CallSiteContext \<Rightarrow> bool \<times> string \<times> string \<times> string" where
  "edgeRank calleeU ctx = (cxCalleeUsr ctx \<noteq> calleeU, cxCalleeUsr ctx, cxTuPath ctx, cxCallerName ctx)"

definition contextForEdge ::
    "(string \<Rightarrow> bool) \<Rightarrow> cf_index \<Rightarrow> string \<Rightarrow> string \<Rightarrow> string \<Rightarrow> CallSiteContext option" where
  "contextForEdge isUTF8 x callSite callerU calleeU =
     (let mine = filter (\<lambda>ctx. cxCallerUsr ctx = callerU \<or> cxCallerName ctx = callerU)
                   (contextsAtSite isUTF8 x callSite)
      in if mine = [] then None else Some (hd (sort_key (edgeRank calleeU) mine)))"

definition contextsForCallee :: "(string \<Rightarrow> bool) \<Rightarrow> cf_index \<Rightarrow> string \<Rightarrow> CallSiteContext list" where
  "contextsForCallee isUTF8 x name =
     map (materializeCtx x) (liveStored x (namePositions isUTF8 x Callee name))"

definition callerNoexceptOf :: "(string \<Rightarrow> bool) \<Rightarrow> cf_index \<Rightarrow> string \<Rightarrow> NoexceptSpec option" where
  "callerNoexceptOf isUTF8 x caller =
     (case liveStored x (namePositions isUTF8 x Caller caller) of
        [] \<Rightarrow> None
      | se # _ \<Rightarrow> Some (scNoexcept se))"

definition contextsForCaller :: "(string \<Rightarrow> bool) \<Rightarrow> cf_index \<Rightarrow> string \<Rightarrow> CallSiteContext list" where
  "contextsForCaller isUTF8 x name =
     map (materializeCtx x) (liveStored x (namePositions isUTF8 x Caller name))"

definition protectedCallsTo :: "(string \<Rightarrow> bool) \<Rightarrow> cf_index \<Rightarrow> string \<Rightarrow> CallSiteContext list" where
  "protectedCallsTo isUTF8 x name =
     map (materializeCtx x)
       (filter (\<lambda>se. scScopeSet se \<noteq> 0) (liveStored x (namePositions isUTF8 x Callee name)))"

definition unprotectedCallsTo :: "(string \<Rightarrow> bool) \<Rightarrow> cf_index \<Rightarrow> string \<Rightarrow> CallSiteContext list" where
  "unprotectedCallsTo isUTF8 x name =
     map (materializeCtx x)
       (filter (\<lambda>se. scScopeSet se = 0) (liveStored x (namePositions isUTF8 x Callee name)))"

text \<open>\<open>forEachContext\<close> applied to a collecting callback.\<close>

definition allContexts :: "cf_index \<Rightarrow> CallSiteContext list" where
  "allContexts x = map (materializeCtx x) (filter scLive (i_contexts x))"

record ContextShape =
  shScopeSet :: nat
  shGuardSet :: nat
  shRaiiSet :: nat
  shNoexcept :: NoexceptSpec
  shInsideCatch :: bool

record ContextRecord =
  crCallSite :: sid
  crCallerUsr :: sid
  crCallerName :: sid
  crCalleeUsr :: sid
  crTuPath :: "sid option"
  crShape :: ContextShape

definition allContextRecords :: "cf_index \<Rightarrow> ContextRecord list" where
  "allContextRecords x = map (\<lambda>se.
     \<lparr>crCallSite = scSite se, crCallerUsr = scCaller se, crCallerName = scCallerDisplay se,
      crCalleeUsr = scCallee se, crTuPath = scTuPath se,
      crShape = \<lparr>shScopeSet = scScopeSet se, shGuardSet = scGuardSet se, shRaiiSet = scRaiiSet se,
        shNoexcept = scNoexcept se, shInsideCatch = scInsideCatch se\<rparr>\<rparr>) (filter scLive (i_contexts x))"

definition emptyContext :: CallSiteContext where
  "emptyContext = \<lparr>cxCallerName = [], cxCalleeName = [], cxCallSite = [], cxCallerUsr = [],
     cxCalleeUsr = [], cxTuPath = [], enclosingTryCatches = [], enclosingGuards = [],
     callerNoexcept = NoSpec, insideCatchBlock = False, liveRaiiLocals = []\<rparr>"

definition contextOfShape :: "cf_index \<Rightarrow> ContextShape \<Rightarrow> CallSiteContext" where
  "contextOfShape x sh =
     (if shScopeSet sh \<ge> length (i_scopeSets x) \<or> shGuardSet sh \<ge> length (i_guardSets x) \<or>
         shRaiiSet sh \<ge> length (i_raiiSets x)
      then emptyContext
      else emptyContext\<lparr>enclosingTryCatches := i_scopeSets x ! shScopeSet sh,
             enclosingGuards := i_guardSets x ! shGuardSet sh, callerNoexcept := shNoexcept sh,
             insideCatchBlock := shInsideCatch sh,
             liveRaiiLocals := map (raiiOf x) (i_raiiSets x ! shRaiiSet sh)\<rparr>)"

section \<open>Merge, removal, compaction\<close>

definition remapLocal :: "sid list \<Rightarrow> StoredRaiiLocal \<Rightarrow> StoredRaiiLocal" where
  "remapLocal remap l = l\<lparr>sTypeName := remap ! sTypeName l, sVarName := remap ! sVarName l,
     sDeclLocation := remap ! sDeclLocation l\<rparr>"

text \<open>Interning the sets of a shard one after another; the result lists the new indices.\<close>

fun internSets :: "('x \<Rightarrow> 'a list \<Rightarrow> nat \<times> 'x) \<Rightarrow> 'x \<Rightarrow> 'a list list \<Rightarrow> nat list \<times> 'x" where
  "internSets f x [] = ([], x)"
| "internSets f x (s # ss) = (let (i, x') = f x s; (is, x'') = internSets f x' ss in (i # is, x''))"

definition remapContext :: "sid list \<Rightarrow> nat list \<Rightarrow> nat list \<Rightarrow> nat list \<Rightarrow> StoredContext \<Rightarrow> StoredContext" where
  "remapContext remap scopeRemap guardRemap raiiRemap se =
     \<lparr>scCaller = remap ! scCaller se, scCallee = remap ! scCallee se,
      scCallerDisplay = remap ! scCallerDisplay se, scCalleeDisplay = remap ! scCalleeDisplay se,
      scSite = remap ! scSite se, scTuPath = map_option (\<lambda>t. remap ! t) (scTuPath se),
      scScopeSet = scopeRemap ! scScopeSet se, scGuardSet = guardRemap ! scGuardSet se,
      scRaiiSet = raiiRemap ! scRaiiSet se, scNoexcept = scNoexcept se,
      scInsideCatch = scInsideCatch se, scLive = True\<rparr>"

definition absorbIndex :: "cf_index \<Rightarrow> cf_index \<Rightarrow> cf_index" where
  "absorbIndex x shard =
     (let (remap, it) = intern_all intern (i_interner x) (strings (i_interner shard));
          x = x\<lparr>i_interner := it\<rparr>;
          (scopeIds, x) = internSets (\<lambda>x s. internScopeSet x (scopeSetKey s) s) x (tl (i_scopeSets shard));
          (guardIds, x) = internSets (\<lambda>x s. internGuardSet x (guardSetKey s) s) x (tl (i_guardSets shard));
          (raiiIds, x) = internSets (\<lambda>x s. let locals = map (remapLocal remap) s
                           in internRaiiSet x (raiiSetKey locals) locals) x (tl (i_raiiSets shard))
      in fold (\<lambda>se x. if scLive se
           then insertStored x (remapContext remap (0 # scopeIds) (0 # guardIds) (0 # raiiIds) se) True
           else x) (i_contexts shard) x)"

text \<open>The locals of \<open>removeTUs\<close> that its first loop updates.\<close>

record remove_state =
  rm_index :: cf_index
  rm_dead :: "nat list"
  rm_callees :: "sid list"
  rm_callers :: "sid list"
  rm_calleeDisplays :: "sid list"
  rm_callerDisplays :: "sid list"
  rm_sites :: "sid list"
  rm_removed :: nat

definition isPrefixOf :: "string \<Rightarrow> string \<Rightarrow> bool" where
  "isPrefixOf p s \<longleftrightarrow> take (length p) s = p"

definition fromRemovedTu :: "cf_index \<Rightarrow> string list \<Rightarrow> StoredContext \<Rightarrow> bool" where
  "fromRemovedTu x prefixes se \<longleftrightarrow> list_ex (\<lambda>p. isPrefixOf p (resolve (i_interner x) (scSite se))) prefixes"

definition tombstone :: "(StoredContext \<Rightarrow> bool) \<Rightarrow> nat \<Rightarrow> remove_state \<Rightarrow> remove_state" where
  "tombstone admitted i r =
     (let x = rm_index r; se = i_contexts x ! i in
      if \<not> scLive se then r
      else if \<not> admitted se then r
      else r\<lparr>rm_callees := add_new (scCallee se) (rm_callees r),
             rm_callers := add_new (scCaller se) (rm_callers r),
             rm_calleeDisplays := (if scCalleeDisplay se \<noteq> scCallee se
               then add_new (scCalleeDisplay se) (rm_calleeDisplays r) else rm_calleeDisplays r),
             rm_callerDisplays := (if scCallerDisplay se \<noteq> scCaller se
               then add_new (scCallerDisplay se) (rm_callerDisplays r) else rm_callerDisplays r),
             rm_sites := add_new (scSite se) (rm_sites r),
             rm_dead := add_new i (rm_dead r),
             rm_index := x\<lparr>i_contexts := (i_contexts x)[i := se\<lparr>scLive := False\<rparr>],
                           i_liveCount := i_liveCount x - 1\<rparr>,
             rm_removed := rm_removed r + 1\<rparr>)"

definition scrub :: "nat list \<Rightarrow> nat list \<Rightarrow> nat list" where
  "scrub dead v = filter (\<lambda>i. i \<notin> set dead) v"

definition scrubMap :: "nat list \<Rightarrow> sid list \<Rightarrow> (sid, nat list) umap \<Rightarrow> (sid, nat list) umap" where
  "scrubMap dead ids m = fold (\<lambda>k m. um_put m k (scrub dead (um_get m k))) ids m"

definition scrubSites :: "nat list \<Rightarrow> sid list \<Rightarrow> (sid, nat list) umap \<Rightarrow> (sid, nat list) umap" where
  "scrubSites dead ids m = fold (\<lambda>k m.
     case map_of m k of
       None \<Rightarrow> m
     | Some v \<Rightarrow> if scrub dead v = [] then um_erase m k else um_put m k (scrub dead v)) ids m"

definition tuTexts :: "string list \<Rightarrow> string list" where
  "tuTexts tuPaths = remdups_adj (sort (map toIndexText tuPaths))"

definition cfRemoveTUs :: "cf_index \<Rightarrow> string list \<Rightarrow> nat \<times> cf_index" where
  "cfRemoveTUs x tuPaths =
     (let texts = tuTexts tuPaths;
          prefixes = map (\<lambda>t. t @ '':'') texts;
          tuIds = List.map_filter (findId (i_interner x)) texts;
          provenanced = concat (map (um_get (i_byTu x)) tuIds);
          r = \<lparr>rm_index = x, rm_dead = [], rm_callees = [], rm_callers = [], rm_calleeDisplays = [],
               rm_callerDisplays = [], rm_sites = [], rm_removed = 0\<rparr>;
          r = fold (tombstone (\<lambda>_. True)) provenanced r;
          r = fold (tombstone (fromRemovedTu x prefixes)) (i_noProvenance x) r;
          x = rm_index r; dead = rm_dead r
      in (rm_removed r,
          x\<lparr>i_byCallee := scrubMap dead (rm_callees r) (i_byCallee x),
            i_byCaller := scrubMap dead (rm_callers r) (i_byCaller x),
            i_byCalleeDisplay := scrubMap dead (rm_calleeDisplays r) (i_byCalleeDisplay x),
            i_byCallerDisplay := scrubMap dead (rm_callerDisplays r) (i_byCallerDisplay x),
            i_bySite := scrubSites dead (rm_sites r) (i_bySite x),
            i_byTu := fold (\<lambda>t m. um_erase m t) tuIds (i_byTu x),
            i_noProvenance := (if dead \<noteq> [] then scrub dead (i_noProvenance x) else i_noProvenance x)\<rparr>))"

definition cfRemoveTU :: "cf_index \<Rightarrow> string \<Rightarrow> nat \<times> cf_index" where
  "cfRemoveTU x tuPath = cfRemoveTUs x [tuPath]"

definition cfCompact :: "cf_index \<Rightarrow> cf_index" where
  "cfCompact x =
     (let y = fold (\<lambda>se y. if scLive se then insertStored y se True else y) (i_contexts x)
                (x\<lparr>i_contexts := [], i_byCallee := [], i_byCaller := [], i_byCalleeDisplay := [],
                   i_byCallerDisplay := [], i_bySite := [], i_byTu := [], i_noProvenance := []\<rparr>)
      in y\<lparr>i_liveCount := i_liveCount x\<rparr>)"

end
