(* ===== verification/Oracle.thy ===== *)
theory Oracle
  imports PathSearch ControlFlow
begin

text \<open>
  The exception oracle (\<open>include/vycor/callgraph/ControlFlowOracle.h\<close>,
  \<open>src/callgraph/ControlFlowOracle.cpp\<close>): exception types, the walk of a throw along a path, the
  verdict over all paths, and the breadth-first search for the nearest handlers. \<open>cf_oracle\<close> holds the
  two indexes the class keeps references to. A query that runs \<open>findCallerPaths\<close> returns an option as
  that search does in the model. Strings are concatenated where the source streams them.
\<close>

section \<open>Results\<close>

datatype Protection =
    AlwaysCaught | SometimesCaught | NeverCaught | NoexceptBarrier | UnknownProtection
  | ObservedCaught | ObservedUncaught

datatype PathOutcome = Caught | Uncaught | Terminates | UnknownOutcome

definition protectionName :: "Protection \<Rightarrow> string" where
  "protectionName p = (case p of AlwaysCaught \<Rightarrow> ''always_caught'' | SometimesCaught \<Rightarrow> ''sometimes_caught''
     | NeverCaught \<Rightarrow> ''never_caught'' | NoexceptBarrier \<Rightarrow> ''noexcept_barrier'' | UnknownProtection \<Rightarrow> ''unknown''
     | ObservedCaught \<Rightarrow> ''observed_caught'' | ObservedUncaught \<Rightarrow> ''observed_uncaught'')"

definition pathOutcomeName :: "PathOutcome \<Rightarrow> string" where
  "pathOutcomeName o' = (case o' of Caught \<Rightarrow> ''caught'' | Uncaught \<Rightarrow> ''uncaught''
     | Terminates \<Rightarrow> ''terminates'' | UnknownOutcome \<Rightarrow> ''unknown'')"

record PathInfo =
  piCallChain :: "string list"
  piHops :: "PathHop list"
  tryCatchesOnPath :: "TryCatchScope list"
  guardsOnPath :: "ConditionalGuard list"
  piOutcome :: PathOutcome
  isCaught :: bool
  caughtAt :: string
  caughtBy :: string
  rethrownAt :: "string list"
  stopAt :: string
  piNote :: string

record PathSearchFacts =
  fLimits :: SearchLimits
  fStops :: "StopReason set"
  fExpansions :: nat
  fSkippedHubs :: "SkippedHub list"
  fTargetKnown :: bool
  fStartKnown :: bool
  fComplete :: bool
  fExhaustive :: bool

record ExceptionPathResult =
  protection :: Protection
  erPaths :: "PathInfo list"
  erSummary :: string
  erSearch :: PathSearchFacts
  caughtCount :: nat
  uncaughtCount :: nat
  terminatesCount :: nat
  unknownCount :: nat
  indexComplete :: bool
  verdictExhaustive :: bool

record PathContextsResult =
  pcPaths :: "PathInfo list"
  pcSearch :: PathSearchFacts

record CallSiteExceptionInfo =
  ceCallSite :: string
  ceCaller :: string
  ceCallee :: string
  isUnderTryCatch :: bool
  enclosingScopes :: "TryCatchScope list"
  ceGuards :: "ConditionalGuard list"
  ceNoexcept :: NoexceptSpec
  wouldTerminateIfThrows :: bool

record NearestCatchInfo =
  pathSegment :: "string list"
  ncHops :: "PathHop list"
  ncScope :: TryCatchScope
  ncCallSite :: string
  framesFromTarget :: nat

record NearestCatchResult =
  catches :: "NearestCatchInfo list"
  ncMaxDepth :: nat
  ncStops :: "StopReason set"
  ncComplete :: bool
  ncTargetKnown :: bool

record cf_oracle =
  o_graph :: call_graph
  o_index :: cf_index

section \<open>Exception types\<close>

definition stdExceptionHierarchy :: "(string \<times> string) list" where
  "stdExceptionHierarchy = [
     (''std::bad_alloc'', ''std::exception''),
     (''std::bad_cast'', ''std::exception''),
     (''std::bad_typeid'', ''std::exception''),
     (''std::bad_function_call'', ''std::exception''),
     (''std::bad_weak_ptr'', ''std::exception''),
     (''std::bad_array_new_length'', ''std::bad_alloc''),
     (''std::logic_error'', ''std::exception''),
     (''std::runtime_error'', ''std::exception''),
     (''std::domain_error'', ''std::logic_error''),
     (''std::invalid_argument'', ''std::logic_error''),
     (''std::length_error'', ''std::logic_error''),
     (''std::out_of_range'', ''std::logic_error''),
     (''std::overflow_error'', ''std::runtime_error''),
     (''std::underflow_error'', ''std::runtime_error''),
     (''std::range_error'', ''std::runtime_error''),
     (''std::system_error'', ''std::runtime_error''),
     (''std::ios_base::failure'', ''std::system_error''),
     (''std::filesystem::filesystem_error'', ''std::system_error'')]"

definition dropBack :: "(char \<Rightarrow> bool) \<Rightarrow> string \<Rightarrow> string" where
  "dropBack P s = rev (dropWhile P (rev s))"

definition stripTypeSpelling :: "string \<Rightarrow> string" where
  "stripTypeSpelling t =
     (let s = dropBack (\<lambda>c. c = CHR ''&'' \<or> c = CHR '' '') t;
          s = (if take 6 s = ''const '' then drop 6 s else s);
          s = dropBack (\<lambda>c. c = CHR '' '') s
      in dropWhile (\<lambda>c. c = CHR '' '') s)"

function stdWalk :: "string list \<Rightarrow> string \<Rightarrow> string \<Rightarrow> bool" where
  "stdWalk visited current caught =
     (if current \<in> set visited then False
      else case map_of stdExceptionHierarchy current of
             None \<Rightarrow> False
           | Some base \<Rightarrow> if base = caught then True else stdWalk (current # visited) base caught)"
  by pat_completeness auto
termination
proof (relation "measure (\<lambda>(visited, current, caught). card (fst ` set stdExceptionHierarchy - set visited))", goal_cases)
  case (2 visited current caught base)
  then have "current \<in> fst ` set stdExceptionHierarchy - set visited"
    by (force dest: map_of_SomeD)
  then have "card (fst ` set stdExceptionHierarchy - set (current # visited)) < card (fst ` set stdExceptionHierarchy - set visited)"
    by (intro psubset_card_mono) auto
  then show ?case by simp
qed simp

declare stdWalk.simps [simp del]

definition isSubtypeOf :: "(string \<Rightarrow> bool) \<Rightarrow> cf_oracle \<Rightarrow> string \<Rightarrow> string \<Rightarrow> bool" where
  "isSubtypeOf isUTF8 orc thrownType caughtTy =
     (if thrownType = caughtTy then True
      else
        let thrown = stripTypeSpelling thrownType; caught = stripTypeSpelling caughtTy in
        if thrown = caught then True
        else if stdWalk [] thrown caught then True
        else thrown \<in> set (getAllDerivedClasses isUTF8 (o_graph orc) caught))"

section \<open>One call site\<close>

definition queryCallSite :: "(string \<Rightarrow> bool) \<Rightarrow> cf_oracle \<Rightarrow> string \<Rightarrow> CallSiteExceptionInfo" where
  "queryCallSite isUTF8 orc site =
     (let info = \<lparr>ceCallSite = site, ceCaller = [], ceCallee = [], isUnderTryCatch = False,
            enclosingScopes = [], ceGuards = [], ceNoexcept = NoSpec, wouldTerminateIfThrows = False\<rparr>
      in case contextAtSite isUTF8 (o_index orc) site of
           None \<Rightarrow> info
         | Some ctx \<Rightarrow> info\<lparr>ceCaller := cxCallerName ctx, ceCallee := cxCalleeName ctx,
             isUnderTryCatch := (enclosingTryCatches ctx \<noteq> []),
             enclosingScopes := enclosingTryCatches ctx, ceGuards := enclosingGuards ctx,
             ceNoexcept := callerNoexcept ctx,
             wouldTerminateIfThrows := (callerNoexcept ctx = Noexcept)\<rparr>)"

definition matchingHandler :: "(string \<Rightarrow> bool) \<Rightarrow> cf_oracle \<Rightarrow> string \<Rightarrow> TryCatchScope \<Rightarrow> CatchHandlerInfo option" where
  "matchingHandler isUTF8 orc exceptionType scope =
     List.find (\<lambda>h. isCatchAll h \<or> exceptionType = [] \<or> isSubtypeOf isUTF8 orc exceptionType (caughtType h))
       (handlers scope)"

definition isCaughtByScope :: "(string \<Rightarrow> bool) \<Rightarrow> cf_oracle \<Rightarrow> string \<Rightarrow> TryCatchScope \<Rightarrow> bool" where
  "isCaughtByScope isUTF8 orc exceptionType scope \<longleftrightarrow> matchingHandler isUTF8 orc exceptionType scope \<noteq> None"

definition contextForHop :: "(string \<Rightarrow> bool) \<Rightarrow> cf_oracle \<Rightarrow> PathHop \<Rightarrow> CallSiteContext option" where
  "contextForHop isUTF8 orc hop =
     contextForEdge isUTF8 (o_index orc) (hopCallSite hop) (hopCallerUsr hop) (hopCalleeUsr hop)"

section \<open>Propagation along a path\<close>

definition annotatePath :: "(string \<Rightarrow> bool) \<Rightarrow> cf_oracle \<Rightarrow> CallPath \<Rightarrow> PathInfo" where
  "annotatePath isUTF8 orc path =
     (let ctxs = List.map_filter (contextForHop isUTF8 orc) path in
      \<lparr>piCallChain = hopCaller (hd path) # map hopCallee path, piHops = path,
       tryCatchesOnPath = concat (map enclosingTryCatches ctxs),
       guardsOnPath = concat (map enclosingGuards ctxs),
       piOutcome = UnknownOutcome, isCaught = False, caughtAt = [], caughtBy = [], rethrownAt = [],
       stopAt = [], piNote = []\<rparr>)"

definition stopsAt :: "PathInfo \<Rightarrow> PathOutcome \<Rightarrow> string \<Rightarrow> string \<Rightarrow> PathInfo" where
  "stopsAt info out place msg = info\<lparr>piOutcome := out, stopAt := place, piNote := msg\<rparr>"

text \<open>The loop over the scopes of one call; the flag says that a handler took the exception.\<close>

fun scanScopes :: "(string \<Rightarrow> bool) \<Rightarrow> cf_oracle \<Rightarrow> string \<Rightarrow> TryCatchScope list \<Rightarrow> PathInfo \<Rightarrow> bool \<times> PathInfo" where
  "scanScopes isUTF8 orc exc [] info = (False, info)"
| "scanScopes isUTF8 orc exc (scope # scopes) info =
     (case matchingHandler isUTF8 orc exc scope of
        None \<Rightarrow> scanScopes isUTF8 orc exc scopes info
      | Some h \<Rightarrow>
          if rethrows h
          then scanScopes isUTF8 orc exc scopes (info\<lparr>rethrownAt := rethrownAt info @ [handlerLocation h]\<rparr>)
          else (True, info\<lparr>piOutcome := Caught, isCaught := True, caughtAt := tryLocation scope,
                  caughtBy := (if isCatchAll h then ''...'' else caughtType h)\<rparr>))"

text \<open>The loop over the hops from the target outward.\<close>

fun walkHops :: "(string \<Rightarrow> bool) \<Rightarrow> cf_oracle \<Rightarrow> string \<Rightarrow> PathHop list \<Rightarrow> PathInfo \<Rightarrow> PathInfo" where
  "walkHops isUTF8 orc exc [] info =
     (stopsAt info Uncaught (hd (piCallChain info)) (''escapes the entry point '' @ hd (piCallChain info)))
       \<lparr>isCaught := False\<rparr>"
| "walkHops isUTF8 orc exc (hop # hops) info =
     (if hopExecContext hop = ThreadSpawn
      then stopsAt info Terminates (hopCallSite hop) (hopCallee hop @ '' runs on a thread spawned at '' @
             hopCallSite hop @ ''; an exception escaping a thread entry calls std::terminate'')
      else if hopExecContext hop = AsyncTask \<or> hopExecContext hop = PackagedTask
      then stopsAt info UnknownOutcome (hopCallSite hop) (hopCallee hop @
             '' runs as an asynchronous task started at '' @ hopCallSite hop @
             ''; the exception is stored and rethrown where the result is retrieved, which is not modeled'')
      else case contextForHop isUTF8 orc hop of
        None \<Rightarrow> stopsAt info UnknownOutcome (hopCallSite hop) (''no call-site context indexed for '' @
             hopCallSite hop @ '' in '' @ hopCaller hop @
             '' (the TU may be missing, partial, or the call is indirect)'')
      | Some ctx \<Rightarrow>
          (case scanScopes isUTF8 orc exc (enclosingTryCatches ctx) info of
             (True, info) \<Rightarrow> info
           | (False, info) \<Rightarrow>
               if callerNoexcept ctx = Noexcept \<or> callerNoexcept ctx = ThrowNone
               then stopsAt info Terminates (hopCaller hop)
                      (''escapes '' @ hopCaller hop @ '', which is noexcept: std::terminate'')
               else if callerNoexcept ctx = UnknownSpec
               then stopsAt info UnknownOutcome (hopCaller hop) (''the exception specification of '' @
                      hopCaller hop @ '' could not be evaluated'')
               else walkHops isUTF8 orc exc hops info))"

definition targetNoexcept :: "(string \<Rightarrow> bool) \<Rightarrow> cf_oracle \<Rightarrow> PathHop \<Rightarrow> bool" where
  "targetNoexcept isUTF8 orc into =
     (case callerNoexceptOf isUTF8 (o_index orc) (hopCalleeUsr into) of
        None \<Rightarrow> False
      | Some spec \<Rightarrow> spec = Noexcept \<or> spec = ThrowNone)"

definition propagate :: "(string \<Rightarrow> bool) \<Rightarrow> cf_oracle \<Rightarrow> PathInfo \<Rightarrow> string \<Rightarrow> PathInfo" where
  "propagate isUTF8 orc info exc =
     (let into = last (piHops info) in
      if targetNoexcept isUTF8 orc into
      then stopsAt info Terminates (hopCallee into)
             (hopCallee into @ '' is noexcept: a throw inside it calls std::terminate'')
      else walkHops isUTF8 orc exc (rev (piHops info)) info)"

section \<open>Verdicts\<close>

definition factsOf :: "PathSearchResult \<Rightarrow> SearchLimits \<Rightarrow> PathSearchFacts" where
  "factsOf r lim = \<lparr>fLimits = lim, fStops = stops r, fExpansions = expansions r,
     fSkippedHubs = skippedHubs r, fTargetKnown = targetKnown r, fStartKnown = startKnown r,
     fComplete = complete r, fExhaustive = exhaustive r\<rparr>"

definition countOutcome :: "PathOutcome \<Rightarrow> PathInfo list \<Rightarrow> nat" where
  "countOutcome out ps = length (filter (\<lambda>p. piOutcome p = out) ps)"

definition verdictOf :: "bool \<Rightarrow> bool \<Rightarrow> nat \<Rightarrow> nat \<Rightarrow> nat \<Rightarrow> Protection" where
  "verdictOf noPaths universal caught uncaught terminates =
     (if noPaths then UnknownProtection
      else if caught > 0 \<and> (uncaught > 0 \<or> terminates > 0) then SometimesCaught
      else if uncaught > 0 then (if universal then NeverCaught else ObservedUncaught)
      else if caught > 0 then (if universal then AlwaysCaught else ObservedCaught)
      else if terminates > 0 then (if universal then NoexceptBarrier else UnknownProtection)
      else UnknownProtection)"

fun joinWith :: "string \<Rightarrow> string list \<Rightarrow> string" where
  "joinWith sep [] = []"
| "joinWith sep [s] = s"
| "joinWith sep (s # ss) = s @ sep @ joinWith sep ss"

text \<open>The separator before the last of several parts is \<open>and\<close>.\<close>

fun joinParts :: "string list \<Rightarrow> string" where
  "joinParts [] = []"
| "joinParts [s] = s"
| "joinParts [s, t] = s @ '' and '' @ t"
| "joinParts (s # ss) = s @ '', '' @ joinParts ss"

definition whyObserved :: "ExceptionPathResult \<Rightarrow> string" where
  "whyObserved r = joinParts
     ((if \<not> fExhaustive (erSearch r) then [''the search is not exhaustive''] else []) @
      (if \<not> indexComplete r then [''the index does not cover every requested TU''] else []) @
      (if unknownCount r > 0 then [toString (unknownCount r) @ '' path(s) have an unknown outcome''] else []))"

definition uncaughtPart :: "ExceptionPathResult \<Rightarrow> string" where
  "uncaughtPart r =
     (case List.find (\<lambda>p. piOutcome p = Uncaught) (erPaths r) of
        None \<Rightarrow> []
      | Some p \<Rightarrow> '' Uncaught path: '' @ joinWith '' -> '' (piCallChain p) @ ''.'')"

definition buildSummary :: "ExceptionPathResult \<Rightarrow> string \<Rightarrow> string \<Rightarrow> string" where
  "buildSummary r functionName exc =
     (let what = (if exc = [] then ''an exception'' else exc);
          total = toString (length (erPaths r));
          opening = functionName @ '' throwing '' @ what;
          body = (case protection r of
            AlwaysCaught \<Rightarrow> opening @ '' is caught on all '' @ total @ '' path(s) from entry points.'' @
              (if erPaths r \<noteq> [] \<and> caughtBy (hd (erPaths r)) \<noteq> []
               then '' Caught by '' @ caughtBy (hd (erPaths r)) @ '' at '' @ caughtAt (hd (erPaths r)) @ ''.''
               else [])
          | NeverCaught \<Rightarrow> opening @ '' is NOT caught on any of the '' @ total @ '' path(s) from entry points.''
          | SometimesCaught \<Rightarrow> opening @ '' is caught on '' @ toString (caughtCount r) @ '' of '' @ total @
              '' path(s)'' @
              (if terminatesCount r > 0
               then '' ('' @ toString (terminatesCount r) @ '' terminate at a noexcept or thread boundary)'' else []) @
              ''.'' @ uncaughtPart r
          | NoexceptBarrier \<Rightarrow> opening @ '' reaches a noexcept function or a thread entry on all '' @ total @
              '' path(s): std::terminate rather than propagation.''
          | ObservedCaught \<Rightarrow> opening @ '' is caught on every one of the '' @ total @ '' observed path(s), but '' @
              whyObserved r @ ''; unexamined paths may be unprotected.''
          | ObservedUncaught \<Rightarrow> opening @ '' is NOT caught on any of the '' @ total @ '' observed path(s); '' @
              whyObserved r @ ''.'' @ uncaughtPart r
          | UnknownProtection \<Rightarrow>
              (if erPaths r = []
               then (if \<not> fTargetKnown (erSearch r) then functionName @ '' is not in the call graph.''
                     else if \<not> fStartKnown (erSearch r) then ''None of the entry points is in the call graph.''
                     else ''No call paths found from entry points to '' @ functionName @ ''.'')
               else opening @ '': the outcome of the '' @ total @ '' path(s) cannot be determined'' @
                 (if terminatesCount r > 0
                  then '' ('' @ toString (terminatesCount r) @ '' terminate, '' @ toString (unknownCount r) @ '' unknown)''
                  else []) @
                 (if terminatesCount r > 0 \<and> unknownCount r = 0 \<and> \<not> verdictExhaustive r
                  then ''; every observed path terminates, but '' @ whyObserved r else []) @ ''.''))
      in body @
         (if fStops (erSearch r) \<noteq> {}
          then '' Search stopped:'' @ concat (map (\<lambda>n. '' '' @ n) (stopReasonNames (fStops (erSearch r)))) @ ''.''
          else []))"

definition queryExceptionProtection :: "(string \<Rightarrow> bool) \<Rightarrow> cf_oracle \<Rightarrow> string \<Rightarrow> string \<Rightarrow> string list \<Rightarrow>
    SearchLimits \<Rightarrow> bool \<Rightarrow> ExceptionPathResult option" where
  "queryExceptionProtection isUTF8 orc functionName exc entries lim indexOk =
     (case findCallerPaths isUTF8 (o_graph orc) functionName entries lim SimpleNodes None of
        None \<Rightarrow> None
      | Some found \<Rightarrow>
          let search = factsOf found lim;
              ps = map (\<lambda>path. propagate isUTF8 orc (annotatePath isUTF8 orc path) exc) (paths found);
              caught = countOutcome Caught ps; uncaught = countOutcome Uncaught ps;
              terminates = countOutcome Terminates ps; unknown = countOutcome UnknownOutcome ps;
              exh = (fExhaustive search \<and> unknown = 0 \<and> indexOk);
              r = \<lparr>protection = verdictOf (ps = []) exh caught uncaught terminates, erPaths = ps,
                   erSummary = [], erSearch = search, caughtCount = caught, uncaughtCount = uncaught,
                   terminatesCount = terminates, unknownCount = unknown, indexComplete = indexOk,
                   verdictExhaustive = exh\<rparr>
          in Some (r\<lparr>erSummary := buildSummary r functionName exc\<rparr>))"

definition queryAllPathContexts :: "(string \<Rightarrow> bool) \<Rightarrow> cf_oracle \<Rightarrow> string \<Rightarrow> string list \<Rightarrow> SearchLimits \<Rightarrow>
    PathContextsResult option" where
  "queryAllPathContexts isUTF8 orc functionName entries lim =
     map_option (\<lambda>found. \<lparr>pcPaths = map (annotatePath isUTF8 orc) (paths found), pcSearch = factsOf found lim\<rparr>)
       (findCallerPaths isUTF8 (o_graph orc) functionName entries lim SimpleNodes None)"

definition queryThrowPropagation :: "(string \<Rightarrow> bool) \<Rightarrow> cf_oracle \<Rightarrow> string \<Rightarrow> string \<Rightarrow> string list \<Rightarrow>
    SearchLimits \<Rightarrow> bool \<Rightarrow> ExceptionPathResult option" where
  "queryThrowPropagation isUTF8 orc throwingFunction thrownType entries lim indexOk =
     queryExceptionProtection isUTF8 orc throwingFunction thrownType entries lim indexOk"

section \<open>Nearest handlers\<close>

definition edgeHop :: "CallGraphEdge \<Rightarrow> PathHop" where
  "edgeHop edge = \<lparr>hopCallerUsr = callerUsr edge, hopCalleeUsr = calleeUsr edge, hopCaller = callerName edge,
     hopCallee = calleeName edge, hopCallSite = edgeCallSite edge, hopKind = edgeKind edge,
     hopConfidence = edgeConfidence edge, hopExecContext = edgeExecContext edge,
     hopIndirectionDepth = edgeIndirectionDepth edge\<rparr>"

text \<open>The locals of \<open>queryNearestCatches\<close>; \<open>Parent\<close> is its hop (the child field is never read).\<close>

record nearest_state =
  n_parent :: "(string, PathHop) umap"
  n_visited :: "string list"
  n_queue :: "(string \<times> nat) list"
  n_catches :: "NearestCatchInfo list"
  n_stops :: "StopReason set"

text \<open>
  The loop of \<open>chainFrom\<close>. The parents form a tree that leads to the targets, so as many steps as there are
  parents are enough; running out of them is the value \<open>None\<close>.
\<close>

fun climb :: "nat \<Rightarrow> (string, PathHop) umap \<Rightarrow> string \<Rightarrow> PathHop list option" where
  "climb fuel parent cur =
     (case map_of parent cur of
        None \<Rightarrow> Some []
      | Some hop \<Rightarrow>
          (case fuel of
             0 \<Rightarrow> None
           | Suc fuel \<Rightarrow> map_option (\<lambda>hs. hop # hs) (climb fuel parent (hopCalleeUsr hop))))"

declare climb.simps [simp del]

definition displayOfUsr :: "(string \<Rightarrow> bool) \<Rightarrow> call_graph \<Rightarrow> string \<Rightarrow> string" where
  "displayOfUsr isUTF8 g u = (case findNode isUTF8 g u of Some n \<Rightarrow> qualifiedName n | None \<Rightarrow> u)"

definition nearestEdge :: "(string \<Rightarrow> bool) \<Rightarrow> cf_oracle \<Rightarrow> nat \<Rightarrow> CallGraphEdge \<Rightarrow> nearest_state \<Rightarrow> nearest_state option" where
  "nearestEdge isUTF8 orc depth edge st =
     (let hop = edgeHop edge in
      case contextForHop isUTF8 orc hop of
        Some ctx \<Rightarrow>
          (if enclosingTryCatches ctx \<noteq> []
           then (case climb (length (n_parent st)) (n_parent st) (hopCalleeUsr hop) of
                   None \<Rightarrow> None
                 | Some hs \<Rightarrow> Some (st\<lparr>n_catches := n_catches st @
                     [\<lparr>pathSegment = displayOfUsr isUTF8 (o_graph orc) (callerUsr edge) # map hopCallee (hop # hs),
                       ncHops = hop # hs, ncScope = hd (enclosingTryCatches ctx),
                       ncCallSite = hopCallSite hop, framesFromTarget = depth + 1\<rparr>]\<rparr>))
           else if callerUsr edge \<in> set (n_visited st) then Some st
           else Some (st\<lparr>n_visited := callerUsr edge # n_visited st,
                         n_parent := um_emplace (n_parent st) (callerUsr edge) hop,
                         n_queue := n_queue st @ [(callerUsr edge, depth + 1)]\<rparr>))
      | None \<Rightarrow>
          if callerUsr edge \<in> set (n_visited st) then Some st
          else Some (st\<lparr>n_visited := callerUsr edge # n_visited st,
                        n_parent := um_emplace (n_parent st) (callerUsr edge) hop,
                        n_queue := n_queue st @ [(callerUsr edge, depth + 1)]\<rparr>))"

fun nearestEdges :: "(string \<Rightarrow> bool) \<Rightarrow> cf_oracle \<Rightarrow> nat \<Rightarrow> CallGraphEdge list \<Rightarrow> nearest_state \<Rightarrow> nearest_state option" where
  "nearestEdges isUTF8 orc depth [] st = Some st"
| "nearestEdges isUTF8 orc depth (e # es) st =
     (case nearestEdge isUTF8 orc depth e st of
        None \<Rightarrow> None
      | Some st \<Rightarrow> nearestEdges isUTF8 orc depth es st)"

definition canonicalCallers :: "(string \<Rightarrow> bool) \<Rightarrow> call_graph \<Rightarrow> string \<Rightarrow> CallGraphEdge list" where
  "canonicalCallers isUTF8 g node = sort_key (\<lambda>e. (callerUsr e, edgeCallSite e)) (callersOf isUTF8 g node)"

definition usrCallers :: "call_graph \<Rightarrow> string set" where
  "usrCallers g = resolve (g_interner g) ` callerUniverse g"

lemma canonicalCallers_universe: "e \<in> set (canonicalCallers isUTF8 g node) \<Longrightarrow> callerUsr e \<in> usrCallers g"
  by (auto simp: canonicalCallers_def callersOf_def materialize_def usrCallers_def dest: callerRefsOf_universe)

definition nearestWork :: "string set \<Rightarrow> nearest_state \<Rightarrow> nat" where
  "nearestWork U st = length (n_queue st) + card (U - set (n_visited st))"

lemma nearestEdge_work:
  assumes U: "finite U" "callerUsr e \<in> U" and run: "nearestEdge isUTF8 orc d e st = Some st'"
  shows "nearestWork U st' \<le> nearestWork U st"
proof (cases "callerUsr e \<in> set (n_visited st)")
  case True
  with run show ?thesis
    by (auto simp: nearestEdge_def nearestWork_def Let_def split: option.splits if_splits)
next
  case False
  then have "card (U - set (n_visited st)) = Suc (card (U - insert (callerUsr e) (set (n_visited st))))"
    using U by (metis card_Suc_Diff1 Diff_insert DiffI finite_Diff)
  with run show ?thesis
    by (auto simp: nearestEdge_def nearestWork_def Let_def split: option.splits if_splits)
qed

lemma nearestEdges_work:
  assumes "finite U"
  shows "nearestEdges isUTF8 orc d es st = Some st' \<Longrightarrow> \<forall>e \<in> set es. callerUsr e \<in> U \<Longrightarrow>
    nearestWork U st' \<le> nearestWork U st"
proof (induction es arbitrary: st)
  case (Cons e es)
  then obtain st1 where 1: "nearestEdge isUTF8 orc d e st = Some st1" "nearestEdges isUTF8 orc d es st1 = Some st'"
    by (auto split: option.splits)
  from Cons.IH [OF 1(2)] Cons.prems(2) nearestEdge_work [OF assms _ 1(1)] show ?case by fastforce
qed simp

function nearestLoop :: "(string \<Rightarrow> bool) \<Rightarrow> cf_oracle \<Rightarrow> nat \<Rightarrow> nearest_state \<Rightarrow> nearest_state option" where
  "nearestLoop isUTF8 orc maxD st =
     (case n_queue st of
        [] \<Rightarrow> Some st
      | (node, depth) # rest \<Rightarrow>
          let st = st\<lparr>n_queue := rest\<rparr> in
          if depth \<ge> maxD
          then nearestLoop isUTF8 orc maxD
                 (if callersOf isUTF8 (o_graph orc) node \<noteq> []
                  then st\<lparr>n_stops := insert DepthLimit (n_stops st)\<rparr> else st)
          else (case nearestEdges isUTF8 orc depth (canonicalCallers isUTF8 (o_graph orc) node) st of
                  None \<Rightarrow> None
                | Some st \<Rightarrow> nearestLoop isUTF8 orc maxD st))"
  by pat_completeness auto
termination
proof (relation "measure (\<lambda>(isUTF8, orc, maxD, st). nearestWork (usrCallers (o_graph orc)) st)", goal_cases)
  case (2 isUTF8 orc maxD st p rest node depth x)
  then show ?case by (auto simp: nearestWork_def)
next
  case (3 isUTF8 orc maxD st p rest node depth x st')
  have "nearestWork (usrCallers (o_graph orc)) st' \<le> nearestWork (usrCallers (o_graph orc)) x"
    by (rule nearestEdges_work [OF _ 3(5)]) (auto simp: usrCallers_def intro: canonicalCallers_universe [unfolded usrCallers_def])
  with 3 show ?case by (auto simp: nearestWork_def)
qed simp

declare nearestLoop.simps [simp del]

definition nearestTargets :: "(string \<Rightarrow> bool) \<Rightarrow> call_graph \<Rightarrow> string \<Rightarrow> string list" where
  "nearestTargets isUTF8 g functionName =
     (let targets = usrsForName isUTF8 g functionName
      in sort (if targets = [] then [functionName] else targets))"

definition seedTarget :: "string \<Rightarrow> nearest_state \<Rightarrow> nearest_state" where
  "seedTarget t st = (if t \<in> set (n_visited st) then st
     else st\<lparr>n_visited := t # n_visited st, n_queue := n_queue st @ [(t, 0)]\<rparr>)"

definition queryNearestCatches :: "(string \<Rightarrow> bool) \<Rightarrow> cf_oracle \<Rightarrow> string \<Rightarrow> nat \<Rightarrow> NearestCatchResult option" where
  "queryNearestCatches isUTF8 orc functionName maxD =
     (let g = o_graph orc;
          targets = nearestTargets isUTF8 g functionName;
          known = (findId (g_interner g) functionName \<noteq> None \<or> usrsForName isUTF8 g functionName \<noteq> []);
          result = \<lparr>catches = [], ncMaxDepth = maxD, ncStops = {}, ncComplete = True, ncTargetKnown = known\<rparr>
      in if \<not> known then Some result
         else (case nearestLoop isUTF8 orc maxD (fold seedTarget targets
                  \<lparr>n_parent = [], n_visited = [], n_queue = [], n_catches = [], n_stops = {}\<rparr>) of
                 None \<Rightarrow> None
               | Some st \<Rightarrow> Some (result\<lparr>
                   catches := sort_key (\<lambda>c. (framesFromTarget c, pathSegment c, ncCallSite c)) (n_catches st),
                   ncStops := n_stops st, ncComplete := (n_stops st = {})\<rparr>)))"

end
