(* ===== verification/ControlFlowKeys.thy ===== *)
theory ControlFlowKeys
  imports ControlFlow
begin

text \<open>
  The canonical keys of the set tables are unambiguous. \<open>prefix_code\<close> is the contract of a field
  encoding: on valid values it can be read off the front of any byte string. Concatenation of codes,
  counted repetition and repetition to the end of the key follow once, and every encoder of
  \<open>ControlFlowIndex.cpp\<close> is an instance.
\<close>

section \<open>Field codes\<close>

locale prefix_code =
  fixes enc :: "'a \<Rightarrow> string" and valid :: "'a \<Rightarrow> bool"
  assumes cancel: "valid a \<Longrightarrow> valid b \<Longrightarrow> enc a @ r = enc b @ r' \<Longrightarrow> a = b \<and> r = r'"
begin

lemma inj: "valid a \<Longrightarrow> valid b \<Longrightarrow> enc a = enc b \<Longrightarrow> a = b"
  using cancel [of a b "[]" "[]"] by simp

lemma counted:
  "length as = length bs \<Longrightarrow> list_all valid as \<Longrightarrow> list_all valid bs \<Longrightarrow>
    concat (map enc as) @ r = concat (map enc bs) @ r' \<Longrightarrow> as = bs \<and> r = r'"
proof (induction as bs arbitrary: r r' rule: list_induct2)
  case (Cons a as b bs)
  then have "a = b \<and> concat (map enc as) @ r = concat (map enc bs) @ r'"
    by (intro cancel) simp_all
  moreover from this have "as = bs \<and> r = r'"
    using Cons.prems by (intro Cons.IH) simp_all
  ultimately show ?case by blast
qed simp

end

text \<open>A code that never encodes to nothing can also be repeated up to the end.\<close>

locale field_code = prefix_code +
  assumes nonempty: "enc a \<noteq> []"
begin

lemma to_end:
  "list_all valid as \<Longrightarrow> list_all valid bs \<Longrightarrow> concat (map enc as) = concat (map enc bs) \<Longrightarrow> as = bs"
proof (induction as arbitrary: bs)
  case Nil
  then show ?case by (cases bs) (simp_all add: nonempty)
next
  case (Cons a as)
  have "bs \<noteq> []" using Cons.prems(3) nonempty by auto
  then obtain b bs' where bs: "bs = b # bs'" by (cases bs) simp_all
  then have "a = b \<and> concat (map enc as) = concat (map enc bs')"
    using Cons.prems by (intro cancel) simp_all
  moreover from this have "as = bs'"
    using Cons.prems bs by (intro Cons.IH) simp_all
  ultimately show ?case using bs by blast
qed

end

section \<open>The encoders\<close>

abbreviation u32 :: "nat \<Rightarrow> bool" where
  "u32 n \<equiv> n < 2 ^ 32"

definition short :: "string \<Rightarrow> bool" where
  "short s \<longleftrightarrow> u32 (length s)"

lemma char_of_eq_iff: "char_of (m :: nat) = char_of n \<longleftrightarrow> m mod 256 = n mod 256"
  by (metis char_of_mod_256 of_char_of)

lemma keyU32_bytes:
  "keyU32 v = [char_of v, char_of (v div 256), char_of (v div 65536), char_of (v div 16777216)]"
proof -
  have "(4 :: nat) = Suc (Suc (Suc (Suc 0)))" by simp
  then show ?thesis by (simp only: keyU32_def keyBytes.simps div_mult2_eq [symmetric]) simp
qed

lemma keyU32_inj:
  assumes "u32 m" and "u32 n" and "keyU32 m = keyU32 n"
  shows "m = n"
proof -
  have b: "m = m mod 256 + 256 * (m div 256 mod 256) + 65536 * (m div 65536 mod 256) + 16777216 * (m div 16777216 mod 256)"
    if "u32 m" for m
  proof -
    have "m div 256 div 256 = m div 65536" "m div 65536 div 256 = m div 16777216"
      by (simp_all add: div_mult2_eq [symmetric])
    moreover have "m div 16777216 < 256" using that by (simp add: div_less_iff_less_mult)
    moreover have "m = 256 * (m div 256) + m mod 256" "m div 256 = 256 * (m div 256 div 256) + m div 256 mod 256"
        "m div 65536 = 256 * (m div 65536 div 256) + m div 65536 mod 256" by (simp_all only: mult_div_mod_eq)
    ultimately show ?thesis by (simp only: mod_less)
  qed
  have "m mod 256 = n mod 256" "m div 256 mod 256 = n div 256 mod 256"
    "m div 65536 mod 256 = n div 65536 mod 256" "m div 16777216 mod 256 = n div 16777216 mod 256"
    using assms(3) by (simp_all add: keyU32_bytes char_of_eq_iff)
  with b [OF assms(1)] b [OF assms(2)] show ?thesis by (simp only:)
qed

interpretation u32: field_code keyU32 u32
  by unfold_locales (auto simp: keyU32_bytes intro!: keyU32_inj)

interpretation boolean: field_code keyBool "\<lambda>_. True"
  by unfold_locales (auto simp: keyBool_def char_of_eq_iff split: if_splits)

lemma keyStr_cancel:
  assumes "short s" and "short t" and "keyStr s @ r = keyStr t @ r'"
  shows "s = t \<and> r = r'"
proof -
  have "length s = length t \<and> s @ r = t @ r'"
    using assms by (intro u32.cancel) (simp_all add: keyStr_def short_def)
  then show ?thesis using append_eq_append_conv by blast
qed

interpretation str: field_code keyStr short
  by (unfold_locales, rule keyStr_cancel) (simp_all add: keyStr_def keyU32_bytes)

definition handlerSmall :: "CatchHandlerInfo \<Rightarrow> bool" where
  "handlerSmall h \<longleftrightarrow> short (caughtType h) \<and> short (handlerLocation h) \<and> short (bodySummary h)"

lemma handlerKey_cancel:
  assumes "handlerSmall a" and "handlerSmall b" and "handlerKey a @ r = handlerKey b @ r'"
  shows "a = b \<and> r = r'"
proof -
  let ?t = "\<lambda>h r. keyBool (isCatchAll h) @ keyBool (rethrows h) @ keyStr (handlerLocation h) @ keyStr (bodySummary h) @ r"
  have 1: "caughtType a = caughtType b \<and> ?t a r = ?t b r'"
    using assms by (intro str.cancel) (simp_all add: handlerSmall_def handlerKey_def)
  then have 2: "isCatchAll a = isCatchAll b \<and> keyBool (rethrows a) @ keyStr (handlerLocation a) @ keyStr (bodySummary a) @ r =
      keyBool (rethrows b) @ keyStr (handlerLocation b) @ keyStr (bodySummary b) @ r'"
    by (intro boolean.cancel) simp_all
  then have 3: "rethrows a = rethrows b \<and> keyStr (handlerLocation a) @ keyStr (bodySummary a) @ r =
      keyStr (handlerLocation b) @ keyStr (bodySummary b) @ r'"
    by (intro boolean.cancel) simp_all
  then have 4: "handlerLocation a = handlerLocation b \<and> keyStr (bodySummary a) @ r = keyStr (bodySummary b) @ r'"
    using assms by (intro str.cancel) (simp_all add: handlerSmall_def)
  then have "bodySummary a = bodySummary b \<and> r = r'"
    using assms by (intro str.cancel) (simp_all add: handlerSmall_def)
  with 1 2 3 4 show ?thesis by simp
qed

interpretation handler: prefix_code handlerKey handlerSmall
  by unfold_locales (rule handlerKey_cancel)

definition scopeSmall :: "TryCatchScope \<Rightarrow> bool" where
  "scopeSmall s \<longleftrightarrow> short (tryLocation s) \<and> short (enclosingFunction s) \<and> u32 (nestingDepth s) \<and>
     u32 (length (handlers s)) \<and> list_all handlerSmall (handlers s)"

lemma scopeKey_cancel:
  assumes "scopeSmall a" and "scopeSmall b" and "scopeKey a @ r = scopeKey b @ r'"
  shows "a = b \<and> r = r'"
proof -
  let ?h = "\<lambda>s r. concat (map handlerKey (handlers s)) @ r"
  have 1: "tryLocation a = tryLocation b \<and>
      keyStr (enclosingFunction a) @ keyU32 (nestingDepth a) @ keyU32 (length (handlers a)) @ ?h a r =
      keyStr (enclosingFunction b) @ keyU32 (nestingDepth b) @ keyU32 (length (handlers b)) @ ?h b r'"
    using assms by (intro str.cancel) (simp_all add: scopeSmall_def scopeKey_def)
  then have 2: "enclosingFunction a = enclosingFunction b \<and>
      keyU32 (nestingDepth a) @ keyU32 (length (handlers a)) @ ?h a r =
      keyU32 (nestingDepth b) @ keyU32 (length (handlers b)) @ ?h b r'"
    using assms by (intro str.cancel) (simp_all add: scopeSmall_def)
  then have 3: "nestingDepth a = nestingDepth b \<and>
      keyU32 (length (handlers a)) @ ?h a r = keyU32 (length (handlers b)) @ ?h b r'"
    using assms by (intro u32.cancel) (simp_all add: scopeSmall_def)
  then have 4: "length (handlers a) = length (handlers b) \<and> ?h a r = ?h b r'"
    using assms by (intro u32.cancel) (simp_all add: scopeSmall_def)
  then have "handlers a = handlers b \<and> r = r'"
    using assms by (intro handler.counted) (simp_all add: scopeSmall_def)
  with 1 2 3 show ?thesis by simp
qed

interpretation scope: field_code scopeKey scopeSmall
  by (unfold_locales, rule scopeKey_cancel) (simp_all add: scopeKey_def keyStr_def keyU32_bytes)

definition guardSmall :: "ConditionalGuard \<Rightarrow> bool" where
  "guardSmall g \<longleftrightarrow> short (conditionText g) \<and> short (guardLocation g)"

lemma guardKey_cancel:
  assumes "guardSmall a" and "guardSmall b" and "guardKey a @ r = guardKey b @ r'"
  shows "a = b \<and> r = r'"
proof -
  have 1: "conditionText a = conditionText b \<and>
      keyStr (guardLocation a) @ keyBool (inTrueBranch a) @ keyBool (isAssertion a) @ r =
      keyStr (guardLocation b) @ keyBool (inTrueBranch b) @ keyBool (isAssertion b) @ r'"
    using assms by (intro str.cancel) (simp_all add: guardSmall_def guardKey_def)
  then have 2: "guardLocation a = guardLocation b \<and> keyBool (inTrueBranch a) @ keyBool (isAssertion a) @ r =
      keyBool (inTrueBranch b) @ keyBool (isAssertion b) @ r'"
    using assms by (intro str.cancel) (simp_all add: guardSmall_def)
  then have 3: "inTrueBranch a = inTrueBranch b \<and> keyBool (isAssertion a) @ r = keyBool (isAssertion b) @ r'"
    by (intro boolean.cancel) simp_all
  then have "isAssertion a = isAssertion b \<and> r = r'"
    by (intro boolean.cancel) simp_all
  with 1 2 3 show ?thesis by simp
qed

interpretation guard: field_code guardKey guardSmall
  by (unfold_locales, rule guardKey_cancel) (simp_all add: guardKey_def keyStr_def keyU32_bytes)

definition raiiSmall :: "StoredRaiiLocal \<Rightarrow> bool" where
  "raiiSmall l \<longleftrightarrow> u32 (sTypeName l) \<and> u32 (sVarName l) \<and> u32 (sDeclLocation l)"

lemma raiiKey_cancel:
  assumes "raiiSmall a" and "raiiSmall b" and "raiiKey a @ r = raiiKey b @ r'"
  shows "a = b \<and> r = r'"
proof -
  let ?k = "\<lambda>l. [char_of (raiiKindCode (sKind l))]"
  have 1: "sTypeName a = sTypeName b \<and> keyU32 (sVarName a) @ keyU32 (sDeclLocation a) @ ?k a @ r =
      keyU32 (sVarName b) @ keyU32 (sDeclLocation b) @ ?k b @ r'"
    using assms by (intro u32.cancel) (simp_all add: raiiSmall_def raiiKey_def)
  then have 2: "sVarName a = sVarName b \<and> keyU32 (sDeclLocation a) @ ?k a @ r = keyU32 (sDeclLocation b) @ ?k b @ r'"
    using assms by (intro u32.cancel) (simp_all add: raiiSmall_def)
  then have 3: "sDeclLocation a = sDeclLocation b \<and> ?k a @ r = ?k b @ r'"
    using assms by (intro u32.cancel) (simp_all add: raiiSmall_def)
  then have "sKind a = sKind b"
    by (simp add: char_of_eq_iff raiiKindCode_def split: RaiiKind.splits)
  with 1 2 3 show ?thesis by simp
qed

interpretation raii: field_code raiiKey raiiSmall
  by (unfold_locales, rule raiiKey_cancel) (simp_all add: raiiKey_def keyU32_bytes)

text \<open>
  C20: the canonical keys of the three set tables identify the sets: two lists of scopes, of guards or of
  stored locals have the same key exactly when they are equal, as long as every string is shorter than
  \<open>2 ^ 32\<close> bytes and every count and id fits 32 bits.
\<close>

theorem setKeys_unambiguous:
  "(list_all scopeSmall as \<and> list_all scopeSmall bs \<longrightarrow> (scopeSetKey as = scopeSetKey bs \<longleftrightarrow> as = bs)) \<and>
   (list_all guardSmall cs \<and> list_all guardSmall ds \<longrightarrow> (guardSetKey cs = guardSetKey ds \<longleftrightarrow> cs = ds)) \<and>
   (list_all raiiSmall es \<and> list_all raiiSmall fs \<longrightarrow> (raiiSetKey es = raiiSetKey fs \<longleftrightarrow> es = fs))"
  unfolding scopeSetKey_def guardSetKey_def raiiSetKey_def
  using scope.to_end guard.to_end raii.to_end by blast

theorem setKeys_unambiguous_witness:
  "scopeSetKey [\<lparr>tryLocation = ''a:1'', enclosingFunction = ''f'', handlers = [], nestingDepth = 0\<rparr>] \<noteq>
   scopeSetKey [\<lparr>tryLocation = ''a:1f'', enclosingFunction = [], handlers = [], nestingDepth = 0\<rparr>]"
  using setKeys_unambiguous [of "[\<lparr>tryLocation = ''a:1'', enclosingFunction = ''f'', handlers = [], nestingDepth = 0\<rparr>]"
      "[\<lparr>tryLocation = ''a:1f'', enclosingFunction = [], handlers = [], nestingDepth = 0\<rparr>]" "[]" "[]" "[]" "[]"]
  by (simp add: scopeSmall_def short_def)

end
