(* ===== verification/ControlFlowInv.thy ===== *)
theory ControlFlowInv
  imports ControlFlowKeys
begin

text \<open>
  The invariant of the control-flow index and what each of its mutators does to the list of live
  contexts. \<open>tables_ok\<close> speaks of the interner and the set tables, \<open>ctx_ok\<close> of one stored
  context, \<open>positions_ok\<close> of the lookup maps.
\<close>

section \<open>Set tables\<close>

definition sets_ok :: "('a \<Rightarrow> string) \<Rightarrow> ('a \<Rightarrow> bool) \<Rightarrow> 'a list list \<Rightarrow> (string, nat) umap \<Rightarrow> bool" where
  "sets_ok enc valid sets ids \<longleftrightarrow> sets \<noteq> [] \<and> hd sets = [] \<and>
     (\<forall>i < length sets. list_all valid (sets ! i) \<and> (0 < i \<longrightarrow> sets ! i \<noteq> [])) \<and>
     (\<forall>k i. map_of ids k = Some i \<longleftrightarrow> 0 < i \<and> i < length sets \<and> concat (map enc (sets ! i)) = k)"

lemma sets_ok_initial [simp]: "sets_ok enc valid [[]] []"
  by (auto simp: sets_ok_def)

context field_code
begin

lemma internSet_spec:
  assumes ok: "sets_ok enc valid sets ids" and v: "list_all valid xs"
    and run: "internSet (concat (map enc xs)) xs sets ids = (i, sets', ids')"
  shows "sets_ok enc valid sets' ids' \<and> i < length sets' \<and> sets' ! i = xs \<and> (\<exists>ys. sets' = sets @ ys \<and> set ys \<subseteq> {xs})"
proof (cases "xs = []")
  case True
  with ok run show ?thesis by (auto simp: internSet_def sets_ok_def hd_conv_nth)
next
  case F: False
  show ?thesis
  proof (cases "map_of ids (concat (map enc xs))")
    case (Some j)
    then have j: "0 < j" "j < length sets" "concat (map enc (sets ! j)) = concat (map enc xs)"
      using ok by (auto simp: sets_ok_def)
    moreover have "list_all valid (sets ! j)" using ok j by (simp add: sets_ok_def)
    ultimately have "sets ! j = xs" using v by (intro to_end)
    with F Some j ok run show ?thesis by (auto simp: internSet_def)
  next
    case None
    then have new: "sets' = sets @ [xs]" "i = length sets" "ids' = um_emplace ids (concat (map enc xs)) (length sets)"
      using run F by (auto simp: internSet_def)
    have iff: "map_of ids k = Some j \<longleftrightarrow> 0 < j \<and> j < length sets \<and> concat (map enc (sets ! j)) = k" for k j
      using ok unfolding sets_ok_def by blast
    have "map_of ids' k = Some j \<longleftrightarrow> 0 < j \<and> j < length sets' \<and> concat (map enc (sets' ! j)) = k" for k j
    proof (cases "k = concat (map enc xs)")
      case True
      then have "\<not> (0 < j \<and> j < length sets \<and> concat (map enc (sets ! j)) = k)"
        using None iff [of k j] by auto
      with True None ok show ?thesis
        by (auto simp: new sets_ok_def nth_append less_Suc_eq)
    next
      case False
      with None ok show ?thesis
        by (auto simp: new sets_ok_def nth_append less_Suc_eq)
    qed
    moreover have "\<forall>j < length sets'. list_all valid (sets' ! j) \<and> (0 < j \<longrightarrow> sets' ! j \<noteq> [])"
      using ok F v by (auto simp: new sets_ok_def nth_append less_Suc_eq)
    ultimately show ?thesis
      using ok by (auto simp: sets_ok_def new)
  qed
qed

end

section \<open>The invariant\<close>

definition raiiKnown :: "interner \<Rightarrow> StoredRaiiLocal \<Rightarrow> bool" where
  "raiiKnown it l \<longleftrightarrow> sTypeName l < internerSize it \<and> sVarName l < internerSize it \<and> sDeclLocation l < internerSize it"

definition tables_ok :: "cf_index \<Rightarrow> bool" where
  "tables_ok x \<longleftrightarrow> interner_wf (i_interner x) \<and> internerSize (i_interner x) \<le> 2 ^ 32 \<and>
     sets_ok scopeKey scopeSmall (i_scopeSets x) (i_scopeSetIds x) \<and>
     sets_ok guardKey guardSmall (i_guardSets x) (i_guardSetIds x) \<and>
     sets_ok raiiKey raiiSmall (i_raiiSets x) (i_raiiSetIds x) \<and>
     (\<forall>ls \<in> set (i_raiiSets x). list_all (raiiKnown (i_interner x)) ls)"

definition ctx_ok :: "cf_index \<Rightarrow> StoredContext \<Rightarrow> bool" where
  "ctx_ok x se \<longleftrightarrow>
     (\<forall>i \<in> {scCaller se, scCallee se, scCallerDisplay se, scCalleeDisplay se, scSite se}.
        i < internerSize (i_interner x)) \<and>
     (\<forall>t. scTuPath se = Some t \<longrightarrow> t < internerSize (i_interner x) \<and> resolve (i_interner x) t \<noteq> []) \<and>
     scScopeSet se < length (i_scopeSets x) \<and> scGuardSet se < length (i_guardSets x) \<and>
     scRaiiSet se < length (i_raiiSets x)"

definition pos_ok :: "StoredContext list \<Rightarrow> (StoredContext \<Rightarrow> sid option) \<Rightarrow> (sid, nat list) umap \<Rightarrow> bool" where
  "pos_ok cs sel m \<longleftrightarrow> (\<forall>k. um_get m k = positions (\<lambda>se. scLive se \<and> sel se = Some k) cs)"

definition calleeDisplaySel :: "StoredContext \<Rightarrow> sid option" where
  "calleeDisplaySel se = (if scCalleeDisplay se \<noteq> scCallee se then Some (scCalleeDisplay se) else None)"

definition callerDisplaySel :: "StoredContext \<Rightarrow> sid option" where
  "callerDisplaySel se = (if scCallerDisplay se \<noteq> scCaller se then Some (scCallerDisplay se) else None)"

definition noProv_ok :: "StoredContext list \<Rightarrow> nat list \<Rightarrow> bool" where
  "noProv_ok cs ps \<longleftrightarrow> ps = positions (\<lambda>se. scLive se \<and> scTuPath se = None) cs"

definition positions_ok :: "cf_index \<Rightarrow> bool" where
  "positions_ok x \<longleftrightarrow>
     pos_ok (i_contexts x) (\<lambda>se. Some (scCallee se)) (i_byCallee x) \<and>
     pos_ok (i_contexts x) (\<lambda>se. Some (scCaller se)) (i_byCaller x) \<and>
     pos_ok (i_contexts x) calleeDisplaySel (i_byCalleeDisplay x) \<and>
     pos_ok (i_contexts x) callerDisplaySel (i_byCallerDisplay x) \<and>
     pos_ok (i_contexts x) (\<lambda>se. Some (scSite se)) (i_bySite x) \<and>
     pos_ok (i_contexts x) scTuPath (i_byTu x) \<and>
     noProv_ok (i_contexts x) (i_noProvenance x) \<and>
     i_liveCount x = length (filter scLive (i_contexts x))"

definition cf_wf :: "cf_index \<Rightarrow> bool" where
  "cf_wf x \<longleftrightarrow> tables_ok x \<and> (\<forall>se \<in> set (i_contexts x). ctx_ok x se) \<and> positions_ok x"

lemma cf_wf_empty [simp]: "cf_wf emptyIndex"
  by (simp add: cf_wf_def tables_ok_def positions_ok_def emptyIndex_def pos_ok_def noProv_ok_def
      empty_interner_def internerSize_def interner_wf_def)

section \<open>Growing the tables\<close>

definition lookups where
  "lookups x = (i_contexts x, i_byCallee x, i_byCaller x, i_byCalleeDisplay x, i_byCallerDisplay x,
     i_bySite x, i_byTu x, i_noProvenance x, i_liveCount x)"

definition extends :: "cf_index \<Rightarrow> cf_index \<Rightarrow> bool" where
  "extends x y \<longleftrightarrow> grows (i_interner x) (i_interner y) \<and> lookups y = lookups x \<and>
     (\<exists>a. i_scopeSets y = i_scopeSets x @ a) \<and> (\<exists>b. i_guardSets y = i_guardSets x @ b) \<and>
     (\<exists>c. i_raiiSets y = i_raiiSets x @ c)"

lemma cfExtends_refl: "tables_ok x \<Longrightarrow> extends x x"
  by (simp add: extends_def tables_ok_def)

lemma cfExtends_trans: "extends x y \<Longrightarrow> extends y z \<Longrightarrow> extends x z"
  unfolding extends_def using grows_trans [of "i_interner x" "i_interner y" "i_interner z"] by auto

lemma extends_contexts:
  assumes "extends x y"
  shows "i_contexts y = i_contexts x" "positions_ok y = positions_ok x"
  using assms by (auto simp: extends_def lookups_def positions_ok_def)

lemma extends_sets:
  assumes "extends x y"
  shows "i < length (i_scopeSets x) \<Longrightarrow> i < length (i_scopeSets y) \<and> i_scopeSets y ! i = i_scopeSets x ! i"
    and "i < length (i_guardSets x) \<Longrightarrow> i < length (i_guardSets y) \<and> i_guardSets y ! i = i_guardSets x ! i"
    and "i < length (i_raiiSets x) \<Longrightarrow> i < length (i_raiiSets y) \<and> i_raiiSets y ! i = i_raiiSets x ! i"
  using assms by (auto simp: extends_def nth_append)

lemma extends_stringOf:
  "extends x y \<Longrightarrow> i < internerSize (i_interner x) \<Longrightarrow> stringOf y i = stringOf x i"
  by (auto simp: extends_def stringOf_def grows_resolve grows_def dest: grows_resolve)

lemma extends_ctx_ok:
  assumes "extends x y" and "ctx_ok x se"
  shows "ctx_ok y se"
proof -
  have "internerSize (i_interner x) \<le> internerSize (i_interner y)"
    using assms(1) by (simp add: extends_def grows_def)
  then show ?thesis
    using assms grows_resolve [of "i_interner x" "i_interner y"]
    by (auto simp: extends_def ctx_ok_def)
qed

lemma raiiOf_extends: "extends x y \<Longrightarrow> raiiKnown (i_interner x) l \<Longrightarrow> raiiOf y l = raiiOf x l"
  by (simp add: raiiOf_def raiiKnown_def extends_stringOf)

lemma extends_materialize:
  assumes e: "extends x y" and t: "tables_ok x" and c: "ctx_ok x se"
  shows "materializeCtx y se = materializeCtx x se"
proof -
  have "list_all (raiiKnown (i_interner x)) (i_raiiSets x ! scRaiiSet se)"
    using t c by (simp add: tables_ok_def ctx_ok_def)
  then have "map (raiiOf y) (i_raiiSets x ! scRaiiSet se) = map (raiiOf x) (i_raiiSets x ! scRaiiSet se)"
    using e by (simp add: raiiOf_extends list_all_iff)
  moreover have "i_scopeSets y ! scScopeSet se = i_scopeSets x ! scScopeSet se"
    "i_guardSets y ! scGuardSet se = i_guardSets x ! scGuardSet se"
    "i_raiiSets y ! scRaiiSet se = i_raiiSets x ! scRaiiSet se"
    using e c by (auto simp: extends_def ctx_ok_def nth_append)
  ultimately show ?thesis
    using c by (auto simp: materializeCtx_def ctx_ok_def extends_stringOf [OF e] split: option.split)
qed

lemma extends_wf: "extends x y \<Longrightarrow> tables_ok y \<Longrightarrow> cf_wf x \<Longrightarrow> cf_wf y"
  by (auto simp: cf_wf_def extends_contexts extends_ctx_ok)

lemma extends_allContexts:
  assumes "extends x y" and "cf_wf x"
  shows "allContexts y = allContexts x"
  using assms by (auto simp: allContexts_def extends_contexts cf_wf_def intro!: extends_materialize)

lemma extends_interner:
  assumes t: "tables_ok x" and g: "grows (i_interner x) it" and s: "internerSize it \<le> 2 ^ 32"
  shows "tables_ok (x\<lparr>i_interner := it\<rparr>)" "extends x (x\<lparr>i_interner := it\<rparr>)"
proof -
  have "internerSize (i_interner x) \<le> internerSize it" using g by (simp add: grows_def)
  then show "tables_ok (x\<lparr>i_interner := it\<rparr>)"
    using t g s by (fastforce simp: tables_ok_def list_all_iff raiiKnown_def grows_def)
  show "extends x (x\<lparr>i_interner := it\<rparr>)"
    using g by (simp add: extends_def lookups_def)
qed

lemma internScopeSet_spec:
  assumes "tables_ok x" and "list_all scopeSmall s" and "internScopeSet x (scopeSetKey s) s = (i, y)"
  shows "tables_ok y \<and> extends x y \<and> i < length (i_scopeSets y) \<and> i_scopeSets y ! i = s"
proof -
  obtain sets ids where r: "internSet (concat (map scopeKey s)) s (i_scopeSets x) (i_scopeSetIds x) = (i, sets, ids)"
    and y: "y = x\<lparr>i_scopeSets := sets, i_scopeSetIds := ids\<rparr>"
    using assms(3) by (auto simp: internScopeSet_def scopeSetKey_def split: prod.splits)
  from scope.internSet_spec [OF _ assms(2) r] assms(1)
  have "sets_ok scopeKey scopeSmall sets ids \<and> i < length sets \<and> sets ! i = s \<and> (\<exists>ys. sets = i_scopeSets x @ ys)"
    by (auto simp: tables_ok_def)
  with assms(1) show ?thesis
    by (auto simp: tables_ok_def y extends_def lookups_def)
qed

lemma internGuardSet_spec:
  assumes "tables_ok x" and "list_all guardSmall s" and "internGuardSet x (guardSetKey s) s = (i, y)"
  shows "tables_ok y \<and> extends x y \<and> i < length (i_guardSets y) \<and> i_guardSets y ! i = s"
proof -
  obtain sets ids where r: "internSet (concat (map guardKey s)) s (i_guardSets x) (i_guardSetIds x) = (i, sets, ids)"
    and y: "y = x\<lparr>i_guardSets := sets, i_guardSetIds := ids\<rparr>"
    using assms(3) by (auto simp: internGuardSet_def guardSetKey_def split: prod.splits)
  from guard.internSet_spec [OF _ assms(2) r] assms(1)
  have "sets_ok guardKey guardSmall sets ids \<and> i < length sets \<and> sets ! i = s \<and> (\<exists>ys. sets = i_guardSets x @ ys)"
    by (auto simp: tables_ok_def)
  with assms(1) show ?thesis
    by (auto simp: tables_ok_def y extends_def lookups_def)
qed

lemma internRaiiSet_spec:
  assumes t: "tables_ok x" and k: "list_all (raiiKnown (i_interner x)) s"
    and run: "internRaiiSet x (raiiSetKey s) s = (i, y)"
  shows "tables_ok y \<and> extends x y \<and> i < length (i_raiiSets y) \<and> i_raiiSets y ! i = s"
proof -
  have v: "list_all raiiSmall s"
    using t k by (fastforce simp: list_all_iff raiiSmall_def raiiKnown_def tables_ok_def)
  obtain sets ids where r: "internSet (concat (map raiiKey s)) s (i_raiiSets x) (i_raiiSetIds x) = (i, sets, ids)"
    and y: "y = x\<lparr>i_raiiSets := sets, i_raiiSetIds := ids\<rparr>"
    using run by (auto simp: internRaiiSet_def raiiSetKey_def split: prod.splits)
  from raii.internSet_spec [OF _ v r] t
  have "sets_ok raiiKey raiiSmall sets ids \<and> i < length sets \<and> sets ! i = s \<and>
      (\<exists>ys. sets = i_raiiSets x @ ys \<and> set ys \<subseteq> {s})"
    by (auto simp: tables_ok_def)
  with t k show ?thesis
    by (auto simp: tables_ok_def y extends_def lookups_def)
qed

section \<open>Inserting a context\<close>

lemma pos_ok_push:
  assumes "pos_ok cs sel m" and "scLive se" and "sel se = Some k"
  shows "pos_ok (cs @ [se]) sel (um_push m k (length cs))"
  using assms by (auto simp: pos_ok_def)

lemma pos_ok_skip:
  assumes "pos_ok cs sel m" and "\<not> scLive se \<or> sel se = None"
  shows "pos_ok (cs @ [se]) sel m"
  using assms by (auto simp: pos_ok_def)

lemma insertStored_positions:
  assumes p: "positions_ok x" and l: "scLive se"
  shows "positions_ok (insertStored x se True)"
proof -
  let ?y = "insertStored x se True"
  have c: "i_contexts ?y = i_contexts x @ [se]" by (simp add: insertStored_def Let_def)
  have "pos_ok (i_contexts ?y) calleeDisplaySel (i_byCalleeDisplay ?y)"
    using p l pos_ok_push [of "i_contexts x" calleeDisplaySel] pos_ok_skip [of "i_contexts x" calleeDisplaySel]
    unfolding c by (simp add: insertStored_def Let_def positions_ok_def calleeDisplaySel_def)
  moreover have "pos_ok (i_contexts ?y) callerDisplaySel (i_byCallerDisplay ?y)"
    using p l pos_ok_push [of "i_contexts x" callerDisplaySel] pos_ok_skip [of "i_contexts x" callerDisplaySel]
    unfolding c by (simp add: insertStored_def Let_def positions_ok_def callerDisplaySel_def)
  moreover have "pos_ok (i_contexts ?y) scTuPath (i_byTu ?y)"
    using p l pos_ok_push [of "i_contexts x" scTuPath] pos_ok_skip [of "i_contexts x" scTuPath]
    unfolding c by (simp add: insertStored_def Let_def positions_ok_def split: option.split)
  moreover have "noProv_ok (i_contexts ?y) (i_noProvenance ?y)"
    using p l unfolding c
    by (auto simp: insertStored_def Let_def positions_ok_def noProv_ok_def)
  moreover have "pos_ok (i_contexts ?y) (\<lambda>se. Some (scCallee se)) (i_byCallee ?y)"
    "pos_ok (i_contexts ?y) (\<lambda>se. Some (scCaller se)) (i_byCaller ?y)"
    "pos_ok (i_contexts ?y) (\<lambda>se. Some (scSite se)) (i_bySite ?y)"
    using p l unfolding c by (simp_all add: insertStored_def Let_def positions_ok_def pos_ok_push)
  moreover have "i_liveCount ?y = length (filter scLive (i_contexts ?y))"
    using p l unfolding c by (simp add: insertStored_def Let_def positions_ok_def)
  ultimately show ?thesis by (simp add: positions_ok_def)
qed

lemma insertStored_fields [simp]:
  "i_interner (insertStored x se b) = i_interner x" "i_scopeSets (insertStored x se b) = i_scopeSets x"
  "i_guardSets (insertStored x se b) = i_guardSets x" "i_raiiSets (insertStored x se b) = i_raiiSets x"
  "i_scopeSetIds (insertStored x se b) = i_scopeSetIds x" "i_guardSetIds (insertStored x se b) = i_guardSetIds x"
  "i_raiiSetIds (insertStored x se b) = i_raiiSetIds x" "i_contexts (insertStored x se b) = i_contexts x @ [se]"
  by (simp_all add: insertStored_def Let_def)

text \<open>What is read off the tables depends on the tables alone.\<close>

definition sameTables :: "cf_index \<Rightarrow> cf_index \<Rightarrow> bool" where
  "sameTables x y \<longleftrightarrow> i_interner y = i_interner x \<and> i_scopeSets y = i_scopeSets x \<and> i_guardSets y = i_guardSets x \<and>
     i_raiiSets y = i_raiiSets x \<and> i_scopeSetIds y = i_scopeSetIds x \<and> i_guardSetIds y = i_guardSetIds x \<and>
     i_raiiSetIds y = i_raiiSetIds x"

lemma sameTables_reads:
  assumes "sameTables x y"
  shows "tables_ok y = tables_ok x" "ctx_ok y = ctx_ok x" "materializeCtx y = materializeCtx x"
proof -
  have "stringOf y = stringOf x" using assms by (simp add: fun_eq_iff stringOf_def sameTables_def)
  moreover from this have "raiiOf y = raiiOf x" by (simp add: fun_eq_iff raiiOf_def)
  ultimately show "materializeCtx y = materializeCtx x"
    using assms by (intro ext) (simp add: materializeCtx_def sameTables_def split: option.split)
  show "tables_ok y = tables_ok x" "ctx_ok y = ctx_ok x"
    using assms by (simp_all add: fun_eq_iff tables_ok_def ctx_ok_def sameTables_def)
qed

lemma insertStored_tables:
  "tables_ok (insertStored x se b) = tables_ok x" "ctx_ok (insertStored x se b) se' = ctx_ok x se'"
  "materializeCtx (insertStored x se b) se' = materializeCtx x se'"
  using sameTables_reads [of x "insertStored x se b"] by (simp_all add: sameTables_def)

lemma insertStored_spec:
  assumes "cf_wf x" and "ctx_ok x se" and "scLive se"
  shows "cf_wf (insertStored x se True)"
    and "allContexts (insertStored x se True) = allContexts x @ [materializeCtx x se]"
  using assms insertStored_positions
  by (auto simp: cf_wf_def insertStored_tables allContexts_def)

lemma internLocals_spec:
  assumes "interner_wf it" and "internLocals it ls = (ss, it')"
  shows "grows it it' \<and> list_all (raiiKnown it') ss \<and>
    map (\<lambda>l. (resolve it' (sTypeName l), resolve it' (sVarName l), resolve it' (sDeclLocation l), sKind l)) ss =
    map (\<lambda>l. (typeName l, varName l, declLocation l, raiiKind l)) ls"
  using assms
proof (induction ls arbitrary: it ss)
  case (Cons l ls)
  obtain t it1 where 1: "intern it (typeName l) = (t, it1)" by fastforce
  obtain v it2 where 2: "intern it1 (varName l) = (v, it2)" by fastforce
  obtain d it3 where 3: "intern it2 (declLocation l) = (d, it3)" by fastforce
  obtain rest where 4: "internLocals it3 ls = (rest, it')"
    and ss: "ss = \<lparr>sTypeName = t, sVarName = v, sDeclLocation = d, sKind = raiiKind l\<rparr> # rest"
    using Cons.prems(2) 1 2 3 by (auto split: prod.splits)
  have g1: "grows it it1" using Cons.prems(1) 1 by (rule grows_intern)
  then have w1: "interner_wf it1" by (simp add: grows_def)
  have g2: "grows it1 it2" using w1 2 by (rule grows_intern)
  then have w2: "interner_wf it2" by (simp add: grows_def)
  have g3: "grows it2 it3" using w2 3 by (rule grows_intern)
  then have w3: "interner_wf it3" by (simp add: grows_def)
  note IH = Cons.IH [OF w3 4]
  have g: "grows it1 it'" "grows it2 it'" "grows it3 it'"
    using g2 g3 IH grows_trans by blast+
  have r: "t < internerSize it'" "resolve it' t = typeName l" "v < internerSize it'" "resolve it' v = varName l"
    "d < internerSize it'" "resolve it' d = declLocation l"
    using intern_grows_known [OF Cons.prems(1) 1 g(1)] intern_grows_known [OF w1 2 g(2)]
      intern_grows_known [OF w2 3 g(3)] by simp_all
  then show ?case
    using IH g1 g(1) grows_trans by (auto simp: ss raiiKnown_def)
qed simp

end
