(* ===== verification/ControlFlowMerge.thy ===== *)
theory ControlFlowMerge
  imports ControlFlowInv
begin

text \<open>
  What insertion and the shard merge do to the control-flow index: the list of live contexts grows by the
  inserted context, and by the shard's contexts in order.
\<close>

section \<open>Insertion\<close>

definition contextSmall :: "CallSiteContext \<Rightarrow> bool" where
  "contextSmall ctx \<longleftrightarrow> list_all scopeSmall (enclosingTryCatches (contextText ctx)) \<and>
     list_all guardSmall (enclosingGuards (contextText ctx))"

text \<open>The form in which a context comes back: index text, and a missing usr is the display name.\<close>

definition normalForm :: "CallSiteContext \<Rightarrow> CallSiteContext" where
  "normalForm ctx = (let c = contextText ctx in
     c\<lparr>cxCallerUsr := (if cxCallerUsr c = [] then cxCallerName c else cxCallerUsr c),
       cxCalleeUsr := (if cxCalleeUsr c = [] then cxCalleeName c else cxCalleeUsr c)\<rparr>)"

lemma findId_grows: "grows it it' \<Longrightarrow> findId it s = Some i \<Longrightarrow> findId it' s = Some i"
  by (simp add: grows_def)

lemma intern_findId:
  assumes "interner_wf it" and "intern it s = (i, it')"
  shows "findId it' s = Some i" "grows it it'" "interner_wf it'"
  using st.intern_result(3) [OF assms] grows_intern [OF assms] by (auto simp: grows_def)

lemma intern_or_findId:
  assumes "interner_wf it" and "findId it d = Some i0"
    and "(if s = [] then (i0, it) else intern it s) = (i, it')"
  shows "findId it' (if s = [] then d else s) = Some i" "grows it it'" "interner_wf it'"
  using assms intern_findId [OF assms(1)] by (auto split: if_splits)

lemma intern_tu_findId:
  assumes "interner_wf it"
    and "(if s = [] then (None, it) else let (t, it) = intern it s in (Some t, it)) = (i, it')"
  shows "case i of None \<Rightarrow> s = [] | Some t \<Rightarrow> s \<noteq> [] \<and> findId it' s = Some t" "grows it it'" "interner_wf it'"
  using assms intern_findId [OF assms(1)] by (auto split: if_splits prod.splits)

lemma addCallSiteContext_run:
  assumes "interner_wf (i_interner x)"
  obtains cd rd c r s tu locals it x1 x2 x3 ss gs rs where
    "grows (i_interner x) it" "findId it (cxCalleeName (normalForm ctx)) = Some cd"
    "findId it (cxCallerName (normalForm ctx)) = Some rd" "findId it (cxCalleeUsr (normalForm ctx)) = Some c"
    "findId it (cxCallerUsr (normalForm ctx)) = Some r" "findId it (cxCallSite (normalForm ctx)) = Some s"
    "case tu of None \<Rightarrow> cxTuPath (normalForm ctx) = []
       | Some t \<Rightarrow> cxTuPath (normalForm ctx) \<noteq> [] \<and> findId it (cxTuPath (normalForm ctx)) = Some t"
    "list_all (raiiKnown it) locals"
    "map (\<lambda>l. (resolve it (sTypeName l), resolve it (sVarName l), resolve it (sDeclLocation l), sKind l)) locals =
       map (\<lambda>l. (typeName l, varName l, declLocation l, raiiKind l)) (liveRaiiLocals (normalForm ctx))"
    "internScopeSet (x\<lparr>i_interner := it\<rparr>) (scopeSetKey (enclosingTryCatches (normalForm ctx)))
       (enclosingTryCatches (normalForm ctx)) = (ss, x1)"
    "internGuardSet x1 (guardSetKey (enclosingGuards (normalForm ctx))) (enclosingGuards (normalForm ctx)) = (gs, x2)"
    "internRaiiSet x2 (raiiSetKey locals) locals = (rs, x3)"
    "addCallSiteContext x ctx = insertStored x3 \<lparr>scCaller = r, scCallee = c, scCallerDisplay = rd,
       scCalleeDisplay = cd, scSite = s, scTuPath = tu, scScopeSet = ss, scGuardSet = gs, scRaiiSet = rs,
       scNoexcept = callerNoexcept ctx, scInsideCatch = insideCatchBlock ctx, scLive = True\<rparr> True"
proof -
  let ?c = "contextText ctx"
  obtain cd it1 where 1: "intern (i_interner x) (cxCalleeName ?c) = (cd, it1)" by fastforce
  note g1 = intern_findId [OF assms 1]
  obtain rd it2 where 2: "intern it1 (cxCallerName ?c) = (rd, it2)" by fastforce
  note g2 = intern_findId [OF g1(3) 2]
  obtain c it3 where 3: "(if cxCalleeUsr ?c = [] then (cd, it2) else intern it2 (cxCalleeUsr ?c)) = (c, it3)" by fastforce
  note g3 = intern_or_findId [OF g2(3) findId_grows [OF g2(2) g1(1)] 3]
  obtain r it4 where 4: "(if cxCallerUsr ?c = [] then (rd, it3) else intern it3 (cxCallerUsr ?c)) = (r, it4)" by fastforce
  note g4 = intern_or_findId [OF g3(3) findId_grows [OF g3(2) g2(1)] 4]
  obtain s it5 where 5: "intern it4 (cxCallSite ?c) = (s, it5)" by fastforce
  note g5 = intern_findId [OF g4(3) 5]
  obtain tu it6 where 6: "(if cxTuPath ?c = [] then (None, it5)
      else let (t, it) = intern it5 (cxTuPath ?c) in (Some t, it)) = (tu, it6)" by fastforce
  note g6 = intern_tu_findId [OF g5(3) 6]
  obtain locals it where 7: "internLocals it6 (liveRaiiLocals ?c) = (locals, it)" by fastforce
  note g7 = internLocals_spec [OF g6(3) 7]
  obtain ss x1 where 8: "internScopeSet (x\<lparr>i_interner := it\<rparr>) (scopeSetKey (enclosingTryCatches ?c))
      (enclosingTryCatches ?c) = (ss, x1)" by fastforce
  obtain gs x2 where 9: "internGuardSet x1 (guardSetKey (enclosingGuards ?c)) (enclosingGuards ?c) = (gs, x2)" by fastforce
  obtain rs x3 where 10: "internRaiiSet x2 (raiiSetKey locals) locals = (rs, x3)" by fastforce
  have G6: "grows it6 it" using g7 by simp
  have G5: "grows it5 it" using g6(2) G6 by (rule grows_trans)
  have G4: "grows it4 it" using g5(2) G5 by (rule grows_trans)
  have G3: "grows it3 it" using g4(2) G4 by (rule grows_trans)
  have G2: "grows it2 it" using g3(2) G3 by (rule grows_trans)
  have G1: "grows it1 it" using g2(2) G2 by (rule grows_trans)
  have G0: "grows (i_interner x) it" using g1(2) G1 by (rule grows_trans)
  have n: "cxCalleeName (normalForm ctx) = cxCalleeName ?c" "cxCallerName (normalForm ctx) = cxCallerName ?c"
    "cxCalleeUsr (normalForm ctx) = (if cxCalleeUsr ?c = [] then cxCalleeName ?c else cxCalleeUsr ?c)"
    "cxCallerUsr (normalForm ctx) = (if cxCallerUsr ?c = [] then cxCallerName ?c else cxCallerUsr ?c)"
    "cxCallSite (normalForm ctx) = cxCallSite ?c" "cxTuPath (normalForm ctx) = cxTuPath ?c"
    "liveRaiiLocals (normalForm ctx) = liveRaiiLocals ?c"
    "enclosingTryCatches (normalForm ctx) = enclosingTryCatches ?c" "enclosingGuards (normalForm ctx) = enclosingGuards ?c"
    by (simp_all add: normalForm_def Let_def)
  have tu: "case tu of None \<Rightarrow> cxTuPath ?c = [] | Some t \<Rightarrow> cxTuPath ?c \<noteq> [] \<and> findId it (cxTuPath ?c) = Some t"
    using g6(1) findId_grows [OF G6] by (auto split: option.splits)
  have e: "callerNoexcept ?c = callerNoexcept ctx" "insideCatchBlock ?c = insideCatchBlock ctx"
    by (simp_all add: contextText_def)
  have "addCallSiteContext x ctx = insertStored x3 \<lparr>scCaller = r, scCallee = c, scCallerDisplay = rd,
       scCalleeDisplay = cd, scSite = s, scTuPath = tu, scScopeSet = ss, scGuardSet = gs, scRaiiSet = rs,
       scNoexcept = callerNoexcept ctx, scInsideCatch = insideCatchBlock ctx, scLive = True\<rparr> True"
    unfolding addCallSiteContext_def
    by (simp only: Let_def 1 2 3 4 5 6 [unfolded Let_def] 7 8 9 10 prod.case e)
  with G0 findId_grows [OF G1 g1(1)] findId_grows [OF G2 g2(1)] findId_grows [OF G3 g3(1)]
    findId_grows [OF G4 g4(1)] findId_grows [OF G5 g5(1)] tu g7 8 9 10
  show ?thesis by (intro that [of it cd rd c r s tu locals ss x1 gs x2 rs x3]) (simp_all only: n)
qed

text \<open>A stored context that carries the ids of a context's strings materializes to that context.\<close>

lemma raiiOf_resolved:
  assumes "list_all (raiiKnown (i_interner x)) locals"
    and "map (\<lambda>l. (resolve (i_interner x) (sTypeName l), resolve (i_interner x) (sVarName l),
        resolve (i_interner x) (sDeclLocation l), sKind l)) locals =
      map (\<lambda>l. (typeName l, varName l, declLocation l, raiiKind l)) ls"
  shows "map (raiiOf x) locals = ls"
  using assms
proof (induction locals arbitrary: ls)
  case (Cons l locals)
  then show ?case
    by (cases ls) (auto simp: raiiOf_def stringOf_def raiiKnown_def)
qed simp

lemma stringOf_findId: "interner_wf (i_interner x) \<Longrightarrow> findId (i_interner x) s = Some i \<Longrightarrow> stringOf x i = s"
  by (simp add: stringOf_def findId_iff)

lemma addCallSiteContext_spec:
  assumes wf: "cf_wf x" and small: "contextSmall ctx"
    and fits: "internerSize (i_interner (addCallSiteContext x ctx)) \<le> 2 ^ 32"
  shows "cf_wf (addCallSiteContext x ctx)"
    and "allContexts (addCallSiteContext x ctx) = allContexts x @ [normalForm ctx]"
proof -
  have "interner_wf (i_interner x)" using wf by (simp add: cf_wf_def tables_ok_def)
  then obtain cd rd c r s tu locals it x1 x2 x3 ss gs rs where
    g: "grows (i_interner x) it" and ids: "findId it (cxCalleeName (normalForm ctx)) = Some cd"
    "findId it (cxCallerName (normalForm ctx)) = Some rd" "findId it (cxCalleeUsr (normalForm ctx)) = Some c"
    "findId it (cxCallerUsr (normalForm ctx)) = Some r" "findId it (cxCallSite (normalForm ctx)) = Some s"
    and tu: "case tu of None \<Rightarrow> cxTuPath (normalForm ctx) = []
       | Some t \<Rightarrow> cxTuPath (normalForm ctx) \<noteq> [] \<and> findId it (cxTuPath (normalForm ctx)) = Some t"
    and k: "list_all (raiiKnown it) locals"
    and res: "map (\<lambda>l. (resolve it (sTypeName l), resolve it (sVarName l), resolve it (sDeclLocation l), sKind l)) locals =
       map (\<lambda>l. (typeName l, varName l, declLocation l, raiiKind l)) (liveRaiiLocals (normalForm ctx))"
    and 1: "internScopeSet (x\<lparr>i_interner := it\<rparr>) (scopeSetKey (enclosingTryCatches (normalForm ctx)))
       (enclosingTryCatches (normalForm ctx)) = (ss, x1)"
    and 2: "internGuardSet x1 (guardSetKey (enclosingGuards (normalForm ctx))) (enclosingGuards (normalForm ctx)) = (gs, x2)"
    and 3: "internRaiiSet x2 (raiiSetKey locals) locals = (rs, x3)"
    and y: "addCallSiteContext x ctx = insertStored x3 \<lparr>scCaller = r, scCallee = c, scCallerDisplay = rd,
       scCalleeDisplay = cd, scSite = s, scTuPath = tu, scScopeSet = ss, scGuardSet = gs, scRaiiSet = rs,
       scNoexcept = callerNoexcept ctx, scInsideCatch = insideCatchBlock ctx, scLive = True\<rparr> True"
    by (rule addCallSiteContext_run)
  have it: "i_interner x1 = it" "i_interner x2 = it" "i_interner x3 = it"
    using 1 2 3 by (auto simp: internScopeSet_def internGuardSet_def internRaiiSet_def split: prod.splits)
  have sz: "internerSize it \<le> 2 ^ 32" using fits by (simp add: y it)
  let ?x0 = "x\<lparr>i_interner := it\<rparr>"
  have 0: "tables_ok ?x0" "extends x ?x0"
    using wf extends_interner [OF _ g sz] by (auto simp: cf_wf_def)
  have small': "list_all scopeSmall (enclosingTryCatches (normalForm ctx))"
    "list_all guardSmall (enclosingGuards (normalForm ctx))"
    using small by (simp_all add: contextSmall_def normalForm_def Let_def)
  note s1 = internScopeSet_spec [OF 0(1) small'(1) 1]
  have t1: "tables_ok x1" using s1 by simp
  note s2 = internGuardSet_spec [OF t1 small'(2) 2]
  have t2: "tables_ok x2" using s2 by simp
  note s3 = internRaiiSet_spec [OF t2 _ 3]
  have s3': "tables_ok x3" "extends x2 x3" "rs < length (i_raiiSets x3)" "i_raiiSets x3 ! rs = locals"
    using s3 k by (simp_all add: it)
  have e: "extends x1 x3" "extends x x3"
    using 0(2) s1 s2 s3'(2) cfExtends_trans by blast+
  have sets: "ss < length (i_scopeSets x3)" "i_scopeSets x3 ! ss = enclosingTryCatches (normalForm ctx)"
    "gs < length (i_guardSets x3)" "i_guardSets x3 ! gs = enclosingGuards (normalForm ctx)"
    using s1 s2 extends_sets(1) [OF e(1)] extends_sets(2) [OF s3'(2)] by auto
  have w3: "interner_wf (i_interner x3)" using s3'(1) by (simp add: tables_ok_def)
  have wf3: "cf_wf x3" using e(2) s3'(1) wf by (rule extends_wf)
  let ?se = "\<lparr>scCaller = r, scCallee = c, scCallerDisplay = rd,
       scCalleeDisplay = cd, scSite = s, scTuPath = tu, scScopeSet = ss, scGuardSet = gs, scRaiiSet = rs,
       scNoexcept = callerNoexcept ctx, scInsideCatch = insideCatchBlock ctx, scLive = True\<rparr>"
  have known: "findId it u = Some i \<Longrightarrow> i < internerSize it \<and> resolve it i = u" for u i
    using w3 by (simp add: it findId_iff)
  have "t < internerSize it \<and> resolve it t \<noteq> []" if "tu = Some t" for t
    using tu that known [of "cxTuPath (normalForm ctx)" t] by simp
  then have ok: "ctx_ok x3 ?se"
    using known [OF ids(1)] known [OF ids(2)] known [OF ids(3)] known [OF ids(4)] known [OF ids(5)] sets s3'(3)
    by (simp add: ctx_ok_def it)
  have str: "stringOf x3 i = u" if "findId it u = Some i" for u i
    using stringOf_findId [OF w3] that by (simp add: it)
  have "materializeCtx x3 ?se = normalForm ctx"
    using tu sets s3'(4) raiiOf_resolved [of x3 locals] k res
    by (auto simp: materializeCtx_def it str [OF ids(1)] str [OF ids(2)] str [OF ids(3)] str [OF ids(4)] str [OF ids(5)]
        normalForm_def Let_def contextText_def str split: option.splits)
  with insertStored_spec [OF wf3 ok] extends_allContexts [OF e(2) wf]
  show "cf_wf (addCallSiteContext x ctx)" "allContexts (addCallSiteContext x ctx) = allContexts x @ [normalForm ctx]"
    by (simp_all add: y)
qed

section \<open>Shard merge\<close>

text \<open>Interning a list of sets: each set is found at its index in the final tables.\<close>

definition interns :: "(cf_index \<Rightarrow> 'a list \<Rightarrow> nat \<times> cf_index) \<Rightarrow> (cf_index \<Rightarrow> bool) \<Rightarrow> (cf_index \<Rightarrow> 'a list \<Rightarrow> bool) \<Rightarrow>
    (cf_index \<Rightarrow> nat \<Rightarrow> 'a list \<Rightarrow> bool) \<Rightarrow> bool" where
  "interns f P Q R \<longleftrightarrow>
     (\<forall>x s i y. P x \<longrightarrow> Q x s \<longrightarrow> f x s = (i, y) \<longrightarrow> P y \<and> extends x y \<and> R y i s) \<and>
     (\<forall>x y s. Q x s \<longrightarrow> extends x y \<longrightarrow> Q y s) \<and>
     (\<forall>x y i s. R x i s \<longrightarrow> extends x y \<longrightarrow> R y i s) \<and> (\<forall>x. P x \<longrightarrow> tables_ok x)"

lemma internSets_spec:
  assumes f: "interns f P Q R"
  shows "P x \<Longrightarrow> \<forall>s \<in> set ss. Q x s \<Longrightarrow> internSets f x ss = (is, y) \<Longrightarrow>
    P y \<and> extends x y \<and> length is = length ss \<and> (\<forall>k < length ss. R y (is ! k) (ss ! k))"
proof (induction ss arbitrary: x "is")
  case Nil
  with f show ?case by (auto simp: interns_def cfExtends_refl)
next
  case (Cons s ss)
  obtain i x1 where 1: "f x s = (i, x1)" by fastforce
  obtain js where 2: "internSets f x1 ss = (js, y)" and js: "is = i # js"
    using Cons.prems(3) 1 by (auto split: prod.splits)
  have s: "P x1" "extends x x1" "R x1 i s"
    using f Cons.prems(1,2) 1 unfolding interns_def by (meson list.set_intros(1))+
  have "\<forall>s \<in> set ss. Q x1 s"
    using f Cons.prems(2) s(2) unfolding interns_def by (meson list.set_intros(2))
  from Cons.IH [OF s(1) this 2]
  have IH: "P y" "extends x1 y" "length js = length ss" "\<forall>k < length ss. R y (js ! k) (ss ! k)" by simp_all
  moreover have "extends x y" using s(2) IH(2) by (rule cfExtends_trans)
  moreover have "R y i s" using f s(3) IH(2) unfolding interns_def by blast
  ultimately show ?case by (auto simp: js nth_Cons split: nat.split)
qed

definition at_scope :: "cf_index \<Rightarrow> nat \<Rightarrow> TryCatchScope list \<Rightarrow> bool" where
  "at_scope y i s \<longleftrightarrow> i < length (i_scopeSets y) \<and> i_scopeSets y ! i = s"

definition at_guard :: "cf_index \<Rightarrow> nat \<Rightarrow> ConditionalGuard list \<Rightarrow> bool" where
  "at_guard y i s \<longleftrightarrow> i < length (i_guardSets y) \<and> i_guardSets y ! i = s"

definition at_raii :: "cf_index \<Rightarrow> nat \<Rightarrow> StoredRaiiLocal list \<Rightarrow> bool" where
  "at_raii y i s \<longleftrightarrow> i < length (i_raiiSets y) \<and> i_raiiSets y ! i = s"

lemma at_extends:
  assumes "extends x y"
  shows "at_scope x i s \<Longrightarrow> at_scope y i s" "at_guard x i g \<Longrightarrow> at_guard y i g"
  using assms extends_sets(1,2) [OF assms, of i] by (simp_all add: at_scope_def at_guard_def)

lemma interns_scopes:
  "interns (\<lambda>x s. internScopeSet x (scopeSetKey s) s) tables_ok (\<lambda>_. list_all scopeSmall) at_scope"
  unfolding interns_def at_scope_def using internScopeSet_spec extends_sets(1) by fastforce

lemma interns_guards:
  "interns (\<lambda>x s. internGuardSet x (guardSetKey s) s) tables_ok (\<lambda>_. list_all guardSmall) at_guard"
  unfolding interns_def at_guard_def using internGuardSet_spec extends_sets(2) by fastforce

lemma raiiKnown_extends:
  "extends x y \<Longrightarrow> list_all (raiiKnown (i_interner x)) s \<Longrightarrow> list_all (raiiKnown (i_interner y)) s"
  by (fastforce simp: extends_def grows_def list_all_iff raiiKnown_def)

lemma interns_raii:
  "interns (\<lambda>x s. let locals = map (remapLocal remap) s in internRaiiSet x (raiiSetKey locals) locals) tables_ok
     (\<lambda>x s. list_all (raiiKnown (i_interner x)) (map (remapLocal remap) s))
     (\<lambda>y i s. at_raii y i (map (remapLocal remap) s))"
  unfolding interns_def at_raii_def Let_def
proof (intro conjI allI impI)
  fix x s i y
  assume "tables_ok x" "list_all (raiiKnown (i_interner x)) (map (remapLocal remap) s)"
    "internRaiiSet x (raiiSetKey (map (remapLocal remap) s)) (map (remapLocal remap) s) = (i, y)"
  note r = internRaiiSet_spec [OF this]
  then show "tables_ok y" "extends x y" "i < length (i_raiiSets y)" "i_raiiSets y ! i = map (remapLocal remap) s"
    by simp_all
next
  fix x y s
  assume "list_all (raiiKnown (i_interner x)) (map (remapLocal remap) s)" "extends x y"
  then show "list_all (raiiKnown (i_interner y)) (map (remapLocal remap) s)" using raiiKnown_extends by blast
qed (use extends_sets(3) in auto)

text \<open>The merged tables hold each set of the shard under its new index; index 0 stays the empty set.\<close>

lemma remapped_sets:
  assumes ok: "sets_ok enc valid sets ids" and "length is = length (tl sets)"
    and "\<forall>k < length (tl sets). R (is ! k) (tl sets ! k)" and "R 0 []" and "i < length sets"
  shows "R ((0 # is) ! i) (sets ! i)"
proof (cases i)
  case 0
  moreover have "sets ! 0 = []" using ok by (cases sets) (simp_all add: sets_ok_def)
  ultimately show ?thesis using assms(4) by simp
next
  case (Suc k)
  with assms show ?thesis by (cases sets) simp_all
qed

lemma empty_sets:
  assumes "tables_ok x"
  shows "at_scope x 0 []" "at_guard x 0 []" "at_raii x 0 []"
  using assms by (auto simp: tables_ok_def sets_ok_def at_scope_def at_guard_def at_raii_def hd_conv_nth)

definition remapOk :: "cf_index \<Rightarrow> cf_index \<Rightarrow> sid list \<Rightarrow> nat list \<Rightarrow> nat list \<Rightarrow> nat list \<Rightarrow> bool" where
  "remapOk sh y remap sm gm rm \<longleftrightarrow>
     (\<forall>k < internerSize (i_interner sh). remap ! k < internerSize (i_interner y) \<and>
        resolve (i_interner y) (remap ! k) = resolve (i_interner sh) k) \<and>
     (\<forall>i < length (i_scopeSets sh). at_scope y (sm ! i) (i_scopeSets sh ! i)) \<and>
     (\<forall>i < length (i_guardSets sh). at_guard y (gm ! i) (i_guardSets sh ! i)) \<and>
     (\<forall>i < length (i_raiiSets sh). at_raii y (rm ! i) (map (remapLocal remap) (i_raiiSets sh ! i)))"

lemma remapContext_spec:
  assumes m: "remapOk sh y remap sm gm rm" and c: "ctx_ok sh se" and t: "tables_ok sh"
  shows "ctx_ok y (remapContext remap sm gm rm se)"
    and "materializeCtx y (remapContext remap sm gm rm se) = materializeCtx sh se"
proof -
  have id: "remap ! k < internerSize (i_interner y)" "resolve (i_interner y) (remap ! k) = resolve (i_interner sh) k"
    "stringOf y (remap ! k) = stringOf sh k" if "k < internerSize (i_interner sh)" for k
    using m that by (auto simp: remapOk_def stringOf_def)
  have sets: "at_scope y (sm ! scScopeSet se) (i_scopeSets sh ! scScopeSet se)"
    "at_guard y (gm ! scGuardSet se) (i_guardSets sh ! scGuardSet se)"
    "at_raii y (rm ! scRaiiSet se) (map (remapLocal remap) (i_raiiSets sh ! scRaiiSet se))"
    using m c by (auto simp: remapOk_def ctx_ok_def)
  show "ctx_ok y (remapContext remap sm gm rm se)"
    using c sets id by (auto simp: ctx_ok_def remapContext_def at_scope_def at_guard_def at_raii_def)
  have "list_all (raiiKnown (i_interner sh)) (i_raiiSets sh ! scRaiiSet se)"
    using t c by (simp add: tables_ok_def ctx_ok_def)
  then have "map (raiiOf y) (map (remapLocal remap) (i_raiiSets sh ! scRaiiSet se)) =
      map (raiiOf sh) (i_raiiSets sh ! scRaiiSet se)"
    by (auto simp: list_all_iff raiiKnown_def raiiOf_def remapLocal_def id)
  with c sets id show "materializeCtx y (remapContext remap sm gm rm se) = materializeCtx sh se"
    by (auto simp: materializeCtx_def remapContext_def ctx_ok_def at_scope_def at_guard_def at_raii_def
        split: option.split)
qed

lemma fold_insertStored:
  assumes "cf_wf y" and "\<forall>se \<in> set cs. scLive se \<longrightarrow> ctx_ok y (f se) \<and> scLive (f se)"
  shows "cf_wf (fold (\<lambda>se x. if scLive se then insertStored x (f se) True else x) cs y) \<and>
    allContexts (fold (\<lambda>se x. if scLive se then insertStored x (f se) True else x) cs y) =
      allContexts y @ map (\<lambda>se. materializeCtx y (f se)) (filter scLive cs)"
  using assms
proof (induction cs arbitrary: y)
  case (Cons se cs)
  show ?case
  proof (cases "scLive se")
    case True
    let ?y = "insertStored y (f se) True"
    have y: "cf_wf ?y" "allContexts ?y = allContexts y @ [materializeCtx y (f se)]"
      using Cons.prems True by (simp_all add: insertStored_spec)
    have "\<forall>se \<in> set cs. scLive se \<longrightarrow> ctx_ok ?y (f se) \<and> scLive (f se)"
      using Cons.prems(2) by (simp add: insertStored_tables)
    from Cons.IH [OF y(1) this] y(2) True show ?thesis by (simp add: insertStored_tables)
  next
    case False
    with Cons show ?thesis by simp
  qed
qed simp

lemma absorbIndex_run:
  assumes wf: "cf_wf x" "cf_wf sh" and fits: "internerSize (i_interner (absorbIndex x sh)) \<le> 2 ^ 32"
  obtains y remap sm gm rm where "extends x y" "tables_ok y" "remapOk sh y remap sm gm rm"
    "absorbIndex x sh = fold (\<lambda>se x. if scLive se then insertStored x (remapContext remap sm gm rm se) True else x)
       (i_contexts sh) y"
proof -
  obtain remap it where 1: "intern_all intern (i_interner x) (strings (i_interner sh)) = (remap, it)" by fastforce
  let ?x0 = "x\<lparr>i_interner := it\<rparr>"
  obtain ss x1 where 2: "internSets (\<lambda>x s. internScopeSet x (scopeSetKey s) s) ?x0 (tl (i_scopeSets sh)) = (ss, x1)"
    by fastforce
  obtain gs x2 where 3: "internSets (\<lambda>x s. internGuardSet x (guardSetKey s) s) x1 (tl (i_guardSets sh)) = (gs, x2)"
    by fastforce
  obtain rs x3 where 4: "internSets (\<lambda>x s. let locals = map (remapLocal remap) s
      in internRaiiSet x (raiiSetKey locals) locals) x2 (tl (i_raiiSets sh)) = (rs, x3)"
    by fastforce
  let ?sm = "0 # ss" and ?gm = "0 # gs" and ?rm = "0 # rs"
  have run: "absorbIndex x sh = fold (\<lambda>se x. if scLive se
      then insertStored x (remapContext remap ?sm ?gm ?rm se) True else x) (i_contexts sh) x3"
    unfolding absorbIndex_def 1 prod.case Let_def 2 3 4 [unfolded Let_def] by (rule refl)
  have T: "tables_ok x" "tables_ok sh" using wf by (simp_all add: cf_wf_def)
  then have W: "interner_wf (i_interner x)" "interner_wf (i_interner sh)" by (simp_all add: tables_ok_def)
  have g: "grows (i_interner x) it" using W(1) 1 by (rule grows_intern_all)
  have f: "i_interner (fold (\<lambda>se x. if scLive se then insertStored x (g se) True else x) cs z) = i_interner z" for g and cs :: "StoredContext list" and z
    by (induction cs arbitrary: z) simp_all
  have i1: "i_interner y = i_interner z" if "internSets (\<lambda>x s. internScopeSet x (scopeSetKey s) s) z as = (js, y)" for y z as js
    using that by (induction as arbitrary: z js) (auto simp: internScopeSet_def split: prod.splits)
  have i2: "i_interner y = i_interner z" if "internSets (\<lambda>x s. internGuardSet x (guardSetKey s) s) z as = (js, y)" for y z as js
    using that by (induction as arbitrary: z js) (auto simp: internGuardSet_def split: prod.splits)
  have i3: "i_interner y = i_interner z" if "internSets (\<lambda>x s. let locals = map (remapLocal remap) s
      in internRaiiSet x (raiiSetKey locals) locals) z as = (js, y)" for y z as js
    using that by (induction as arbitrary: z js) (auto simp: internRaiiSet_def Let_def split: prod.splits)
  have it: "i_interner x1 = it" "i_interner x2 = it" "i_interner x3 = it"
    using i1 [OF 2] i2 [OF 3] i3 [OF 4] by simp_all
  have sz: "internerSize it \<le> 2 ^ 32" using fits by (simp add: run f it)
  note x0 = extends_interner [OF T(1) g sz]
  have small: "\<forall>s \<in> set (tl (i_scopeSets sh)). list_all scopeSmall s" "\<forall>s \<in> set (tl (i_guardSets sh)). list_all guardSmall s"
    using T(2) by (auto simp: tables_ok_def sets_ok_def in_set_conv_nth nth_tl)
  note s1 = internSets_spec [OF interns_scopes x0(1) small(1) 2]
  have t1: "tables_ok x1" using s1 by simp
  note s2 = internSets_spec [OF interns_guards t1 small(2) 3]
  have t2: "tables_ok x2" using s2 by simp
  have re: "length remap = internerSize (i_interner sh)"
    "\<forall>k < internerSize (i_interner sh). remap ! k < internerSize it \<and> resolve it (remap ! k) = resolve (i_interner sh) k"
    using intern_all_strings [OF W 1] by simp_all
  have kn: "\<forall>s \<in> set (tl (i_raiiSets sh)). list_all (raiiKnown (i_interner x2)) (map (remapLocal remap) s)"
  proof
    fix s
    assume "s \<in> set (tl (i_raiiSets sh))"
    then have "s \<in> set (i_raiiSets sh)" by (cases "i_raiiSets sh") simp_all
    then have "list_all (raiiKnown (i_interner sh)) s" using T(2) by (simp add: tables_ok_def)
    then show "list_all (raiiKnown (i_interner x2)) (map (remapLocal remap) s)"
      using re(2) by (simp add: it list_all_iff raiiKnown_def remapLocal_def)
  qed
  note s3 = internSets_spec [OF interns_raii t2 kn 4]
  have t3: "tables_ok x3" using s3 by simp
  have e3: "extends x2 x3" and "extends x1 x2" and e0: "extends ?x0 x1" using s1 s2 s3 by simp_all
  then have e2: "extends x1 x3" by (intro cfExtends_trans [of x1 x2 x3])
  have e: "extends x x3" "extends x1 x3" "extends x2 x3"
    using cfExtends_trans [OF cfExtends_trans [OF x0(2) e0] e2] e2 e3 .
  have len: "length ss = length (tl (i_scopeSets sh))" "length gs = length (tl (i_guardSets sh))"
    "length rs = length (tl (i_raiiSets sh))"
    using s1 s2 s3 by simp_all
  have S: "sets_ok scopeKey scopeSmall (i_scopeSets sh) (i_scopeSetIds sh)"
    "sets_ok guardKey guardSmall (i_guardSets sh) (i_guardSetIds sh)"
    "sets_ok raiiKey raiiSmall (i_raiiSets sh) (i_raiiSetIds sh)"
    using T(2) by (simp_all add: tables_ok_def)
  have "\<forall>k < length (tl (i_scopeSets sh)). at_scope x3 (ss ! k) (tl (i_scopeSets sh) ! k)"
    using s1 at_extends(1) [OF e(2)] by simp
  note r1 = remapped_sets [of _ _ _ _ _ "at_scope x3", OF S(1) len(1) this empty_sets(1) [OF t3]]
  have "\<forall>k < length (tl (i_guardSets sh)). at_guard x3 (gs ! k) (tl (i_guardSets sh) ! k)"
    using s2 at_extends(2) [OF e(3)] by simp
  note r2 = remapped_sets [of _ _ _ _ _ "at_guard x3", OF S(2) len(2) this empty_sets(2) [OF t3]]
  have z: "at_raii x3 0 (map (remapLocal remap) [])" using empty_sets(3) [OF t3] by simp
  have "\<forall>k < length (tl (i_raiiSets sh)). at_raii x3 (rs ! k) (map (remapLocal remap) (tl (i_raiiSets sh) ! k))"
    using s3 by simp
  note r3 = remapped_sets [of _ _ _ _ _ "\<lambda>i s. at_raii x3 i (map (remapLocal remap) s)", OF S(3) len(3) this z]
  have "remapOk sh x3 remap ?sm ?gm ?rm"
    unfolding remapOk_def it using re(2) r1 r2 r3 by blast
  with e(1) t3 run show ?thesis by (intro that)
qed

lemma absorbIndex_spec:
  assumes "cf_wf x" and "cf_wf sh" and "internerSize (i_interner (absorbIndex x sh)) \<le> 2 ^ 32"
  shows "cf_wf (absorbIndex x sh)" and "allContexts (absorbIndex x sh) = allContexts x @ allContexts sh"
proof -
  obtain y remap sm gm rm where y: "extends x y" "tables_ok y" and m: "remapOk sh y remap sm gm rm"
    and run: "absorbIndex x sh = fold (\<lambda>se x. if scLive se then insertStored x (remapContext remap sm gm rm se) True else x)
       (i_contexts sh) y"
    using absorbIndex_run [OF assms] .
  have sh: "tables_ok sh" "\<forall>se \<in> set (i_contexts sh). ctx_ok sh se" using assms(2) by (simp_all add: cf_wf_def)
  have "cf_wf y" using y assms(1) by (simp add: extends_wf)
  moreover have "\<forall>se \<in> set (i_contexts sh). scLive se \<longrightarrow> ctx_ok y (remapContext remap sm gm rm se) \<and>
      scLive (remapContext remap sm gm rm se)"
    using sh(2) remapContext_spec(1) [OF m _ sh(1)] by (simp add: remapContext_def)
  moreover have "map (\<lambda>se. materializeCtx y (remapContext remap sm gm rm se)) (filter scLive (i_contexts sh)) = allContexts sh"
    using sh(2) remapContext_spec(2) [OF m _ sh(1)] by (simp add: allContexts_def)
  ultimately show "cf_wf (absorbIndex x sh)" "allContexts (absorbIndex x sh) = allContexts x @ allContexts sh"
    using fold_insertStored [of y "i_contexts sh" "remapContext remap sm gm rm"] extends_allContexts [OF y(1) assms(1)]
    by (simp_all add: run)
qed

end
