(* ===== verification/ControlFlowRemove.thy ===== *)
theory ControlFlowRemove
  imports ControlFlowMerge
begin

text \<open>
  Removal of translation units and compaction: which contexts go, and that the lookup maps follow.
\<close>

section \<open>Tombstones\<close>

definition killed :: "StoredContext list \<Rightarrow> nat set \<Rightarrow> StoredContext list" where
  "killed cs D = map (\<lambda>i. if i \<in> D then (cs ! i)\<lparr>scLive := False\<rparr> else cs ! i) [0..<length cs]"

lemma ctx_ok_live [simp]: "ctx_ok x (se\<lparr>scLive := b\<rparr>) = ctx_ok x se"
  by (simp add: ctx_ok_def)

lemma length_killed [simp]: "length (killed cs D) = length cs"
  by (simp add: killed_def)

lemma nth_killed [simp]:
  "i < length cs \<Longrightarrow> killed cs D ! i = (if i \<in> D then (cs ! i)\<lparr>scLive := False\<rparr> else cs ! i)"
  by (simp add: killed_def)

lemma killed_empty [simp]: "killed cs {} = cs"
  by (simp add: list_eq_iff_nth_eq)

lemma killed_insert:
  "i < length cs \<Longrightarrow> (killed cs D)[i := (killed cs D ! i)\<lparr>scLive := False\<rparr>] = killed cs (insert i D)"
  by (auto simp: list_eq_iff_nth_eq nth_list_update)

lemma positions_killed:
  assumes "\<And>se. P (se\<lparr>scLive := False\<rparr>) = P se"
  shows "positions (\<lambda>se. scLive se \<and> P se) (killed cs D) =
    filter (\<lambda>i. i \<notin> D) (positions (\<lambda>se. scLive se \<and> P se) cs)"
proof -
  have "filter (\<lambda>i. scLive (killed cs D ! i) \<and> P (killed cs D ! i)) [0..<length cs] =
      filter (\<lambda>i. (scLive (cs ! i) \<and> P (cs ! i)) \<and> i \<notin> D) [0..<length cs]"
    using assms by (intro filter_cong) auto
  then show ?thesis by (simp add: positions_def conj_commute)
qed

text \<open>The state of the first loop after tombstoning the positions \<open>rm_dead\<close>.\<close>

definition rm_ok :: "cf_index \<Rightarrow> remove_state \<Rightarrow> bool" where
  "rm_ok x r \<longleftrightarrow> (let cs = i_contexts x; D = set (rm_dead r) in
     rm_index r = x\<lparr>i_contexts := killed cs D, i_liveCount := i_liveCount x - length (rm_dead r)\<rparr> \<and>
     distinct (rm_dead r) \<and> (\<forall>i \<in> D. i < length cs \<and> scLive (cs ! i)) \<and> rm_removed r = length (rm_dead r) \<and>
     (\<forall>i \<in> D. scCallee (cs ! i) \<in> set (rm_callees r) \<and> scCaller (cs ! i) \<in> set (rm_callers r) \<and>
        scSite (cs ! i) \<in> set (rm_sites r) \<and>
        (\<forall>k. calleeDisplaySel (cs ! i) = Some k \<longrightarrow> k \<in> set (rm_calleeDisplays r)) \<and>
        (\<forall>k. callerDisplaySel (cs ! i) = Some k \<longrightarrow> k \<in> set (rm_callerDisplays r))))"

lemma tombstone_ok:
  assumes r: "rm_ok x r" and i: "i < length (i_contexts x)"
    and a: "\<And>se. admitted (se\<lparr>scLive := False\<rparr>) = admitted se"
  shows "rm_ok x (tombstone admitted i r)"
    and "set (rm_dead (tombstone admitted i r)) = set (rm_dead r) \<union>
      {j. j = i \<and> scLive (i_contexts x ! i) \<and> admitted (i_contexts x ! i)}"
proof -
  let ?cs = "i_contexts x" and ?D = "set (rm_dead r)"
  have cs: "i_contexts (rm_index r) = killed ?cs ?D" using r by (simp add: rm_ok_def Let_def)
  have D: "j < length ?cs \<and> scLive (?cs ! j)" if "j \<in> ?D" for j using r that by (simp add: rm_ok_def Let_def)
  have "rm_ok x (tombstone admitted i r) \<and> set (rm_dead (tombstone admitted i r)) = ?D \<union>
      {j. j = i \<and> scLive (?cs ! i) \<and> admitted (?cs ! i)}"
  proof (cases "scLive (?cs ! i) \<and> i \<notin> ?D \<and> admitted (?cs ! i)")
    case False
    then have "tombstone admitted i r = r" using i by (auto simp: tombstone_def Let_def cs)
    with r False show ?thesis by (auto simp: rm_ok_def Let_def)
  next
    case True
    then have k: "killed ?cs ?D ! i = ?cs ! i" using i by simp
    have d: "rm_dead (tombstone admitted i r) = rm_dead r @ [i]"
      using True by (simp add: tombstone_def Let_def cs k add_new_def)
    have x: "rm_index (tombstone admitted i r) =
        x\<lparr>i_contexts := killed ?cs (insert i ?D), i_liveCount := i_liveCount x - Suc (length (rm_dead r))\<rparr>"
      using True r killed_insert [OF i, of ?D] by (simp add: tombstone_def Let_def rm_ok_def k)
    have sel: "set (rm_callees (tombstone admitted i r)) = insert (scCallee (?cs ! i)) (set (rm_callees r))"
      "set (rm_callers (tombstone admitted i r)) = insert (scCaller (?cs ! i)) (set (rm_callers r))"
      "set (rm_sites (tombstone admitted i r)) = insert (scSite (?cs ! i)) (set (rm_sites r))"
      "set (rm_calleeDisplays (tombstone admitted i r)) = set_option (calleeDisplaySel (?cs ! i)) \<union> set (rm_calleeDisplays r)"
      "set (rm_callerDisplays (tombstone admitted i r)) = set_option (callerDisplaySel (?cs ! i)) \<union> set (rm_callerDisplays r)"
      "rm_removed (tombstone admitted i r) = rm_removed r + 1"
      using True by (simp_all add: tombstone_def Let_def cs k calleeDisplaySel_def callerDisplaySel_def)
    have "rm_ok x (tombstone admitted i r)"
      using r True i unfolding rm_ok_def Let_def x d sel by simp
    with True d show ?thesis by auto
  qed
  then show "rm_ok x (tombstone admitted i r)"
    "set (rm_dead (tombstone admitted i r)) = ?D \<union> {j. j = i \<and> scLive (?cs ! i) \<and> admitted (?cs ! i)}"
    by simp_all
qed

lemma tombstones_ok:
  assumes a: "\<And>se. admitted (se\<lparr>scLive := False\<rparr>) = admitted se"
  shows "rm_ok x r \<Longrightarrow> \<forall>i \<in> set is. i < length (i_contexts x) \<Longrightarrow> rm_ok x (fold (tombstone admitted) is r) \<and>
    set (rm_dead (fold (tombstone admitted) is r)) = set (rm_dead r) \<union>
      {i \<in> set is. scLive (i_contexts x ! i) \<and> admitted (i_contexts x ! i)}"
proof (induction "is" arbitrary: r)
  case (Cons i "is")
  have i: "i < length (i_contexts x)" using Cons.prems(2) by simp
  note t = tombstone_ok [OF Cons.prems(1) i, of admitted, OF a]
  from Cons.IH [OF t(1)] Cons.prems(2) t(2) show ?case by auto
qed simp

section \<open>Scrubbing the maps\<close>

lemma um_get_scrubMap:
  "um_get (scrubMap dead ids m) k = (if k \<in> set ids then scrub dead (um_get m k) else um_get m k)"
proof (induction ids arbitrary: m)
  case (Cons i ids)
  then show ?case by (auto simp: scrubMap_def scrub_def)
qed (simp add: scrubMap_def)

lemma um_get_scrubSites:
  "um_get (scrubSites dead ids m) k = (if k \<in> set ids then scrub dead (um_get m k) else um_get m k)"
proof (induction ids arbitrary: m)
  case (Cons i ids)
  let ?m = "case map_of m i of None \<Rightarrow> m
    | Some v \<Rightarrow> if scrub dead v = [] then um_erase m i else um_put m i (scrub dead v)"
  have "um_get ?m k = (if k = i then scrub dead (um_get m k) else um_get m k)"
    by (simp add: scrub_def split: option.split)
  moreover have "scrubSites dead (i # ids) m = scrubSites dead ids ?m" by (simp add: scrubSites_def)
  ultimately show ?case using Cons [of ?m] by (auto simp: scrub_def)
qed (simp add: scrubSites_def)

lemma pos_ok_scrub:
  assumes p: "pos_ok cs sel m" and s: "\<And>se. sel (se\<lparr>scLive := False\<rparr>) = sel se"
    and g: "\<And>k. um_get m' k = (if k \<in> set ids then scrub dead (um_get m k) else um_get m k)"
    and ids: "\<And>i k. i \<in> set dead \<Longrightarrow> i < length cs \<Longrightarrow> sel (cs ! i) = Some k \<Longrightarrow> k \<in> set ids"
  shows "pos_ok (killed cs (set dead)) sel m'"
  unfolding pos_ok_def
proof
  fix k
  have "um_get m' k = scrub dead (um_get m k)"
  proof (cases "k \<in> set ids")
    case False
    then have "\<forall>i \<in> set (um_get m k). i \<notin> set dead"
      using p ids by (auto simp: pos_ok_def set_positions)
    then show ?thesis using g [of k] False by (simp add: scrub_def)
  qed (simp add: g)
  moreover have "um_get m k = positions (\<lambda>se. scLive se \<and> sel se = Some k) cs"
    using p by (simp add: pos_ok_def)
  ultimately show "um_get m' k = positions (\<lambda>se. scLive se \<and> sel se = Some k) (killed cs (set dead))"
    using positions_killed [of "\<lambda>se. sel se = Some k" cs "set dead"] s by (simp add: scrub_def)
qed

section \<open>Removal\<close>

text \<open>Whether a stored context belongs to one of the units.\<close>

definition ofUnits :: "cf_index \<Rightarrow> string list \<Rightarrow> StoredContext \<Rightarrow> bool" where
  "ofUnits x texts se = (case scTuPath se of
      Some t \<Rightarrow> resolve (i_interner x) t \<in> set texts
    | None \<Rightarrow> fromRemovedTu x (map (\<lambda>t. t @ '':'') texts) se)"

definition fromUnits :: "string list \<Rightarrow> CallSiteContext \<Rightarrow> bool" where
  "fromUnits ps ctx \<longleftrightarrow> (if cxTuPath ctx \<noteq> [] then cxTuPath ctx \<in> toIndexText ` set ps
     else \<exists>p \<in> set ps. isPrefixOf (toIndexText p @ '':'') (cxCallSite ctx))"

lemma set_tuTexts [simp]: "set (tuTexts ps) = toIndexText ` set ps"
  by (simp add: tuTexts_def)

lemma ofUnits_materialize:
  "ctx_ok x se \<Longrightarrow> fromUnits ps (materializeCtx x se) = ofUnits x (tuTexts ps) se"
  by (auto simp: ctx_ok_def fromUnits_def ofUnits_def materializeCtx_def stringOf_def fromRemovedTu_def
      list_ex_iff split: option.split)

lemma fold_um_erase:
  "um_get (fold (\<lambda>t m. um_erase m t) ts m) k = (if k \<in> set ts then [] else um_get m k)"
  by (induction ts arbitrary: m) auto

lemma allContexts_killed:
  assumes "\<forall>se \<in> set (i_contexts x). ctx_ok x se" and "sameTables x y"
    and c: "i_contexts y = killed (i_contexts x) {i. i < length (i_contexts x) \<and> scLive (i_contexts x ! i) \<and> Q (i_contexts x ! i)}"
    and q: "\<And>se. se \<in> set (i_contexts x) \<Longrightarrow> Q se = F (materializeCtx x se)"
  shows "allContexts y = filter (\<lambda>ctx. \<not> F ctx) (allContexts x)"
proof -
  have "i_contexts y = map (\<lambda>se. if scLive se \<and> Q se then se\<lparr>scLive := False\<rparr> else se) (i_contexts x)"
    unfolding c by (simp add: list_eq_iff_nth_eq)
  moreover have "filter scLive (map (\<lambda>se. if scLive se \<and> Q se then se\<lparr>scLive := False\<rparr> else se) cs) =
      filter (\<lambda>se. scLive se \<and> \<not> Q se) cs" for cs
    by (induction cs) auto
  moreover have "filter (\<lambda>se. scLive se \<and> \<not> Q se) (i_contexts x) =
      filter (\<lambda>se. scLive se \<and> \<not> F (materializeCtx x se)) (i_contexts x)"
    using q by (intro filter_cong) auto
  ultimately show ?thesis
    by (simp add: allContexts_def sameTables_reads [OF assms(2)] filter_map comp_def conj_commute)
qed

lemma live_killed:
  assumes "distinct dead" and "\<forall>i \<in> set dead. i < length cs \<and> scLive (cs ! i)"
  shows "length (filter scLive (killed cs (set dead))) = length (filter scLive cs) - length dead"
proof -
  have len: "length (filter scLive ys) = length (positions (\<lambda>se. scLive se \<and> True) ys)"
    for ys :: "StoredContext list"
    using map_nth_positions [of ys scLive] by (simp flip: length_map [of "\<lambda>i. ys ! i"])
  have "positions (\<lambda>se. scLive se \<and> True) (killed cs (set dead)) =
      filter (\<lambda>i. i \<notin> set dead) (positions (\<lambda>se. scLive se \<and> True) cs)"
    by (rule positions_killed) simp
  moreover have "length (filter (\<lambda>i. i \<notin> set dead) ps) = length ps - length dead"
    if "distinct ps" "set dead \<subseteq> set ps" for ps
  proof -
    have "length (filter (\<lambda>i. i \<notin> set dead) ps) = card (set ps - set dead)"
      using that(1) by (simp add: distinct_card [symmetric] set_diff_eq Collect_conj_eq)
    with that assms(1) show ?thesis by (simp add: card_Diff_subset distinct_card)
  qed
  moreover have "distinct (positions (\<lambda>se. scLive se \<and> True) cs)" by (simp add: positions_def)
  moreover have "set dead \<subseteq> set (positions (\<lambda>se. scLive se \<and> True) cs)"
    using assms(2) by (auto simp: set_positions)
  ultimately show ?thesis by (simp add: len)
qed

lemma cfRemoveTUs_spec:
  assumes wf: "cf_wf x" and run: "cfRemoveTUs x ps = (n, y)"
  shows "cf_wf y" and "allContexts y = filter (\<lambda>ctx. \<not> fromUnits ps ctx) (allContexts x)"
    and "n = length (filter (fromUnits ps) (allContexts x))"
proof -
  let ?cs = "i_contexts x" and ?texts = "tuTexts ps" and ?it = "i_interner x"
  define tuIds where "tuIds = List.map_filter (findId ?it) ?texts"
  define r0 where "r0 = \<lparr>rm_index = x, rm_dead = [], rm_callees = [], rm_callers = [], rm_calleeDisplays = [],
     rm_callerDisplays = [], rm_sites = [], rm_removed = 0\<rparr>"
  define r1 where "r1 = fold (tombstone (\<lambda>_. True)) (concat (map (um_get (i_byTu x)) tuIds)) r0"
  define adm where "adm = fromRemovedTu x (map (\<lambda>t. t @ '':'') ?texts)"
  define r where "r = fold (tombstone adm) (i_noProvenance x) r1"
  let ?D = "set (rm_dead r)"
  have P: "positions_ok x" "tables_ok x" "\<forall>se \<in> set ?cs. ctx_ok x se" using wf by (simp_all add: cf_wf_def)
  have tu: "um_get (i_byTu x) t = positions (\<lambda>se. scLive se \<and> scTuPath se = Some t) ?cs" for t
    using P(1) by (simp add: positions_ok_def pos_ok_def)
  have np: "i_noProvenance x = positions (\<lambda>se. scLive se \<and> scTuPath se = None) ?cs"
    using P(1) by (simp add: positions_ok_def noProv_ok_def)
  have tuIds: "t \<in> set tuIds \<longleftrightarrow> t < internerSize ?it \<and> resolve ?it t \<in> set ?texts" for t
    using P(2) findId_iff [of ?it] by (auto simp: tuIds_def set_map_filter tables_ok_def)
  have adm: "adm (se\<lparr>scLive := False\<rparr>) = adm se" for se by (simp add: adm_def fromRemovedTu_def)
  have "rm_ok x r0" by (simp add: r0_def rm_ok_def)
  from tombstones_ok [of "\<lambda>_. True", OF _ this, of "concat (map (um_get (i_byTu x)) tuIds)"]
  have r1: "rm_ok x r1" "set (rm_dead r1) = {i. i < length ?cs \<and> scLive (?cs ! i) \<and> (\<exists>t \<in> set tuIds. scTuPath (?cs ! i) = Some t)}"
    unfolding r1_def by (auto simp: tu set_positions r0_def)
  from tombstones_ok [of adm, OF adm r1(1), of "i_noProvenance x"]
  have r: "rm_ok x r" "?D = set (rm_dead r1) \<union> {i. i < length ?cs \<and> scLive (?cs ! i) \<and> scTuPath (?cs ! i) = None \<and> adm (?cs ! i)}"
    unfolding r_def by (auto simp: np set_positions)
  have D: "?D = {i. i < length ?cs \<and> scLive (?cs ! i) \<and> ofUnits x ?texts (?cs ! i)}"
  proof -
    have "ofUnits x ?texts (?cs ! i) \<longleftrightarrow> (\<exists>t \<in> set tuIds. scTuPath (?cs ! i) = Some t) \<or> scTuPath (?cs ! i) = None \<and> adm (?cs ! i)"
      if "i < length ?cs" for i
      using P(3) that tuIds nth_mem [OF that] by (auto simp: ofUnits_def adm_def ctx_ok_def split: option.split)
    then show ?thesis by (auto simp: r(2) r1(2))
  qed
  have y: "n = rm_removed r" "y = (rm_index r)\<lparr>i_byCallee := scrubMap (rm_dead r) (rm_callees r) (i_byCallee (rm_index r)),
            i_byCaller := scrubMap (rm_dead r) (rm_callers r) (i_byCaller (rm_index r)),
            i_byCalleeDisplay := scrubMap (rm_dead r) (rm_calleeDisplays r) (i_byCalleeDisplay (rm_index r)),
            i_byCallerDisplay := scrubMap (rm_dead r) (rm_callerDisplays r) (i_byCallerDisplay (rm_index r)),
            i_bySite := scrubSites (rm_dead r) (rm_sites r) (i_bySite (rm_index r)),
            i_byTu := fold (\<lambda>t m. um_erase m t) tuIds (i_byTu (rm_index r)),
            i_noProvenance := (if rm_dead r \<noteq> [] then scrub (rm_dead r) (i_noProvenance (rm_index r)) else i_noProvenance (rm_index r))\<rparr>"
    using run unfolding cfRemoveTUs_def Let_def tuIds_def [symmetric] r0_def [symmetric] r1_def [symmetric]
      adm_def [symmetric] r_def [symmetric] by auto
  have R: "rm_index r = x\<lparr>i_contexts := killed ?cs ?D, i_liveCount := i_liveCount x - length (rm_dead r)\<rparr>"
    "distinct (rm_dead r)" "\<forall>i \<in> ?D. i < length ?cs \<and> scLive (?cs ! i)" "rm_removed r = length (rm_dead r)"
    "\<forall>i \<in> ?D. scCallee (?cs ! i) \<in> set (rm_callees r) \<and> scCaller (?cs ! i) \<in> set (rm_callers r) \<and>
        scSite (?cs ! i) \<in> set (rm_sites r) \<and>
        (\<forall>k. calleeDisplaySel (?cs ! i) = Some k \<longrightarrow> k \<in> set (rm_calleeDisplays r)) \<and>
        (\<forall>k. callerDisplaySel (?cs ! i) = Some k \<longrightarrow> k \<in> set (rm_callerDisplays r))"
    using r(1) by (simp_all add: rm_ok_def Let_def)
  have yc: "i_contexts y = killed ?cs ?D" "sameTables x y" by (simp_all add: y(2) R(1) sameTables_def)
  have "pos_ok (i_contexts y) (\<lambda>se. Some (scCallee se)) (i_byCallee y)"
    using P(1) R(5) unfolding yc
    by (intro pos_ok_scrub [of _ _ "i_byCallee x" _ "rm_callees r"]) (auto simp: positions_ok_def y(2) R(1) um_get_scrubMap)
  moreover have "pos_ok (i_contexts y) (\<lambda>se. Some (scCaller se)) (i_byCaller y)"
    using P(1) R(5) unfolding yc
    by (intro pos_ok_scrub [of _ _ "i_byCaller x" _ "rm_callers r"]) (auto simp: positions_ok_def y(2) R(1) um_get_scrubMap)
  moreover have "pos_ok (i_contexts y) calleeDisplaySel (i_byCalleeDisplay y)"
    using P(1) R(5) unfolding yc
    by (intro pos_ok_scrub [of _ _ "i_byCalleeDisplay x" _ "rm_calleeDisplays r"])
      (auto simp: positions_ok_def y(2) R(1) um_get_scrubMap, simp add: calleeDisplaySel_def)
  moreover have "pos_ok (i_contexts y) callerDisplaySel (i_byCallerDisplay y)"
    using P(1) R(5) unfolding yc
    by (intro pos_ok_scrub [of _ _ "i_byCallerDisplay x" _ "rm_callerDisplays r"])
      (auto simp: positions_ok_def y(2) R(1) um_get_scrubMap, simp add: callerDisplaySel_def)
  moreover have "pos_ok (i_contexts y) (\<lambda>se. Some (scSite se)) (i_bySite y)"
    using P(1) R(5) unfolding yc
    by (intro pos_ok_scrub [of _ _ "i_bySite x" _ "rm_sites r"]) (auto simp: positions_ok_def y(2) R(1) um_get_scrubSites)
  moreover have "pos_ok (i_contexts y) scTuPath (i_byTu y)"
  proof -
    have "scrub (rm_dead r) (um_get (i_byTu x) k) = []" if "k \<in> set tuIds" for k
      using that by (auto simp: scrub_def filter_empty_conv tu set_positions D ofUnits_def tuIds)
    moreover have "k \<in> set tuIds" if "i \<in> ?D" "i < length ?cs" "scTuPath (?cs ! i) = Some k" for i k
      using that P(3) nth_mem [OF that(2)] by (auto simp: D ofUnits_def tuIds ctx_ok_def)
    ultimately show ?thesis
      using P(1) unfolding yc
      by (intro pos_ok_scrub [of _ _ "i_byTu x" _ tuIds]) (auto simp: positions_ok_def y(2) R(1) fold_um_erase)
  qed
  moreover have "noProv_ok (i_contexts y) (i_noProvenance y)"
    using positions_killed [of "\<lambda>se. scTuPath se = None" ?cs ?D] unfolding yc
    by (auto simp: noProv_ok_def y(2) R(1) np scrub_def)
  moreover have "i_liveCount y = length (filter scLive (i_contexts y))"
    using P(1) live_killed [OF R(2,3)] unfolding yc by (simp add: y(2) R(1) positions_ok_def)
  ultimately have "positions_ok y" by (simp add: positions_ok_def)
  moreover have "\<forall>se \<in> set (i_contexts y). ctx_ok x se"
    using P(3) unfolding yc by (auto simp: killed_def)
  ultimately show "cf_wf y"
    using P(2) by (simp add: cf_wf_def sameTables_reads [OF yc(2)])
  have q: "ofUnits x ?texts se = fromUnits ps (materializeCtx x se)" if "se \<in> set ?cs" for se
    using P(3) that by (simp add: ofUnits_materialize)
  show "allContexts y = filter (\<lambda>ctx. \<not> fromUnits ps ctx) (allContexts x)"
    by (rule allContexts_killed [OF P(3) yc(2) yc(1) [unfolded D] q])
  have "length (rm_dead r) = card ?D" using R(2) by (simp add: distinct_card)
  also have "\<dots> = length (positions (\<lambda>se. scLive se \<and> ofUnits x ?texts se) ?cs)"
    unfolding D by (subst distinct_card [symmetric]) (simp_all add: positions_def)
  also have "\<dots> = length (filter (\<lambda>se. scLive se \<and> ofUnits x ?texts se) ?cs)"
    by (metis map_nth_positions length_map)
  also have "filter (\<lambda>se. scLive se \<and> ofUnits x ?texts se) ?cs =
      filter (\<lambda>se. scLive se \<and> fromUnits ps (materializeCtx x se)) ?cs"
    using q by (intro filter_cong) auto
  finally show "n = length (filter (fromUnits ps) (allContexts x))"
    by (simp add: y(1) R(4) allContexts_def filter_map comp_def conj_commute)
qed

section \<open>Compaction\<close>

lemma cfCompact_spec:
  assumes wf: "cf_wf x"
  shows "cf_wf (cfCompact x)" and "allContexts (cfCompact x) = allContexts x"
    and "\<forall>se \<in> set (i_contexts (cfCompact x)). scLive se"
proof -
  let ?x = "x\<lparr>i_contexts := [], i_byCallee := [], i_byCaller := [], i_byCalleeDisplay := [],
    i_byCallerDisplay := [], i_bySite := [], i_byTu := [], i_noProvenance := [], i_liveCount := 0\<rparr>"
  let ?f = "\<lambda>se y. if scLive se then insertStored y se True else y"
  have t: "sameTables x ?x" by (simp add: sameTables_def)
  have "cf_wf ?x"
    using wf by (simp add: cf_wf_def sameTables_reads [OF t] positions_ok_def pos_ok_def noProv_ok_def)
  moreover have "\<forall>se \<in> set (i_contexts x). scLive se \<longrightarrow> ctx_ok ?x se \<and> scLive se"
    using wf by (simp add: cf_wf_def sameTables_reads [OF t])
  ultimately have f': "cf_wf (fold ?f (i_contexts x) ?x) \<and> allContexts (fold ?f (i_contexts x) ?x) =
      allContexts ?x @ map (materializeCtx ?x) (filter scLive (i_contexts x))"
    by (rule fold_insertStored [of ?x "i_contexts x" "\<lambda>se. se"])
  have "allContexts ?x = []" by (simp add: allContexts_def)
  with f' have f: "cf_wf (fold ?f (i_contexts x) ?x)" "allContexts (fold ?f (i_contexts x) ?x) = allContexts x"
    unfolding sameTables_reads [OF t] allContexts_def [of x] by simp_all
  have c: "i_contexts (fold ?f cs y) = i_contexts y @ filter scLive cs" for cs y
    by (induction cs arbitrary: y) simp_all
  have ins: "insertStored (y\<lparr>i_liveCount := m\<rparr>) se True = (insertStored y se True)\<lparr>i_liveCount := m + 1\<rparr>" for y se m
    by (simp add: insertStored_def Let_def split del: if_split cong: if_cong option.case_cong)
  have l: "\<exists>m'. fold ?f cs (y\<lparr>i_liveCount := m\<rparr>) = (fold ?f cs y)\<lparr>i_liveCount := m'\<rparr>" for cs y m
  proof (induction cs arbitrary: y m)
    case (Cons se cs)
    show ?case
    proof (cases "scLive se")
      case True
      then show ?thesis using Cons.IH [where y = "insertStored y se True" and m = "m + 1"] by (simp add: ins)
    qed (use Cons.IH [where y = y and m = m] in simp)
  qed auto
  have "i_liveCount x = i_liveCount (fold ?f (i_contexts x) ?x)"
    using wf f(1) by (simp add: cf_wf_def positions_ok_def c)
  moreover have "cfCompact x = (fold ?f (i_contexts x) ?x)\<lparr>i_liveCount := i_liveCount x\<rparr>"
  proof -
    obtain m where "fold ?f (i_contexts x) (?x\<lparr>i_liveCount := i_liveCount x\<rparr>) =
        (fold ?f (i_contexts x) ?x)\<lparr>i_liveCount := m\<rparr>"
      using l by blast
    moreover have "cfCompact x = (fold ?f (i_contexts x) (?x\<lparr>i_liveCount := i_liveCount x\<rparr>))\<lparr>i_liveCount := i_liveCount x\<rparr>"
      by (simp add: cfCompact_def Let_def)
    ultimately show ?thesis by simp
  qed
  moreover have "y\<lparr>i_liveCount := i_liveCount y\<rparr> = y" for y :: cf_index by simp
  ultimately have "cfCompact x = fold ?f (i_contexts x) ?x" by (simp only:)
  then show "cf_wf (cfCompact x)" "allContexts (cfCompact x) = allContexts x"
    "\<forall>se \<in> set (i_contexts (cfCompact x)). scLive se"
    using f c by simp_all
qed

end
