(* ===== verification/ControlFlowProps.thy ===== *)
theory ControlFlowProps
  imports ControlFlowRemove
begin

text \<open>
  The control-flow index as an ordered list of contexts: \<open>context_store\<close> is the contract, the index
  is an instance, and the queries are filters of the list.
\<close>

section \<open>The contract\<close>

locale context_store =
  fixes ok :: "'x \<Rightarrow> bool" and fits :: "'x \<Rightarrow> bool" and small :: "'c \<Rightarrow> bool"
    and contents :: "'x \<Rightarrow> 'c list" and norm :: "'c \<Rightarrow> 'c" and from_units :: "'u list \<Rightarrow> 'c \<Rightarrow> bool"
    and add :: "'x \<Rightarrow> 'c \<Rightarrow> 'x" and merge :: "'x \<Rightarrow> 'x \<Rightarrow> 'x" and remove :: "'x \<Rightarrow> 'u list \<Rightarrow> nat \<times> 'x"
  assumes add: "ok x \<Longrightarrow> small c \<Longrightarrow> fits (add x c) \<Longrightarrow> ok (add x c) \<and> contents (add x c) = contents x @ [norm c]"
    and merge: "ok x \<Longrightarrow> ok y \<Longrightarrow> fits (merge x y) \<Longrightarrow> ok (merge x y) \<and> contents (merge x y) = contents x @ contents y"
    and remove: "ok x \<Longrightarrow> remove x us = (n, y) \<Longrightarrow> ok y \<and> contents y = filter (\<lambda>c. \<not> from_units us c) (contents x) \<and>
      n = length (filter (from_units us) (contents x))"
begin

text \<open>Re-indexing units: the old contexts of the units go, the new ones come last.\<close>

lemma replace_units:
  assumes "ok x" and "ok new" and "fits (merge (snd (remove x us)) new)"
  shows "ok (merge (snd (remove x us)) new)"
    and "contents (merge (snd (remove x us)) new) = filter (\<lambda>c. \<not> from_units us c) (contents x) @ contents new"
proof -
  obtain n y where "remove x us = (n, y)" by fastforce
  with remove [OF assms(1) this] assms(3) merge [OF _ assms(2), of y]
  show "ok (merge (snd (remove x us)) new)"
    "contents (merge (snd (remove x us)) new) = filter (\<lambda>c. \<not> from_units us c) (contents x) @ contents new"
    by simp_all
qed

lemma remove_absent:
  assumes "ok x" and "remove x us = (n, y)" and "\<forall>c \<in> set (contents x). \<not> from_units us c"
  shows "n = 0 \<and> contents y = contents x"
  using remove [OF assms(1,2)] assms(3) by (simp add: filter_id_conv)

lemma merge_remove:
  assumes "ok x" and "ok sh" and "fits (merge x sh)" and "\<forall>c \<in> set (contents sh). from_units us c"
    and "\<forall>c \<in> set (contents x). \<not> from_units us c" and "remove (merge x sh) us = (n, y)"
  shows "n = length (contents sh) \<and> contents y = contents x"
  using merge [OF assms(1-3)] remove [OF _ assms(6)] assms(4,5) by simp

end

abbreviation fits32 :: "cf_index \<Rightarrow> bool" where
  "fits32 x \<equiv> internerSize (i_interner x) \<le> 2 ^ 32"

interpretation cf: context_store cf_wf fits32 contextSmall allContexts normalForm fromUnits
  addCallSiteContext absorbIndex cfRemoveTUs
  by unfold_locales (simp_all add: addCallSiteContext_spec absorbIndex_spec, use cfRemoveTUs_spec in blast)

section \<open>Refinement\<close>

text \<open>
  \<open>represents x cs\<close>: a sequence of operations has produced the index \<open>x\<close>, and the same sequence on plain
  lists has produced \<open>cs\<close>.
\<close>

inductive represents :: "cf_index \<Rightarrow> CallSiteContext list \<Rightarrow> bool" where
  empty: "represents emptyIndex []"
| add: "represents x cs \<Longrightarrow> contextSmall ctx \<Longrightarrow> fits32 (addCallSiteContext x ctx) \<Longrightarrow>
    represents (addCallSiteContext x ctx) (cs @ [normalForm ctx])"
| merge: "represents x cs \<Longrightarrow> represents sh ds \<Longrightarrow> fits32 (absorbIndex x sh) \<Longrightarrow>
    represents (absorbIndex x sh) (cs @ ds)"
| remove: "represents x cs \<Longrightarrow> represents (snd (cfRemoveTUs x ps)) (filter (\<lambda>c. \<not> fromUnits ps c) cs)"
| compact: "represents x cs \<Longrightarrow> represents (cfCompact x) cs"

lemma represents_wf: "represents x cs \<Longrightarrow> cf_wf x \<and> allContexts x = cs"
proof (induction rule: represents.induct)
  case (add x cs ctx)
  then show ?case using cf.add by simp
next
  case (merge x cs sh ds)
  then show ?case using cf.merge by simp
next
  case (remove x cs ps)
  obtain n y where "cfRemoveTUs x ps = (n, y)" by fastforce
  with remove cf.remove [of x ps n y] show ?case by simp
qed (simp_all add: cfCompact_spec, simp add: allContexts_def emptyIndex_def)

text \<open>
  C18: whatever sequence of insertions, shard merges, unit removals and compactions built it, the index holds
  exactly the contexts the same operations leave in a plain list, in the same order and with the same size:
  the deduplicated tables, the ids and the tombstones do not show.
\<close>

theorem index_refines_list:
  assumes "represents x cs"
  shows "allContexts x = cs \<and> i_liveCount x = length cs \<and> cf_wf x"
  using represents_wf [OF assms]
  by (auto simp: cf_wf_def positions_ok_def allContexts_def)

definition callCtx :: "string \<Rightarrow> string \<Rightarrow> string \<Rightarrow> string \<Rightarrow> CallSiteContext" where
  "callCtx c d s p = emptyContext\<lparr>cxCallerName := c, cxCalleeName := d, cxCallSite := s, cxTuPath := p\<rparr>"

lemma contextSmall_callCtx [simp]: "contextSmall (callCtx c d s p)"
  by (simp add: contextSmall_def callCtx_def emptyContext_def contextText_def)

lemma represents_one: "fits32 (addCallSiteContext emptyIndex (callCtx c d s p)) \<Longrightarrow>
  represents (addCallSiteContext emptyIndex (callCtx c d s p)) [normalForm (callCtx c d s p)]"
  using represents.add [OF represents.empty, of "callCtx c d s p"] by simp

theorem index_refines_list_witness:
  "allContexts (snd (cfRemoveTUs (absorbIndex (addCallSiteContext emptyIndex (callCtx ''f'' ''g'' ''a:1'' ''a''))
      (addCallSiteContext emptyIndex (callCtx ''h'' ''g'' ''b:2'' ''b''))) [''a''])) = [normalForm (callCtx ''h'' ''g'' ''b:2'' ''b'')]"
proof -
  let ?x = "addCallSiteContext emptyIndex (callCtx ''f'' ''g'' ''a:1'' ''a'')"
  let ?y = "addCallSiteContext emptyIndex (callCtx ''h'' ''g'' ''b:2'' ''b'')"
  have "internerSize (i_interner ?x) = 4" "internerSize (i_interner ?y) = 4" "internerSize (i_interner (absorbIndex ?x ?y)) = 7"
    by code_simp+
  then have "represents (snd (cfRemoveTUs (absorbIndex ?x ?y) [''a'']))
      (filter (\<lambda>c. \<not> fromUnits [''a''] c) ([normalForm (callCtx ''f'' ''g'' ''a:1'' ''a'')] @ [normalForm (callCtx ''h'' ''g'' ''b:2'' ''b'')]))"
    by (intro represents.remove represents.merge represents_one) simp_all
  moreover have "fromUnits [''a''] (normalForm (callCtx ''f'' ''g'' ''a:1'' ''a''))"
    "\<not> fromUnits [''a''] (normalForm (callCtx ''h'' ''g'' ''b:2'' ''b''))" by code_simp+
  ultimately show ?thesis using index_refines_list by fastforce
qed

text \<open>
  Re-indexing units takes their old contexts out, counts them, and appends the new shard; every other
  context stays, in place.
\<close>

theorem reindex_contexts:
  assumes "cf_wf x" and "cf_wf new" and "fits32 (absorbIndex (snd (cfRemoveTUs x ps)) new)"
  shows "allContexts (absorbIndex (snd (cfRemoveTUs x ps)) new) =
      filter (\<lambda>c. \<not> fromUnits ps c) (allContexts x) @ allContexts new \<and>
    fst (cfRemoveTUs x ps) = length (filter (fromUnits ps) (allContexts x))"
  using cf.replace_units(2) [OF assms] cf.remove [OF assms(1), of ps "fst (cfRemoveTUs x ps)" "snd (cfRemoveTUs x ps)"]
  by simp

theorem reindex_contexts_witness:
  "allContexts (absorbIndex (snd (cfRemoveTUs (addCallSiteContext emptyIndex (callCtx ''f'' ''g'' ''a:1'' ''a'')) [''a'']))
      (addCallSiteContext emptyIndex (callCtx ''f'' ''h'' ''a:2'' ''a''))) = [normalForm (callCtx ''f'' ''h'' ''a:2'' ''a'')]"
proof -
  let ?x = "addCallSiteContext emptyIndex (callCtx ''f'' ''g'' ''a:1'' ''a'')"
  let ?y = "addCallSiteContext emptyIndex (callCtx ''f'' ''h'' ''a:2'' ''a'')"
  have n: "internerSize (i_interner ?x) = 4" "internerSize (i_interner ?y) = 4"
    "internerSize (i_interner (absorbIndex (snd (cfRemoveTUs ?x [''a''])) ?y)) = 6"
    by code_simp+
  have x: "cf_wf ?x" "allContexts ?x = [normalForm (callCtx ''f'' ''g'' ''a:1'' ''a'')]"
    "cf_wf ?y" "allContexts ?y = [normalForm (callCtx ''f'' ''h'' ''a:2'' ''a'')]"
    using represents_wf [OF represents_one] n by simp_all
  have "fromUnits [''a''] (normalForm (callCtx ''f'' ''g'' ''a:1'' ''a''))" by code_simp
  with reindex_contexts [OF x(1,3), of "[''a'']"] n(3) x(2,4) show ?thesis by simp
qed

section \<open>Queries\<close>

lemma liveStored_positions:
  assumes "pos_ok (i_contexts x) sel m"
  shows "liveStored x (um_get m k) = filter (\<lambda>se. scLive se \<and> sel se = Some k) (i_contexts x)"
proof -
  have "map (storedAt x) (um_get m k) = filter (\<lambda>se. scLive se \<and> sel se = Some k) (i_contexts x)"
    using assms map_nth_positions [of "i_contexts x" "\<lambda>se. scLive se \<and> sel se = Some k"]
    by (simp add: pos_ok_def storedAt_def [abs_def])
  then show ?thesis by (simp add: liveStored_def conj_commute conj_left_commute)
qed

lemma findId_stringOf:
  assumes "tables_ok x" and "i < internerSize (i_interner x)"
  shows "stringOf x i = s \<longleftrightarrow> findId (i_interner x) s = Some i"
  using assms findId_iff [of "i_interner x" s i] by (simp add: tables_ok_def stringOf_def)

lemma filter_by_string:
  assumes wf: "cf_wf x" and g: "\<And>se. ctx_ok x se \<Longrightarrow> g se < internerSize (i_interner x)"
  shows "map (materializeCtx x) (filter (\<lambda>se. scLive se \<and> findId (i_interner x) s = Some (g se)) (i_contexts x)) =
    map (materializeCtx x) (filter (\<lambda>se. scLive se \<and> stringOf x (g se) = s) (i_contexts x))"
  using wf g findId_stringOf [of x] by (intro arg_cong [where f = "map (materializeCtx x)"] filter_cong) (auto simp: cf_wf_def)

lemma allContexts_filter:
  "filter P (allContexts x) = map (materializeCtx x) (filter (\<lambda>se. scLive se \<and> P (materializeCtx x se)) (i_contexts x))"
  by (simp add: allContexts_def filter_map comp_def conj_commute)

lemma materializeCtx_sel [simp]:
  "cxCallSite (materializeCtx x se) = stringOf x (scSite se)"
  "cxCallerUsr (materializeCtx x se) = stringOf x (scCaller se)"
  "cxCalleeUsr (materializeCtx x se) = stringOf x (scCallee se)"
  "cxCallerName (materializeCtx x se) = stringOf x (scCallerDisplay se)"
  "cxCalleeName (materializeCtx x se) = stringOf x (scCalleeDisplay se)"
  "enclosingTryCatches (materializeCtx x se) = i_scopeSets x ! scScopeSet se"
  "callerNoexcept (materializeCtx x se) = scNoexcept se"
  by (simp_all add: materializeCtx_def)

lemma contextsAtSite_filter:
  assumes wf: "cf_wf x"
  shows "contextsAtSite isUTF8 x s = filter (\<lambda>c. cxCallSite c = lookupText isUTF8 s) (allContexts x)"
proof -
  have p: "pos_ok (i_contexts x) (\<lambda>se. Some (scSite se)) (i_bySite x)" using wf by (simp add: cf_wf_def positions_ok_def)
  have "liveStored x (sitePositions isUTF8 x s) =
      filter (\<lambda>se. scLive se \<and> findId (i_interner x) (lookupText isUTF8 s) = Some (scSite se)) (i_contexts x)"
    by (cases "findId (i_interner x) (lookupText isUTF8 s)")
      (simp_all add: sitePositions_def cfFindId_def liveStored_positions [OF p] eq_commute [of _ "scSite _"],
       simp add: liveStored_def)
  then show ?thesis
    using filter_by_string [OF wf, of scSite "lookupText isUTF8 s"]
    by (simp add: contextsAtSite_def allContexts_filter ctx_ok_def)
qed

text \<open>An index without leftover empty entries in its usr maps.\<close>

definition tidy :: "cf_index \<Rightarrow> bool" where
  "tidy x \<longleftrightarrow> (\<forall>side k v. map_of (usrMap x side) k = Some v \<longrightarrow> v \<noteq> [])"















lemma tidy_insertStored: "tidy x \<Longrightarrow> tidy (insertStored x se b)"
  by (auto simp: tidy_def insertStored_def Let_def usrMap_def um_push_def split: Side.splits if_splits)

lemma tidy_sameMaps: "tidy x \<Longrightarrow> i_byCaller y = i_byCaller x \<Longrightarrow> i_byCallee y = i_byCallee x \<Longrightarrow> tidy y"
proof -
  assume "tidy x" "i_byCaller y = i_byCaller x" "i_byCallee y = i_byCallee x"
  moreover from this have "usrMap y side = usrMap x side" for side by (cases side) (simp_all add: usrMap_def)
  ultimately show "tidy y" by (simp add: tidy_def)
qed

lemma tidy_fold: "tidy x \<Longrightarrow> tidy (fold (\<lambda>se x. if scLive se then insertStored x (f se) True else x) cs x)"
  by (induction cs arbitrary: x) (simp_all add: tidy_insertStored)

lemma tidy_empty: "tidy emptyIndex"
  by (simp add: tidy_def emptyIndex_def usrMap_def split: Side.split)

lemma tidy_addCallSiteContext:
  assumes "cf_wf x" and "tidy x"
  shows "tidy (addCallSiteContext x ctx)"
proof -
  have "interner_wf (i_interner x)" using assms(1) by (simp add: cf_wf_def tables_ok_def)
  then show ?thesis
  proof (rule addCallSiteContext_run [of x ctx], goal_cases)
    case (1 cd rd c r s tu locals it x1 x2 x3 ss gs rs)
    then have "i_byCaller x3 = i_byCaller x" "i_byCallee x3 = i_byCallee x"
      by (auto simp: internScopeSet_def internGuardSet_def internRaiiSet_def split: prod.splits)
    with assms(2) 1 show ?case by (simp add: tidy_insertStored tidy_sameMaps [of x])
  qed
qed

lemma tidy_absorbIndex:
  assumes "cf_wf x" and "cf_wf sh" and "fits32 (absorbIndex x sh)" and "tidy x"
  shows "tidy (absorbIndex x sh)"
proof -
  obtain y remap sm gm rm where y: "extends x y" and
    "absorbIndex x sh = fold (\<lambda>se x. if scLive se then insertStored x (remapContext remap sm gm rm se) True else x) (i_contexts sh) y"
    by (rule absorbIndex_run [OF assms(1-3)])
  moreover have "tidy y" using y by (intro tidy_sameMaps [OF assms(4)]) (auto simp: extends_def lookups_def)
  ultimately show ?thesis by (simp add: tidy_fold)
qed





text \<open>
  The context of a call edge is chosen among the contexts at the call site whose caller is the edge's
  caller: none exactly when there are none, otherwise one recorded for the edge's callee if there is one, and
  the least by callee, unit and caller spelling.
\<close>

theorem contextForEdge_choice:
  assumes "cf_wf x"
  shows "case contextForEdge isUTF8 x s callerU calleeU of
      None \<Rightarrow> \<not> (\<exists>c \<in> set (allContexts x). cxCallSite c = lookupText isUTF8 s \<and> (cxCallerUsr c = callerU \<or> cxCallerName c = callerU))
    | Some c \<Rightarrow> c \<in> set (allContexts x) \<and> cxCallSite c = lookupText isUTF8 s \<and>
        (cxCallerUsr c = callerU \<or> cxCallerName c = callerU) \<and>
        (\<forall>c' \<in> set (allContexts x). cxCallSite c' = lookupText isUTF8 s \<and> (cxCallerUsr c' = callerU \<or> cxCallerName c' = callerU) \<longrightarrow>
           (cxCalleeUsr c' = calleeU \<longrightarrow> cxCalleeUsr c = calleeU) \<and>
           ((cxCalleeUsr c = calleeU \<longleftrightarrow> cxCalleeUsr c' = calleeU) \<longrightarrow>
              (cxCalleeUsr c, cxTuPath c, cxCallerName c) \<le> (cxCalleeUsr c', cxTuPath c', cxCallerName c')))"
proof -
  let ?mine = "filter (\<lambda>c. cxCallerUsr c = callerU \<or> cxCallerName c = callerU) (contextsAtSite isUTF8 x s)"
  have mine: "c \<in> set ?mine \<longleftrightarrow> c \<in> set (allContexts x) \<and> cxCallSite c = lookupText isUTF8 s \<and>
      (cxCallerUsr c = callerU \<or> cxCallerName c = callerU)" for c
    by (simp add: contextsAtSite_filter [OF assms])
  show ?thesis
  proof (cases "?mine = []")
    case True
    then have "contextForEdge isUTF8 x s callerU calleeU = None" by (simp add: contextForEdge_def Let_def)
    moreover have "c \<notin> set ?mine" for c unfolding True by simp
    ultimately show ?thesis using mine by (auto simp del: set_filter)
  next
    case False
    let ?c = "hd (sort_key (edgeRank calleeU) ?mine)"
    have r: "contextForEdge isUTF8 x s callerU calleeU = Some ?c" unfolding contextForEdge_def Let_def using False by (rule if_not_P)
    have ne: "sort_key (edgeRank calleeU) ?mine \<noteq> []" using False by (simp only: length_0_conv [symmetric] length_sort not_False_eq_True)
    then have c: "?c \<in> set ?mine" using hd_in_set [OF ne] by (simp only: set_sort)
    have least: "edgeRank calleeU ?c \<le> edgeRank calleeU c'" if "c' \<in> set ?mine" for c'
    proof -
      obtain d ds where d: "sort_key (edgeRank calleeU) ?mine = d # ds" using ne by (cases "sort_key (edgeRank calleeU) ?mine") auto
      moreover have "sorted (map (edgeRank calleeU) (sort_key (edgeRank calleeU) ?mine))" by simp
      moreover have "c' \<in> set (sort_key (edgeRank calleeU) ?mine)" using that by simp
      ultimately show ?thesis by auto
    qed
    have "(cxCalleeUsr c' = calleeU \<longrightarrow> cxCalleeUsr ?c = calleeU) \<and>
        ((cxCalleeUsr ?c = calleeU \<longleftrightarrow> cxCalleeUsr c' = calleeU) \<longrightarrow>
           (cxCalleeUsr ?c, cxTuPath ?c, cxCallerName ?c) \<le> (cxCalleeUsr c', cxTuPath c', cxCallerName c'))"
      if "c' \<in> set ?mine" for c'
      using least [OF that] by (auto simp only: edgeRank_def less_eq_prod_def fst_conv snd_conv less_bool_def le_bool_def)
    then show ?thesis unfolding r option.case using c mine by blast
  qed
qed

theorem contextForEdge_choice_witness:
  "contextForEdge (\<lambda>_. True) (addCallSiteContext emptyIndex (callCtx ''f'' ''g'' ''a:1'' ''a'')) ''a:1'' ''f'' ''g'' \<noteq> None"
proof -
  let ?x = "addCallSiteContext emptyIndex (callCtx ''f'' ''g'' ''a:1'' ''a'')"
  have "internerSize (i_interner ?x) = 4" by code_simp
  then have x: "cf_wf ?x" "allContexts ?x = [normalForm (callCtx ''f'' ''g'' ''a:1'' ''a'')]"
    using represents_wf [OF represents_one] by simp_all
  have "cxCallSite (normalForm (callCtx ''f'' ''g'' ''a:1'' ''a'')) = ''a:1''"
    "cxCallerUsr (normalForm (callCtx ''f'' ''g'' ''a:1'' ''a'')) = ''f''" by code_simp+
  with contextForEdge_choice [OF x(1), of "\<lambda>_. True" "''a:1''" "''f''" "''g''"] x(2) show ?thesis
    by (auto simp: lookupText_def split: option.splits)
qed

end
