(* ===== verification/OracleProps.thy ===== *)
theory OracleProps
  imports Oracle PathSearchProps ControlFlowProps
begin

text \<open>
  The oracle is right about the model it has: exception types match by reachability in the two class
  hierarchies, the walk along a path is exception propagation as the language defines it, and a universal
  verdict holds for every simple path of the call graph.
\<close>

section \<open>Exception types\<close>

text \<open>A level for each standard exception, larger than that of its base.\<close>

definition stdLevel :: "string \<Rightarrow> nat" where
  "stdLevel s = (if s = ''std::exception'' then 0
     else if s \<in> {''std::bad_alloc'', ''std::logic_error'', ''std::runtime_error''} then 1
     else if s = ''std::system_error'' then 2 else 3)"

lemma std_levels: "list_all (\<lambda>(d, b). stdLevel b < stdLevel d) stdExceptionHierarchy"
  by code_simp

lemma std_distinct: "distinct (map fst stdExceptionHierarchy)"
  by code_simp

lemma std_map_of: "map_of stdExceptionHierarchy d = Some b \<longleftrightarrow> (d, b) \<in> set stdExceptionHierarchy"
  using std_distinct by simp

lemma std_level_trancl: "(a, b) \<in> (set stdExceptionHierarchy)\<^sup>+ \<Longrightarrow> stdLevel b < stdLevel a"
proof (induction rule: trancl_induct)
  case (base b)
  then show ?case using std_levels by (auto simp: list_all_iff)
next
  case (step b c)
  then show ?case using std_levels by (fastforce simp: list_all_iff)
qed

lemma stdWalk_reach:
  "\<forall>v \<in> set visited. (v, current) \<in> (set stdExceptionHierarchy)\<^sup>+ \<Longrightarrow>
    stdWalk visited current caught \<longleftrightarrow> (current, caught) \<in> (set stdExceptionHierarchy)\<^sup>+"
proof (induction visited current caught rule: stdWalk.induct)
  case (1 visited current caught)
  have new: "current \<notin> set visited" using 1 std_level_trancl by blast
  show ?case
  proof (cases "map_of stdExceptionHierarchy current")
    case None
    then have "(current, c) \<notin> (set stdExceptionHierarchy)\<^sup>+" for c
      by (auto dest!: tranclD simp: map_of_eq_None_iff rev_image_eqI)
    with None new show ?thesis by (subst stdWalk.simps) simp
  next
    case (Some b)
    then have e: "(current, b) \<in> set stdExceptionHierarchy" by (simp add: std_map_of)
    have step: "(current, c) \<in> (set stdExceptionHierarchy)\<^sup>+ \<longleftrightarrow> b = c \<or> (b, c) \<in> (set stdExceptionHierarchy)\<^sup>+" for c
    proof
      assume "(current, c) \<in> (set stdExceptionHierarchy)\<^sup>+"
      then obtain b' where "(current, b') \<in> set stdExceptionHierarchy" "(b', c) \<in> (set stdExceptionHierarchy)\<^sup>*"
        by (auto dest: tranclD)
      then show "b = c \<or> (b, c) \<in> (set stdExceptionHierarchy)\<^sup>+"
        using Some std_map_of [of current b'] by (auto dest: rtranclD)
    qed (use e in \<open>auto intro: trancl_into_trancl2\<close>)
    have "\<forall>v \<in> set (current # visited). (v, b) \<in> (set stdExceptionHierarchy)\<^sup>+"
      using "1.prems" e by (auto intro: trancl_into_trancl)
    with "1.IH" [OF new Some] new Some show ?thesis by (subst stdWalk.simps) (auto simp: step)
  qed
qed

lemma getAllDerived_reach:
  "s \<in> set (getAllDerivedClasses isUTF8 g base) \<longleftrightarrow> (\<exists>i j. findText isUTF8 g base = Some i \<and>
     (i, j) \<in> (relOf (g_derivedClasses g))\<^sup>+ \<and> resolve (g_interner g) j = s)"
proof -
  have d: "set (derivedLoop (g_derivedClasses g) [i] [] []) = (relOf (g_derivedClasses g))\<^sup>+ `` {i}" for i
    by (rule derivedLoop_correct) auto
  show ?thesis
  proof (cases "findText isUTF8 g base")
    case None
    then show ?thesis by (simp add: getAllDerivedClasses_def)
  next
    case (Some i)
    then have "set (getAllDerivedClasses isUTF8 g base) = resolve (g_interner g) ` ((relOf (g_derivedClasses g))\<^sup>+ `` {i})"
      by (simp add: getAllDerivedClasses_def d [of i] del: derivedLoop.simps)
    then show ?thesis using Some by (auto simp: image_def)
  qed
qed

text \<open>
  C23: a handler's type takes a thrown type exactly when the two are spelled alike, up to a leading \<open>const\<close>,
  references and blanks, or the thrown type is below the caught one in the standard exception hierarchy or in
  the class hierarchy the graph recorded.
\<close>

theorem isSubtypeOf_iff:
  "isSubtypeOf isUTF8 orc thrown caught \<longleftrightarrow> thrown = caught \<or>
     (stripTypeSpelling thrown, stripTypeSpelling caught) \<in> (set stdExceptionHierarchy)\<^sup>* \<or>
     (\<exists>i j. findText isUTF8 (o_graph orc) (stripTypeSpelling caught) = Some i \<and>
        (i, j) \<in> (relOf (g_derivedClasses (o_graph orc)))\<^sup>+ \<and>
        resolve (g_interner (o_graph orc)) j = stripTypeSpelling thrown)"
  using stdWalk_reach [of "[]"]
  by (auto simp: isSubtypeOf_def Let_def rtrancl_eq_or_trancl getAllDerived_reach)

section \<open>Propagation\<close>

text \<open>
  How an exception leaves a call: it is taken by the first scope, innermost first, whose first matching
  handler does not rethrow.
\<close>

definition passesScope :: "(string \<Rightarrow> bool) \<Rightarrow> cf_oracle \<Rightarrow> string \<Rightarrow> TryCatchScope \<Rightarrow> bool" where
  "passesScope isUTF8 orc exc scope \<longleftrightarrow>
     (case matchingHandler isUTF8 orc exc scope of None \<Rightarrow> True | Some h \<Rightarrow> rethrows h)"

text \<open>
  \<open>unwinds orc exc hops out\<close>: an exception thrown by the callee of the first of \<open>hops\<close>, which lead
  outward, ends as \<open>out\<close>.
\<close>

inductive unwinds :: "(string \<Rightarrow> bool) \<Rightarrow> cf_oracle \<Rightarrow> string \<Rightarrow> PathHop list \<Rightarrow> PathOutcome \<Rightarrow> bool"
  for isUTF8 orc exc where
  escapes: "unwinds isUTF8 orc exc [] Uncaught"
| thread: "hopExecContext h = ThreadSpawn \<Longrightarrow> unwinds isUTF8 orc exc (h # hs) Terminates"
| task: "hopExecContext h \<in> {AsyncTask, PackagedTask} \<Longrightarrow> unwinds isUTF8 orc exc (h # hs) UnknownOutcome"
| missing: "hopExecContext h \<in> {Synchronous, Invoke} \<Longrightarrow> contextForHop isUTF8 orc h = None \<Longrightarrow>
    unwinds isUTF8 orc exc (h # hs) UnknownOutcome"
| caught: "hopExecContext h \<in> {Synchronous, Invoke} \<Longrightarrow> contextForHop isUTF8 orc h = Some ctx \<Longrightarrow>
    scope \<in> set (enclosingTryCatches ctx) \<Longrightarrow> \<not> passesScope isUTF8 orc exc scope \<Longrightarrow>
    unwinds isUTF8 orc exc (h # hs) Caught"
| barrier: "hopExecContext h \<in> {Synchronous, Invoke} \<Longrightarrow> contextForHop isUTF8 orc h = Some ctx \<Longrightarrow>
    \<forall>scope \<in> set (enclosingTryCatches ctx). passesScope isUTF8 orc exc scope \<Longrightarrow>
    callerNoexcept ctx \<in> {Noexcept, ThrowNone} \<Longrightarrow> unwinds isUTF8 orc exc (h # hs) Terminates"
| unevaluated: "hopExecContext h \<in> {Synchronous, Invoke} \<Longrightarrow> contextForHop isUTF8 orc h = Some ctx \<Longrightarrow>
    \<forall>scope \<in> set (enclosingTryCatches ctx). passesScope isUTF8 orc exc scope \<Longrightarrow>
    callerNoexcept ctx = UnknownSpec \<Longrightarrow> unwinds isUTF8 orc exc (h # hs) UnknownOutcome"
| outward: "hopExecContext h \<in> {Synchronous, Invoke} \<Longrightarrow> contextForHop isUTF8 orc h = Some ctx \<Longrightarrow>
    \<forall>scope \<in> set (enclosingTryCatches ctx). passesScope isUTF8 orc exc scope \<Longrightarrow>
    callerNoexcept ctx \<in> {NoSpec, NoexceptFalse} \<Longrightarrow> unwinds isUTF8 orc exc hs out \<Longrightarrow>
    unwinds isUTF8 orc exc (h # hs) out"

inductive_simps unwinds_Nil: "unwinds isUTF8 orc exc [] out"
inductive_simps unwinds_Cons: "unwinds isUTF8 orc exc (h # hs) out"

lemma scanScopes_spec:
  "fst (scanScopes isUTF8 orc exc scopes info) \<longleftrightarrow> (\<exists>scope \<in> set scopes. \<not> passesScope isUTF8 orc exc scope)"
  "fst (scanScopes isUTF8 orc exc scopes info) \<Longrightarrow> piOutcome (snd (scanScopes isUTF8 orc exc scopes info)) = Caught"
  by (induction scopes arbitrary: info) (auto simp: passesScope_def split: option.splits)

lemma walkHops_unwinds: "unwinds isUTF8 orc exc hops out \<longleftrightarrow> piOutcome (walkHops isUTF8 orc exc hops info) = out"
proof (induction hops arbitrary: info)
  case Nil
  show ?case by (auto simp: unwinds_Nil stopsAt_def)
next
  case (Cons h hops)
  show ?case
  proof (cases "hopExecContext h \<in> {Synchronous, Invoke}")
    case False
    then show ?thesis by (cases "hopExecContext h") (auto simp: unwinds_Cons stopsAt_def)
  next
    case sync: True
    show ?thesis
    proof (cases "contextForHop isUTF8 orc h")
      case None
      with sync show ?thesis by (auto simp: unwinds_Cons stopsAt_def)
    next
      case (Some ctx)
      obtain b info' where s: "scanScopes isUTF8 orc exc (enclosingTryCatches ctx) info = (b, info')" by fastforce
      note p = scanScopes_spec [of isUTF8 orc exc "enclosingTryCatches ctx" info, unfolded s fst_conv snd_conv]
      show ?thesis
      proof (cases b)
        case True
        with p have "\<exists>scope \<in> set (enclosingTryCatches ctx). \<not> passesScope isUTF8 orc exc scope" "piOutcome info' = Caught"
          by simp_all
        moreover have "walkHops isUTF8 orc exc (h # hops) info = info'" using sync Some s True by auto
        ultimately show ?thesis using sync Some by (auto simp: unwinds_Cons)
      next
        case False
        note ih = Cons.IH [of info']
        from False p have pass: "\<forall>scope \<in> set (enclosingTryCatches ctx). passesScope isUTF8 orc exc scope" by blast
        have "unwinds isUTF8 orc exc (h # hops) out \<longleftrightarrow> (case callerNoexcept ctx of Noexcept \<Rightarrow> out = Terminates
            | ThrowNone \<Rightarrow> out = Terminates | UnknownSpec \<Rightarrow> out = UnknownOutcome | _ \<Rightarrow> unwinds isUTF8 orc exc hops out)"
          using sync Some pass by (cases "callerNoexcept ctx") (auto simp: unwinds_Cons)
        moreover have "piOutcome (walkHops isUTF8 orc exc (h # hops) info) = out \<longleftrightarrow> (case callerNoexcept ctx of Noexcept \<Rightarrow> out = Terminates
            | ThrowNone \<Rightarrow> out = Terminates | UnknownSpec \<Rightarrow> out = UnknownOutcome
            | _ \<Rightarrow> piOutcome (walkHops isUTF8 orc exc hops info') = out)"
          using sync Some False s by (cases "callerNoexcept ctx") (auto simp: stopsAt_def)
        ultimately show ?thesis using ih by (simp split: NoexceptSpec.split)
      qed
    qed
  qed
qed

text \<open>
  C16: the walk along a path is exception propagation: unless the target itself may not throw, the outcome is
  the one the rules of unwinding give for the path's calls from the target outward, with thread and task
  boundaries, rethrowing handlers and exception specifications.
\<close>

theorem propagate_unwinds:
  "piOutcome (propagate isUTF8 orc (annotatePath isUTF8 orc path) exc) = out \<longleftrightarrow>
     (if targetNoexcept isUTF8 orc (last path) then out = Terminates else unwinds isUTF8 orc exc (rev path) out)"
  using walkHops_unwinds [of isUTF8 orc exc "rev path" out "annotatePath isUTF8 orc path"]
  by (auto simp: propagate_def Let_def annotatePath_def stopsAt_def)

section \<open>Verdicts\<close>

lemma countOutcome_pos: "0 < countOutcome out ps \<longleftrightarrow> out \<in> piOutcome ` set ps"
  by (auto simp: countOutcome_def filter_empty_conv)

definition outcomeOn :: "(string \<Rightarrow> bool) \<Rightarrow> cf_oracle \<Rightarrow> string \<Rightarrow> CallPath \<Rightarrow> PathOutcome" where
  "outcomeOn isUTF8 orc exc path = piOutcome (propagate isUTF8 orc (annotatePath isUTF8 orc path) exc)"

lemma protection_run:
  assumes "queryExceptionProtection isUTF8 orc fn exc entries lim indexOk = Some r"
  obtains found where "findCallerPaths isUTF8 (o_graph orc) fn entries lim SimpleNodes None = Some found"
    "map piOutcome (erPaths r) = map (outcomeOn isUTF8 orc exc) (paths found)"
    "protection r = verdictOf (paths found = []) (exhaustive found \<and> UnknownOutcome \<notin> outcomeOn isUTF8 orc exc ` set (paths found) \<and> indexOk)
       (countOutcome Caught (erPaths r)) (countOutcome Uncaught (erPaths r)) (countOutcome Terminates (erPaths r))"
proof -
  obtain found where f: "findCallerPaths isUTF8 (o_graph orc) fn entries lim SimpleNodes None = Some found"
    using assms by (auto simp: queryExceptionProtection_def split: option.splits)
  let ?ps = "map (\<lambda>path. propagate isUTF8 orc (annotatePath isUTF8 orc path) exc) (paths found)"
  have e: "erPaths r = ?ps" using assms by (auto simp: queryExceptionProtection_def f Let_def)
  have "countOutcome UnknownOutcome ?ps = 0 \<longleftrightarrow> UnknownOutcome \<notin> outcomeOn isUTF8 orc exc ` set (paths found)"
    using countOutcome_pos [of UnknownOutcome ?ps] neq0_conv [of "countOutcome UnknownOutcome ?ps"]
    by (simp only: outcomeOn_def [abs_def] set_map image_image) blast
  then have "protection r = verdictOf (paths found = []) (exhaustive found \<and> UnknownOutcome \<notin> outcomeOn isUTF8 orc exc ` set (paths found) \<and> indexOk)
       (countOutcome Caught (erPaths r)) (countOutcome Uncaught (erPaths r)) (countOutcome Terminates (erPaths r))"
    using assms unfolding e by (auto simp: queryExceptionProtection_def f Let_def factsOf_def)
  moreover have "map piOutcome (erPaths r) = map (outcomeOn isUTF8 orc exc) (paths found)"
    by (simp add: e outcomeOn_def)
  ultimately show ?thesis using f that by blast
qed

text \<open>
  C15: a universal verdict is true of the whole call graph. When the oracle says always caught, a throw ends
  caught on every simple path from an entry point to the function; when it says never caught, on none, and
  no path's outcome is unknown; when it says noexcept barrier, every path ends in \<open>std::terminate\<close>. The paths
  are those no caller of which is an entry point that is itself a candidate of the function's name
  searched before \<open>t\<close> (\<open>unshadowed\<close>): all paths when the name has one candidate, or no candidate is an
  entry point.
\<close>

theorem verdict_universal:
  assumes "graph_wf (o_graph orc)"
    and "queryExceptionProtection isUTF8 orc fn exc entries lim indexOk = Some r"
    and "t \<in> set (resolveIds isUTF8 (o_graph orc) fn)"
    and "simplePath (o_graph orc) None SimpleNodes (startIds isUTF8 (o_graph orc) entries) t es"
    and "unshadowed isUTF8 (o_graph orc) fn entries t es"
  shows "(protection r = AlwaysCaught \<longrightarrow> outcomeOn isUTF8 orc exc (pathOf isUTF8 (o_graph orc) es) = Caught) \<and>
    (protection r = NeverCaught \<longrightarrow> outcomeOn isUTF8 orc exc (pathOf isUTF8 (o_graph orc) es) \<in> {Uncaught, Terminates}) \<and>
    (protection r = NoexceptBarrier \<longrightarrow> outcomeOn isUTF8 orc exc (pathOf isUTF8 (o_graph orc) es) = Terminates)"
proof -
  let ?o = "outcomeOn isUTF8 orc exc"
  obtain found where f: "findCallerPaths isUTF8 (o_graph orc) fn entries lim SimpleNodes None = Some found"
    and ps: "map piOutcome (erPaths r) = map ?o (paths found)"
    and v: "protection r = verdictOf (paths found = []) (exhaustive found \<and> UnknownOutcome \<notin> ?o ` set (paths found) \<and> indexOk)
       (countOutcome Caught (erPaths r)) (countOutcome Uncaught (erPaths r)) (countOutcome Terminates (erPaths r))"
    using assms(2) by (rule protection_run)
  have c: "0 < countOutcome out (erPaths r) \<longleftrightarrow> out \<in> ?o ` set (paths found)" for out
    using arg_cong [OF ps, of set] by (simp add: countOutcome_pos)
  have all: "pathOf isUTF8 (o_graph orc) es \<in> set (paths found)" if "exhaustive found"
    using findCallerPaths_core(2) [OF f _ _ assms(1), of True t es] assms(3-5) that
      forwardAdmitted_callFilter [OF assms(1) callFilter_None, of t es]
    by (simp add: complete_def exhaustive_def simplePath_def)
  show ?thesis
  proof (cases "exhaustive found \<and> UnknownOutcome \<notin> ?o ` set (paths found)")
    case True
    then have i: "?o (pathOf isUTF8 (o_graph orc) es) \<in> ?o ` set (paths found)" using all by blast
    with True have "?o (pathOf isUTF8 (o_graph orc) es) \<noteq> UnknownOutcome" by metis
    with i show ?thesis
      unfolding v verdictOf_def using c
      by (cases "?o (pathOf isUTF8 (o_graph orc) es)") (auto split: if_splits)
  next
    case False
    then have "protection r \<notin> {AlwaysCaught, NeverCaught, NoexceptBarrier}"
      unfolding v verdictOf_def by auto
    then show ?thesis by simp
  qed
qed

text \<open>A chain of two calls, the outer one inside a try block with a \<open>std::exception\<close> handler.\<close>

definition chainIndex :: cf_index where
  "chainIndex = addCallSiteContext (addCallSiteContext emptyIndex (callCtx ''b'' ''c'' ''2'' ''x''))
     ((callCtx ''a'' ''b'' ''1'' ''x'')\<lparr>enclosingTryCatches :=
        [\<lparr>tryLocation = ''t:1'', enclosingFunction = ''a'', handlers = [\<lparr>caughtType = ''const std::exception &'',
            isCatchAll = False, handlerLocation = ''t:2'', bodySummary = [], rethrows = False\<rparr>], nestingDepth = 0\<rparr>]\<rparr>)"

definition chainOracle :: cf_oracle where
  "chainOracle = \<lparr>o_graph = chainGraph, o_index = chainIndex\<rparr>"

definition chainVerdict :: ExceptionPathResult where
  "chainVerdict = the (queryExceptionProtection (\<lambda>_. True) chainOracle ''c'' ''std::out_of_range'' [''a''] lim0 True)"

lemma chain_protection:
  "queryExceptionProtection (\<lambda>_. True) chainOracle ''c'' ''std::out_of_range'' [''a''] lim0 True = Some chainVerdict"
  by (simp add: chainVerdict_def queryExceptionProtection_def chainOracle_def chain_search Let_def)

lemma chain_outcome: "outcomeOn (\<lambda>_. True) chainOracle ''std::out_of_range'' (pathOf (\<lambda>_. True) chainGraph chainEdges) = Caught"
  by code_simp

lemma chain_always: "protection chainVerdict = AlwaysCaught"
proof -
  have c: "countOutcome out ps = length (filter (\<lambda>x. x = out) (map piOutcome ps))" for out ps
    by (simp add: countOutcome_def filter_map o_def)
  have p: "map (outcomeOn (\<lambda>_. True) chainOracle ''std::out_of_range'') (paths chainResult) = [Caught]"
    using chain_outcome by (simp add: chainResult_def pathOf_def)
  from chain_protection obtain found where
    "findCallerPaths (\<lambda>_. True) (o_graph chainOracle) ''c'' [''a''] lim0 SimpleNodes None = Some found"
    "map piOutcome (erPaths chainVerdict) = map (outcomeOn (\<lambda>_. True) chainOracle ''std::out_of_range'') (paths found)"
    "protection chainVerdict = verdictOf (paths found = []) (exhaustive found \<and>
       UnknownOutcome \<notin> outcomeOn (\<lambda>_. True) chainOracle ''std::out_of_range'' ` set (paths found) \<and> True)
       (countOutcome Caught (erPaths chainVerdict)) (countOutcome Uncaught (erPaths chainVerdict)) (countOutcome Terminates (erPaths chainVerdict))"
    by (rule protection_run)
  moreover from this(1) have "found = chainResult" by (simp add: chainOracle_def chain_search)
  moreover from p have "paths chainResult \<noteq> []" by auto
  ultimately show ?thesis using p
    by (simp add: c chain_exhaustive verdictOf_def set_map [symmetric] del: set_map)
qed

theorem verdict_universal_witness:
  "protection chainVerdict = AlwaysCaught \<and>
    outcomeOn (\<lambda>_. True) chainOracle ''std::out_of_range'' (pathOf (\<lambda>_. True) chainGraph chainEdges) = Caught"
proof -
  have g: "o_graph chainOracle = chainGraph" by (simp add: chainOracle_def)
  have "graph_wf (o_graph chainOracle)" by (simp add: g chain_wf)
  from verdict_universal [OF this chain_protection, of 4 chainEdges] chain_always chain_simple
    unshadowed_single [of 4 "\<lambda>_. True" chainGraph "''c''" "[''a'']" chainEdges] show ?thesis
    by (simp add: g chain_ids)
qed

definition throwNoneOracle :: cf_oracle where
  "throwNoneOracle = \<lparr>o_graph = chainGraph, o_index = addCallSiteContext emptyIndex
     ((callCtx ''b'' ''c'' ''2'' ''x'')\<lparr>callerNoexcept := ThrowNone\<rparr>)\<rparr>"

text \<open>
  A call in a function declared \<open>throw()\<close> is not reported as terminating by the query of one call site,
  although the walk along a path ends such a throw in \<open>std::terminate\<close>.
\<close>

theorem callSite_misses_throw_none:
  "ceNoexcept (queryCallSite (\<lambda>_. True) throwNoneOracle ''2'') = ThrowNone \<and>
    \<not> wouldTerminateIfThrows (queryCallSite (\<lambda>_. True) throwNoneOracle ''2'') \<and>
    outcomeOn (\<lambda>_. True) throwNoneOracle ''E'' (pathOf (\<lambda>_. True) chainGraph chainEdges) = Terminates"
  by code_simp

end
