(* ===== verification/OracleNearest.thy ===== *)
theory OracleNearest
  imports OracleProps
begin

text \<open>
  The search for the nearest handlers (\<open>queryNearestCatches\<close>). When every caller resolves to itself
  (\<open>settled\<close>), its breadth-first tree stays a tree of real calls that leads to the target, so that the chains it reads back end, and the handlers it reports are
  exactly the protected calls that an exception thrown in the target can come out of.
\<close>

section \<open>Chains\<close>

lemma climb_emplace:
  "map_of p c = None \<Longrightarrow> climb n p v = Some hs \<Longrightarrow> c \<notin> insert v (hopCalleeUsr ` set hs) \<Longrightarrow>
    climb n (um_emplace p c hop) v = Some hs"
proof (induction n arbitrary: v hs)
  case 0
  then show ?case by (auto simp: climb.simps [of 0] split: option.splits)
next
  case (Suc n)
  then show ?case by (auto simp: climb.simps [of "Suc n"] split: option.splits)
qed

lemma climb_more: "climb n p v = Some hs \<Longrightarrow> climb (Suc n) p v = Some hs"
proof (induction n arbitrary: v hs)
  case 0
  then show ?case by (auto simp: climb.simps [of 0] climb.simps [of "Suc 0"] split: option.splits)
next
  case (Suc n)
  show ?case
  proof (cases "map_of p v")
    case None
    with Suc.prems show ?thesis by (simp add: climb.simps)
  next
    case (Some hop)
    with Suc.prems obtain hs' where "climb n p (hopCalleeUsr hop) = Some hs'" "hs = hop # hs'"
      by (auto simp: climb.simps [of "Suc n"])
    with Suc.IH [of "hopCalleeUsr hop" hs'] Some show ?thesis by (simp add: climb.simps [of "Suc (Suc n)"])
  qed
qed

lemma climb_mono: "climb n p v = Some hs \<Longrightarrow> n \<le> m \<Longrightarrow> climb m p v = Some hs"
  by (rule dec_induct [of n m]) (auto intro: climb_more)

lemma climb_Cons: "climb n p v = Some (h # hs) \<Longrightarrow> map_of p v = Some h \<and> (\<exists>m. climb m p (hopCalleeUsr h) = Some hs)"
  by (subst (asm) climb.simps) (auto split: option.splits nat.splits)

lemma climb_det: "climb n p v = Some hs \<Longrightarrow> climb m p v = Some hs' \<Longrightarrow> hs = hs'"
  using climb_mono [of n p v hs "max n m"] climb_mono [of m p v hs' "max n m"] by simp

lemma climb_suffix: "climb n p v = Some (hs @ h # hs') \<Longrightarrow> \<exists>m. climb m p (hopCalleeUsr h) = Some hs'"
  by (induction hs arbitrary: n v) (auto dest: climb_Cons)

lemma climb_distinct: "climb n p v = Some hs \<Longrightarrow> distinct (v # map hopCalleeUsr hs)"
proof (induction hs arbitrary: n v)
  case (Cons h hs)
  have "v \<notin> hopCalleeUsr ` set (h # hs)"
  proof
    assume "v \<in> hopCalleeUsr ` set (h # hs)"
    then obtain x ys zs where "h # hs = ys @ x # zs" "v = hopCalleeUsr x" by (metis image_iff split_list)
    with climb_suffix [of n p v ys x zs] Cons.prems obtain m where "climb m p v = Some zs" by auto
    from climb_det [OF this Cons.prems] \<open>h # hs = ys @ x # zs\<close> show False by (auto dest: arg_cong [of _ _ length])
  qed
  with Cons.IH climb_Cons [OF Cons.prems] show ?case by auto
qed simp

lemma climb_keys: "climb n p v = Some hs \<Longrightarrow> set (butlast (v # map hopCalleeUsr hs)) \<subseteq> fst ` set p"
proof (induction hs arbitrary: n v)
  case (Cons h hs)
  from climb_Cons [OF Cons.prems] obtain m where m: "climb m p (hopCalleeUsr h) = Some hs" and "(v, h) \<in> set p"
    by (auto dest: map_of_SomeD)
  then have "v \<in> fst ` set p" by force
  with Cons.IH [OF m] show ?case by simp
qed simp

lemma climb_length: "climb n p v = Some hs \<Longrightarrow> climb (length hs) p v = Some hs"
proof (induction hs arbitrary: n v)
  case Nil
  then show ?case by (cases n) (auto simp: climb.simps split: option.splits)
next
  case (Cons h hs)
  then show ?case using climb_Cons [OF Cons.prems] by (auto simp: climb.simps [of "Suc _"])
qed

text \<open>As many steps as there are parents are enough: a climb they do not finish has no end.\<close>

lemma climb_fuel: "climb (length p) p v = None \<Longrightarrow> climb n p v = None"
proof (rule ccontr)
  assume none: "climb (length p) p v = None" and "climb n p v \<noteq> None"
  then obtain hs where hs: "climb n p v = Some hs" by blast
  have "length hs = card (set (butlast (v # map hopCalleeUsr hs)))"
    using distinct_butlast [OF climb_distinct [OF hs]] by (simp add: distinct_card)
  also have "\<dots> \<le> card (fst ` set p)" using climb_keys [OF hs] by (intro card_mono) auto
  also have "\<dots> \<le> length p" using card_image_le [of "set p" fst] card_length [of p] by simp
  finally show False using climb_mono [OF climb_length [OF hs]] none by auto
qed

lemma length_um_emplace: "map_of p c = None \<Longrightarrow> length (um_emplace p c hop) = Suc (length p)"
  by (induction p) (auto simp: um_emplace_def um_put_def split: if_splits)

text \<open>A call without a try block around it, as far as the index knows.\<close>

definition bare :: "(string \<Rightarrow> bool) \<Rightarrow> cf_oracle \<Rightarrow> CallGraphEdge \<Rightarrow> bool" where
  "bare isUTF8 orc e \<longleftrightarrow> (case contextForHop isUTF8 orc (edgeHop e) of
     None \<Rightarrow> True | Some ctx \<Rightarrow> enclosingTryCatches ctx = [])"

text \<open>
  \<open>descent isUTF8 orc ts v hs\<close>: the calls \<open>hs\<close>, none of them in a try block, lead from \<open>v\<close> down to one of
  the targets \<open>ts\<close>.
\<close>

inductive descent :: "(string \<Rightarrow> bool) \<Rightarrow> cf_oracle \<Rightarrow> string set \<Rightarrow> string \<Rightarrow> PathHop list \<Rightarrow> bool"
  for isUTF8 orc ts where
  target: "t \<in> ts \<Longrightarrow> descent isUTF8 orc ts t []"
| call: "descent isUTF8 orc ts v hs \<Longrightarrow> e \<in> set (callersOf isUTF8 (o_graph orc) v) \<Longrightarrow> bare isUTF8 orc e \<Longrightarrow>
    descent isUTF8 orc ts (callerUsr e) (edgeHop e # hs)"

text \<open>A reported handler is that of the innermost scope around a call whose callee leads to a target.\<close>

definition reports :: "(string \<Rightarrow> bool) \<Rightarrow> cf_oracle \<Rightarrow> string set \<Rightarrow> nat \<Rightarrow> NearestCatchInfo \<Rightarrow> bool" where
  "reports isUTF8 orc ts maxD c \<longleftrightarrow> (\<exists>v hs e ctx scopes. descent isUTF8 orc ts v hs \<and>
     e \<in> set (callersOf isUTF8 (o_graph orc) v) \<and> ncHops c = edgeHop e # hs \<and>
     contextForHop isUTF8 orc (edgeHop e) = Some ctx \<and> enclosingTryCatches ctx = ncScope c # scopes \<and>
     ncCallSite c = edgeCallSite e \<and> framesFromTarget c = length (ncHops c) \<and> framesFromTarget c \<le> maxD)"

text \<open>Every caller the graph can return, and every candidate of the name asked for, is named by its own usr.\<close>

definition settled :: "(string \<Rightarrow> bool) \<Rightarrow> call_graph \<Rightarrow> string \<Rightarrow> bool" where
  "settled isUTF8 g fn \<longleftrightarrow> (\<forall>i \<in> callerUniverse g \<union> set (resolveUsrIds isUTF8 g fn).
     resolveUsrIds isUTF8 g (resolve (g_interner g) i) = [i])"

text \<open>It is enough that each of them has a node: a registered usr is looked up before any display name.\<close>

lemma settled_registered:
  assumes wf: "graph_wf g"
    and reg: "\<And>i. i \<in> callerUniverse g \<union> set (resolveUsrIds isUTF8 g fn) \<Longrightarrow>
      map_of (g_nodes g) i \<noteq> None \<and> isUTF8 (resolve (g_interner g) i)"
  shows "settled isUTF8 g fn"
  unfolding settled_def
proof
  fix i assume "i \<in> callerUniverse g \<union> set (resolveUsrIds isUTF8 g fn)"
  then have n: "map_of (g_nodes g) i \<noteq> None" and u: "isUTF8 (resolve (g_interner g) i)" using reg by blast+
  from n obtain x where "map_of (g_nodes g) i = Some x" by blast
  then have "findId (g_interner g) (usr x) = Some i"
    using graph_wfD(7) [OF wf] unfolding nodes_ok_def by blast
  then have "findId (g_interner g) (resolve (g_interner g) i) = Some i"
    using findId_iff [OF graph_wfD(1) [OF wf]] by auto
  with n u show "resolveUsrIds isUTF8 g (resolve (g_interner g) i) = [i]"
    by (simp add: resolveUsrIds_def findText_def)
qed

section \<open>The invariant of the search\<close>

text \<open>\<open>H\<close> gives the chain of each visited function; \<open>d\<close> is the depth being searched.\<close>

definition treeOk :: "(string \<Rightarrow> bool) \<Rightarrow> cf_oracle \<Rightarrow> string set \<Rightarrow> nat \<Rightarrow> (string \<Rightarrow> PathHop list) \<Rightarrow> nat \<Rightarrow> nearest_state \<Rightarrow> bool" where
  "treeOk isUTF8 orc ts maxD H d st \<longleftrightarrow>
     ts \<subseteq> set (n_visited st) \<and> fst ` set (n_parent st) \<subseteq> set (n_visited st) \<and>
     (\<forall>v \<in> set (n_visited st). climb (length (n_parent st)) (n_parent st) v = Some (H v) \<and>
        descent isUTF8 orc ts v (H v) \<and> hopCalleeUsr ` set (H v) \<subseteq> set (n_visited st) \<and> length (H v) \<le> Suc d) \<and>
     sorted (map snd (n_queue st)) \<and>
     (\<forall>(w, k) \<in> set (n_queue st). w \<in> set (n_visited st) \<and> k = length (H w) \<and> d \<le> k) \<and>
     (\<forall>c \<in> set (n_catches st). reports isUTF8 orc ts maxD c) \<and> (\<forall>t \<in> ts. H t = [])"

lemma treeOkD:
  assumes "treeOk isUTF8 orc ts maxD H d st"
  shows "ts \<subseteq> set (n_visited st)" "fst ` set (n_parent st) \<subseteq> set (n_visited st)"
    and "v \<in> set (n_visited st) \<Longrightarrow> climb (length (n_parent st)) (n_parent st) v = Some (H v)"
    and "v \<in> set (n_visited st) \<Longrightarrow> descent isUTF8 orc ts v (H v)"
    and "v \<in> set (n_visited st) \<Longrightarrow> hopCalleeUsr ` set (H v) \<subseteq> set (n_visited st)"
    and "v \<in> set (n_visited st) \<Longrightarrow> length (H v) \<le> Suc d"
    and "sorted (map snd (n_queue st))"
    and "(w, k) \<in> set (n_queue st) \<Longrightarrow> w \<in> set (n_visited st) \<and> k = length (H w) \<and> d \<le> k"
    and "\<forall>c \<in> set (n_catches st). reports isUTF8 orc ts maxD c" and "\<forall>t \<in> ts. H t = []"
  using assms unfolding treeOk_def by (auto dest: bspec)

definition edgeDone :: "(string \<Rightarrow> bool) \<Rightarrow> cf_oracle \<Rightarrow> (string \<Rightarrow> PathHop list) \<Rightarrow> string \<Rightarrow> CallGraphEdge \<Rightarrow> nearest_state \<Rightarrow> bool" where
  "edgeDone isUTF8 orc H v e st \<longleftrightarrow>
     (if bare isUTF8 orc e then callerUsr e \<in> set (n_visited st) \<and> length (H (callerUsr e)) \<le> Suc (length (H v))
      else \<exists>c \<in> set (n_catches st). hd (ncHops c) = edgeHop e \<and> framesFromTarget c = Suc (length (H v)))"

definition grown :: "(string \<Rightarrow> PathHop list) \<Rightarrow> nearest_state \<Rightarrow> (string \<Rightarrow> PathHop list) \<Rightarrow> nearest_state \<Rightarrow> bool" where
  "grown H st H' st' \<longleftrightarrow> set (n_visited st) \<subseteq> set (n_visited st') \<and> set (n_catches st) \<subseteq> set (n_catches st') \<and>
     n_stops st' = n_stops st \<and> (\<forall>w \<in> set (n_visited st). H' w = H w) \<and>
     fst ` set (n_queue st) \<subseteq> fst ` set (n_queue st') \<and>
     set (n_visited st') - set (n_visited st) \<subseteq> fst ` set (n_queue st')"

lemma grown_refl [simp]: "grown H st H st"
  by (simp add: grown_def)

lemma grown_trans: "grown H st H' st' \<Longrightarrow> grown H' st' H'' st'' \<Longrightarrow> grown H st H'' st''"
  unfolding grown_def by (elim conjE, intro conjI) (blast, blast, simp, metis subsetD, blast, blast)

lemma edgeDone_frame [simp]: "edgeDone isUTF8 orc H v e (st\<lparr>n_queue := q\<rparr>) = edgeDone isUTF8 orc H v e st"
  "edgeDone isUTF8 orc H v e (st\<lparr>n_stops := s\<rparr>) = edgeDone isUTF8 orc H v e st"
  by (simp_all add: edgeDone_def)

lemma edgeDone_grown: "edgeDone isUTF8 orc H v e st \<Longrightarrow> grown H st H' st' \<Longrightarrow> v \<in> set (n_visited st) \<Longrightarrow>
    edgeDone isUTF8 orc H' v e st'"
  by (auto simp: edgeDone_def grown_def split: if_splits)

lemma nearestEdge_cases:
  "nearestEdge isUTF8 orc depth e st =
     (if bare isUTF8 orc e
      then Some (if callerUsr e \<in> set (n_visited st) then st
        else st\<lparr>n_visited := callerUsr e # n_visited st, n_parent := um_emplace (n_parent st) (callerUsr e) (edgeHop e),
                n_queue := n_queue st @ [(callerUsr e, depth + 1)]\<rparr>)
      else map_option (\<lambda>hs. st\<lparr>n_catches := n_catches st @
             [\<lparr>pathSegment = displayOfUsr isUTF8 (o_graph orc) (callerUsr e) # map hopCallee (edgeHop e # hs),
               ncHops = edgeHop e # hs, ncScope = hd (enclosingTryCatches (the (contextForHop isUTF8 orc (edgeHop e)))),
               ncCallSite = edgeCallSite e, framesFromTarget = depth + 1\<rparr>]\<rparr>)
             (climb (length (n_parent st)) (n_parent st) (calleeUsr e)))"
  by (simp add: nearestEdge_def Let_def bare_def edgeHop_def split: option.split)

lemma treeOk_visit:
  assumes t: "treeOk isUTF8 orc ts maxD H d st" and c: "c \<notin> set (n_visited st)"
    and v: "v \<in> set (n_visited st)" "length (H v) = d" "hopCalleeUsr hop = v"
    and p: "climb (length p) p c = Some (hop # H v)"
      "\<And>w. w \<in> set (n_visited st) \<Longrightarrow> climb (length p) p w = Some (H w)"
      "fst ` set p \<subseteq> insert c (fst ` set (n_parent st))" "descent isUTF8 orc ts c (hop # H v)"
  shows "treeOk isUTF8 orc ts maxD (H(c := hop # H v)) d
    (st\<lparr>n_visited := c # n_visited st, n_parent := p, n_queue := n_queue st @ [(c, d + 1)]\<rparr>)"
proof -
  note T = treeOkD [OF t]
  have "(case x of (w, k) \<Rightarrow> (w = c \<or> w \<in> set (n_visited st)) \<and> k = length ((H(c := hop # H v)) w) \<and> d \<le> k)"
    if x: "x \<in> set (n_queue st @ [(c, d + 1)])" for x
  proof -
    obtain w k where wk: "x = (w, k)" by fastforce
    show ?thesis using x T(8) [of w k] c v by (auto simp: wk)
  qed
  moreover have "sorted (map snd (n_queue st @ [(c, d + 1)]))"
  proof -
    have "k \<le> Suc d" if "(w, k) \<in> set (n_queue st)" for w k using T(8) [OF that] T(6) [of w] by simp
    then show ?thesis using T(7) by (auto simp: sorted_append)
  qed
  moreover have "climb (length p) p w = Some ((H(c := hop # H v)) w) \<and> descent isUTF8 orc ts w ((H(c := hop # H v)) w) \<and>
      hopCalleeUsr ` set ((H(c := hop # H v)) w) \<subseteq> insert c (set (n_visited st)) \<and> length ((H(c := hop # H v)) w) \<le> Suc d"
    if "w \<in> insert c (set (n_visited st))" for w
    using that T(4-6) [of w] T(5) [OF v(1)] c v p by (cases "w = c") auto
  moreover have "fst ` set p \<subseteq> insert c (set (n_visited st))" using T(2) p(3) by blast
  ultimately show ?thesis using T(1,9,10) c unfolding treeOk_def by (intro conjI ballI) auto
qed

lemma nearestEdge_step:
  assumes t: "treeOk isUTF8 orc ts maxD H d st" and v: "v \<in> set (n_visited st)" "length (H v) = d" "d < maxD"
    and e: "e \<in> set (callersOf isUTF8 (o_graph orc) v)" "calleeUsr e = v"
  shows "\<exists>st' H'. nearestEdge isUTF8 orc d e st = Some st' \<and> treeOk isUTF8 orc ts maxD H' d st' \<and>
    grown H st H' st' \<and> edgeDone isUTF8 orc H' v e st'"
proof (cases "bare isUTF8 orc e")
  case False
  from t v have "climb (length (n_parent st)) (n_parent st) v = Some (H v)" "descent isUTF8 orc ts v (H v)"
    by (simp_all add: treeOk_def)
  moreover from False obtain ctx s ss where "contextForHop isUTF8 orc (edgeHop e) = Some ctx" "enclosingTryCatches ctx = s # ss"
    by (auto simp: bare_def neq_Nil_conv split: option.splits)
  moreover have "reports isUTF8 orc ts maxD \<lparr>pathSegment = p, ncHops = edgeHop e # H v, ncScope = s,
      ncCallSite = edgeCallSite e, framesFromTarget = Suc d\<rparr>" for p
    unfolding reports_def using calculation v e
    by (intro exI [of _ v] exI [of _ "H v"] exI [of _ e] exI [of _ ctx] exI [of _ ss]) simp
  ultimately show ?thesis
    using False t v e by (intro exI [of _ "the (nearestEdge isUTF8 orc d e st)"] exI [of _ H])
      (simp add: nearestEdge_cases treeOk_def grown_def edgeDone_def subset_insertI)
next
  case bare: True
  show ?thesis
  proof (cases "callerUsr e \<in> set (n_visited st)")
    case True
    with bare t v treeOkD(6) [OF t True] show ?thesis by (auto simp: nearestEdge_cases edgeDone_def)
  next
    case False
    let ?c = "callerUsr e" and ?H = "H(callerUsr e := edgeHop e # H v)"
    let ?p = "um_emplace (n_parent st) ?c (edgeHop e)"
    have new: "map_of (n_parent st) ?c = None" using t False by (auto simp: treeOk_def map_of_eq_None_iff)
    have old: "climb (length (n_parent st)) ?p w = Some (H w)" if w: "w \<in> set (n_visited st)" for w
    proof (rule climb_emplace [OF new])
      have "hopCalleeUsr ` set (H w) \<subseteq> set (n_visited st)" using t w by (simp add: treeOk_def)
      then show "?c \<notin> insert w (hopCalleeUsr ` set (H w))" using False w by blast
    qed (use t w in \<open>simp add: treeOk_def\<close>)
    have "climb (length ?p) ?p ?c = Some (edgeHop e # H v)"
      using old [OF v(1)] new e(2) by (simp add: length_um_emplace climb.simps [of "Suc _"] edgeHop_def)
    moreover have "climb (length ?p) ?p w = Some (H w)" if "w \<in> set (n_visited st)" for w
      using climb_more [OF old [OF that]] by (simp add: length_um_emplace new)
    moreover have "descent isUTF8 orc ts ?c (edgeHop e # H v)"
      using t v e bare by (auto simp: treeOk_def intro: descent.call)
    moreover have callee: "hopCalleeUsr (edgeHop e) = v" by (simp add: edgeHop_def e)
    moreover have "fst ` set ?p \<subseteq> insert ?c (fst ` set (n_parent st))"
      by (auto simp: dom_map_of_conv_image_fst [symmetric] dom_def split: if_splits)
    ultimately have "treeOk isUTF8 orc ts maxD ?H d (st\<lparr>n_visited := ?c # n_visited st, n_parent := ?p,
                n_queue := n_queue st @ [(?c, d + 1)]\<rparr>)"
      using t v False by (intro treeOk_visit) simp_all
    moreover have "v \<noteq> ?c" using v False by blast
    ultimately show ?thesis using bare False v by (auto simp: nearestEdge_cases grown_def edgeDone_def intro!: exI [of _ ?H])
  qed
qed


lemma nearestEdges_step:
  assumes "treeOk isUTF8 orc ts maxD H d st" and "v \<in> set (n_visited st)" "length (H v) = d" "d < maxD"
    and "\<forall>e \<in> set es. e \<in> set (callersOf isUTF8 (o_graph orc) v) \<and> calleeUsr e = v"
  shows "\<exists>st' H'. nearestEdges isUTF8 orc d es st = Some st' \<and> treeOk isUTF8 orc ts maxD H' d st' \<and>
    grown H st H' st' \<and> (\<forall>e \<in> set es. edgeDone isUTF8 orc H' v e st')"
  using assms
proof (induction es arbitrary: st H)
  case Nil
  then show ?case by auto
next
  case (Cons e es)
  from Cons.prems(5) have "e \<in> set (callersOf isUTF8 (o_graph orc) v)" "calleeUsr e = v" by simp_all
  from nearestEdge_step [OF Cons.prems(1-4) this] obtain st1 H1 where
    1: "nearestEdge isUTF8 orc d e st = Some st1" "treeOk isUTF8 orc ts maxD H1 d st1"
      "grown H st H1 st1" "edgeDone isUTF8 orc H1 v e st1" by blast
  have v1: "v \<in> set (n_visited st1)" "length (H1 v) = d"
    using 1(3) Cons.prems(2,3) by (auto simp: grown_def)
  from Cons.IH [OF 1(2) v1 Cons.prems(4)] Cons.prems(5) obtain st2 H2 where
    2: "nearestEdges isUTF8 orc d es st1 = Some st2" "treeOk isUTF8 orc ts maxD H2 d st2"
      "grown H1 st1 H2 st2" "\<forall>e \<in> set es. edgeDone isUTF8 orc H2 v e st2" by auto
  from edgeDone_grown [OF 1(4) 2(3) v1(1)] grown_trans [OF 1(3) 2(3)] 1(1) 2 show ?case by auto
qed

definition searched :: "(string \<Rightarrow> bool) \<Rightarrow> cf_oracle \<Rightarrow> (string \<Rightarrow> PathHop list) \<Rightarrow> nearest_state \<Rightarrow> bool" where
  "searched isUTF8 orc H st \<longleftrightarrow> (n_stops st = {} \<longrightarrow> (\<forall>v \<in> set (n_visited st) - fst ` set (n_queue st).
     \<forall>e \<in> set (callersOf isUTF8 (o_graph orc) v). edgeDone isUTF8 orc H v e st))"

definition selfNamed :: "(string \<Rightarrow> bool) \<Rightarrow> call_graph \<Rightarrow> string \<Rightarrow> bool" where
  "selfNamed isUTF8 g v \<longleftrightarrow> (\<forall>e \<in> set (callersOf isUTF8 g v). calleeUsr e = v)"

lemma treeOk_pop:
  assumes "treeOk isUTF8 orc ts maxD H d st" "n_queue st = (v, k) # rest"
  shows "treeOk isUTF8 orc ts maxD H k (st\<lparr>n_queue := rest\<rparr>)" "v \<in> set (n_visited st)" "length (H v) = k"
  using assms by (force simp: treeOk_def)+

lemma callersOf_universe: "e \<in> set (callersOf isUTF8 g v) \<Longrightarrow> callerUsr e \<in> usrCallers g"
  using canonicalCallers_universe [of e isUTF8 g v] by (simp add: canonicalCallers_def)

lemma descent_universe: "descent isUTF8 orc ts v hs \<Longrightarrow> v \<in> ts \<union> usrCallers (o_graph orc)"
  by (induction rule: descent.induct) (auto dest: callersOf_universe)

lemma nearestLoop_expand:
  assumes t: "treeOk isUTF8 orc ts maxD H k st" and s: "searched isUTF8 orc H (st\<lparr>n_queue := (v, k) # n_queue st\<rparr>)"
    and v: "v \<in> set (n_visited st)" "length (H v) = k" "k < maxD" "selfNamed isUTF8 (o_graph orc) v"
  shows "\<exists>st' H'. nearestEdges isUTF8 orc k (canonicalCallers isUTF8 (o_graph orc) v) st = Some st' \<and>
    treeOk isUTF8 orc ts maxD H' k st' \<and> searched isUTF8 orc H' st'"
proof -
  have set: "set (canonicalCallers isUTF8 (o_graph orc) v) = set (callersOf isUTF8 (o_graph orc) v)"
    by (simp add: canonicalCallers_def)
  from nearestEdges_step [OF t v(1-3), of "canonicalCallers isUTF8 (o_graph orc) v"] v(4) obtain st' H' where
    st: "nearestEdges isUTF8 orc k (canonicalCallers isUTF8 (o_graph orc) v) st = Some st'"
      "treeOk isUTF8 orc ts maxD H' k st'" "grown H st H' st'"
    and fin: "\<forall>e \<in> set (callersOf isUTF8 (o_graph orc) v). edgeDone isUTF8 orc H' v e st'"
    unfolding set selfNamed_def by blast
  have "edgeDone isUTF8 orc H' w e st'" if w: "w \<in> set (n_visited st') - fst ` set (n_queue st')"
      "e \<in> set (callersOf isUTF8 (o_graph orc) w)" and none: "n_stops st' = {}" for w e
  proof (cases "w = v")
    case False
    with w st(3) have "w \<in> set (n_visited st) - fst ` set ((v, k) # n_queue st)" by (auto simp: grown_def)
    moreover have "n_stops st = {}" using none st(3) by (simp add: grown_def)
    ultimately have "edgeDone isUTF8 orc H w e st" using s w(2) by (simp add: searched_def)
    moreover have "w \<in> set (n_visited st)" using w(1) st(3) by (auto simp: grown_def)
    ultimately show ?thesis using st(3) edgeDone_grown by blast
  qed (use fin w in blast)
  then have "searched isUTF8 orc H' st'" by (simp add: searched_def)
  with st show ?thesis by blast
qed

lemma nearestLoop_spec:
  assumes "treeOk isUTF8 orc ts maxD H d st" "searched isUTF8 orc H st"
    and named: "\<forall>v \<in> ts \<union> usrCallers (o_graph orc). selfNamed isUTF8 (o_graph orc) v"
  shows "\<exists>st' H' d'. nearestLoop isUTF8 orc maxD st = Some st' \<and> treeOk isUTF8 orc ts maxD H' d' st' \<and>
    searched isUTF8 orc H' st' \<and> n_queue st' = []"
  using assms(1,2)
proof (induction "nearestWork (usrCallers (o_graph orc)) st" arbitrary: st H d rule: less_induct)
  case less
  show ?case
  proof (cases "n_queue st")
    case Nil
    with less.prems show ?thesis by (auto simp: nearestLoop.simps [of isUTF8 orc maxD st])
  next
    case (Cons p rest)
    obtain v k where p: "p = (v, k)" by fastforce
    let ?st = "st\<lparr>n_queue := rest\<rparr>"
    note pop = treeOk_pop [OF less.prems(1) Cons [unfolded p]]
    have q: "?st\<lparr>n_queue := (v, k) # n_queue ?st\<rparr> = st" using Cons p by simp
    have smaller: "nearestWork (usrCallers (o_graph orc)) ?st < nearestWork (usrCallers (o_graph orc)) st"
      by (simp add: nearestWork_def Cons)
    show ?thesis
    proof (cases "maxD \<le> k")
      case True
      let ?st2 = "if callersOf isUTF8 (o_graph orc) v \<noteq> [] then ?st\<lparr>n_stops := insert DepthLimit (n_stops ?st)\<rparr> else ?st"
      have "treeOk isUTF8 orc ts maxD H k ?st2" using pop(1) by (simp add: treeOk_def)
      moreover have "searched isUTF8 orc H ?st2"
        using less.prems(2) Cons p by (cases "callersOf isUTF8 (o_graph orc) v = []") (auto simp: searched_def)
      moreover have "nearestWork (usrCallers (o_graph orc)) ?st2 < nearestWork (usrCallers (o_graph orc)) st"
        using smaller by (simp add: nearestWork_def)
      ultimately show ?thesis
        using less.hyps [of ?st2 H k] True Cons p by (simp add: nearestLoop.simps [of isUTF8 orc maxD st] Let_def)
    next
      case False
      have "v \<in> ts \<union> usrCallers (o_graph orc)"
        using less.prems(1) pop(2) by (intro descent_universe [of isUTF8 orc ts v "H v"]) (simp add: treeOk_def)
      with named have "selfNamed isUTF8 (o_graph orc) v" by blast
      moreover have "k < maxD" "v \<in> set (n_visited ?st)" using False pop(2) by simp_all
      ultimately obtain st2 H2 where
        2: "nearestEdges isUTF8 orc k (canonicalCallers isUTF8 (o_graph orc) v) ?st = Some st2"
          "treeOk isUTF8 orc ts maxD H2 k st2" "searched isUTF8 orc H2 st2"
        using nearestLoop_expand [OF pop(1), of v] less.prems(2) pop(3) unfolding q by blast
      have "nearestWork (usrCallers (o_graph orc)) st2 \<le> nearestWork (usrCallers (o_graph orc)) ?st"
        by (rule nearestEdges_work [OF _ 2(1)]) (auto simp: usrCallers_def intro: canonicalCallers_universe [unfolded usrCallers_def])
      with less.hyps [of st2 H2 k] 2 False Cons p smaller show ?thesis
        by (simp add: nearestLoop.simps [of isUTF8 orc maxD st] Let_def)
    qed
  qed
qed

section \<open>The query\<close>

definition seeded :: "string list \<Rightarrow> nearest_state" where
  "seeded ts = fold seedTarget ts \<lparr>n_parent = [], n_visited = [], n_queue = [], n_catches = [], n_stops = {}\<rparr>"

lemma seeded_fields:
  "n_parent (seeded ts) = []" "n_catches (seeded ts) = []" "n_stops (seeded ts) = {}"
  "n_queue (seeded ts) = map (\<lambda>t. (t, 0)) (rev (n_visited (seeded ts)))" "set (n_visited (seeded ts)) = set ts"
  unfolding seeded_def by (induction ts rule: rev_induct) (auto simp: seedTarget_def)

lemma seeded_ok: "treeOk isUTF8 orc (set ts) maxD (\<lambda>_. []) 0 (seeded ts)" "searched isUTF8 orc (\<lambda>_. []) (seeded ts)"
proof -
  have "sorted (map snd (map (\<lambda>t. (t, 0 :: nat)) xs))" for xs :: "string list" by (induction xs) auto
  then show "treeOk isUTF8 orc (set ts) maxD (\<lambda>_. []) 0 (seeded ts)"
    by (auto simp: treeOk_def seeded_fields climb.simps intro: descent.target)
  have "fst ` set (n_queue (seeded ts)) = set ts" by (simp add: seeded_fields image_image)
  then show "searched isUTF8 orc (\<lambda>_. []) (seeded ts)" by (simp add: searched_def seeded_fields(5))
qed

lemma callerRefsOf_callee:
  assumes "graph_wf g" "r \<in> set (callerRefsOf g d)"
  shows "callee r = d"
proof -
  have "set (map snd (unseen s xs)) \<subseteq> snd ` set xs" for s and xs :: "((sid \<times> sid) \<times> EdgeRef) list"
    by (induction s xs rule: unseen.induct) auto
  then show ?thesis using assms(2) unfolding callerRefsOf_normal [OF assms(1)]
    by (fastforce simp: inLive_def virtIn_def retIn_def keyOf_def)
qed

lemma settled_selfNamed:
  assumes wf: "graph_wf g" and s: "settled isUTF8 g fn"
    and v: "v \<in> set (nearestTargets isUTF8 g fn) \<union> usrCallers g"
  shows "selfNamed isUTF8 g v"
proof -
  have one: "selfNamed isUTF8 g (resolve (g_interner g) i)" if "i \<in> callerUniverse g \<union> set (resolveUsrIds isUTF8 g fn)" for i
    using s that callerRefsOf_callee [OF wf, of _ i]
    by (auto simp: settled_def selfNamed_def callersOf_def materialize_def)
  show ?thesis
  proof (cases "usrsForName isUTF8 g fn = [] \<and> v = fn")
    case True
    then show ?thesis by (simp add: usrsForName_def selfNamed_def callersOf_def)
  next
    case False
    with v have "v \<in> resolve (g_interner g) ` (callerUniverse g \<union> set (resolveUsrIds isUTF8 g fn))"
      by (auto simp: nearestTargets_def Let_def usrsForName_def usrCallers_def split: if_splits)
    with one show ?thesis by blast
  qed
qed

lemma searched_descent:
  assumes "searched isUTF8 orc H st" "ts \<subseteq> set (n_visited st)" "\<forall>t \<in> ts. H t = []" "n_queue st = []" "n_stops st = {}"
    and "descent isUTF8 orc ts v hs"
  shows "v \<in> set (n_visited st) \<and> length (H v) \<le> length hs"
  using assms(6)
proof (induction rule: descent.induct)
  case (call v hs e)
  then have "edgeDone isUTF8 orc H v e st" using assms(1,4,5) by (simp add: searched_def)
  with call show ?case by (auto simp: edgeDone_def)
qed (use assms(2,3) in auto)

lemma unknown_no_callers:
  assumes "usrsForName isUTF8 (o_graph orc) fn = []" and "descent isUTF8 orc (set (nearestTargets isUTF8 (o_graph orc) fn)) v hs"
  shows "callersOf isUTF8 (o_graph orc) v = []"
proof -
  have fn: "callersOf isUTF8 (o_graph orc) fn = []" using assms(1) by (simp add: usrsForName_def callersOf_def)
  from assms(2) have "v = fn"
    by (induction rule: descent.induct) (use fn assms(1) in \<open>auto simp: nearestTargets_def\<close>)
  with fn show ?thesis by simp
qed

text \<open>
  C17: the search for the nearest handlers returns, and what it reports is right and, unless it was cut at the
  depth bound, all there is: each report is the innermost scope around a call from which unprotected calls lead
  down to the function, with that chain of calls, as many frames as it is long; every protected call that an
  exception can reach from the function through unprotected calls is reported, at its least distance; and the
  nearest come first. The condition \<open>settled\<close> is that every caller in the graph and every candidate of the name
  resolves to itself when looked up by its usr, as it does when it has a node (\<open>settled_registered\<close>). A caller
  without a node whose usr is the display name of another function breaks it: the callers of that function are
  then taken for its own, and the tree of parents can close into a cycle.
\<close>

theorem nearestCatches_exact:
  assumes "graph_wf (o_graph orc)" and "settled isUTF8 (o_graph orc) fn"
  shows "\<exists>r. queryNearestCatches isUTF8 orc fn maxD = Some r \<and>
    (\<forall>c \<in> set (catches r). reports isUTF8 orc (set (nearestTargets isUTF8 (o_graph orc) fn)) maxD c) \<and>
    (ncComplete r \<longrightarrow> (\<forall>v hs e. descent isUTF8 orc (set (nearestTargets isUTF8 (o_graph orc) fn)) v hs \<longrightarrow>
       e \<in> set (callersOf isUTF8 (o_graph orc) v) \<longrightarrow> \<not> bare isUTF8 orc e \<longrightarrow>
       (\<exists>c \<in> set (catches r). hd (ncHops c) = edgeHop e \<and> framesFromTarget c \<le> Suc (length hs)))) \<and>
    sorted (map framesFromTarget (catches r))"
proof (cases "findId (g_interner (o_graph orc)) fn = None \<and> usrsForName isUTF8 (o_graph orc) fn = []")
  case True
  then show ?thesis using unknown_no_callers [of isUTF8 orc fn] by (simp add: queryNearestCatches_def Let_def)
next
  case False
  let ?ts = "nearestTargets isUTF8 (o_graph orc) fn"
  have "\<forall>v \<in> set ?ts \<union> usrCallers (o_graph orc). selfNamed isUTF8 (o_graph orc) v"
    using settled_selfNamed [OF assms] by blast
  from nearestLoop_spec [OF seeded_ok this] obtain st H d where
    run: "nearestLoop isUTF8 orc maxD (seeded ?ts) = Some st" and t: "treeOk isUTF8 orc (set ?ts) maxD H d st"
    and s: "searched isUTF8 orc H st" "n_queue st = []" by blast
  let ?key = "\<lambda>c. (framesFromTarget c, pathSegment c, ncCallSite c)"
  obtain r where r: "queryNearestCatches isUTF8 orc fn maxD = Some r" "catches r = sort_key ?key (n_catches st)"
    "ncComplete r \<longleftrightarrow> n_stops st = {}"
    using False run by (auto simp: queryNearestCatches_def Let_def seeded_def)
  have "sorted (map framesFromTarget (catches r))"
    unfolding r(2) using sorted_sort_key [of ?key "n_catches st"]
    by (auto simp: sorted_map less_eq_prod_def intro: sorted_wrt_mono_rel [rotated])
  moreover have "\<exists>c \<in> set (catches r). hd (ncHops c) = edgeHop e \<and> framesFromTarget c \<le> Suc (length hs)"
    if "ncComplete r" "descent isUTF8 orc (set ?ts) v hs" "e \<in> set (callersOf isUTF8 (o_graph orc) v)" "\<not> bare isUTF8 orc e" for v hs e
  proof -
    have "v \<in> set (n_visited st) \<and> length (H v) \<le> length hs"
      using searched_descent [OF s(1) treeOkD(1,10) [OF t] s(2) _ that(2)] that(1) r(3) by simp
    moreover from this have "edgeDone isUTF8 orc H v e st" using s that(1,3) r(3) by (simp add: searched_def)
    ultimately show ?thesis using that(4) r(2) by (auto simp: edgeDone_def)
  qed
  moreover have "\<forall>c \<in> set (catches r). reports isUTF8 orc (set ?ts) maxD c" using treeOkD(9) [OF t] r(2) by simp
  ultimately show ?thesis using r(1) by blast
qed

lemma chain_settled: "settled (\<lambda>_. True) (o_graph chainOracle) ''c''"
  by code_simp

lemma chain_climb: "callersOf (\<lambda>_. True) (o_graph chainOracle) ''c'' \<noteq> []" "callersOf (\<lambda>_. True) (o_graph chainOracle) ''b'' \<noteq> []"
  "callerUsr (hd (callersOf (\<lambda>_. True) (o_graph chainOracle) ''c'')) = ''b''"
  "callerUsr (hd (callersOf (\<lambda>_. True) (o_graph chainOracle) ''b'')) = ''a''"
  "bare (\<lambda>_. True) chainOracle (hd (callersOf (\<lambda>_. True) (o_graph chainOracle) ''c''))"
  "\<not> bare (\<lambda>_. True) chainOracle (hd (callersOf (\<lambda>_. True) (o_graph chainOracle) ''b''))"
  "''c'' \<in> set (nearestTargets (\<lambda>_. True) (o_graph chainOracle) ''c'')"
  "map_option ncComplete (queryNearestCatches (\<lambda>_. True) chainOracle ''c'' 9) = Some True"
  by code_simp+

theorem nearestCatches_exact_witness:
  "\<exists>r. queryNearestCatches (\<lambda>_. True) chainOracle ''c'' 9 = Some r \<and>
    (\<exists>c \<in> set (catches r). hopCallerUsr (hd (ncHops c)) = ''a'' \<and> framesFromTarget c \<le> 2)"
proof -
  have "graph_wf (o_graph chainOracle)" by (simp add: chainOracle_def chain_wf)
  from nearestCatches_exact [OF this chain_settled, of 9] obtain r where
    r: "queryNearestCatches (\<lambda>_. True) chainOracle ''c'' 9 = Some r"
    and all: "ncComplete r \<longrightarrow> (\<forall>v hs e. descent (\<lambda>_. True) chainOracle (set (nearestTargets (\<lambda>_. True) (o_graph chainOracle) ''c'')) v hs \<longrightarrow>
       e \<in> set (callersOf (\<lambda>_. True) (o_graph chainOracle) v) \<longrightarrow> \<not> bare (\<lambda>_. True) chainOracle e \<longrightarrow>
       (\<exists>c \<in> set (catches r). hd (ncHops c) = edgeHop e \<and> framesFromTarget c \<le> Suc (length hs)))" by blast
  have c: "ncComplete r" using chain_climb(8) r by simp
  from descent.call [OF descent.target [OF chain_climb(7)] hd_in_set [OF chain_climb(1)] chain_climb(5)]
  obtain hs where "descent (\<lambda>_. True) chainOracle (set (nearestTargets (\<lambda>_. True) (o_graph chainOracle) ''c'')) ''b'' hs" "length hs = 1"
    by (simp add: chain_climb(3))
  with all c hd_in_set [OF chain_climb(2)] chain_climb(6) obtain x where
    "x \<in> set (catches r)" "hd (ncHops x) = edgeHop (hd (callersOf (\<lambda>_. True) (o_graph chainOracle) ''b''))" "framesFromTarget x \<le> 2"
    by (metis numeral_2_eq_2 One_nat_def)
  moreover from this(2) have "hopCallerUsr (hd (ncHops x)) = ''a''" using chain_climb(4) by (simp add: edgeHop_def)
  ultimately show ?thesis using r by blast
qed

end
