(* ===== verification/Impact.thy ===== *)
theory Impact
  imports PathSearch
begin

text \<open>
  The bounded impact traversal (\<open>include/vycor/impact/ImpactSearch.h\<close>, \<open>src/impact/ImpactSearch.cpp\<close>): a
  reverse breadth-first walk from a set of changed functions over the caller edges of the call graph, under a
  depth, a fan-in and a work limit. The unordered map of reached functions is read out into sorted lists, so
  its order does not matter.
\<close>

section \<open>Data\<close>

record ImpactLimits =
  iMaxDepth :: nat
  iMaxFanIn :: nat
  iMaxWork :: nat

record AffectedFunction =
  afUsr :: string
  afName :: string
  afDepth :: nat
  afChangedUsr :: string
  afPath :: "PathHop list"

record ImpactResult =
  irChanged :: "string list"
  irUnknown :: "string list"
  irAffected :: "AffectedFunction list"
  irSkippedHubs :: "SkippedHub list"
  irStops :: "StopReason set"
  irExpansions :: nat

definition impactComplete :: "ImpactResult \<Rightarrow> bool" where
  "impactComplete r \<longleftrightarrow> WorkBudget \<notin> irStops r \<and> HubPruned \<notin> irStops r"

definition impactExhaustive :: "ImpactResult \<Rightarrow> bool" where
  "impactExhaustive r \<longleftrightarrow> impactComplete r \<and> irStops r = {}"

text \<open>\<open>rcEdge\<close> is unset (\<open>None\<close>) in the entry of a changed function.\<close>

record Reach =
  rcDepth :: nat
  rcParent :: sid
  rcEdge :: "EdgeRef option"
  rcOrigin :: sid

record impact_state =
  im_reached :: "(sid, Reach) umap"
  im_queue :: "sid list"
  im_hubs :: "(sid, nat) umap"
  im_stops :: "StopReason set"
  im_expansions :: nat

section \<open>Seeds\<close>

definition impactSeeds :: "(string \<Rightarrow> bool) \<Rightarrow> call_graph \<Rightarrow> string list \<Rightarrow> sid list" where
  "impactSeeds isUTF8 g changedNames =
     remdups_adj (sort_key (resolve (g_interner g)) (concat (map (resolveKnownIds isUTF8 g) changedNames)))"

definition impactUnknown :: "(string \<Rightarrow> bool) \<Rightarrow> call_graph \<Rightarrow> string list \<Rightarrow> string list" where
  "impactUnknown isUTF8 g changedNames =
     remdups_adj (sort (filter (\<lambda>name. resolveKnownIds isUTF8 g name = []) changedNames))"

definition seedReach :: "sid \<Rightarrow> impact_state \<Rightarrow> impact_state" where
  "seedReach s st = st\<lparr>
     im_reached := um_emplace (im_reached st) s \<lparr>rcDepth = 0, rcParent = 0, rcEdge = None, rcOrigin = s\<rparr>,
     im_queue := im_queue st @ [s]\<rparr>"

section \<open>The walk\<close>

text \<open>\<open>reached[node]\<close>, whose entry is always there when it is read.\<close>

definition reachOf :: "impact_state \<Rightarrow> sid \<Rightarrow> Reach" where
  "reachOf st node = (case map_of (im_reached st) node of
     Some rc \<Rightarrow> rc | None \<Rightarrow> \<lparr>rcDepth = 0, rcParent = 0, rcEdge = None, rcOrigin = 0\<rparr>)"

definition admitted :: "(EdgeRef \<Rightarrow> bool) option \<Rightarrow> impact_state \<Rightarrow> EdgeRef \<Rightarrow> bool" where
  "admitted filt st e \<longleftrightarrow> admit filt e \<and> map_of (im_reached st) (caller e) = None"

definition reachCaller :: "(EdgeRef \<Rightarrow> bool) option \<Rightarrow> sid \<Rightarrow> nat \<Rightarrow> EdgeRef \<Rightarrow> impact_state \<Rightarrow> impact_state" where
  "reachCaller filt node depth e st =
     (if \<not> admitted filt st e then st
      else st\<lparr>im_reached := um_emplace (im_reached st) (caller e)
                \<lparr>rcDepth = depth + 1, rcParent = node, rcEdge = Some e, rcOrigin = rcOrigin (reachOf st node)\<rparr>,
              im_queue := im_queue st @ [caller e]\<rparr>)"

definition impactWork :: "sid set \<Rightarrow> impact_state \<Rightarrow> nat" where
  "impactWork U st = length (im_queue st) + card (U - fst ` set (im_reached st))"

lemma keys_um_emplace: "fst ` set (um_emplace m k v) = insert k (fst ` set m)"
proof -
  have "dom (map_of (um_emplace m k v)) = insert k (dom (map_of m))" by (auto simp: dom_def)
  then show ?thesis by (simp add: dom_map_of_conv_image_fst)
qed

lemma reachCaller_work:
  assumes "finite U" "caller e \<in> U"
  shows "impactWork U (reachCaller filt node depth e st) \<le> impactWork U st"
proof (cases "admitted filt st e")
  case True
  then have "caller e \<in> U - fst ` set (im_reached st)"
    using assms by (simp add: admitted_def map_of_eq_None_iff)
  then have "card (U - fst ` set (im_reached st)) = Suc (card (U - insert (caller e) (fst ` set (im_reached st))))"
    using assms by (metis card_Suc_Diff1 Diff_insert finite_Diff)
  with True show ?thesis by (simp add: reachCaller_def impactWork_def keys_um_emplace)
qed (simp add: reachCaller_def)

lemma fold_reachCaller_work:
  "finite U \<Longrightarrow> \<forall>e \<in> set es. caller e \<in> U \<Longrightarrow> impactWork U (fold (reachCaller filt node depth) es st) \<le> impactWork U st"
proof (induction es arbitrary: st)
  case (Cons e es)
  have "impactWork U (reachCaller filt node depth e st) \<le> impactWork U st" using Cons.prems by (intro reachCaller_work) auto
  moreover have "impactWork U (fold (reachCaller filt node depth) es (reachCaller filt node depth e st)) \<le>
      impactWork U (reachCaller filt node depth e st)" using Cons.prems by (intro Cons.IH) auto
  ultimately show ?case by simp
qed simp

lemma set_sortCallerRefs: "set (sortCallerRefsCanonically g es) = set es"
proof -
  have "set (insertBy lt x xs) = insert x (set xs)" for lt and x :: EdgeRef and xs by (induction xs) auto
  then show ?thesis unfolding sortCallerRefsCanonically_def by (induction es) (auto simp: sortBy_def)
qed

function impactLoop :: "call_graph \<Rightarrow> (EdgeRef \<Rightarrow> bool) option \<Rightarrow> ImpactLimits \<Rightarrow> impact_state \<Rightarrow> impact_state" where
  "impactLoop g filt lim st =
     (case im_queue st of
        [] \<Rightarrow> st
      | node # rest \<Rightarrow>
          let st = st\<lparr>im_queue := rest\<rparr>;
              depth = rcDepth (reachOf st node);
              callers = sortCallerRefsCanonically g (callerRefsOf g node)
          in if iMaxDepth lim \<noteq> 0 \<and> depth \<ge> iMaxDepth lim
             then impactLoop g filt lim
                    (if list_ex (admitted filt st) callers
                     then st\<lparr>im_stops := insert DepthLimit (im_stops st)\<rparr> else st)
             else if depth > 0 \<and> iMaxFanIn lim \<noteq> 0 \<and> storedInDegree g node > iMaxFanIn lim
             then impactLoop g filt lim
                    (st\<lparr>im_hubs := um_emplace (im_hubs st) node (storedInDegree g node),
                        im_stops := insert HubPruned (im_stops st)\<rparr>)
             else if iMaxWork lim \<noteq> 0 \<and> im_expansions st \<ge> iMaxWork lim
             then st\<lparr>im_stops := insert WorkBudget (im_stops st)\<rparr>
             else impactLoop g filt lim
                    (fold (reachCaller filt node depth) callers (st\<lparr>im_expansions := im_expansions st + 1\<rparr>)))"
  by pat_completeness auto
termination
proof (relation "measure (\<lambda>(g, filt, lim, st). impactWork (callerUniverse g) st)", goal_cases)
  case (4 g filt lim st node rest x xa xb)
  have "impactWork (callerUniverse g) (fold (reachCaller filt node xa) xb (x\<lparr>im_expansions := im_expansions x + 1\<rparr>)) \<le>
      impactWork (callerUniverse g) (x\<lparr>im_expansions := im_expansions x + 1\<rparr>)"
    using 4(4) by (intro fold_reachCaller_work) (auto simp: set_sortCallerRefs callerRefsOf_universe)
  with 4 show ?case by (simp add: impactWork_def)
qed (auto simp: impactWork_def)

declare impactLoop.simps [simp del]

section \<open>The result\<close>

definition impactHop :: "(string \<Rightarrow> bool) \<Rightarrow> call_graph \<Rightarrow> EdgeRef \<Rightarrow> PathHop" where
  "impactHop isUTF8 g e =
     (let callerU = resolve (g_interner g) (caller e); calleeU = resolve (g_interner g) (callee e);
          cn = findNode isUTF8 g callerU; dn = findNode isUTF8 g calleeU
      in \<lparr>hopCallerUsr = callerU, hopCalleeUsr = calleeU,
          hopCaller = (case cn of Some n \<Rightarrow> qualifiedName n | None \<Rightarrow> callerU),
          hopCallee = (case dn of Some n \<Rightarrow> qualifiedName n | None \<Rightarrow> calleeU),
          hopCallSite = resolve (g_interner g) (callSite e), hopKind = kind e, hopConfidence = confidence e,
          hopExecContext = execContext e, hopIndirectionDepth = indirectionDepth e\<rparr>)"

text \<open>
  The loop that reads the path of a reached function. It makes as many steps as the function is deep; \<open>None\<close>
  stands for a missing entry (\<open>at\<close> throws) or for running out of steps.
\<close>

fun impactPath :: "nat \<Rightarrow> (string \<Rightarrow> bool) \<Rightarrow> call_graph \<Rightarrow> (sid, Reach) umap \<Rightarrow> sid \<Rightarrow> PathHop list option" where
  "impactPath fuel isUTF8 g reached cur =
     (case map_of reached cur of
        None \<Rightarrow> None
      | Some rc \<Rightarrow>
          if rcDepth rc = 0 then Some []
          else (case (fuel, rcEdge rc) of
                  (Suc fuel, Some e) \<Rightarrow> map_option (\<lambda>hs. impactHop isUTF8 g e # hs) (impactPath fuel isUTF8 g reached (rcParent rc))
                | _ \<Rightarrow> None))"

declare impactPath.simps [simp del]

definition affectedOf :: "(string \<Rightarrow> bool) \<Rightarrow> call_graph \<Rightarrow> (sid, Reach) umap \<Rightarrow> sid \<times> Reach \<Rightarrow> AffectedFunction option" where
  "affectedOf isUTF8 g reached p =
     (case p of (i, rc) \<Rightarrow>
        map_option (\<lambda>hops. \<lparr>afUsr = resolve (g_interner g) i, afName = displayOf isUTF8 g i, afDepth = rcDepth rc,
            afChangedUsr = resolve (g_interner g) (rcOrigin rc), afPath = hops\<rparr>)
          (impactPath (rcDepth rc) isUTF8 g reached i))"

definition hubOf :: "(string \<Rightarrow> bool) \<Rightarrow> call_graph \<Rightarrow> sid \<times> nat \<Rightarrow> SkippedHub" where
  "hubOf isUTF8 g p = \<lparr>hubUsr = resolve (g_interner g) (fst p), hubName = displayOf isUTF8 g (fst p), hubInDegree = snd p\<rparr>"

text \<open>\<open>None\<close> when the path of some function has none.\<close>

fun collect :: "'a option list \<Rightarrow> 'a list option" where
  "collect [] = Some []"
| "collect (None # xs) = None"
| "collect (Some x # xs) = map_option (\<lambda>ys. x # ys) (collect xs)"

definition impactRun :: "(string \<Rightarrow> bool) \<Rightarrow> call_graph \<Rightarrow> sid list \<Rightarrow> ImpactLimits \<Rightarrow> (EdgeRef \<Rightarrow> bool) option \<Rightarrow> impact_state" where
  "impactRun isUTF8 g seeds lim filt = impactLoop g filt lim (fold seedReach seeds
     \<lparr>im_reached = [], im_queue = [], im_hubs = [], im_stops = {}, im_expansions = 0\<rparr>)"

definition findImpact :: "(string \<Rightarrow> bool) \<Rightarrow> call_graph \<Rightarrow> string list \<Rightarrow> ImpactLimits \<Rightarrow> (EdgeRef \<Rightarrow> bool) option \<Rightarrow>
    ImpactResult option" where
  "findImpact isUTF8 g changedNames lim filt =
     (let seeds = impactSeeds isUTF8 g changedNames;
          st = impactRun isUTF8 g seeds lim filt
      in case collect (map (affectedOf isUTF8 g (im_reached st))
                (filter (\<lambda>p. rcDepth (snd p) \<noteq> 0) (im_reached st))) of
           None \<Rightarrow> None
         | Some affected \<Rightarrow> Some \<lparr>irChanged = map (resolve (g_interner g)) seeds,
             irUnknown = impactUnknown isUTF8 g changedNames,
             irAffected = sort_key (\<lambda>a. (afDepth a, afUsr a)) affected,
             irSkippedHubs = sort_key hubUsr (map (hubOf isUTF8 g) (im_hubs st)),
             irStops = im_stops st, irExpansions = im_expansions st\<rparr>)"

end
