(* ===== verification/ImpactProps.thy ===== *)
theory ImpactProps
  imports Impact PathSearchProps
begin

text \<open>
  The impact traversal reports real caller chains, shortest first, and misses none within its limits; the
  order in which the changed functions are named does not matter.
\<close>

section \<open>Chains\<close>

lemma callChain_snoc:
  "callChain g filt n (es @ [e]) \<longleftrightarrow> callChain g filt n es \<and> e \<in> set (callerRefsOf g (endOf n es)) \<and> admit filt e"
  by (induction es arbitrary: n) auto

lemma endOf_snoc [simp]: "endOf n (es @ [e]) = caller e"
  by (induction es arbitrary: n) auto

lemma impactHop_hopOf: "impactHop isUTF8 g e = hopOf isUTF8 g e"
  by (simp add: impactHop_def hopOf_def displayOf_def Let_def)

section \<open>The invariant\<close>

abbreviation reached :: "impact_state \<Rightarrow> sid \<Rightarrow> bool" where
  "reached st v \<equiv> map_of (im_reached st) v \<noteq> None"

text \<open>\<open>H v\<close> is the chain, from the changed function up, on which \<open>v\<close> was reached; \<open>d\<close> the depth searched.\<close>

definition reachOk :: "call_graph \<Rightarrow> (EdgeRef \<Rightarrow> bool) option \<Rightarrow> sid set \<Rightarrow> ImpactLimits \<Rightarrow> (sid \<Rightarrow> EdgeRef list) \<Rightarrow> nat \<Rightarrow>
    impact_state \<Rightarrow> sid \<Rightarrow> Reach \<Rightarrow> bool" where
  "reachOk g filt S lim H d st v rc \<longleftrightarrow> rcOrigin rc \<in> S \<and> callChain g filt (rcOrigin rc) (H v) \<and>
     endOf (rcOrigin rc) (H v) = v \<and> rcDepth rc = length (H v) \<and> length (H v) \<le> Suc d \<and>
     (iMaxDepth lim \<noteq> 0 \<longrightarrow> length (H v) \<le> iMaxDepth lim) \<and>
     (H v \<noteq> [] \<longrightarrow> rcEdge rc = Some (last (H v)) \<and> reached st (rcParent rc) \<and> H (rcParent rc) = butlast (H v))"

definition impOk :: "call_graph \<Rightarrow> (EdgeRef \<Rightarrow> bool) option \<Rightarrow> sid set \<Rightarrow> ImpactLimits \<Rightarrow> (sid \<Rightarrow> EdgeRef list) \<Rightarrow> nat \<Rightarrow>
    impact_state \<Rightarrow> bool" where
  "impOk g filt S lim H d st \<longleftrightarrow>
     (\<forall>s \<in> S. reached st s \<and> H s = []) \<and>
     (\<forall>v rc. map_of (im_reached st) v = Some rc \<longrightarrow> reachOk g filt S lim H d st v rc) \<and>
     sorted (map (\<lambda>w. length (H w)) (im_queue st)) \<and>
     (\<forall>w \<in> set (im_queue st). reached st w \<and> d \<le> length (H w)) \<and> um_ok (im_reached st)"

lemma impOkD:
  assumes "impOk g filt S lim H d st"
  shows "s \<in> S \<Longrightarrow> reached st s" "s \<in> S \<Longrightarrow> H s = []"
    and "map_of (im_reached st) v = Some rc \<Longrightarrow> reachOk g filt S lim H d st v rc"
    and "sorted (map (\<lambda>w. length (H w)) (im_queue st))"
    and "w \<in> set (im_queue st) \<Longrightarrow> reached st w" "w \<in> set (im_queue st) \<Longrightarrow> d \<le> length (H w)"
    and "um_ok (im_reached st)"
  using assms unfolding impOk_def by blast+

lemma impOk_length: "impOk g filt S lim H d st \<Longrightarrow> reached st v \<Longrightarrow> length (H v) \<le> Suc d"
  using impOkD(3) [of g filt S lim H d st v] by (auto simp: reachOk_def)

definition edgeReached :: "(sid \<Rightarrow> EdgeRef list) \<Rightarrow> impact_state \<Rightarrow> sid \<Rightarrow> EdgeRef \<Rightarrow> bool" where
  "edgeReached H st v e \<longleftrightarrow> reached st (caller e) \<and> length (H (caller e)) \<le> Suc (length (H v))"

definition wider :: "(sid \<Rightarrow> EdgeRef list) \<Rightarrow> impact_state \<Rightarrow> (sid \<Rightarrow> EdgeRef list) \<Rightarrow> impact_state \<Rightarrow> bool" where
  "wider H st H' st' \<longleftrightarrow> (\<forall>v. reached st v \<longrightarrow> reached st' v \<and> H' v = H v) \<and> im_stops st' = im_stops st \<and>
     set (im_queue st) \<subseteq> set (im_queue st') \<and> (\<forall>v. reached st' v \<longrightarrow> reached st v \<or> v \<in> set (im_queue st'))"

lemma wider_refl [simp]: "wider H st H st"
  by (simp add: wider_def)

lemma wider_trans:
  assumes "wider H st H1 st1" "wider H1 st1 H2 st2"
  shows "wider H st H2 st2"
  unfolding wider_def
proof (intro conjI allI impI)
  show "reached st2 v" "H2 v = H v" if "reached st v" for v using assms that unfolding wider_def by metis+
  show "im_stops st2 = im_stops st" using assms by (simp add: wider_def)
  show "set (im_queue st) \<subseteq> set (im_queue st2)" using assms unfolding wider_def by blast
  show "reached st v \<or> v \<in> set (im_queue st2)" if "reached st2 v" for v using assms that unfolding wider_def by (metis subsetD)
qed

lemma edgeReached_wider: "edgeReached H st v e \<Longrightarrow> wider H st H' st' \<Longrightarrow> reached st v \<Longrightarrow> edgeReached H' st' v e"
  unfolding edgeReached_def wider_def by metis

lemma reachCaller_ok:
  assumes t: "impOk g filt S lim H d st" and n: "reached st node" "length (H node) = d"
    and lim: "iMaxDepth lim \<noteq> 0 \<longrightarrow> d < iMaxDepth lim" and e: "e \<in> set (callerRefsOf g node)"
  shows "\<exists>H'. impOk g filt S lim H' d (reachCaller filt node d e st) \<and> wider H st H' (reachCaller filt node d e st) \<and>
    (admit filt e \<longrightarrow> edgeReached H' (reachCaller filt node d e st) node e)"
proof (cases "admitted filt st e")
  case False
  then have "reachCaller filt node d e st = st" by (simp add: reachCaller_def)
  moreover have "admit filt e \<longrightarrow> edgeReached H st node e"
    using False impOk_length [OF t, of "caller e"] n by (auto simp: admitted_def edgeReached_def)
  ultimately show ?thesis using t by (intro exI [of _ H]) simp
next
  case True
  let ?c = "caller e" and ?H = "H(caller e := H node @ [e])" and ?st = "reachCaller filt node d e st"
  from True have new: "map_of (im_reached st) ?c = None" and adm: "admit filt e" by (simp_all add: admitted_def)
  have nc: "node \<noteq> ?c" using n(1) new by auto
  obtain rc where rc: "map_of (im_reached st) node = Some rc" using n(1) by blast
  note ok = impOkD(3) [OF t rc, unfolded reachOk_def]
  have reached': "map_of (im_reached ?st) v = (if v = ?c then Some \<lparr>rcDepth = d + 1, rcParent = node, rcEdge = Some e,
      rcOrigin = rcOrigin rc\<rparr> else map_of (im_reached st) v)" for v
    using True new rc by (simp add: reachCaller_def reachOf_def)
  have q: "im_queue ?st = im_queue st @ [?c]" "im_stops ?st = im_stops st" using True by (simp_all add: reachCaller_def)
  have "reachOk g filt S lim ?H d ?st v rv" if "map_of (im_reached ?st) v = Some rv" for v rv
  proof (cases "v = ?c")
    case True
    with that ok n lim e adm nc rc show ?thesis by (auto simp: reached' reachOk_def callChain_snoc)
  next
    case False
    with that have old: "map_of (im_reached st) v = Some rv" by (simp add: reached')
    show ?thesis using impOkD(3) [OF t old] False new by (auto simp: reachOk_def reached')
  qed
  moreover have "sorted (map (\<lambda>w. length (?H w)) (im_queue ?st))"
  proof -
    have "length (?H w) = length (H w)" "length (H w) \<le> Suc d" if "w \<in> set (im_queue st)" for w
      using impOkD(5) [OF t that] new impOk_length [OF t, of w] by auto
    then show ?thesis using impOkD(4) [OF t] n by (auto simp: q sorted_append cong: map_cong)
  qed
  moreover have "?c \<notin> S" using impOkD(1) [OF t, of ?c] new by auto
  then have "\<forall>s \<in> S. reached ?st s \<and> ?H s = []" using impOkD(1,2) [OF t] by (auto simp: reached')
  moreover have "\<forall>w \<in> set (im_queue ?st). reached ?st w \<and> d \<le> length (?H w)"
    using impOkD(5,6) [OF t] n by (auto simp: q reached')
  moreover have "um_ok (im_reached ?st)" using impOkD(7) [OF t] True by (simp add: reachCaller_def)
  ultimately have "impOk g filt S lim ?H d ?st" unfolding impOk_def by blast
  moreover have "wider H st ?H ?st" using new by (auto simp: wider_def reached' q)
  moreover have "edgeReached ?H ?st node e" using nc n by (simp add: edgeReached_def reached')
  ultimately show ?thesis by blast
qed

lemma fold_reachCaller_ok:
  assumes "impOk g filt S lim H d st" and "reached st node" "length (H node) = d"
    and "iMaxDepth lim \<noteq> 0 \<longrightarrow> d < iMaxDepth lim" and "set es \<subseteq> set (callerRefsOf g node)"
  shows "\<exists>H'. impOk g filt S lim H' d (fold (reachCaller filt node d) es st) \<and>
    wider H st H' (fold (reachCaller filt node d) es st) \<and>
    (\<forall>e \<in> set es. admit filt e \<longrightarrow> edgeReached H' (fold (reachCaller filt node d) es st) node e)"
  using assms
proof (induction es arbitrary: st H)
  case Nil
  then show ?case by (intro exI [of _ H]) simp
next
  case (Cons e es)
  let ?st = "reachCaller filt node d e st"
  from Cons.prems(5) have "e \<in> set (callerRefsOf g node)" by simp
  from reachCaller_ok [OF Cons.prems(1-4) this] obtain H1 where
    1: "impOk g filt S lim H1 d ?st" "wider H st H1 ?st" "admit filt e \<longrightarrow> edgeReached H1 ?st node e" by blast
  have n1: "reached ?st node" "length (H1 node) = d" using 1(2) Cons.prems(2,3) unfolding wider_def by metis+
  from Cons.IH [OF 1(1) n1 Cons.prems(4)] Cons.prems(5) obtain H2 where
    2: "impOk g filt S lim H2 d (fold (reachCaller filt node d) es ?st)" "wider H1 ?st H2 (fold (reachCaller filt node d) es ?st)"
      "\<forall>e \<in> set es. admit filt e \<longrightarrow> edgeReached H2 (fold (reachCaller filt node d) es ?st) node e" by auto
  show ?case
    using 2 wider_trans [OF 1(2) 2(2)] edgeReached_wider [OF _ 2(2) n1(1), of e] 1(3)
    by (intro exI [of _ H2]) auto
qed

section \<open>The loop\<close>

definition impClosed :: "call_graph \<Rightarrow> (EdgeRef \<Rightarrow> bool) option \<Rightarrow> ImpactLimits \<Rightarrow> (sid \<Rightarrow> EdgeRef list) \<Rightarrow> impact_state \<Rightarrow> bool" where
  "impClosed g filt lim H st \<longleftrightarrow> (WorkBudget \<notin> im_stops st \<and> HubPruned \<notin> im_stops st \<longrightarrow>
     (\<forall>v. reached st v \<longrightarrow> v \<notin> set (im_queue st) \<longrightarrow>
        DepthLimit \<notin> im_stops st \<or> iMaxDepth lim = 0 \<or> length (H v) < iMaxDepth lim \<longrightarrow>
        (\<forall>e \<in> set (callerRefsOf g v). admit filt e \<longrightarrow> edgeReached H st v e)))"

lemma impOk_pop:
  assumes t: "impOk g filt S lim H d st" and q: "im_queue st = node # rest"
  shows "impOk g filt S lim H (length (H node)) (st\<lparr>im_queue := rest, im_hubs := h, im_stops := s, im_expansions := x\<rparr>)"
    and "reached st node" "rcDepth (reachOf (st\<lparr>im_queue := rest\<rparr>) node) = length (H node)"
proof -
  have n: "reached st node" "d \<le> length (H node)" using impOkD(5,6) [OF t, of node] q by simp_all
  then obtain rc where "map_of (im_reached st) node = Some rc" by blast
  with impOkD(3) [OF t this] show "rcDepth (reachOf (st\<lparr>im_queue := rest\<rparr>) node) = length (H node)"
    by (simp add: reachOf_def reachOk_def)
  show "reached st node" by (rule n)
  show "impOk g filt S lim H (length (H node)) (st\<lparr>im_queue := rest, im_hubs := h, im_stops := s, im_expansions := x\<rparr>)"
    using t n(2) q unfolding impOk_def reachOk_def by (auto intro: le_trans)
qed

lemma impClosed_expand:
  assumes c: "impClosed g filt lim H st" and q: "im_queue st = node # rest"
    and w: "wider H (st\<lparr>im_queue := rest, im_expansions := x\<rparr>) H' st'"
    and n: "\<forall>e \<in> set (callerRefsOf g node). admit filt e \<longrightarrow> edgeReached H' st' node e"
  shows "impClosed g filt lim H' st'"
  unfolding impClosed_def
proof (intro impI allI ballI)
  fix v e
  assume s: "WorkBudget \<notin> im_stops st' \<and> HubPruned \<notin> im_stops st'" and v: "reached st' v" "v \<notin> set (im_queue st')"
    and d: "DepthLimit \<notin> im_stops st' \<or> iMaxDepth lim = 0 \<or> length (H' v) < iMaxDepth lim"
    and e: "e \<in> set (callerRefsOf g v)" "admit filt e"
  show "edgeReached H' st' v e"
  proof (cases "v = node")
    case False
    let ?st = "st\<lparr>im_queue := rest, im_expansions := x\<rparr>"
    have stops: "im_stops st' = im_stops st" using w by (simp add: wider_def)
    have old: "reached ?st v" "v \<notin> set rest" using w v unfolding wider_def by auto
    then have H: "H' v = H v" using w unfolding wider_def by metis
    have "edgeReached H st v e"
      using c s d e False old q unfolding impClosed_def stops H by auto
    then have "edgeReached H ?st v e" by (simp add: edgeReached_def)
    then show ?thesis using w old(1) by (rule edgeReached_wider)
  qed (use n e in blast)
qed

lemma impClosed_depth:
  assumes t: "impOk g filt S lim H d st" and c: "impClosed g filt lim H st" and q: "im_queue st = node # rest"
    and d: "iMaxDepth lim \<noteq> 0" "iMaxDepth lim \<le> length (H node)"
  shows "impClosed g filt lim H (if list_ex (admitted filt (st\<lparr>im_queue := rest\<rparr>)) (sortCallerRefsCanonically g (callerRefsOf g node))
      then st\<lparr>im_queue := rest, im_stops := insert DepthLimit (im_stops st)\<rparr> else st\<lparr>im_queue := rest\<rparr>)"
proof (cases "list_ex (admitted filt (st\<lparr>im_queue := rest\<rparr>)) (sortCallerRefsCanonically g (callerRefsOf g node))")
  case True
  then show ?thesis using c d q by (auto simp: impClosed_def edgeReached_def)
next
  case False
  have "edgeReached H (st\<lparr>im_queue := rest\<rparr>) node e" if "e \<in> set (callerRefsOf g node)" "admit filt e" for e
  proof -
    have "reached st (caller e)" using False that by (auto simp: list_ex_iff set_sortCallerRefs admitted_def)
    moreover have "length (H (caller e)) \<le> Suc (length (H node))"
      using impOk_length [OF t calculation] impOkD(6) [OF t, of node] q by simp
    ultimately show ?thesis by (simp add: edgeReached_def)
  qed
  then have "impClosed g filt lim H (st\<lparr>im_queue := rest, im_expansions := im_expansions st\<rparr>)"
    using c q by (intro impClosed_expand [OF c q wider_refl]) simp
  with False show ?thesis by simp
qed

lemma impactLoop_ok:
  assumes "impOk g filt S lim H d st" "impClosed g filt lim H st"
  shows "\<exists>H' d'. impOk g filt S lim H' d' (impactLoop g filt lim st) \<and> impClosed g filt lim H' (impactLoop g filt lim st) \<and>
    (WorkBudget \<notin> im_stops (impactLoop g filt lim st) \<longrightarrow> im_queue (impactLoop g filt lim st) = [])"
  using assms
proof (induction "impactWork (callerUniverse g) st" arbitrary: st H d rule: less_induct)
  case less
  show ?case
  proof (cases "im_queue st")
    case Nil
    then show ?thesis using less.prems by (auto simp: impactLoop.simps [of g filt lim st])
  next
    case (Cons node rest)
    let ?k = "length (H node)" and ?st = "st\<lparr>im_queue := rest\<rparr>"
    let ?callers = "sortCallerRefsCanonically g (callerRefsOf g node)"
    note pop = impOk_pop [OF less.prems(1) Cons]
    have smaller: "impactWork (callerUniverse g) ?st < impactWork (callerUniverse g) st" by (simp add: impactWork_def Cons)
    have unfold: "impactLoop g filt lim st =
      (if iMaxDepth lim \<noteq> 0 \<and> iMaxDepth lim \<le> ?k
       then impactLoop g filt lim (if list_ex (admitted filt ?st) ?callers
              then ?st\<lparr>im_stops := insert DepthLimit (im_stops st)\<rparr> else ?st)
       else if ?k > 0 \<and> iMaxFanIn lim \<noteq> 0 \<and> storedInDegree g node > iMaxFanIn lim
       then impactLoop g filt lim (?st\<lparr>im_hubs := um_emplace (im_hubs st) node (storedInDegree g node),
              im_stops := insert HubPruned (im_stops st)\<rparr>)
       else if iMaxWork lim \<noteq> 0 \<and> im_expansions st \<ge> iMaxWork lim
       then ?st\<lparr>im_stops := insert WorkBudget (im_stops st)\<rparr>
       else impactLoop g filt lim (fold (reachCaller filt node ?k) ?callers (?st\<lparr>im_expansions := im_expansions st + 1\<rparr>)))"
      by (subst impactLoop.simps) (simp add: Cons Let_def pop(3))
    show ?thesis
    proof (cases "iMaxDepth lim \<noteq> 0 \<and> iMaxDepth lim \<le> ?k")
      case True
      let ?st2 = "if list_ex (admitted filt ?st) ?callers then ?st\<lparr>im_stops := insert DepthLimit (im_stops st)\<rparr> else ?st"
      have eq: "impactLoop g filt lim st = impactLoop g filt lim ?st2" using True unfolding unfold by simp
      have "impOk g filt S lim H ?k ?st2"
        using pop(1) [where h = "im_hubs st" and s = "if list_ex (admitted filt ?st) ?callers then insert DepthLimit (im_stops st) else im_stops st" and x = "im_expansions st"]
        by (simp split: if_splits)
      moreover have "impClosed g filt lim H ?st2"
        using impClosed_depth [OF less.prems Cons] True by simp
      moreover have "impactWork (callerUniverse g) ?st2 < impactWork (callerUniverse g) st"
        using smaller by (simp add: impactWork_def)
      ultimately show ?thesis unfolding eq by (intro less.hyps)
    next
      case deep: False
      show ?thesis
      proof (cases "?k > 0 \<and> iMaxFanIn lim \<noteq> 0 \<and> storedInDegree g node > iMaxFanIn lim")
        case True
        let ?st2 = "?st\<lparr>im_hubs := um_emplace (im_hubs st) node (storedInDegree g node), im_stops := insert HubPruned (im_stops st)\<rparr>"
        have eq: "impactLoop g filt lim st = impactLoop g filt lim ?st2" using True deep unfolding unfold by auto
        have "impOk g filt S lim H ?k ?st2"
          using pop(1) [where h = "um_emplace (im_hubs st) node (storedInDegree g node)" and s = "insert HubPruned (im_stops st)" and x = "im_expansions st"] by simp
        moreover have "impClosed g filt lim H ?st2" by (simp add: impClosed_def)
        moreover have "impactWork (callerUniverse g) ?st2 < impactWork (callerUniverse g) st"
          using smaller by (simp add: impactWork_def)
        ultimately show ?thesis unfolding eq by (intro less.hyps)
      next
        case hub: False
        show ?thesis
        proof (cases "iMaxWork lim \<noteq> 0 \<and> im_expansions st \<ge> iMaxWork lim")
          case True
          have "impactLoop g filt lim st = ?st\<lparr>im_stops := insert WorkBudget (im_stops st)\<rparr>"
            using True deep hub unfolding unfold by auto
          then show ?thesis using pop(1) [where h = "im_hubs st" and s = "insert WorkBudget (im_stops st)" and x = "im_expansions st"]
            by (auto simp: impClosed_def intro!: exI [of _ H] exI [of _ ?k])
        next
          case False
          let ?st1 = "?st\<lparr>im_expansions := im_expansions st + 1\<rparr>"
          let ?st2 = "fold (reachCaller filt node ?k) ?callers ?st1"
          have eq: "impactLoop g filt lim st = impactLoop g filt lim ?st2" using False deep hub unfolding unfold by auto
          have "impOk g filt S lim H ?k ?st1" using pop(1) [where h = "im_hubs st" and s = "im_stops st" and x = "im_expansions st + 1"] by simp
          from fold_reachCaller_ok [OF this, of node ?callers] pop(2) deep obtain H2 where
            2: "impOk g filt S lim H2 ?k ?st2" "wider H ?st1 H2 ?st2"
              "\<forall>e \<in> set (callerRefsOf g node). admit filt e \<longrightarrow> edgeReached H2 ?st2 node e"
            by (auto simp: set_sortCallerRefs not_le)
          have "impactWork (callerUniverse g) ?st2 \<le> impactWork (callerUniverse g) ?st1"
            by (rule fold_reachCaller_work) (auto simp: set_sortCallerRefs callerRefsOf_universe)
          then have "impactWork (callerUniverse g) ?st2 < impactWork (callerUniverse g) st"
            using smaller by (simp add: impactWork_def)
          with 2(1) impClosed_expand [OF less.prems(2) Cons 2(2,3)] show ?thesis unfolding eq by (intro less.hyps)
        qed
      qed
    qed
  qed
qed

section \<open>The result\<close>

abbreviation impactStart :: impact_state where
  "impactStart \<equiv> \<lparr>im_reached = [], im_queue = [], im_hubs = [], im_stops = {}, im_expansions = 0\<rparr>"

lemma seeds_fields:
  "map_of (im_reached (fold seedReach ss impactStart)) v =
     (if v \<in> set ss then Some \<lparr>rcDepth = 0, rcParent = 0, rcEdge = None, rcOrigin = v\<rparr> else None)"
  "im_queue (fold seedReach ss impactStart) = ss" "um_ok (im_reached (fold seedReach ss impactStart))"
  by (induction ss rule: rev_induct) (auto simp: seedReach_def split: if_splits)

lemma seeds_ok:
  "impOk g filt (set ss) lim (\<lambda>_. []) 0 (fold seedReach ss impactStart)" "impClosed g filt lim (\<lambda>_. []) (fold seedReach ss impactStart)"
proof -
  have "sorted (map (\<lambda>_. 0 :: nat) ss)" by (induction ss) auto
  then show "impOk g filt (set ss) lim (\<lambda>_. []) 0 (fold seedReach ss impactStart)"
    by (auto simp: impOk_def reachOk_def seeds_fields split: if_splits)
  show "impClosed g filt lim (\<lambda>_. []) (fold seedReach ss impactStart)"
    by (auto simp: impClosed_def seeds_fields)
qed

lemma impactRun_ok:
  obtains H d where "impOk g filt (set ss) lim H d (impactRun isUTF8 g ss lim filt)"
    "impClosed g filt lim H (impactRun isUTF8 g ss lim filt)"
    "WorkBudget \<notin> im_stops (impactRun isUTF8 g ss lim filt) \<longrightarrow> im_queue (impactRun isUTF8 g ss lim filt) = []"
  using impactLoop_ok [OF seeds_ok] unfolding impactRun_def by blast

lemma impactPath_chain:
  assumes t: "impOk g filt S lim H d st"
  shows "map_of (im_reached st) v = Some rc \<Longrightarrow>
    impactPath (rcDepth rc) isUTF8 g (im_reached st) v = Some (pathOf isUTF8 g (H v))"
proof (induction "length (H v)" arbitrary: v rc)
  case 0
  with impOkD(3) [OF t 0(2)] show ?case by (simp add: reachOk_def impactPath.simps pathOf_def)
next
  case (Suc k)
  from impOkD(3) [OF t Suc.prems] Suc.hyps(2) have
    v: "rcDepth rc = Suc k" "rcEdge rc = Some (last (H v))" "reached st (rcParent rc)" "H (rcParent rc) = butlast (H v)" "H v \<noteq> []"
    unfolding reachOk_def by auto
  then obtain rp where rp: "map_of (im_reached st) (rcParent rc) = Some rp" by blast
  have k: "k = length (H (rcParent rc))" using v Suc.hyps(2) by simp
  moreover have "rcDepth rp = k" using impOkD(3) [OF t rp] k by (simp add: reachOk_def)
  ultimately have "impactPath k isUTF8 g (im_reached st) (rcParent rc) = Some (pathOf isUTF8 g (butlast (H v)))"
    using Suc.hyps(1) [OF k rp] v(4) by simp
  moreover have "pathOf isUTF8 g (H v) = hopOf isUTF8 g (last (H v)) # pathOf isUTF8 g (butlast (H v))"
    using v(5) append_butlast_last_id [of "H v"] by (metis list.simps(9) pathOf_def rev_eq_Cons_iff rev_rev_ident)
  ultimately show ?case using v Suc.prems by (simp add: impactPath.simps [of "Suc k"] impactHop_hopOf)
qed

lemma collect_map: "\<forall>x \<in> set xs. f x = Some (h x) \<Longrightarrow> collect (map f xs) = Some (map h xs)"
  by (induction xs) auto

lemma findImpact_run:
  assumes st: "st = impactRun isUTF8 g (impactSeeds isUTF8 g names) lim filt"
    and t: "impOk g filt S lim H d st"
  shows "\<exists>r. findImpact isUTF8 g names lim filt = Some r \<and> irStops r = im_stops st \<and>
    sorted (map (\<lambda>a. (afDepth a, afUsr a)) (irAffected r)) \<and>
    (\<forall>a. a \<in> set (irAffected r) \<longleftrightarrow> (\<exists>i rc. map_of (im_reached st) i = Some rc \<and> H i \<noteq> [] \<and>
       a = \<lparr>afUsr = resolve (g_interner g) i, afName = displayOf isUTF8 g i, afDepth = length (H i),
            afChangedUsr = resolve (g_interner g) (rcOrigin rc), afPath = pathOf isUTF8 g (H i)\<rparr>))"
proof -
  let ?h = "\<lambda>(i, rc). \<lparr>afUsr = resolve (g_interner g) i, afName = displayOf isUTF8 g i, afDepth = length (H i),
            afChangedUsr = resolve (g_interner g) (rcOrigin rc), afPath = pathOf isUTF8 g (H i)\<rparr>"
  let ?xs = "filter (\<lambda>p. rcDepth (snd p) \<noteq> 0) (im_reached st)"
  have mem: "(i, rc) \<in> set (im_reached st) \<longleftrightarrow> map_of (im_reached st) i = Some rc" for i rc
    using impOkD(7) [OF t] by (simp add: um_ok_def)
  have dep: "rcDepth rc = length (H i)" if "map_of (im_reached st) i = Some rc" for i rc
    using impOkD(3) [OF t that] by (simp add: reachOk_def)
  have "affectedOf isUTF8 g (im_reached st) p = Some (?h p)" if "p \<in> set ?xs" for p
    using that impactPath_chain [OF t, of "fst p" "snd p"] dep [of "fst p" "snd p"] mem [of "fst p" "snd p"]
    by (auto simp: affectedOf_def split: prod.split)
  then have "collect (map (affectedOf isUTF8 g (im_reached st)) ?xs) = Some (map ?h ?xs)" by (intro collect_map) blast
  then have r: "findImpact isUTF8 g names lim filt = Some \<lparr>irChanged = map (resolve (g_interner g)) (impactSeeds isUTF8 g names),
      irUnknown = impactUnknown isUTF8 g names, irAffected = sort_key (\<lambda>a. (afDepth a, afUsr a)) (map ?h ?xs),
      irSkippedHubs = sort_key hubUsr (map (hubOf isUTF8 g) (im_hubs st)), irStops = im_stops st, irExpansions = im_expansions st\<rparr>"
    by (simp add: findImpact_def st [symmetric] Let_def)
  have "a \<in> ?h ` set ?xs \<longleftrightarrow> (\<exists>i rc. map_of (im_reached st) i = Some rc \<and> H i \<noteq> [] \<and> a = ?h (i, rc))" for a
    using mem dep by (force simp: image_iff)
  then show ?thesis unfolding r by simp
qed

lemma impClosed_chain:
  assumes t: "impOk g filt S lim H d st" and c: "impClosed g filt lim H st"
    and "WorkBudget \<notin> im_stops st" "HubPruned \<notin> im_stops st" "im_queue st = []" and s: "s \<in> S"
  shows "callChain g filt s es \<Longrightarrow> DepthLimit \<notin> im_stops st \<or> iMaxDepth lim = 0 \<or> length es \<le> iMaxDepth lim \<Longrightarrow>
    reached st (endOf s es) \<and> length (H (endOf s es)) \<le> length es"
proof (induction es rule: rev_induct)
  case Nil
  then show ?case using impOkD(1,2) [OF t s] by simp
next
  case (snoc e es)
  then have ih: "reached st (endOf s es) \<and> length (H (endOf s es)) \<le> length es"
    and e: "e \<in> set (callerRefsOf g (endOf s es))" "admit filt e" by (auto simp: callChain_snoc)
  moreover have "DepthLimit \<notin> im_stops st \<or> iMaxDepth lim = 0 \<or> length (H (endOf s es)) < iMaxDepth lim"
    using snoc.prems(2) ih by auto
  ultimately have "edgeReached H st (endOf s es) e" using c assms(3-5) by (simp add: impClosed_def)
  with ih show ?case by (auto simp: edgeReached_def)
qed

text \<open>
  C24: the impact traversal returns; every function it reports is a caller, transitively and over admitted edges,
  of the changed function it names, not changed itself, with a chain of calls as long as its depth, within the
  depth limit; when no work or fan-in limit cut the search, every function with such a chain within the depth
  limit (of any length when the search is exhaustive) is changed or reported, at a depth no greater than that
  chain's length: the reported chains are shortest. Reports are ordered by depth, then usr.
\<close>

theorem findImpact_correct:
  "\<exists>r. findImpact isUTF8 g names lim filt = Some r \<and>
    sorted (map (\<lambda>a. (afDepth a, afUsr a)) (irAffected r)) \<and>
    (\<forall>a \<in> set (irAffected r). \<exists>s \<in> set (impactSeeds isUTF8 g names). \<exists>es. callChain g filt s es \<and>
       endOf s es \<notin> set (impactSeeds isUTF8 g names) \<and> afUsr a = resolve (g_interner g) (endOf s es) \<and>
       afChangedUsr a = resolve (g_interner g) s \<and> afPath a = pathOf isUTF8 g es \<and> afDepth a = length es \<and>
       (iMaxDepth lim \<noteq> 0 \<longrightarrow> afDepth a \<le> iMaxDepth lim)) \<and>
    (\<forall>s \<in> set (impactSeeds isUTF8 g names). \<forall>es. callChain g filt s es \<longrightarrow>
       impactExhaustive r \<or> impactComplete r \<and> (iMaxDepth lim = 0 \<or> length es \<le> iMaxDepth lim) \<longrightarrow>
       endOf s es \<in> set (impactSeeds isUTF8 g names) \<or>
       (\<exists>a \<in> set (irAffected r). afUsr a = resolve (g_interner g) (endOf s es) \<and> afDepth a \<le> length es))"
proof -
  let ?S = "impactSeeds isUTF8 g names"
  define st where st: "st = impactRun isUTF8 g ?S lim filt"
  obtain H d where t: "impOk g filt (set ?S) lim H d st" and c: "impClosed g filt lim H st"
    and q: "WorkBudget \<notin> im_stops st \<longrightarrow> im_queue st = []" unfolding st by (rule impactRun_ok)
  from findImpact_run [OF st t] obtain r where r: "findImpact isUTF8 g names lim filt = Some r" "irStops r = im_stops st"
    "sorted (map (\<lambda>a. (afDepth a, afUsr a)) (irAffected r))"
    and mem: "\<forall>a. a \<in> set (irAffected r) \<longleftrightarrow> (\<exists>i rc. map_of (im_reached st) i = Some rc \<and> H i \<noteq> [] \<and>
       a = \<lparr>afUsr = resolve (g_interner g) i, afName = displayOf isUTF8 g i, afDepth = length (H i),
            afChangedUsr = resolve (g_interner g) (rcOrigin rc), afPath = pathOf isUTF8 g (H i)\<rparr>)" by blast
  have "\<exists>s \<in> set ?S. \<exists>es. callChain g filt s es \<and> endOf s es \<notin> set ?S \<and> afUsr a = resolve (g_interner g) (endOf s es) \<and>
       afChangedUsr a = resolve (g_interner g) s \<and> afPath a = pathOf isUTF8 g es \<and> afDepth a = length es \<and>
       (iMaxDepth lim \<noteq> 0 \<longrightarrow> afDepth a \<le> iMaxDepth lim)" if a: "a \<in> set (irAffected r)" for a
  proof -
    from a mem obtain i rc where i: "map_of (im_reached st) i = Some rc" "H i \<noteq> []"
      and a: "a = \<lparr>afUsr = resolve (g_interner g) i, afName = displayOf isUTF8 g i, afDepth = length (H i),
            afChangedUsr = resolve (g_interner g) (rcOrigin rc), afPath = pathOf isUTF8 g (H i)\<rparr>" by blast
    have "i \<notin> set ?S" using impOkD(2) [OF t, of i] i(2) by blast
    then show ?thesis using impOkD(3) [OF t i(1)] unfolding a reachOk_def
      by (intro bexI [of _ "rcOrigin rc"] exI [of _ "H i"]) auto
  qed
  moreover have "endOf s es \<in> set ?S \<or> (\<exists>a \<in> set (irAffected r). afUsr a = resolve (g_interner g) (endOf s es) \<and> afDepth a \<le> length es)"
    if s: "s \<in> set ?S" "callChain g filt s es"
      and u: "impactExhaustive r \<or> impactComplete r \<and> (iMaxDepth lim = 0 \<or> length es \<le> iMaxDepth lim)" for s es
  proof -
    have "WorkBudget \<notin> im_stops st" "HubPruned \<notin> im_stops st" "DepthLimit \<notin> im_stops st \<or> iMaxDepth lim = 0 \<or> length es \<le> iMaxDepth lim"
      using u r(2) by (auto simp: impactExhaustive_def impactComplete_def)
    with impClosed_chain [OF t c _ _ _ s(1,2)] q obtain rc where
      rc: "map_of (im_reached st) (endOf s es) = Some rc" "length (H (endOf s es)) \<le> length es" by auto
    show ?thesis
    proof (cases "H (endOf s es) = []")
      case True
      then show ?thesis using impOkD(3) [OF t rc(1)] by (auto simp: reachOk_def)
    next
      case False
      with rc mem show ?thesis by (intro disjI2 bexI [rotated]) auto
    qed
  qed
  ultimately show ?thesis using r(1,3) by blast
qed

definition impactLim0 :: ImpactLimits where
  "impactLim0 = \<lparr>iMaxDepth = 0, iMaxFanIn = 0, iMaxWork = 0\<rparr>"

lemma chain_impact: "impactSeeds (\<lambda>_. True) chainGraph [''c''] = [4]"
  "map_option impactExhaustive (findImpact (\<lambda>_. True) chainGraph [''c''] impactLim0 None) = Some True"
  "callChain chainGraph None 4 chainEdges" "endOf 4 chainEdges = 0" "resolve (g_interner chainGraph) 0 = ''a''"
  by code_simp+

theorem findImpact_correct_witness:
  "\<exists>r. findImpact (\<lambda>_. True) chainGraph [''c''] impactLim0 None = Some r \<and>
    (\<exists>a \<in> set (irAffected r). afUsr a = ''a'' \<and> afDepth a \<le> 2)"
proof -
  from findImpact_correct [of "\<lambda>_. True" chainGraph "[''c'']" impactLim0 None] obtain r where
    r: "findImpact (\<lambda>_. True) chainGraph [''c''] impactLim0 None = Some r"
    and all: "\<forall>s \<in> set (impactSeeds (\<lambda>_. True) chainGraph [''c'']). \<forall>es. callChain chainGraph None s es \<longrightarrow>
       impactExhaustive r \<or> impactComplete r \<and> (iMaxDepth impactLim0 = 0 \<or> length es \<le> iMaxDepth impactLim0) \<longrightarrow>
       endOf s es \<in> set (impactSeeds (\<lambda>_. True) chainGraph [''c'']) \<or>
       (\<exists>a \<in> set (irAffected r). afUsr a = resolve (g_interner chainGraph) (endOf s es) \<and> afDepth a \<le> length es)" by blast
  have "impactExhaustive r" using chain_impact(2) r by simp
  moreover have "length chainEdges = 2" by (simp add: chainEdges_def)
  ultimately show ?thesis using r bspec [OF all, of 4] chain_impact by fastforce
qed

section \<open>Order of the changed names\<close>

lemma sorted_remdups_adj: "sorted (map f xs) \<Longrightarrow> sorted (map f (remdups_adj xs))"
  by (induction xs rule: remdups_adj.induct) auto

lemma distinct_remdups_adj_sorted:
  "sorted (map f xs) \<Longrightarrow> inj_on f (set xs) \<Longrightarrow> distinct (map f (remdups_adj xs))"
proof (induction xs rule: remdups_adj.induct)
  case (3 x y xs)
  have "f x < f z" if "x \<noteq> y" "z \<in> set (y # xs)" for z
  proof -
    have "f x \<le> f y" "f y \<le> f z" using 3(3) that by auto
    moreover have "f x \<noteq> f y" using 3(4) that by (auto simp: inj_on_def)
    ultimately show ?thesis by order
  qed
  with 3 show ?case by (auto simp: inj_on_def)
qed auto

lemma remdups_adj_sort_key:
  assumes "set xs = set ys" "inj_on f (set xs)"
  shows "remdups_adj (sort_key f xs) = remdups_adj (sort_key f ys)"
proof (rule map_sorted_distinct_set_unique [of f])
  show "sorted (map f (remdups_adj (sort_key f xs)))" "sorted (map f (remdups_adj (sort_key f ys)))"
    by (intro sorted_remdups_adj sorted_sort_key)+
  show "distinct (map f (remdups_adj (sort_key f xs)))" "distinct (map f (remdups_adj (sort_key f ys)))"
    using assms distinct_remdups_adj_sorted [OF sorted_sort_key, of f xs] distinct_remdups_adj_sorted [OF sorted_sort_key, of f ys]
    by simp_all
qed (use assms in auto)

text \<open>The answer does not depend on the order or multiplicity in which the changed functions are given.\<close>

theorem findImpact_order:
  assumes wf: "graph_wf g" and eq: "set names = set names'"
  shows "findImpact isUTF8 g names lim filt = findImpact isUTF8 g names' lim filt"
proof -
  have "inj_on (resolve (g_interner g)) (set (concat (map (resolveKnownIds isUTF8 g) names)))"
    using resolveIds_known [OF wf] resolve_eq_iff [OF graph_wfD(1) [OF wf]]
    by (auto simp: inj_on_def resolveKnownIds_def)
  then have "impactSeeds isUTF8 g names = impactSeeds isUTF8 g names'"
    unfolding impactSeeds_def using eq by (intro remdups_adj_sort_key) auto
  moreover have "impactUnknown isUTF8 g names = impactUnknown isUTF8 g names'"
    unfolding impactUnknown_def using eq by (intro remdups_adj_sort_key) auto
  ultimately show ?thesis unfolding findImpact_def by (simp only:)
qed

theorem findImpact_order_witness:
  "findImpact (\<lambda>_. True) chainGraph [''b'', ''c''] impactLim0 None = findImpact (\<lambda>_. True) chainGraph [''c'', ''b'', ''c''] impactLim0 None"
  by (rule findImpact_order [OF chain_wf]) auto

end
