(* ===== verification/PatchMapping.thy ===== *)
theory PatchMapping
  imports CallGraph "HOL-Library.Word"
begin

text \<open>
  The mapping of a patch to functions (\<open>include/vycor/impact/PatchMapping.h\<close>,
  \<open>src/impact/PatchMapping.cpp\<close>): the parser of unified diffs and the attribution of changed ranges to the
  functions whose locations and call sites the call graph holds. Line numbers are 32-bit words, as
  \<open>unsigned\<close> is. \<open>asInt\<close> stands for \<open>llvm::StringRef::getAsInteger\<close> in base 10 (\<open>None\<close> where it reports
  failure); the other string operations are spelled out.
\<close>

type_synonym line = "32 word"

section \<open>Strings\<close>

definition startsWith :: "string \<Rightarrow> string \<Rightarrow> bool" where
  "startsWith p s \<longleftrightarrow> take (length p) s = p"

definition splitChar :: "char \<Rightarrow> string \<Rightarrow> string \<times> string" where
  "splitChar c s = (takeWhile (\<lambda>x. x \<noteq> c) s, drop (Suc (length (takeWhile (\<lambda>x. x \<noteq> c) s))) s)"

text \<open>The text before and after the last \<open>c\<close>.\<close>

definition rsplitChar :: "char \<Rightarrow> string \<Rightarrow> (string \<times> string) option" where
  "rsplitChar c s =
     (if c \<in> set s
      then Some (rev (snd (splitChar c (rev s))), rev (fst (splitChar c (rev s)))) else None)"

definition isBlankChar :: "char \<Rightarrow> bool" where
  "isBlankChar c \<longleftrightarrow> c \<in> set [CHR '' '', CHR 0x09, CHR 0x0A, CHR 0x0B, CHR 0x0C, CHR 0x0D]"

definition rtrim :: "string \<Rightarrow> string" where
  "rtrim s = rev (dropWhile isBlankChar (rev s))"

fun stripDot :: "string \<Rightarrow> string" where
  "stripDot (c # d # s) = (if c = CHR ''.'' \<and> d = CHR ''/'' then stripDot s else c # d # s)"
| "stripDot s = s"

definition stripPatchPrefix :: "string \<Rightarrow> string" where
  "stripPatchPrefix p =
     (let p = rtrim (fst (splitChar (CHR 0x09) p));
          p = (if startsWith ''a/'' p \<or> startsWith ''b/'' p then drop 2 p else p)
      in stripDot p)"

section \<open>Unified diffs\<close>

definition parseHunkHeader :: "(string \<Rightarrow> line option) \<Rightarrow> string \<Rightarrow> (line \<times> line) option" where
  "parseHunkHeader asInt ln =
     (if \<not> startsWith ''@@ '' ln \<or> CHR ''+'' \<notin> set ln then None
      else
        let after = fst (splitChar (CHR '' '') (snd (splitChar (CHR ''+'') ln)));
            (start, count) = splitChar (CHR '','') after
        in case asInt start of
             None \<Rightarrow> None
           | Some newStart \<Rightarrow>
               if count = [] then Some (newStart, 1)
               else (case asInt count of None \<Rightarrow> None | Some newCount \<Rightarrow> Some (newStart, newCount)))"

record PatchRange =
  prFile :: string
  firstLine :: line
  lastLine :: line
  deletionOnly :: bool

record diff_state =
  beforeName :: string
  afterName :: string
  inFile :: bool
  deletedFile :: bool
  dOut :: "PatchRange list"

definition hunkRange :: "string \<Rightarrow> bool \<Rightarrow> line \<times> line \<Rightarrow> PatchRange" where
  "hunkRange name deleted h =
     (let (start, count) = h in
      if count = 0 \<or> deleted
      then \<lparr>prFile = name, firstLine = (if start = 0 then 1 else start),
            lastLine = (if start = 0 then 1 else start + 1), deletionOnly = True\<rparr>
      else \<lparr>prFile = name, firstLine = start, lastLine = start + count - 1, deletionOnly = False\<rparr>)"

definition diffLine :: "(string \<Rightarrow> line option) \<Rightarrow> string \<Rightarrow> diff_state \<Rightarrow> diff_state" where
  "diffLine asInt ln st =
     (if startsWith ''--- '' ln
      then st\<lparr>beforeName := stripPatchPrefix (drop 4 ln), inFile := False\<rparr>
      else if startsWith ''+++ '' ln
      then
        let name = stripPatchPrefix (drop 4 ln);
            deleted = (name = ''/dev/null'');
            after = (if deleted then beforeName st else name)
        in st\<lparr>deletedFile := deleted, afterName := after, inFile := (after \<noteq> [] \<and> after \<noteq> ''/dev/null'')\<rparr>
      else if startsWith ''diff '' ln then st\<lparr>inFile := False\<rparr>
      else if inFile st
      then (case parseHunkHeader asInt ln of
              None \<Rightarrow> st
            | Some h \<Rightarrow> st\<lparr>dOut := dOut st @ [hunkRange (afterName st) (deletedFile st) h]\<rparr>)
      else st)"

function diffLines :: "(string \<Rightarrow> line option) \<Rightarrow> string \<Rightarrow> diff_state \<Rightarrow> diff_state" where
  "diffLines asInt text' st =
     (if text' = [] then st
      else let (ln, rest) = splitChar (CHR 0x0A) text' in diffLines asInt rest (diffLine asInt ln st))"
  by pat_completeness auto
termination
  by (relation "measure (\<lambda>(asInt, t, st). length t)") (auto simp: splitChar_def)

declare diffLines.simps [simp del]

definition parseUnifiedDiff :: "(string \<Rightarrow> line option) \<Rightarrow> string \<Rightarrow> PatchRange list" where
  "parseUnifiedDiff asInt text' = dOut (diffLines asInt text'
     \<lparr>beforeName = [], afterName = [], inFile = False, deletedFile = False, dOut = []\<rparr>)"

section \<open>Attribution\<close>

datatype MappingVia = Argument | CallSite | Definition | Extent | File | Diff

definition mappingViaName :: "MappingVia \<Rightarrow> string" where
  "mappingViaName v = (case v of Argument \<Rightarrow> ''argument'' | CallSite \<Rightarrow> ''call_site'' | Definition \<Rightarrow> ''definition''
     | Extent \<Rightarrow> ''extent'' | File \<Rightarrow> ''file'' | Diff \<Rightarrow> ''diff'')"

text \<open>The order of the enumeration, most precise first.\<close>

definition viaRank :: "MappingVia \<Rightarrow> nat" where
  "viaRank v = (case v of Argument \<Rightarrow> 0 | CallSite \<Rightarrow> 1 | Definition \<Rightarrow> 2 | Extent \<Rightarrow> 3 | File \<Rightarrow> 4 | Diff \<Rightarrow> 5)"

record MappedFunction =
  mfUsr :: string
  mfName :: string
  mfFile :: string
  mfLine :: nat
  mfVia :: MappingVia

record UnmappedRange =
  urRange :: PatchRange
  urReason :: string

record PatchMapping =
  pmFunctions :: "MappedFunction list"
  pmUnmapped :: "UnmappedRange list"
  viaCallSite :: nat
  viaDefinition :: nat
  viaExtent :: nat
  viaFile :: nat

type_synonym Located = "line \<times> string"

record FileEntry =
  feDefs :: "Located list"
  feSites :: "Located list"

definition pathsMatch :: "string \<Rightarrow> string \<Rightarrow> bool" where
  "pathsMatch a b =
     (let a = stripDot a; b = stripDot b in
      if a = [] \<or> b = [] then False
      else if a = b then True
      else let (a, b) = (if length a > length b then (b, a) else (a, b))
           in drop (length b - length a) b = a \<and> b ! (length b - length a - 1) = CHR ''/'')"

definition splitSite :: "(string \<Rightarrow> line option) \<Rightarrow> string \<Rightarrow> (string \<times> line) option" where
  "splitSite asInt site =
     (case rsplitChar (CHR '':'') site of
        None \<Rightarrow> None
      | Some (s, _) \<Rightarrow>
          if s = [] then None
          else (case rsplitChar (CHR '':'') s of
                  None \<Rightarrow> None
                | Some (f, l) \<Rightarrow> if f = [] then None else map_option (\<lambda>l. (f, l)) (asInt l)))"

definition entryOf :: "(string, FileEntry) umap \<Rightarrow> string \<Rightarrow> FileEntry" where
  "entryOf files f = (case map_of files f of Some e \<Rightarrow> e | None \<Rightarrow> \<lparr>feDefs = [], feSites = []\<rparr>)"

definition addSiteAnchor :: "(string \<Rightarrow> line option) \<Rightarrow> CallGraphEdge \<Rightarrow> (string, FileEntry) umap \<Rightarrow> (string, FileEntry) umap" where
  "addSiteAnchor asInt e files =
     (case splitSite asInt (edgeCallSite e) of
        None \<Rightarrow> files
      | Some (f, l) \<Rightarrow>
          um_put files f ((entryOf files f)\<lparr>feSites := feSites (entryOf files f) @ [(l, callerUsr e)]\<rparr>))"

definition addNodeAnchors :: "(string \<Rightarrow> bool) \<Rightarrow> (string \<Rightarrow> line option) \<Rightarrow> call_graph \<Rightarrow> CallGraphNode \<Rightarrow>
    (string, FileEntry) umap \<Rightarrow> (string, FileEntry) umap" where
  "addNodeAnchors isUTF8 asInt g n files =
     fold (addSiteAnchor asInt) (calleesOf isUTF8 g (usr n))
       (um_put files (nodeFile n) ((entryOf files (nodeFile n))\<lparr>feDefs :=
          feDefs (entryOf files (nodeFile n)) @ [(of_nat (nodeLine n), usr n)]\<rparr>))"

definition sortEntry :: "FileEntry \<Rightarrow> FileEntry" where
  "sortEntry e = \<lparr>feDefs = remdups_adj (sort (feDefs e)), feSites = sort (feSites e)\<rparr>"

definition fileIndex :: "(string \<Rightarrow> bool) \<Rightarrow> (string \<Rightarrow> line option) \<Rightarrow> call_graph \<Rightarrow> (string, FileEntry) umap" where
  "fileIndex isUTF8 asInt g =
     map (\<lambda>(f, e). (f, sortEntry e)) (fold (addNodeAnchors isUTF8 asInt g) (allNodes g) [])"

type_synonym mapping_state = "(string, MappedFunction) umap"

definition attribute :: "(string, CallGraphNode) umap \<Rightarrow> MappingVia \<Rightarrow> string \<Rightarrow> mapping_state \<Rightarrow> mapping_state" where
  "attribute nodes via u m =
     (case map_of m u of
        Some f \<Rightarrow> if viaRank via < viaRank (mfVia f) then um_put m u (f\<lparr>mfVia := via\<rparr>) else m
      | None \<Rightarrow>
          um_put m u (case map_of nodes u of
            Some n \<Rightarrow> \<lparr>mfUsr = u, mfName = qualifiedName n, mfFile = nodeFile n, mfLine = nodeLine n, mfVia = via\<rparr>
          | None \<Rightarrow> \<lparr>mfUsr = u, mfName = u, mfFile = [], mfLine = 0, mfVia = via\<rparr>))"

text \<open>
  \<open>upper_bound\<close> by line on a sorted vector: the number of entries up to the line. \<open>None\<close> is the end iterator.
\<close>

definition upTo :: "line \<Rightarrow> Located list \<Rightarrow> nat" where
  "upTo l v = length (takeWhile (\<lambda>x. fst x \<le> l) v)"

definition lastBefore :: "PatchRange \<Rightarrow> Located list \<Rightarrow> nat option" where
  "lastBefore rng v = (if upTo (firstLine rng) v = 0 then None else Some (upTo (firstLine rng) v - 1))"

definition firstAfter :: "PatchRange \<Rightarrow> Located list \<Rightarrow> nat option" where
  "firstAfter rng v = (if upTo (lastLine rng) v = length v then None else Some (upTo (lastLine rng) v))"

definition sameLine :: "(string, CallGraphNode) umap \<Rightarrow> Located list \<Rightarrow> nat \<Rightarrow> MappingVia \<Rightarrow> mapping_state \<Rightarrow> mapping_state" where
  "sameLine nodes v at' via m =
     (let same = (\<lambda>x. fst x = fst (v ! at'))
      in fold (attribute nodes via) (map snd (takeWhile same (drop at' v) @ takeWhile same (rev (take at' v)))) m)"

definition inRange :: "PatchRange \<Rightarrow> Located \<Rightarrow> bool" where
  "inRange rng x \<longleftrightarrow> firstLine rng \<le> fst x \<and> fst x \<le> lastLine rng"

text \<open>The sites of the file-scope case: runs of one caller are attributed once.\<close>

fun skipRuns :: "string \<Rightarrow> string list \<Rightarrow> string list" where
  "skipRuns prev [] = []"
| "skipRuns prev (u # us) = (if u = prev then skipRuns prev us else u # skipRuns u us)"

definition estimate :: "(string, CallGraphNode) umap \<Rightarrow> PatchRange \<Rightarrow> FileEntry \<Rightarrow> mapping_state \<Rightarrow> mapping_state" where
  "estimate nodes rng entry m =
     (let defs = feDefs entry; sites = feSites entry;
          prevDef = lastBefore rng defs; prevSite = lastBefore rng sites
      in if prevDef = None \<and> prevSite = None
         then fold (attribute nodes File) (map snd defs @ skipRuns [] (map snd sites)) m
         else
           let defNearer = (prevDef \<noteq> None \<and> (prevSite = None \<or> fst (defs ! the prevDef) \<ge> fst (sites ! the prevSite)));
               m = (if defNearer then sameLine nodes defs (the prevDef) Extent m
                    else sameLine nodes sites (the prevSite) Extent m);
               owner = (if defNearer then snd (defs ! the prevDef) else snd (sites ! the prevSite));
               nextDef = firstAfter rng defs; nextSite = firstAfter rng sites
           in if nextSite \<noteq> None \<and> snd (sites ! the nextSite) \<noteq> owner \<and>
                 (nextDef = None \<or> fst (defs ! the nextDef) > fst (sites ! the nextSite))
              then sameLine nodes sites (the nextSite) Extent m else m)"

definition wantedPath :: "string \<Rightarrow> PatchRange \<Rightarrow> string" where
  "wantedPath patchRoot rng =
     (if patchRoot = [] then prFile rng
      else (if last patchRoot = CHR ''/'' then patchRoot else patchRoot @ ''/'') @ prFile rng)"

definition mapRange :: "(string, FileEntry) umap \<Rightarrow> (string, CallGraphNode) umap \<Rightarrow> string \<Rightarrow> PatchRange \<Rightarrow>
    mapping_state \<times> UnmappedRange list \<Rightarrow> mapping_state \<times> UnmappedRange list" where
  "mapRange files nodes patchRoot rng st =
     (let (m, un) = st;
          hits = filter (\<lambda>kv. pathsMatch (fst kv) (wantedPath patchRoot rng)) files
      in if hits = []
         then (m, un @ [\<lparr>urRange = rng, urReason = ''no function or call site indexed in this file''\<rparr>])
         else if length hits > 1
         then (m, un @ [\<lparr>urRange = rng, urReason = ''matches '' @ toString (length hits) @ '' indexed files; pass patch_root''\<rparr>])
         else
           let entry = snd (hd hits);
               m' = fold (attribute nodes Definition) (map snd (filter (inRange rng) (feDefs entry))) m;
               m' = fold (attribute nodes CallSite) (map snd (filter (inRange rng) (feSites entry))) m';
               exact = (list_ex (inRange rng) (feDefs entry) \<or> list_ex (inRange rng) (feSites entry))
           in if exact then (m', un)
              else if feDefs entry = [] \<and> feSites entry = []
              then (m', un @ [\<lparr>urRange = rng, urReason = ''no function indexed at these lines''\<rparr>])
              else (estimate nodes rng entry m', un))"

definition nodeTable :: "call_graph \<Rightarrow> (string, CallGraphNode) umap" where
  "nodeTable g = fold (\<lambda>n m. um_emplace m (usr n) n) (allNodes g) []"

definition mapRangesToFunctions :: "(string \<Rightarrow> bool) \<Rightarrow> (string \<Rightarrow> line option) \<Rightarrow> call_graph \<Rightarrow> PatchRange list \<Rightarrow>
    string \<Rightarrow> PatchMapping" where
  "mapRangesToFunctions isUTF8 asInt g ranges patchRoot =
     (let files = fileIndex isUTF8 asInt g; nodes = nodeTable g;
          (m, un) = fold (mapRange files nodes patchRoot) ranges ([], []);
          fs = sort_key mfUsr (map snd m);
          count = (\<lambda>v. length (filter (\<lambda>f. mfVia f = v) fs))
      in \<lparr>pmFunctions = fs, pmUnmapped = sort_key (\<lambda>u. (prFile (urRange u), firstLine (urRange u))) un,
          viaCallSite = count CallSite, viaDefinition = count Definition, viaExtent = count Extent,
          viaFile = count File\<rparr>)"

end
