(* ===== verification/PatchMappingProps.thy ===== *)
theory PatchMappingProps
  imports PatchMapping CallGraphProps
begin

text \<open>
  The parser reads back what a diff printer writes, and every changed range is accounted for: attributed to
  functions anchored in the one file it matches, with the most precise attribution of each function, or listed
  as unmapped because no file or several match.
\<close>

section \<open>Unified diffs\<close>

abbreviation newline :: char where "newline \<equiv> CHR 0x0A"

definition unlines :: "string list \<Rightarrow> string" where
  "unlines ls = concat (map (\<lambda>l. l @ [newline]) ls)"

lemma splitChar_append: "c \<notin> set s \<Longrightarrow> splitChar c (s @ c # t) = (s, t)"
proof -
  assume "c \<notin> set s"
  then have "takeWhile (\<lambda>x. x \<noteq> c) (s @ c # t) = s" by (subst takeWhile_append2) auto
  then show ?thesis by (simp add: splitChar_def)
qed

lemma splitChar_none: "c \<notin> set s \<Longrightarrow> splitChar c s = (s, [])"
proof -
  assume "c \<notin> set s"
  then have "takeWhile (\<lambda>x. x \<noteq> c) s = s" by (subst takeWhile_eq_all_conv) auto
  then show ?thesis by (simp add: splitChar_def del: takeWhile_eq_all_conv)
qed

lemma diffLines_unlines:
  "\<forall>l \<in> set ls. newline \<notin> set l \<Longrightarrow> diffLines asInt (unlines ls) st = fold (diffLine asInt) ls st"
proof (induction ls arbitrary: st)
  case Nil
  show ?case by (simp add: unlines_def diffLines.simps)
next
  case (Cons l ls)
  have "unlines (l # ls) = l @ newline # unlines ls" by (simp add: unlines_def)
  then show ?case using Cons by (subst diffLines.simps) (simp add: splitChar_append)
qed

text \<open>
  What a diff is printed from. A file without a before-side name is new, one without an after-side name is
  deleted; \<open>dfPreamble\<close> holds the lines before its two header lines, such as those of \<open>git diff\<close>. A printer may
  leave out a count of 1 (\<open>dhTerse\<close>).
\<close>

record DiffHunk =
  dhOld :: string
  dhStart :: line
  dhCount :: line
  dhTerse :: bool
  dhHeading :: string
  dhBody :: "string list"

record DiffFile =
  dfPreamble :: "string list"
  dfBefore :: "string option"
  dfAfter :: "string option"
  dfHunks :: "DiffHunk list"

definition countText :: "DiffHunk \<Rightarrow> string" where
  "countText h = (if dhTerse h \<and> dhCount h = 1 then [] else '','' @ toString (unat (dhCount h)))"

definition hunkLines :: "DiffHunk \<Rightarrow> string list" where
  "hunkLines h = (''@@ -'' @ dhOld h @ '' +'' @ toString (unat (dhStart h)) @ countText h @
     '' @@'' @ dhHeading h) # dhBody h"

definition fileLines :: "DiffFile \<Rightarrow> string list" where
  "fileLines f = dfPreamble f @
    [(case dfBefore f of Some b \<Rightarrow> ''--- a/'' @ b | None \<Rightarrow> ''--- /dev/null''),
     (case dfAfter f of Some a \<Rightarrow> ''+++ b/'' @ a | None \<Rightarrow> ''+++ /dev/null'')] @ concat (map hunkLines (dfHunks f))"

definition fileName :: "DiffFile \<Rightarrow> string" where
  "fileName f = (case dfAfter f of Some a \<Rightarrow> a | None \<Rightarrow> the (dfBefore f))"

definition fileRanges :: "DiffFile \<Rightarrow> PatchRange list" where
  "fileRanges f = map (\<lambda>h. hunkRange (fileName f) (dfAfter f = None) (dhStart h, dhCount h)) (dfHunks f)"

text \<open>
  The range a hunk should give: its after-side lines, as natural numbers, or for a deletion the lines on the two
  sides of it, the first line where it is at the top.
\<close>

definition coversHunk :: "DiffFile \<Rightarrow> DiffHunk \<Rightarrow> PatchRange \<Rightarrow> bool" where
  "coversHunk f h r \<longleftrightarrow>
     prFile r = fileName f \<and>
     (if dhCount h = 0 \<or> dfAfter f = None
      then deletionOnly r \<and> unat ` {firstLine r..lastLine r} =
             (if dhStart h = 0 then {1} else {unat (dhStart h), unat (dhStart h) + 1})
      else \<not> deletionOnly r \<and> unat ` {firstLine r..lastLine r} = {unat (dhStart h)..<unat (dhStart h) + unat (dhCount h)})"

lemma unat_interval: "unat ` {a..b :: line} = {unat a..unat b}"
proof -
  have "n \<in> unat ` {a..b}" if "unat a \<le> n" "n \<le> unat b" for n
  proof -
    have "n < 2 ^ 32" using that(2) unsigned_less [of b, where 'a = nat] by simp
    then have "unat (of_nat n :: line) = n" by (simp add: unat_of_nat take_bit_nat_eq_self)
    then show ?thesis using that by (intro image_eqI [of _ _ "of_nat n"]) (simp_all add: word_le_nat_alt)
  qed
  then show ?thesis by (auto simp: word_le_nat_alt)
qed

definition hunkFits :: "DiffHunk \<Rightarrow> bool" where
  "hunkFits h \<longleftrightarrow> unat (dhStart h) + max 1 (unat (dhCount h)) < 2 ^ 32"

lemma hunkRange_covers:
  assumes "hunkFits h"
  shows "coversHunk f h (hunkRange (fileName f) (dfAfter f = None) (dhStart h, dhCount h))"
proof -
  have fits: "unat (dhStart h) + unat (dhCount h) < 2 ^ 32" "unat (dhStart h) + 1 < 2 ^ 32"
    using assms by (simp_all add: hunkFits_def)
  have s: "unat (dhStart h + 1) = unat (dhStart h) + 1"
    using fits(2) by (simp add: unat_word_ariths)
  have c: "unat (dhStart h + dhCount h - 1) = unat (dhStart h) + unat (dhCount h) - 1" if "dhCount h \<noteq> 0"
  proof -
    have sum: "unat (dhStart h + dhCount h) = unat (dhStart h) + unat (dhCount h)"
      using fits(1) by (simp add: unat_word_ariths)
    moreover have "unat (dhCount h) \<noteq> 0" using that by (simp add: unat_eq_0)
    ultimately have "dhStart h + dhCount h \<noteq> 0" by (metis add_is_0 unsigned_0)
    then show ?thesis using sum unat_minus_one [of "dhStart h + dhCount h"] by simp
  qed
  have lines: "unat ` {dhStart h..dhStart h + dhCount h - 1} = {unat (dhStart h)..<unat (dhStart h) + unat (dhCount h)}"
    if "dhCount h \<noteq> 0" using that unat_eq_0 [of "dhCount h"] unfolding unat_interval c [OF that] by auto
  have around: "unat ` {dhStart h..dhStart h + 1} = {unat (dhStart h), unat (dhStart h) + 1}"
    unfolding unat_interval s by auto
  show ?thesis
  proof (cases "dhCount h = 0 \<or> dfAfter f = None")
    case True
    then show ?thesis using around by (auto simp: coversHunk_def hunkRange_def)
  next
    case False
    then have "hunkRange (fileName f) (dfAfter f = None) (dhStart h, dhCount h) =
        \<lparr>prFile = fileName f, firstLine = dhStart h, lastLine = dhStart h + dhCount h - 1, deletionOnly = False\<rparr>"
      by (simp add: hunkRange_def)
    with False lines show ?thesis by (simp only: coversHunk_def PatchRange.simps) simp
  qed
qed

definition plainLine :: "string \<Rightarrow> bool" where
  "plainLine l \<longleftrightarrow> newline \<notin> set l \<and> \<not> startsWith ''--- '' l \<and> \<not> startsWith ''+++ '' l \<and> \<not> startsWith ''diff '' l \<and>
     \<not> startsWith ''@@ '' l"

definition plainName :: "string \<Rightarrow> bool" where
  "plainName n \<longleftrightarrow> n \<noteq> [] \<and> newline \<notin> set n \<and> CHR 0x09 \<notin> set n \<and> \<not> isBlankChar (last n) \<and> stripDot n = n \<and> n \<noteq> ''/dev/null''"

definition plainFile :: "DiffFile \<Rightarrow> bool" where
  "plainFile f \<longleftrightarrow> (dfBefore f \<noteq> None \<or> dfAfter f \<noteq> None) \<and>
     (\<forall>b \<in> set_option (dfBefore f). plainName b) \<and> (\<forall>a \<in> set_option (dfAfter f). plainName a) \<and>
     list_all (\<lambda>l. newline \<notin> set l \<and> \<not> startsWith ''--- '' l \<and> \<not> startsWith ''+++ '' l \<and> \<not> startsWith ''@@ '' l) (dfPreamble f) \<and>
     (\<forall>h \<in> set (dfHunks f). CHR ''+'' \<notin> set (dhOld h) \<and> newline \<notin> set (dhOld h) \<and> newline \<notin> set (dhHeading h) \<and>
        list_all plainLine (dhBody h))"

text \<open>What the parser relies on: a printed number is read back.\<close>

definition decimal :: "(string \<Rightarrow> line option) \<Rightarrow> bool" where
  "decimal asInt \<longleftrightarrow> (\<forall>n. asInt (toString (unat n)) = Some n)"

lemma digit_code: "k < 10 \<Longrightarrow> of_char (char_of (48 + k :: nat)) = 48 + k"
  by simp

lemma toString_digits: "c \<in> set (toString n) \<Longrightarrow> 48 \<le> (of_char c :: nat) \<and> of_char c \<le> (57 :: nat)"
proof (induction n rule: toString.induct)
  case (1 n)
  show ?case
  proof (cases "n < 10")
    case True
    then have "toString n = [char_of (48 + n)]" by (subst toString.simps) simp
    with 1 True digit_code [of n] show ?thesis by simp
  next
    case False
    then have "toString n = toString (n div 10) @ [char_of (48 + n mod 10)]" by (subst toString.simps) simp
    with 1 False digit_code [of "n mod 10"] show ?thesis by auto
  qed
qed

lemma toString_nonempty: "toString n \<noteq> []"
  by (subst toString.simps) simp

lemma toString_separators [simp]: "CHR '' '' \<notin> set (toString n)" "CHR '','' \<notin> set (toString n)" "newline \<notin> set (toString n)"
  using toString_digits [of "CHR '' ''" n] toString_digits [of "CHR '',''" n] toString_digits [of newline n] by auto

lemma stripPatchPrefix_plain:
  assumes "plainName n" "p = ''a/'' \<or> p = ''b/''"
  shows "stripPatchPrefix (p @ n) = n"
proof -
  have "CHR 0x09 \<notin> set (p @ n)" using assms by (auto simp: plainName_def)
  then have "splitChar (CHR 0x09) (p @ n) = (p @ n, [])" by (rule splitChar_none)
  moreover have "rtrim (p @ n) = p @ n"
  proof -
    from assms(1) obtain c cs where c: "n = cs @ [c]" by (cases n rule: rev_cases) (auto simp: plainName_def)
    then show ?thesis using assms(1) by (simp add: rtrim_def plainName_def)
  qed
  ultimately show ?thesis using assms by (auto simp: stripPatchPrefix_def startsWith_def plainName_def)
qed

lemma splitChar_count:
  "splitChar (CHR '','') (toString (unat (dhStart h)) @ countText h) = (toString (unat (dhStart h)), drop (Suc 0) (countText h))"
  by (cases "dhTerse h \<and> dhCount h = 1") (auto simp: countText_def splitChar_none splitChar_append)

lemma parseHunkHeader_hunk:
  assumes "decimal asInt" "CHR ''+'' \<notin> set (dhOld h)"
  shows "parseHunkHeader asInt (hd (hunkLines h)) = Some (dhStart h, dhCount h)"
proof -
  let ?n = "toString (unat (dhStart h)) @ countText h"
  let ?pre = "''@@ -'' @ dhOld h @ '' ''" and ?post = "''@@'' @ dhHeading h"
  have line: "hd (hunkLines h) = ?pre @ CHR ''+'' # ?n @ CHR '' '' # ?post" by (simp add: hunkLines_def)
  have "CHR ''+'' \<notin> set ?pre" using assms(2) by simp
  then have 1: "splitChar (CHR ''+'') (hd (hunkLines h)) = (?pre, ?n @ CHR '' '' # ?post)"
    unfolding line by (rule splitChar_append)
  have "CHR '' '' \<notin> set ?n" by (simp add: countText_def)
  then have 2: "splitChar (CHR '' '') (?n @ CHR '' '' # ?post) = (?n, ?post)"
    by (rule splitChar_append)
  have c: "drop (Suc 0) (countText h) = [] \<longleftrightarrow> dhTerse h \<and> dhCount h = 1"
    "\<not> (dhTerse h \<and> dhCount h = 1) \<Longrightarrow> asInt (drop (Suc 0) (countText h)) = Some (dhCount h)"
    using assms(1) toString_nonempty by (auto simp: countText_def decimal_def)
  have h: "startsWith ''@@ '' (hd (hunkLines h))" "CHR ''+'' \<in> set (hd (hunkLines h))" by (simp_all add: line startsWith_def)
  have "parseHunkHeader asInt (hd (hunkLines h)) = (case asInt (toString (unat (dhStart h))) of
      None \<Rightarrow> None
    | Some n \<Rightarrow> if drop (Suc 0) (countText h) = [] then Some (n, 1)
        else (case asInt (drop (Suc 0) (countText h)) of None \<Rightarrow> None | Some m \<Rightarrow> Some (n, m)))"
    using h unfolding parseHunkHeader_def Let_def by (simp only: 1 2 fst_conv snd_conv splitChar_count) simp
  then show ?thesis using assms(1) c by (auto simp: decimal_def)
qed

lemma diffLine_plain: "plainLine l \<Longrightarrow> diffLine asInt l st = st"
  by (simp add: diffLine_def plainLine_def parseHunkHeader_def)

lemma fold_plain: "list_all plainLine ls \<Longrightarrow> fold (diffLine asInt) ls st = st"
  by (induction ls) (auto simp: diffLine_plain)

lemma fold_hunks:
  assumes "decimal asInt"
    and "\<forall>h \<in> set hs. CHR ''+'' \<notin> set (dhOld h) \<and> list_all plainLine (dhBody h)" and "inFile st"
  shows "fold (diffLine asInt) (concat (map hunkLines hs)) st =
    st\<lparr>dOut := dOut st @ map (\<lambda>h. hunkRange (afterName st) (deletedFile st) (dhStart h, dhCount h)) hs\<rparr>"
  using assms(2,3)
proof (induction hs arbitrary: st)
  case (Cons h hs)
  let ?st = "st\<lparr>dOut := dOut st @ [hunkRange (afterName st) (deletedFile st) (dhStart h, dhCount h)]\<rparr>"
  have "diffLine asInt (hd (hunkLines h)) st = ?st"
    using parseHunkHeader_hunk [OF assms(1), of h] Cons.prems by (simp add: diffLine_def) (simp add: hunkLines_def startsWith_def)
  then have "fold (diffLine asInt) (hunkLines h) st = ?st"
    using Cons.prems by (simp add: hunkLines_def fold_plain)
  then show ?case using Cons.IH [of ?st] Cons.prems by simp
qed simp

lemma stripPatchPrefix_null: "stripPatchPrefix ''/dev/null'' = ''/dev/null''"
  by code_simp

lemma fold_preamble:
  assumes "list_all (\<lambda>l. newline \<notin> set l \<and> \<not> startsWith ''--- '' l \<and> \<not> startsWith ''+++ '' l \<and> \<not> startsWith ''@@ '' l) ls"
  shows "dOut (fold (diffLine asInt) ls st) = dOut st"
  using assms
  by (induction ls arbitrary: st) (auto simp: diffLine_def parseHunkHeader_def)

text \<open>The two header lines of a file set the names, whatever came before.\<close>

lemma fold_headers:
  assumes "plainFile f"
  shows "fold (diffLine asInt) [case dfBefore f of Some b \<Rightarrow> ''--- a/'' @ b | None \<Rightarrow> ''--- /dev/null'',
      case dfAfter f of Some a \<Rightarrow> ''+++ b/'' @ a | None \<Rightarrow> ''+++ /dev/null''] st =
    st\<lparr>beforeName := (case dfBefore f of Some b \<Rightarrow> b | None \<Rightarrow> ''/dev/null''), afterName := fileName f,
       inFile := True, deletedFile := (dfAfter f = None)\<rparr>"
proof -
  have b: "stripPatchPrefix (CHR ''a'' # CHR ''/'' # b) = b" "b \<noteq> []" "b \<noteq> ''/dev/null''" if "dfBefore f = Some b" for b
    using assms that stripPatchPrefix_plain [of b "''a/''"] by (simp_all add: plainFile_def plainName_def)
  have a: "stripPatchPrefix (CHR ''b'' # CHR ''/'' # a) = a" "a \<noteq> []" "a \<noteq> ''/dev/null''" if "dfAfter f = Some a" for a
    using assms that stripPatchPrefix_plain [of a "''b/''"] by (simp_all add: plainFile_def plainName_def)
  have "dfBefore f \<noteq> None" if "dfAfter f = None" using assms that by (simp add: plainFile_def)
  with a b show ?thesis
    by (cases "dfBefore f"; cases "dfAfter f")
      (auto simp: diffLine_def startsWith_def stripPatchPrefix_null fileName_def Let_def)
qed

lemma fold_file:
  assumes "decimal asInt" "plainFile f"
  shows "dOut (fold (diffLine asInt) (fileLines f) st) = dOut st @ fileRanges f"
proof -
  let ?st0 = "fold (diffLine asInt) (dfPreamble f) st"
  let ?st = "?st0\<lparr>beforeName := (case dfBefore f of Some b \<Rightarrow> b | None \<Rightarrow> ''/dev/null''), afterName := fileName f,
       inFile := True, deletedFile := (dfAfter f = None)\<rparr>"
  have "fold (diffLine asInt) (fileLines f) st = fold (diffLine asInt) (concat (map hunkLines (dfHunks f))) ?st"
    unfolding fileLines_def fold_append comp_def fold_headers [OF assms(2)] ..
  also have "\<dots> = ?st\<lparr>dOut := dOut ?st @ map (\<lambda>h. hunkRange (afterName ?st) (deletedFile ?st) (dhStart h, dhCount h)) (dfHunks f)\<rparr>"
    using assms by (intro fold_hunks) (auto simp: plainFile_def)
  finally show ?thesis
    using fold_preamble [of "dfPreamble f" asInt st] assms(2) by (simp add: fileRanges_def plainFile_def)
qed

lemma fileLines_newline: "plainFile f \<Longrightarrow> l \<in> set (fileLines f) \<Longrightarrow> newline \<notin> set l"
  by (auto simp: fileLines_def hunkLines_def countText_def plainFile_def plainName_def plainLine_def list_all_iff
      split: option.splits if_splits)

text \<open>
  C26: the parser reads back what a diff printer writes: for any files (new, changed and deleted, with lines such
  as git's before the headers) and hunks (with the count of 1 printed or left out, among them hunks without
  after-side lines), the ranges are those of the hunks, in order, under the file's after-side name (the
  before-side name of a deleted file); the range of a hunk whose line numbers fit 32 bits holds exactly the
  hunk's after-side lines, or the lines around a deletion. The condition \<open>plainFile\<close> restricts the texts: no line of a hunk and no
  line before a file's headers looks like a header (so no deleted line begins with two dashes and a blank,
  no added line with two pluses and a blank: the parser does not count the lines of a hunk and would take
  them for file headers), file names are non-empty, have no tab, newline, trailing blank or leading \<open>./\<close> and are
  not \<open>/dev/null\<close>, and the before-side position of a hunk has no plus sign.
\<close>

theorem parseUnifiedDiff_roundtrip:
  assumes "decimal asInt" and "list_all plainFile fs"
  shows "parseUnifiedDiff asInt (unlines (concat (map fileLines fs))) = concat (map fileRanges fs) \<and>
    (\<forall>f \<in> set fs. length (fileRanges f) = length (dfHunks f) \<and>
       (\<forall>i < length (dfHunks f). hunkFits (dfHunks f ! i) \<longrightarrow> coversHunk f (dfHunks f ! i) (fileRanges f ! i)))"
proof -
  have "dOut (fold (diffLine asInt) (concat (map fileLines fs)) st) = dOut st @ concat (map fileRanges fs)" for st
    using assms(2) by (induction fs arbitrary: st) (simp_all add: fold_file [OF assms(1)])
  moreover have "\<forall>l \<in> set (concat (map fileLines fs)). newline \<notin> set l"
    using assms(2) fileLines_newline by (auto simp: list_all_iff)
  ultimately have "parseUnifiedDiff asInt (unlines (concat (map fileLines fs))) = concat (map fileRanges fs)"
    by (simp add: parseUnifiedDiff_def diffLines_unlines)
  then show ?thesis by (simp add: hunkRange_covers fileRanges_def)
qed

text \<open>A reader of decimal numbers that fit 32 bits.\<close>

definition decInt :: "string \<Rightarrow> line option" where
  "decInt s = (let v = foldl (\<lambda>a c. a * 10 + (of_char c - 48)) (0 :: int) s
     in if s \<noteq> [] \<and> list_all (\<lambda>c. 48 \<le> (of_char c :: int) \<and> of_char c \<le> (57 :: int)) s \<and> v < 4294967296
        then Some (word_of_int v) else None)"

lemma toString_value: "foldl (\<lambda>a c. a * 10 + (of_char c - 48)) (0 :: int) (toString n) = int n"
proof (induction n rule: toString.induct)
  case (1 n)
  have d: "of_char (char_of (48 + k)) = (48 + int k :: int)" if "k < 10" for k :: nat
    using that digit_code [of k] of_nat_of_char [of "char_of (48 + k)", where 'a = int] by simp
  show ?case
  proof (cases "n < 10")
    case False
    have "toString n = toString (n div 10) @ [char_of (48 + n mod 10)]" using False by (subst toString.simps) simp
    then show ?thesis using "1.IH" [OF False] d [of "n mod 10"] by (simp add: zdiv_int zmod_int)
  qed (subst toString.simps, simp add: d)
qed

lemma decimal_decInt: "decimal decInt"
  unfolding decimal_def
proof
  fix n :: line
  have "48 \<le> (of_char c :: int) \<and> of_char c \<le> (57 :: int)" if "c \<in> set (toString k)" for c k
    using toString_digits [OF that] of_nat_of_char [of c, where 'a = int] by linarith
  moreover have "int (unat n) < 4294967296" using unsigned_less [of n] by simp
  ultimately show "decInt (toString (unat n)) = Some n"
    using toString_nonempty [of "unat n"] by (simp add: decInt_def toString_value list_all_iff)
qed

definition sampleDiff :: "DiffFile list" where
  "sampleDiff = [\<lparr>dfPreamble = [''diff --git a/src/a.cpp b/src/a.cpp''], dfBefore = Some ''src/a.cpp'', dfAfter = Some ''src/a.cpp'', dfHunks =
     [\<lparr>dhOld = ''3,2'', dhStart = 3, dhCount = 4, dhTerse = True, dhHeading = '' void f()'', dhBody = ['' int x;'', ''+int y;'']\<rparr>,
      \<lparr>dhOld = ''9'', dhStart = 9, dhCount = 1, dhTerse = True, dhHeading = [], dhBody = [''-gone();'', ''+here();'']\<rparr>]\<rparr>,
     \<lparr>dfPreamble = [], dfBefore = Some ''old.h'', dfAfter = None, dfHunks =
       [\<lparr>dhOld = ''1,5'', dhStart = 0, dhCount = 0, dhTerse = False, dhHeading = [], dhBody = []\<rparr>]\<rparr>]"

lemma sampleDiff_plain: "list_all plainFile sampleDiff"
  by code_simp

theorem parseUnifiedDiff_roundtrip_witness:
  "parseUnifiedDiff decInt (unlines (concat (map fileLines sampleDiff))) = concat (map fileRanges sampleDiff) \<and>
   map firstLine (concat (map fileRanges sampleDiff)) = [3, 9, 1]"
proof -
  have "map firstLine (concat (map fileRanges sampleDiff)) = [3, 9, 1]" by code_simp
  with parseUnifiedDiff_roundtrip [OF decimal_decInt sampleDiff_plain] show ?thesis by simp
qed

section \<open>Attribution\<close>

text \<open>The attributions one range makes, in the order of the code, and the reason it makes none.\<close>

definition lineMates :: "Located list \<Rightarrow> nat \<Rightarrow> string list" where
  "lineMates v i = map snd (takeWhile (\<lambda>x. fst x = fst (v ! i)) (drop i v) @ takeWhile (\<lambda>x. fst x = fst (v ! i)) (rev (take i v)))"

definition estimates :: "PatchRange \<Rightarrow> FileEntry \<Rightarrow> (MappingVia \<times> string) list" where
  "estimates rng entry =
     (let defs = feDefs entry; sites = feSites entry; prevDef = lastBefore rng defs; prevSite = lastBefore rng sites
      in if prevDef = None \<and> prevSite = None then map (Pair File) (map snd defs @ skipRuns [] (map snd sites))
         else
           let defNearer = (prevDef \<noteq> None \<and> (prevSite = None \<or> fst (defs ! the prevDef) \<ge> fst (sites ! the prevSite)));
               owner = (if defNearer then snd (defs ! the prevDef) else snd (sites ! the prevSite));
               nextDef = firstAfter rng defs; nextSite = firstAfter rng sites
           in map (Pair Extent) ((if defNearer then lineMates defs (the prevDef) else lineMates sites (the prevSite)) @
                (if nextSite \<noteq> None \<and> snd (sites ! the nextSite) \<noteq> owner \<and>
                    (nextDef = None \<or> fst (defs ! the nextDef) > fst (sites ! the nextSite))
                 then lineMates sites (the nextSite) else [])))"

definition exactHits :: "PatchRange \<Rightarrow> FileEntry \<Rightarrow> (MappingVia \<times> string) list" where
  "exactHits rng entry = map (Pair Definition) (map snd (filter (inRange rng) (feDefs entry))) @
     map (Pair CallSite) (map snd (filter (inRange rng) (feSites entry)))"

definition attributions :: "PatchRange \<Rightarrow> FileEntry \<Rightarrow> (MappingVia \<times> string) list" where
  "attributions rng entry = (if exactHits rng entry \<noteq> [] then exactHits rng entry else estimates rng entry)"

definition hitsOf :: "(string, FileEntry) umap \<Rightarrow> string \<Rightarrow> PatchRange \<Rightarrow> FileEntry list" where
  "hitsOf files root rng = map snd (filter (\<lambda>kv. pathsMatch (fst kv) (wantedPath root rng)) files)"

definition rangeAttributions :: "(string, FileEntry) umap \<Rightarrow> string \<Rightarrow> PatchRange \<Rightarrow> (MappingVia \<times> string) list" where
  "rangeAttributions files root rng = (case hitsOf files root rng of [entry] \<Rightarrow> attributions rng entry | _ \<Rightarrow> [])"

definition credit :: "(string, CallGraphNode) umap \<Rightarrow> MappingVia \<times> string \<Rightarrow> mapping_state \<Rightarrow> mapping_state" where
  "credit nodes x = attribute nodes (fst x) (snd x)"

lemma fold_credit_Pair: "fold (credit nodes) (map (Pair v) us) m = fold (attribute nodes v) us m"
  by (induction us arbitrary: m) (auto simp: credit_def)

lemma sameLine_credit: "sameLine nodes v i via m = fold (credit nodes) (map (Pair via) (lineMates v i)) m"
  unfolding sameLine_def lineMates_def Let_def fold_credit_Pair ..

lemma estimate_credit: "estimate nodes rng entry m = fold (credit nodes) (estimates rng entry) m"
  by (auto simp: estimate_def estimates_def Let_def sameLine_credit fold_credit_Pair [symmetric])

lemma exactHits_credit: "fold (credit nodes) (exactHits rng entry) m =
    fold (attribute nodes CallSite) (map snd (filter (inRange rng) (feSites entry)))
      (fold (attribute nodes Definition) (map snd (filter (inRange rng) (feDefs entry))) m)"
  by (simp only: exactHits_def fold_append comp_apply fold_credit_Pair)

lemma exactHits_nonempty: "exactHits rng entry \<noteq> [] \<longleftrightarrow> list_ex (inRange rng) (feDefs entry) \<or> list_ex (inRange rng) (feSites entry)"
  by (auto simp: exactHits_def list_ex_iff filter_empty_conv)

text \<open>No file of the index is without anchors.\<close>

definition anchored :: "(string, FileEntry) umap \<Rightarrow> bool" where
  "anchored files \<longleftrightarrow> (\<forall>(f, e) \<in> set files. feDefs e \<noteq> [] \<or> feSites e \<noteq> [])"

lemma mapRange_credit:
  assumes "anchored files"
  shows "\<exists>new. mapRange files nodes root rng (m, un) = (fold (credit nodes) (rangeAttributions files root rng) m, un @ new) \<and>
    (length (hitsOf files root rng) = 1 \<longrightarrow> new = []) \<and>
    (length (hitsOf files root rng) \<noteq> 1 \<longrightarrow> (\<exists>x. new = [x] \<and> urRange x = rng))"
proof (cases "filter (\<lambda>kv. pathsMatch (fst kv) (wantedPath root rng)) files")
  case Nil
  then show ?thesis by (simp add: mapRange_def hitsOf_def rangeAttributions_def)
next
  case (Cons kv kvs)
  show ?thesis
  proof (cases kvs)
    case Nil
    have "kv \<in> set files" using Cons by (metis filter_is_subset list.set_intros(1) subsetD)
    then have "\<not> (feDefs (snd kv) = [] \<and> feSites (snd kv) = [])" using assms by (auto simp: anchored_def)
    then show ?thesis
      using Cons Nil exactHits_nonempty [of rng "snd kv"]
      by (cases "exactHits rng (snd kv) = []")
        (simp_all add: mapRange_def hitsOf_def rangeAttributions_def attributions_def Let_def estimate_credit
          exactHits_credit [symmetric])
  next
    case (Cons kv' kvs')
    with \<open>filter _ files = kv # kvs\<close> show ?thesis by (simp add: mapRange_def hitsOf_def rangeAttributions_def Let_def)
  qed
qed

definition creditOk :: "(MappingVia \<times> string) list \<Rightarrow> mapping_state \<Rightarrow> bool" where
  "creditOk xs m \<longleftrightarrow> um_ok m \<and> (\<forall>u. map_of m u = None \<longleftrightarrow> u \<notin> snd ` set xs) \<and>
     (\<forall>u f. map_of m u = Some f \<longrightarrow> mfUsr f = u \<and> (mfVia f, u) \<in> set xs \<and>
        (\<forall>v. (v, u) \<in> set xs \<longrightarrow> viaRank (mfVia f) \<le> viaRank v))"

lemma creditOk_step:
  assumes ok: "creditOk xs m"
  shows "creditOk (xs @ [x]) (credit nodes x m)"
proof -
  obtain v u where x: "x = (v, u)" by fastforce
  show ?thesis
  proof (cases "map_of m u")
    case None
    then have "\<forall>w. (w, u) \<notin> set xs" using ok by (force simp: creditOk_def)
    moreover obtain f where "credit nodes x m = um_put m u f" "mfUsr f = u" "mfVia f = v"
      using None by (cases "map_of nodes u") (simp_all add: credit_def attribute_def x)
    ultimately show ?thesis using ok None by (auto simp: creditOk_def x)
  next
    case (Some f)
    with ok have f: "mfUsr f = u" "(mfVia f, u) \<in> set xs" "\<forall>w. (w, u) \<in> set xs \<longrightarrow> viaRank (mfVia f) \<le> viaRank w"
      by (simp_all add: creditOk_def)
    moreover have "u \<in> snd ` set xs" using f(2) by force
    ultimately show ?thesis using ok Some
      by (auto simp: creditOk_def credit_def attribute_def x) (meson le_trans less_imp_le)+
  qed
qed

lemma creditOk_fold: "creditOk xs (fold (credit nodes) xs [])"
  by (induction xs rule: rev_induct) (auto simp: creditOk_step, simp add: creditOk_def)

lemma creditOkD:
  assumes ok: "creditOk xs m"
  shows "(v, u) \<in> set xs \<Longrightarrow> \<exists>f. map_of m u = Some f \<and> viaRank (mfVia f) \<le> viaRank v"
    and "map_of m u = Some f \<Longrightarrow> mfUsr f = u \<and> (mfVia f, u) \<in> set xs"
proof -
  show "\<exists>f. map_of m u = Some f \<and> viaRank (mfVia f) \<le> viaRank v" if x: "(v, u) \<in> set xs"
  proof -
    have "u \<in> snd ` set xs" using x by (rule image_eqI [rotated]) simp
    then obtain f where "map_of m u = Some f" using ok unfolding creditOk_def by blast
    with ok x show ?thesis unfolding creditOk_def by blast
  qed
  show "mfUsr f = u \<and> (mfVia f, u) \<in> set xs" if "map_of m u = Some f" using ok that unfolding creditOk_def by blast
qed

definition anchors :: "FileEntry \<Rightarrow> string set" where
  "anchors entry = snd ` set (feDefs entry) \<union> snd ` set (feSites entry)"

lemma upTo_le: "upTo l v \<le> length v"
  by (simp add: upTo_def length_takeWhile_le)

lemma lastBefore_less: "lastBefore rng v = Some i \<Longrightarrow> i < length v"
  using upTo_le [of "firstLine rng" v] by (auto simp: lastBefore_def split: if_splits)

lemma firstAfter_less: "firstAfter rng v = Some i \<Longrightarrow> i < length v"
  using upTo_le [of "lastLine rng" v] by (auto simp: firstAfter_def split: if_splits)

lemma lineMates_sub: "u \<in> set (lineMates v i) \<Longrightarrow> u \<in> snd ` set v"
  by (auto simp: lineMates_def dest!: set_takeWhileD in_set_dropD in_set_takeD intro: rev_image_eqI)

lemma lineMates_nonempty: "i < length v \<Longrightarrow> lineMates v i \<noteq> []"
  by (simp add: lineMates_def Cons_nth_drop_Suc [symmetric])

lemma skipRuns_sub: "u \<in> set (skipRuns p us) \<Longrightarrow> u \<in> set us"
  by (induction p us rule: skipRuns.induct) (auto split: if_splits)

lemma skipRuns_nonempty: "us \<noteq> [] \<Longrightarrow> p \<notin> set us \<Longrightarrow> skipRuns p us \<noteq> []"
  by (cases us) auto

lemma estimates_sound: "(v, u) \<in> set (estimates rng entry) \<Longrightarrow> u \<in> anchors entry \<and> v \<in> {Extent, File}"
  by (auto simp: estimates_def anchors_def Let_def split: if_splits dest!: lineMates_sub skipRuns_sub)

lemma estimates_nonempty:
  assumes "feDefs entry \<noteq> [] \<or> feSites entry \<noteq> []" "[] \<notin> snd ` set (feSites entry)"
  shows "estimates rng entry \<noteq> []"
proof (cases "lastBefore rng (feDefs entry) = None \<and> lastBefore rng (feSites entry) = None")
  case True
  then show ?thesis using assms skipRuns_nonempty [of "map snd (feSites entry)" "[]"] by (auto simp: estimates_def)
next
  case False
  then show ?thesis
    using lineMates_nonempty lastBefore_less [of rng "feDefs entry"] lastBefore_less [of rng "feSites entry"]
    by (auto simp: estimates_def Let_def)
qed

lemma exactHits_set: "(v, u) \<in> set (exactHits rng entry) \<longleftrightarrow>
    v = Definition \<and> (\<exists>x \<in> set (feDefs entry). inRange rng x \<and> snd x = u) \<or>
    v = CallSite \<and> (\<exists>x \<in> set (feSites entry). inRange rng x \<and> snd x = u)"
  by (auto simp: exactHits_def)

lemma attributions_sound:
  assumes "(v, u) \<in> set (attributions rng entry)"
  shows "u \<in> anchors entry" "v \<in> {CallSite, Definition, Extent, File}"
    "v = CallSite \<Longrightarrow> \<exists>x \<in> set (feSites entry). inRange rng x \<and> snd x = u"
    "v = Definition \<Longrightarrow> \<exists>x \<in> set (feDefs entry). inRange rng x \<and> snd x = u"
  using assms estimates_sound [of v u rng entry]
  by (auto simp: attributions_def exactHits_set anchors_def split: if_splits)

lemma attributions_complete:
  assumes "feDefs entry \<noteq> [] \<or> feSites entry \<noteq> []" "[] \<notin> snd ` set (feSites entry)"
  shows "attributions rng entry \<noteq> []"
    "x \<in> set (feSites entry) \<Longrightarrow> inRange rng x \<Longrightarrow> (CallSite, snd x) \<in> set (attributions rng entry)"
    "x \<in> set (feDefs entry) \<Longrightarrow> inRange rng x \<Longrightarrow> (Definition, snd x) \<in> set (attributions rng entry)"
proof -
  show "attributions rng entry \<noteq> []" using estimates_nonempty [OF assms] by (simp add: attributions_def)
  show "(CallSite, snd x) \<in> set (attributions rng entry)" if "x \<in> set (feSites entry)" "inRange rng x"
    using that exactHits_set [of CallSite "snd x" rng entry] by (auto simp: attributions_def)
  show "(Definition, snd x) \<in> set (attributions rng entry)" if "x \<in> set (feDefs entry)" "inRange rng x"
    using that exactHits_set [of Definition "snd x" rng entry] by (auto simp: attributions_def)
qed

lemma fold_mapRange:
  assumes "anchored files"
  shows "\<exists>new. fold (mapRange files nodes root) rngs (m, un) =
      (fold (credit nodes) (concat (map (rangeAttributions files root) rngs)) m, un @ new) \<and>
    urRange ` set new = {rng \<in> set rngs. length (hitsOf files root rng) \<noteq> 1}"
proof (induction rngs arbitrary: m un)
  case (Cons rng rngs)
  from mapRange_credit [OF assms, of nodes root rng m un] obtain x where
    x: "mapRange files nodes root rng (m, un) = (fold (credit nodes) (rangeAttributions files root rng) m, un @ x)"
      "urRange ` set x = (if length (hitsOf files root rng) = 1 then {} else {rng})" by auto
  from Cons.IH [of "fold (credit nodes) (rangeAttributions files root rng) m" "un @ x"] obtain new where
    n: "fold (mapRange files nodes root) rngs (fold (credit nodes) (rangeAttributions files root rng) m, un @ x) =
      (fold (credit nodes) (concat (map (rangeAttributions files root) rngs)) (fold (credit nodes) (rangeAttributions files root rng) m),
       (un @ x) @ new)" "urRange ` set new = {rng \<in> set rngs. length (hitsOf files root rng) \<noteq> 1}" by blast
  show ?case by (rule exI [of _ "x @ new"]) (use x n in \<open>auto simp: image_Un\<close>)
qed simp

lemma entryOf_simps: "entryOf (um_put files f e) f' = (if f' = f then e else entryOf files f')"
  by (simp add: entryOf_def)

text \<open>Entries are only made by adding an anchor.\<close>

definition filled :: "(string, FileEntry) umap \<Rightarrow> bool" where
  "filled files \<longleftrightarrow> um_ok files \<and> (\<forall>f e. map_of files f = Some e \<longrightarrow> feDefs e \<noteq> [] \<or> feSites e \<noteq> [])"

lemma filled_put: "filled files \<Longrightarrow> feDefs e \<noteq> [] \<or> feSites e \<noteq> [] \<Longrightarrow> filled (um_put files f e)"
  by (simp add: filled_def)

lemma filled_addSiteAnchor: "filled files \<Longrightarrow> filled (addSiteAnchor asInt e files)"
  by (auto simp: addSiteAnchor_def intro: filled_put split: option.split)

lemma filled_addNodeAnchors: "filled files \<Longrightarrow> filled (addNodeAnchors isUTF8 asInt g n files)"
proof -
  have "filled (fold (addSiteAnchor asInt) es m)" if "filled m" for es m
    using that by (induction es arbitrary: m) (auto intro: filled_addSiteAnchor)
  then show "filled files \<Longrightarrow> ?thesis" by (simp add: addNodeAnchors_def filled_put)
qed

lemma anchored_fileIndex: "anchored (fileIndex isUTF8 asInt g)"
proof -
  have "filled (fold (addNodeAnchors isUTF8 asInt g) ns m)" if "filled m" for ns m
    using that by (induction ns arbitrary: m) (auto intro: filled_addNodeAnchors)
  from this [of "[]" "allNodes g"] have "filled (fold (addNodeAnchors isUTF8 asInt g) (allNodes g) [])"
    by (simp add: filled_def)
  moreover have "sort xs = [] \<longleftrightarrow> xs = []" for xs :: "Located list" by (metis set_empty set_sort)
  ultimately show ?thesis
    by (auto simp: anchored_def fileIndex_def sortEntry_def filled_def um_ok_def)
qed

lemma distinct_usrs:
  assumes "creditOk xs m"
  shows "map mfUsr (map snd m) = map fst m" "um_ok m" "f \<in> set (map snd m) \<longleftrightarrow> map_of m (mfUsr f) = Some f"
proof -
  show u: "um_ok m" using assms by (simp add: creditOk_def)
  have mem: "(u, f) \<in> set m \<longleftrightarrow> map_of m u = Some f" for u f using u by (simp add: um_ok_def)
  have usr: "mfUsr f = u" if "(u, f) \<in> set m" for u f using assms that unfolding mem creditOk_def by blast
  have "map (mfUsr \<circ> snd) m = map fst m" by (rule map_cong) (use usr in auto)
  then show "map mfUsr (map snd m) = map fst m" by simp
  show "f \<in> set (map snd m) \<longleftrightarrow> map_of m (mfUsr f) = Some f"
  proof
    assume "f \<in> set (map snd m)"
    then obtain u where "(u, f) \<in> set m" by force
    with usr mem show "map_of m (mfUsr f) = Some f" by metis
  qed (force simp: mem [symmetric])
qed

lemma length_by_via:
  "\<forall>f \<in> set fs. mfVia f \<in> {CallSite, Definition, Extent, File} \<Longrightarrow>
    length (filter (\<lambda>f. mfVia f = CallSite) fs) + length (filter (\<lambda>f. mfVia f = Definition) fs) +
    length (filter (\<lambda>f. mfVia f = Extent) fs) + length (filter (\<lambda>f. mfVia f = File) fs) = length fs"
  by (induction fs) auto

lemma rangeAttributions_mem:
  "x \<in> set (concat (map (rangeAttributions files root) rngs)) \<longleftrightarrow>
    (\<exists>rng \<in> set rngs. \<exists>entry. hitsOf files root rng = [entry] \<and> x \<in> set (attributions rng entry))"
proof -
  have "x \<in> set (rangeAttributions files root rng) \<longleftrightarrow>
      (\<exists>entry. hitsOf files root rng = [entry] \<and> x \<in> set (attributions rng entry))" for rng
    by (cases "hitsOf files root rng"; cases "tl (hitsOf files root rng)") (auto simp: rangeAttributions_def)
  then show ?thesis by simp
qed

text \<open>The entry of the one file a range matches; every file of the index has anchors.\<close>

definition matches :: "(string \<Rightarrow> bool) \<Rightarrow> (string \<Rightarrow> line option) \<Rightarrow> call_graph \<Rightarrow> string \<Rightarrow> PatchRange \<Rightarrow> FileEntry \<Rightarrow> bool" where
  "matches isUTF8 asInt g root rng entry \<longleftrightarrow> hitsOf (fileIndex isUTF8 asInt g) root rng = [entry]"

definition namedSites :: "(string \<Rightarrow> bool) \<Rightarrow> (string \<Rightarrow> line option) \<Rightarrow> call_graph \<Rightarrow> bool" where
  "namedSites isUTF8 asInt g \<longleftrightarrow> (\<forall>(f, e) \<in> set (fileIndex isUTF8 asInt g). [] \<notin> snd ` set (feSites e))"

lemma matches_entry:
  assumes "matches isUTF8 asInt g root rng entry" "namedSites isUTF8 asInt g"
  shows "feDefs entry \<noteq> [] \<or> feSites entry \<noteq> []" "[] \<notin> snd ` set (feSites entry)"
proof -
  have "entry \<in> snd ` set (fileIndex isUTF8 asInt g)"
    using assms(1) by (metis (no_types, lifting) matches_def hitsOf_def filter_is_subset image_mono list.set_intros(1) set_map subsetD)
  then obtain f where "(f, entry) \<in> set (fileIndex isUTF8 asInt g)" by force
  from bspec [OF assms(2) [unfolded namedSites_def] this] bspec [OF anchored_fileIndex [unfolded anchored_def] this]
  show "feDefs entry \<noteq> [] \<or> feSites entry \<noteq> []" "[] \<notin> snd ` set (feSites entry)" by simp_all
qed

lemma distinct_map_sort_key: "distinct (map f (sort_key g xs)) = distinct (map f xs)"
  by (rule mset_eq_imp_distinct_iff) simp

lemma mapRanges_counts:
  "viaCallSite (mapRangesToFunctions isUTF8 asInt g rngs root) = length (filter (\<lambda>f. mfVia f = CallSite) (pmFunctions (mapRangesToFunctions isUTF8 asInt g rngs root)))"
  "viaDefinition (mapRangesToFunctions isUTF8 asInt g rngs root) = length (filter (\<lambda>f. mfVia f = Definition) (pmFunctions (mapRangesToFunctions isUTF8 asInt g rngs root)))"
  "viaExtent (mapRangesToFunctions isUTF8 asInt g rngs root) = length (filter (\<lambda>f. mfVia f = Extent) (pmFunctions (mapRangesToFunctions isUTF8 asInt g rngs root)))"
  "viaFile (mapRangesToFunctions isUTF8 asInt g rngs root) = length (filter (\<lambda>f. mfVia f = File) (pmFunctions (mapRangesToFunctions isUTF8 asInt g rngs root)))"
  by (simp_all add: mapRangesToFunctions_def Let_def split: prod.split)

lemma mapRanges_run:
  assumes R: "R = mapRangesToFunctions isUTF8 asInt g rngs root"
  obtains m where "creditOk (concat (map (rangeAttributions (fileIndex isUTF8 asInt g) root) rngs)) m"
    "pmFunctions R = sort_key mfUsr (map snd m)"
    "urRange ` set (pmUnmapped R) = {rng \<in> set rngs. \<nexists>entry. matches isUTF8 asInt g root rng entry}"
proof -
  let ?files = "fileIndex isUTF8 asInt g"
  let ?m = "fold (credit (nodeTable g)) (concat (map (rangeAttributions ?files root) rngs)) []"
  obtain un where run: "fold (mapRange ?files (nodeTable g) root) rngs ([], []) = (?m, un)"
    and un: "urRange ` set un = {rng \<in> set rngs. length (hitsOf ?files root rng) \<noteq> 1}"
    using fold_mapRange [OF anchored_fileIndex, of isUTF8 asInt g "nodeTable g" root rngs "[]" "[]"] by auto
  have "length (hitsOf ?files root rng) = 1 \<longleftrightarrow> (\<exists>entry. matches isUTF8 asInt g root rng entry)" for rng
    by (auto simp: matches_def length_Suc_conv)
  with run un R that [of ?m] creditOk_fold show ?thesis
    by (simp add: mapRangesToFunctions_def Let_def)
qed

text \<open>
  C25: every changed range is accounted for and every function reported is there for a reason. A range whose file
  matches not exactly one file of the index is listed as unmapped, and only such ranges are. A range with one
  file attributes at least one function with an anchor in it, all callers of call sites on its lines as call
  sites, and all functions located on its lines as definitions or better. Conversely each function reported is
  anchored in the one file of some range, and has a call site, respectively its location, on the range's lines
  when it is reported as one. Functions are reported once, sorted by usr, and counted by attribution. The condition
  \<open>namedSites\<close> is that no call site of the index has a caller with an empty usr, as the indexer emits none; which
  neighbour an estimate picks is not stated.
\<close>

theorem mapRanges_accounted:
  assumes R: "R = mapRangesToFunctions isUTF8 asInt g rngs root" and named: "namedSites isUTF8 asInt g"
  shows "urRange ` set (pmUnmapped R) = {rng \<in> set rngs. \<nexists>entry. matches isUTF8 asInt g root rng entry} \<and>
    (\<forall>rng \<in> set rngs. \<forall>entry. matches isUTF8 asInt g root rng entry \<longrightarrow>
       (\<exists>f \<in> set (pmFunctions R). mfUsr f \<in> anchors entry) \<and>
       (\<forall>x \<in> set (feSites entry). inRange rng x \<longrightarrow> (\<exists>f \<in> set (pmFunctions R). mfUsr f = snd x \<and> mfVia f = CallSite)) \<and>
       (\<forall>x \<in> set (feDefs entry). inRange rng x \<longrightarrow> (\<exists>f \<in> set (pmFunctions R). mfUsr f = snd x \<and> mfVia f \<in> {CallSite, Definition}))) \<and>
    (\<forall>f \<in> set (pmFunctions R). \<exists>rng \<in> set rngs. \<exists>entry. matches isUTF8 asInt g root rng entry \<and> mfUsr f \<in> anchors entry \<and>
       (mfVia f = CallSite \<longrightarrow> (\<exists>x \<in> set (feSites entry). inRange rng x \<and> snd x = mfUsr f)) \<and>
       (mfVia f = Definition \<longrightarrow> (\<exists>x \<in> set (feDefs entry). inRange rng x \<and> snd x = mfUsr f))) \<and>
    sorted (map mfUsr (pmFunctions R)) \<and> distinct (map mfUsr (pmFunctions R)) \<and>
    viaCallSite R + viaDefinition R + viaExtent R + viaFile R = length (pmFunctions R)"
proof -
  let ?xs = "concat (map (rangeAttributions (fileIndex isUTF8 asInt g) root) rngs)"
  obtain m where m: "creditOk ?xs m" and fs: "pmFunctions R = sort_key mfUsr (map snd m)"
    and un: "urRange ` set (pmUnmapped R) = {rng \<in> set rngs. \<nexists>entry. matches isUTF8 asInt g root rng entry}"
    using R by (rule mapRanges_run)
  note usrs = distinct_usrs [OF m]
  have mem: "f \<in> set (pmFunctions R) \<longleftrightarrow> map_of m (mfUsr f) = Some f" for f using usrs(3) fs by simp
  have xs: "x \<in> set ?xs \<longleftrightarrow> (\<exists>rng \<in> set rngs. \<exists>entry. matches isUTF8 asInt g root rng entry \<and> x \<in> set (attributions rng entry))" for x
    unfolding rangeAttributions_mem matches_def ..
  have reported: "\<exists>f \<in> set (pmFunctions R). mfUsr f = u \<and> viaRank (mfVia f) \<le> viaRank v" if "(v, u) \<in> set ?xs" for v u
    using creditOkD(1) [OF m that] creditOkD(2) [OF m, of u] mem by metis
  have reason: "(mfVia f, mfUsr f) \<in> set ?xs" if "f \<in> set (pmFunctions R)" for f
    using creditOkD(2) [OF m] that unfolding mem by blast
  have kinds: "mfVia f \<in> {CallSite, Definition, Extent, File}" if "f \<in> set (pmFunctions R)" for f
    using reason [OF that] attributions_sound(2) unfolding xs by blast
  have rank: "v = CallSite" if "viaRank v \<le> viaRank CallSite" "v \<in> {CallSite, Definition, Extent, File}" for v
    using that by (auto simp: viaRank_def)
  have rank2: "v \<in> {CallSite, Definition}" if "viaRank v \<le> viaRank Definition" "v \<in> {CallSite, Definition, Extent, File}" for v
    using that by (auto simp: viaRank_def)
  have "(\<exists>f \<in> set (pmFunctions R). mfUsr f \<in> anchors entry) \<and>
       (\<forall>x \<in> set (feSites entry). inRange rng x \<longrightarrow> (\<exists>f \<in> set (pmFunctions R). mfUsr f = snd x \<and> mfVia f = CallSite)) \<and>
       (\<forall>x \<in> set (feDefs entry). inRange rng x \<longrightarrow> (\<exists>f \<in> set (pmFunctions R). mfUsr f = snd x \<and> mfVia f \<in> {CallSite, Definition}))"
    if r: "rng \<in> set rngs" "matches isUTF8 asInt g root rng entry" for rng entry
  proof (intro conjI ballI impI)
    have in_xs: "x \<in> set ?xs" if "x \<in> set (attributions rng entry)" for x using r that unfolding xs by blast
    note c = attributions_complete [OF matches_entry [OF r(2) named]]
    obtain v u where "(v, u) \<in> set (attributions rng entry)" using c(1) [of rng] by (metis list.set_intros(1) neq_Nil_conv surj_pair)
    with attributions_sound(1) [OF this] reported [OF in_xs] show "\<exists>f \<in> set (pmFunctions R). mfUsr f \<in> anchors entry" by metis
    show "\<exists>f \<in> set (pmFunctions R). mfUsr f = snd x \<and> mfVia f = CallSite" if "x \<in> set (feSites entry)" "inRange rng x" for x
      using reported [OF in_xs [OF c(2) [OF that]]] kinds rank by metis
    show "\<exists>f \<in> set (pmFunctions R). mfUsr f = snd x \<and> mfVia f \<in> {CallSite, Definition}" if "x \<in> set (feDefs entry)" "inRange rng x" for x
      using reported [OF in_xs [OF c(3) [OF that]]] kinds rank2 by metis
  qed
  moreover have "\<exists>rng \<in> set rngs. \<exists>entry. matches isUTF8 asInt g root rng entry \<and> mfUsr f \<in> anchors entry \<and>
       (mfVia f = CallSite \<longrightarrow> (\<exists>x \<in> set (feSites entry). inRange rng x \<and> snd x = mfUsr f)) \<and>
       (mfVia f = Definition \<longrightarrow> (\<exists>x \<in> set (feDefs entry). inRange rng x \<and> snd x = mfUsr f))" if "f \<in> set (pmFunctions R)" for f
  proof -
    from reason [OF that] obtain rng entry where "rng \<in> set rngs" "matches isUTF8 asInt g root rng entry"
      "(mfVia f, mfUsr f) \<in> set (attributions rng entry)" unfolding xs by blast
    with attributions_sound(1,3,4) [OF this(3)] show ?thesis by blast
  qed
  moreover have "sorted (map mfUsr (pmFunctions R))" unfolding fs by simp
  moreover have "distinct (map mfUsr (pmFunctions R))"
    using usrs(2) unfolding fs distinct_map_sort_key usrs(1) um_ok_def .
  moreover have "viaCallSite R + viaDefinition R + viaExtent R + viaFile R = length (pmFunctions R)"
    unfolding R mapRanges_counts using length_by_via [of "pmFunctions R"] kinds unfolding R by simp
  ultimately show ?thesis using un by blast
qed

definition patchGraph :: call_graph where
  "patchGraph = addEdge (addNode (addNode emptyGraph (nodeOf ''f'' ''d/a.cpp'' 2) []) (nodeOf ''g'' ''d/a.cpp'' 9) [])
     (callEdge ''f'' ''g'' ''d/a.cpp:4:3'') []"

definition patchRanges :: "PatchRange list" where
  "patchRanges = [\<lparr>prFile = ''a.cpp'', firstLine = 4, lastLine = 4, deletionOnly = False\<rparr>,
     \<lparr>prFile = ''b.cpp'', firstLine = 1, lastLine = 1, deletionOnly = False\<rparr>]"

lemma patchGraph_named: "namedSites (\<lambda>_. True) decInt patchGraph"
  by code_simp

lemma patchGraph_mapped:
  "map (\<lambda>f. (mfUsr f, mfVia f)) (pmFunctions (mapRangesToFunctions (\<lambda>_. True) decInt patchGraph patchRanges [])) = [(''f'', CallSite)]"
  by code_simp

theorem mapRanges_accounted_witness:
  "urRange ` set (pmUnmapped (mapRangesToFunctions (\<lambda>_. True) decInt patchGraph patchRanges [])) =
     {rng \<in> set patchRanges. \<nexists>entry. matches (\<lambda>_. True) decInt patchGraph [] rng entry} \<and>
   map (\<lambda>f. (mfUsr f, mfVia f)) (pmFunctions (mapRangesToFunctions (\<lambda>_. True) decInt patchGraph patchRanges [])) = [(''f'', CallSite)]"
  using mapRanges_accounted [OF refl patchGraph_named, of patchRanges "[]"] patchGraph_mapped by blast

end
