(* ===== verification/ChannelIndex.thy ===== *)
theory ChannelIndex
  imports ControlFlow
begin

text \<open>
  The index of producer and consumer call sites of channels (\<open>include/vycor/callgraph/ChannelIndex.h\<close>,
  \<open>src/callgraph/ChannelIndex.cpp\<close>). A site is stored once per key with a count of its registrations; \<open>byTu\<close>
  lists, per translation unit, the stored position once per registration. Every public method holds the mutex
  from its first access to its last, so each is one step; \<open>absorb\<close> copies the shard under the shard's lock and
  then registers site by site. It is modelled for two distinct indexes; the source returns at once when an index
  is asked to absorb itself. The count of registrations is a natural number where the source has 32 bits: the
  model is that of an index with fewer than $2^{32}$ registrations (\<open>ssRefs_le_chRegs\<close> in \<open>ChannelIndexProps\<close>).
\<close>

section \<open>Data\<close>

datatype ChannelOperation = Produce | Consume

record ChannelSite =
  channelId :: string
  channelTypeName :: string
  category :: string
  chanOp :: ChannelOperation
  siteFunctionUsr :: string
  siteFunctionDisplay :: string
  chanCallSite :: string
  siteGuards :: "ConditionalGuard list"
  siteTuPath :: string

record StoredSite =
  ssSite :: ChannelSite
  ssRefs :: nat
  ssLive :: bool

record SiteKey =
  skChannelId :: string
  skCallSite :: string
  skFunctionUsr :: string
  skOp :: ChannelOperation

record channel_index =
  ch_sites :: "StoredSite list"
  ch_index :: "(SiteKey, nat) umap"
  ch_byChannel :: "(string, nat list) umap"
  ch_byFunctionUsr :: "(string, nat list) umap"
  ch_byFunctionDisplay :: "(string, nat list) umap"
  ch_byTu :: "(string, nat list) umap"
  ch_liveCount :: nat

definition emptyChannels :: channel_index where
  "emptyChannels = \<lparr>ch_sites = [], ch_index = [], ch_byChannel = [], ch_byFunctionUsr = [],
     ch_byFunctionDisplay = [], ch_byTu = [], ch_liveCount = 0\<rparr>"

definition siteKey :: "ChannelSite \<Rightarrow> SiteKey" where
  "siteKey s = \<lparr>skChannelId = channelId s, skCallSite = chanCallSite s, skFunctionUsr = siteFunctionUsr s, skOp = chanOp s\<rparr>"

section \<open>Registration\<close>

text \<open>The contributor a site reports: the least one.\<close>

definition betterTu :: "string \<Rightarrow> string \<Rightarrow> string" where
  "betterTu cur tu = (if tu \<noteq> [] \<and> (cur = [] \<or> tu < cur) then tu else cur)"

definition addRefs :: "string \<Rightarrow> nat \<Rightarrow> StoredSite \<Rightarrow> StoredSite" where
  "addRefs tu cnt se =
     \<lparr>ssSite = (ssSite se)\<lparr>siteTuPath := betterTu (siteTuPath (ssSite se)) tu\<rparr>, ssRefs = ssRefs se + cnt,
      ssLive = ssLive se\<rparr>"

definition insertSite :: "channel_index \<Rightarrow> ChannelSite \<Rightarrow> nat \<Rightarrow> channel_index" where
  "insertSite x site cnt =
     (let idx = length (ch_sites x)
      in x\<lparr>ch_sites := ch_sites x @ [\<lparr>ssSite = site, ssRefs = cnt, ssLive = True\<rparr>],
           ch_index := um_emplace (ch_index x) (siteKey site) idx,
           ch_byChannel := um_push (ch_byChannel x) (channelId site) idx,
           ch_byFunctionUsr := um_push (ch_byFunctionUsr x) (siteFunctionUsr site) idx,
           ch_byFunctionDisplay := (if siteFunctionDisplay site \<noteq> siteFunctionUsr site
             then um_push (ch_byFunctionDisplay x) (siteFunctionDisplay site) idx else ch_byFunctionDisplay x),
           ch_liveCount := ch_liveCount x + 1\<rparr>)"

definition addSiteRefs :: "channel_index \<Rightarrow> ChannelSite \<Rightarrow> nat \<Rightarrow> channel_index" where
  "addSiteRefs x site cnt =
     (if cnt = 0 then x
      else
        let tu = siteTuPath site;
            (idx, y) = (case map_of (ch_index x) (siteKey site) of
               Some i \<Rightarrow> (i, x\<lparr>ch_sites := (ch_sites x)[i := addRefs tu cnt (ch_sites x ! i)]\<rparr>)
             | None \<Rightarrow> (length (ch_sites x), insertSite x site cnt))
        in if tu = [] then y
           else y\<lparr>ch_byTu := um_put (ch_byTu y) tu (um_get (ch_byTu y) tu @ replicate cnt idx)\<rparr>)"

definition siteIndexText :: "ChannelSite \<Rightarrow> ChannelSite" where
  "siteIndexText s =
     \<lparr>channelId = makeIndexText (channelId s), channelTypeName = makeIndexText (channelTypeName s),
      category = makeIndexText (category s), chanOp = chanOp s,
      siteFunctionUsr = makeIndexText (siteFunctionUsr s),
      siteFunctionDisplay = makeIndexText (siteFunctionDisplay s),
      chanCallSite = makeIndexText (chanCallSite s), siteGuards = map guardText (siteGuards s),
      siteTuPath = makeIndexText (siteTuPath s)\<rparr>"

definition addSite :: "channel_index \<Rightarrow> ChannelSite \<Rightarrow> channel_index" where
  "addSite x site = addSiteRefs x (siteIndexText site) 1"

section \<open>Queries\<close>

definition sitesAt :: "channel_index \<Rightarrow> (StoredSite \<Rightarrow> bool) \<Rightarrow> nat list \<Rightarrow> ChannelSite list" where
  "sitesAt x P is = map ssSite (filter (\<lambda>s. ssLive s \<and> P s) (map (\<lambda>i. ch_sites x ! i) is))"

definition producersOf :: "(string \<Rightarrow> bool) \<Rightarrow> channel_index \<Rightarrow> string \<Rightarrow> ChannelSite list" where
  "producersOf isUTF8 x c =
     (case map_of (ch_byChannel x) (lookupText isUTF8 c) of
        None \<Rightarrow> [] | Some is \<Rightarrow> sitesAt x (\<lambda>s. chanOp (ssSite s) = Produce) is)"

definition consumersOf :: "(string \<Rightarrow> bool) \<Rightarrow> channel_index \<Rightarrow> string \<Rightarrow> ChannelSite list" where
  "consumersOf isUTF8 x c =
     (case map_of (ch_byChannel x) (lookupText isUTF8 c) of
        None \<Rightarrow> [] | Some is \<Rightarrow> sitesAt x (\<lambda>s. chanOp (ssSite s) = Consume) is)"

definition sitesForFunction :: "(string \<Rightarrow> bool) \<Rightarrow> channel_index \<Rightarrow> string \<Rightarrow> ChannelSite list" where
  "sitesForFunction isUTF8 x f =
     (let key = lookupText isUTF8 f;
          collect = (\<lambda>m. case map_of m key of None \<Rightarrow> [] | Some is \<Rightarrow> sitesAt x (\<lambda>_. True) is)
      in collect (ch_byFunctionUsr x) @ collect (ch_byFunctionDisplay x))"

definition allChannelIds :: "channel_index \<Rightarrow> string list" where
  "allChannelIds x =
     map fst (filter (\<lambda>(c, is). list_ex (\<lambda>i. ssLive (ch_sites x ! i)) is) (ch_byChannel x))"

definition allSites :: "channel_index \<Rightarrow> ChannelSite list" where
  "allSites x = map ssSite (filter ssLive (ch_sites x))"

section \<open>Merging a shard\<close>

text \<open>The units that registered a site of the shard, once per registration.\<close>

definition siteTus :: "channel_index \<Rightarrow> nat \<Rightarrow> string list" where
  "siteTus shard i = concat (map (\<lambda>(tu, is). map (\<lambda>_. tu) (filter (\<lambda>j. j = i) is)) (ch_byTu shard))"

text \<open>Runs of one unit in the sorted list are registered in one call.\<close>

function replayTus :: "StoredSite \<Rightarrow> string list \<Rightarrow> nat \<Rightarrow> channel_index \<Rightarrow> nat \<times> channel_index" where
  "replayTus stored [] replayed x = (replayed, x)"
| "replayTus stored (t # ts) replayed x =
     (if replayed < ssRefs stored
      then
        let n = min (Suc (length (takeWhile (\<lambda>u. u = t) ts))) (ssRefs stored - replayed)
        in replayTus stored (dropWhile (\<lambda>u. u = t) ts) (replayed + n)
             (addSiteRefs x ((ssSite stored)\<lparr>siteTuPath := t\<rparr>) n)
      else (replayed, x))"
  by pat_completeness auto
termination
  by (relation "measure (\<lambda>(stored, ts, replayed, x). length ts)") (auto simp: le_imp_less_Suc length_dropWhile_le)

definition absorbSite :: "channel_index \<Rightarrow> nat \<times> StoredSite \<Rightarrow> channel_index \<Rightarrow> channel_index" where
  "absorbSite shard ise x =
     (let (i, stored) = ise in
      if \<not> ssLive stored \<or> ssRefs stored = 0 then x
      else let (replayed, y) = replayTus stored (sort (siteTus shard i)) 0 x
           in addSiteRefs y ((ssSite stored)\<lparr>siteTuPath := []\<rparr>) (ssRefs stored - replayed))"

definition absorbChannels :: "channel_index \<Rightarrow> channel_index \<Rightarrow> channel_index" where
  "absorbChannels x shard = fold (absorbSite shard) (enumerate 0 (ch_sites shard)) x"

section \<open>Removal of translation units\<close>

record channel_remove =
  cr_index :: channel_index
  cr_dead :: "nat list"
  cr_surviving :: "nat list"
  cr_channels :: "string list"
  cr_usrs :: "string list"
  cr_displays :: "string list"
  cr_removed :: nat

definition releaseSite :: "string \<Rightarrow> nat \<Rightarrow> channel_remove \<Rightarrow> channel_remove" where
  "releaseSite tu i r =
     (let x = cr_index r; se = ch_sites x ! i; site = ssSite se; se' = se\<lparr>ssRefs := ssRefs se - 1\<rparr> in
      if ssRefs se = 0 then r
      else if ssRefs se - 1 > 0
      then r\<lparr>cr_index := x\<lparr>ch_sites := (ch_sites x)[i := se']\<rparr>,
             cr_surviving := (if siteTuPath site = tu then add_new i (cr_surviving r) else cr_surviving r)\<rparr>
      else r\<lparr>cr_surviving := removeAll i (cr_surviving r),
             cr_dead := add_new i (cr_dead r),
             cr_channels := add_new (channelId site) (cr_channels r),
             cr_usrs := add_new (siteFunctionUsr site) (cr_usrs r),
             cr_displays := (if siteFunctionDisplay site \<noteq> siteFunctionUsr site
               then add_new (siteFunctionDisplay site) (cr_displays r) else cr_displays r),
             cr_index := x\<lparr>ch_sites := (ch_sites x)[i := se'\<lparr>ssLive := False\<rparr>],
                           ch_index := um_erase (ch_index x) (siteKey site),
                           ch_liveCount := ch_liveCount x - 1\<rparr>,
             cr_removed := cr_removed r + 1\<rparr>)"

definition releaseUnit :: "string \<Rightarrow> channel_remove \<Rightarrow> channel_remove" where
  "releaseUnit rawPath r =
     (let tu = toIndexText rawPath in
      case map_of (ch_byTu (cr_index r)) tu of
        None \<Rightarrow> r
      | Some is \<Rightarrow>
          let r = fold (releaseSite tu) is r
          in r\<lparr>cr_index := (cr_index r)\<lparr>ch_byTu := um_erase (ch_byTu (cr_index r)) tu\<rparr>\<rparr>)"

definition setTu :: "nat \<Rightarrow> string \<Rightarrow> StoredSite list \<Rightarrow> StoredSite list" where
  "setTu i tu sites = sites[i := (sites ! i)\<lparr>ssSite := (ssSite (sites ! i))\<lparr>siteTuPath := tu\<rparr>\<rparr>]"

definition refreshSite :: "nat list \<Rightarrow> string \<Rightarrow> nat \<Rightarrow> StoredSite list \<Rightarrow> StoredSite list" where
  "refreshSite surviving remTu i sites =
     (if i \<notin> set surviving then sites
      else let cur = siteTuPath (ssSite (sites ! i))
           in if cur = [] \<or> remTu < cur then setTu i remTu sites else sites)"

definition refreshTus :: "nat list \<Rightarrow> (string, nat list) umap \<Rightarrow> StoredSite list \<Rightarrow> StoredSite list" where
  "refreshTus surviving byTu sites =
     (if surviving = [] then sites
      else fold (\<lambda>(remTu, is). fold (refreshSite surviving remTu) is) byTu
             (fold (\<lambda>i. setTu i []) surviving sites))"

definition scrubChannel :: "nat list \<Rightarrow> string \<Rightarrow> (string, nat list) umap \<Rightarrow> (string, nat list) umap" where
  "scrubChannel dead k m =
     (case map_of m k of
        None \<Rightarrow> m
      | Some is \<Rightarrow>
          let is = filter (\<lambda>i. i \<notin> set dead) is in if is = [] then um_erase m k else um_put m k is)"

definition chRemoveTUs :: "channel_index \<Rightarrow> string list \<Rightarrow> nat \<times> channel_index" where
  "chRemoveTUs x tuPaths =
     (let r = fold releaseUnit tuPaths \<lparr>cr_index = x, cr_dead = [], cr_surviving = [], cr_channels = [],
            cr_usrs = [], cr_displays = [], cr_removed = 0\<rparr>;
          y = cr_index r
      in (cr_removed r,
          y\<lparr>ch_sites := refreshTus (cr_surviving r) (ch_byTu y) (ch_sites y),
            ch_byChannel := fold (scrubChannel (cr_dead r)) (cr_channels r) (ch_byChannel y),
            ch_byFunctionUsr := fold (scrubChannel (cr_dead r)) (cr_usrs r) (ch_byFunctionUsr y),
            ch_byFunctionDisplay := fold (scrubChannel (cr_dead r)) (cr_displays r) (ch_byFunctionDisplay y)\<rparr>))"

definition chRemoveTU :: "channel_index \<Rightarrow> string \<Rightarrow> nat \<times> channel_index" where
  "chRemoveTU x tuPath = chRemoveTUs x [tuPath]"

section \<open>Compaction\<close>

text \<open>\<open>oldToNew\<close>: the new position of a live site, none for a dead one.\<close>

fun oldToNew :: "StoredSite list \<Rightarrow> nat \<Rightarrow> nat option list" where
  "oldToNew [] n = []"
| "oldToNew (s # ss) n = (if ssLive s then Some n # oldToNew ss (Suc n) else None # oldToNew ss n)"

definition remapInto :: "nat option list \<Rightarrow> (string, nat list) umap \<Rightarrow> (string, nat list) umap" where
  "remapInto remap src =
     fold (\<lambda>(k, is) dst. let nv = List.map_filter (\<lambda>i. remap ! i) is
                         in if nv = [] then dst else um_emplace dst k nv) src []"

definition remapIndex :: "nat option list \<Rightarrow> (SiteKey, nat) umap \<Rightarrow> (SiteKey, nat) umap" where
  "remapIndex remap src = fold (\<lambda>(k, i) dst. case remap ! i of None \<Rightarrow> dst | Some n \<Rightarrow> um_emplace dst k n) src []"

definition chCompact :: "channel_index \<Rightarrow> channel_index" where
  "chCompact x =
     (let remap = oldToNew (ch_sites x) 0
      in x\<lparr>ch_sites := filter ssLive (ch_sites x), ch_index := remapIndex remap (ch_index x),
           ch_byChannel := remapInto remap (ch_byChannel x),
           ch_byFunctionUsr := remapInto remap (ch_byFunctionUsr x),
           ch_byFunctionDisplay := remapInto remap (ch_byFunctionDisplay x),
           ch_byTu := remapInto remap (ch_byTu x)\<rparr>)"

end
