(* ===== verification/ChannelIndexInv.thy ===== *)
theory ChannelIndexInv
  imports ChannelIndex CallGraphSpec
begin

text \<open>
  The invariant of the channel index: \<open>chan_wf\<close> relates the stored sites, the index by key, the lists by channel
  and function, and the registrations by unit; a live site reports its least contributor. The ledger of the index
  is the multiset of registered keys, in total and per unit; registering and merging add to it.
\<close>

section \<open>The invariant\<close>

definition crefs :: "StoredSite list \<Rightarrow> nat multiset" where
  "crefs ss = sum_list (map (\<lambda>i. replicate_mset (ssRefs (ss ! i)) i) [0..<length ss])"

definition leastTu :: "string set \<Rightarrow> string" where
  "leastTu T = (if T = {} then [] else Min T)"

definition contributors :: "(string, nat list) umap \<Rightarrow> nat \<Rightarrow> string set" where
  "contributors m i = {t. i \<in> set (um_get m t)}"

definition listed :: "(ChannelSite \<Rightarrow> string option) \<Rightarrow> StoredSite list \<Rightarrow> (string, nat list) umap \<Rightarrow> bool" where
  "listed sel ss m \<longleftrightarrow> um_ok m \<and> (\<forall>k. um_get m k = positions (\<lambda>s. ssLive s \<and> sel (ssSite s) = Some k) ss) \<and>
     (\<forall>k. map_of m k \<noteq> Some [])"

definition displayOf :: "ChannelSite \<Rightarrow> string option" where
  "displayOf s = (if siteFunctionDisplay s \<noteq> siteFunctionUsr s then Some (siteFunctionDisplay s) else None)"

definition indexed :: "StoredSite list \<Rightarrow> (SiteKey, nat) umap \<Rightarrow> bool" where
  "indexed ss m \<longleftrightarrow> um_ok m \<and>
     (\<forall>k i. map_of m k = Some i \<longleftrightarrow> i < length ss \<and> ssLive (ss ! i) \<and> siteKey (ssSite (ss ! i)) = k)"

definition registered :: "StoredSite list \<Rightarrow> (string, nat list) umap \<Rightarrow> bool" where
  "registered ss m \<longleftrightarrow> um_ok m \<and> tuMset m \<subseteq># crefs ss \<and> map_of m [] = None \<and>
     (\<forall>i < length ss. ssLive (ss ! i) \<longrightarrow> siteTuPath (ssSite (ss ! i)) = leastTu (contributors m i))"

definition chan_wf :: "channel_index \<Rightarrow> bool" where
  "chan_wf x \<longleftrightarrow>
     (\<forall>s \<in> set (ch_sites x). ssLive s \<longleftrightarrow> 0 < ssRefs s) \<and>
     indexed (ch_sites x) (ch_index x) \<and>
     listed (Some \<circ> channelId) (ch_sites x) (ch_byChannel x) \<and>
     listed (Some \<circ> siteFunctionUsr) (ch_sites x) (ch_byFunctionUsr x) \<and>
     listed displayOf (ch_sites x) (ch_byFunctionDisplay x) \<and>
     registered (ch_sites x) (ch_byTu x) \<and>
     ch_liveCount x = length (filter ssLive (ch_sites x))"

lemma chan_wfI:
  "\<forall>s \<in> set (ch_sites x). ssLive s \<longleftrightarrow> 0 < ssRefs s \<Longrightarrow> indexed (ch_sites x) (ch_index x) \<Longrightarrow>
   listed (Some \<circ> channelId) (ch_sites x) (ch_byChannel x) \<Longrightarrow>
   listed (Some \<circ> siteFunctionUsr) (ch_sites x) (ch_byFunctionUsr x) \<Longrightarrow>
   listed displayOf (ch_sites x) (ch_byFunctionDisplay x) \<Longrightarrow> registered (ch_sites x) (ch_byTu x) \<Longrightarrow>
   ch_liveCount x = length (filter ssLive (ch_sites x)) \<Longrightarrow> chan_wf x"
  by (simp add: chan_wf_def)

lemma chan_wfD:
  assumes "chan_wf x"
  shows "\<And>i. i < length (ch_sites x) \<Longrightarrow> ssLive (ch_sites x ! i) \<longleftrightarrow> 0 < ssRefs (ch_sites x ! i)"
    "indexed (ch_sites x) (ch_index x)"
    "listed (Some \<circ> channelId) (ch_sites x) (ch_byChannel x)"
    "listed (Some \<circ> siteFunctionUsr) (ch_sites x) (ch_byFunctionUsr x)"
    "listed displayOf (ch_sites x) (ch_byFunctionDisplay x)"
    "registered (ch_sites x) (ch_byTu x)"
    "ch_liveCount x = length (filter ssLive (ch_sites x))"
  using assms by (auto simp: chan_wf_def)

lemma count_crefs: "count (crefs ss) i = (if i < length ss then ssRefs (ss ! i) else 0)"
  by (simp add: crefs_def count_sum_replicate)

lemma in_crefs: "i \<in># crefs ss \<longleftrightarrow> i < length ss \<and> 0 < ssRefs (ss ! i)"
  by (simp flip: count_greater_zero_iff add: count_crefs)

lemma crefs_append: "crefs (ss @ [s]) = crefs ss + replicate_mset (ssRefs s) (length ss)"
  by (rule multiset_eqI) (auto simp: count_crefs nth_append less_Suc_eq)

lemma crefs_update:
  "i < length ss \<Longrightarrow> crefs (ss[i := s]) + replicate_mset (ssRefs (ss ! i)) i = crefs ss + replicate_mset (ssRefs s) i"
  by (rule multiset_eqI) (auto simp: count_crefs nth_list_update)

lemma in_tuMset: "um_ok m \<Longrightarrow> i \<in># tuMset m \<longleftrightarrow> (\<exists>t. i \<in> set (um_get m t))"
proof
  assume ok: "um_ok m" and "i \<in># tuMset m"
  then obtain t v where tv: "(t, v) \<in> set m" "i \<in> set v"
    by (auto simp: tuMset_def set_mset_sum_list)
  then have "um_get m t = v" using ok by (simp add: um_ok_def um_get_def)
  with tv show "\<exists>t. i \<in> set (um_get m t)" by auto
next
  assume "um_ok m" "\<exists>t. i \<in> set (um_get m t)"
  then show "i \<in># tuMset m" using mset_get_subset_tuMset mset_subset_eqD set_mset_mset by metis
qed

lemma finite_contributors: "finite (contributors m i)"
proof (rule finite_subset)
  show "contributors m i \<subseteq> fst ` set m"
  proof
    fix t assume "t \<in> contributors m i"
    then have "map_of m t \<noteq> None" by (cases "map_of m t") (simp_all add: contributors_def)
    then show "t \<in> fst ` set m" by (simp add: map_of_eq_None_iff)
  qed
qed simp

lemma registered_in:
  assumes "registered ss m" "i \<in> set (um_get m t)"
  shows "i < length ss" "0 < ssRefs (ss ! i)" "t \<noteq> []"
proof -
  have "i \<in># crefs ss" using assms in_tuMset by (metis registered_def mset_subset_eqD)
  then show "i < length ss" "0 < ssRefs (ss ! i)" by (simp_all add: in_crefs)
  show "t \<noteq> []" using assms by (auto simp: registered_def)
qed

lemma leastTu_insert:
  assumes "finite T" "[] \<notin> T" "t \<noteq> []"
  shows "leastTu (insert t T) = betterTu (leastTu T) t"
proof (cases "T = {}")
  case False
  then have "Min T \<noteq> []" using assms(2) Min_in [OF assms(1)] by metis
  moreover have "leastTu (insert t T) = min t (Min T)" using False assms(1) by (simp add: leastTu_def)
  ultimately show ?thesis using False assms(3) by (auto simp: leastTu_def betterTu_def min_def)
qed (use assms in \<open>simp add: leastTu_def betterTu_def\<close>)

lemma contributors_nonempty: "registered ss m \<Longrightarrow> [] \<notin> contributors m i"
  by (simp add: contributors_def registered_def)

lemma contributors_append:
  "contributors (um_put m t (um_get m t @ replicate n j)) i = (if i = j \<and> 0 < n then insert t (contributors m i) else contributors m i)"
  by (auto simp: contributors_def)

section \<open>Shapes\<close>

text \<open>What the index by key and the lists depend on: liveness and the site without its unit.\<close>

definition shape :: "StoredSite \<Rightarrow> bool \<times> ChannelSite" where
  "shape s = (ssLive s, (ssSite s)\<lparr>siteTuPath := []\<rparr>)"

definition unitless :: "(ChannelSite \<Rightarrow> 'a) \<Rightarrow> bool" where
  "unitless f \<longleftrightarrow> (\<forall>s t. f (s\<lparr>siteTuPath := t\<rparr>) = f s)"

lemma unitless_sel: "unitless siteKey" "unitless (Some \<circ> channelId)" "unitless (Some \<circ> siteFunctionUsr)" "unitless displayOf"
  by (simp_all add: unitless_def siteKey_def displayOf_def)

lemma shape_eq:
  assumes "shape s = shape s'"
  shows "ssLive s = ssLive s'" "unitless f \<Longrightarrow> f (ssSite s) = f (ssSite s')"
proof -
  show "ssLive s = ssLive s'" using assms by (simp add: shape_def)
  have "(ssSite s)\<lparr>siteTuPath := []\<rparr> = (ssSite s')\<lparr>siteTuPath := []\<rparr>" using assms by (simp add: shape_def)
  then show "f (ssSite s) = f (ssSite s')" if "unitless f" using that unfolding unitless_def by metis
qed

lemma shapes_nth:
  assumes "map shape ss = map shape ss'"
  shows "length ss = length ss'" "i < length ss \<Longrightarrow> shape (ss ! i) = shape (ss' ! i)"
  using assms map_eq_imp_length_eq [OF assms] nth_map [of i ss shape] nth_map [of i ss' shape] by auto

lemma indexed_shape:
  assumes "map shape ss = map shape ss'"
  shows "indexed ss m = indexed ss' m"
proof -
  note n = shapes_nth [OF assms]
  have "i < length ss \<and> ssLive (ss ! i) \<and> siteKey (ssSite (ss ! i)) = k \<longleftrightarrow>
      i < length ss' \<and> ssLive (ss' ! i) \<and> siteKey (ssSite (ss' ! i)) = k" for i k
    using n(1) shape_eq(1) [OF n(2)] shape_eq(2) [OF n(2) unitless_sel(1)] by auto
  then show ?thesis by (simp add: indexed_def)
qed

lemma positions_cong:
  assumes "length ss = length ss'" "\<And>i. i < length ss \<Longrightarrow> P (ss ! i) = Q (ss' ! i)"
  shows "positions P ss = positions Q ss'"
  unfolding positions_def assms(1) [symmetric] by (rule filter_cong) (simp_all add: assms(2))

lemma listed_shape:
  assumes "map shape ss = map shape ss'" "unitless sel"
  shows "listed sel ss m = listed sel ss' m"
proof -
  note n = shapes_nth [OF assms(1)]
  have "positions (\<lambda>s. ssLive s \<and> sel (ssSite s) = Some k) ss = positions (\<lambda>s. ssLive s \<and> sel (ssSite s) = Some k) ss'" for k
    using n(1) shape_eq(1) [OF n(2)] shape_eq(2) [OF n(2) assms(2)] by (intro positions_cong) auto
  then show ?thesis by (simp add: listed_def)
qed

lemma filter_live_shape:
  assumes "map shape ss = map shape ss'"
  shows "length (filter ssLive ss) = length (filter ssLive ss')"
proof -
  have "map ssLive ss = map ssLive ss'"
    using arg_cong [OF assms, of "map fst"] by (simp add: shape_def comp_def)
  from arg_cong [OF this, of "\<lambda>bs. length (filter id bs)"] show ?thesis by (simp add: filter_map)
qed

section \<open>The ledger\<close>

definition keyAt :: "channel_index \<Rightarrow> nat \<Rightarrow> SiteKey" where
  "keyAt x i = siteKey (ssSite (ch_sites x ! i))"

definition chRegs :: "channel_index \<Rightarrow> SiteKey multiset" where
  "chRegs x = image_mset (keyAt x) (crefs (ch_sites x))"

definition unitRegs :: "channel_index \<Rightarrow> string \<Rightarrow> SiteKey multiset" where
  "unitRegs x t = image_mset (keyAt x) (mset (um_get (ch_byTu x) t))"

definition chTuRegs :: "channel_index \<Rightarrow> string \<Rightarrow> SiteKey multiset" where
  "chTuRegs x p = unitRegs x (toIndexText p)"

section \<open>Registration\<close>

lemma map_shape_update: "shape s = shape (ss ! i) \<Longrightarrow> map shape (ss[i := s]) = map shape ss"
  by (cases "i < length ss") (simp_all add: map_update list_update_same_conv list_update_beyond)

lemma addRefs_sel [simp]:
  "siteTuPath (ssSite (addRefs tu n s)) = betterTu (siteTuPath (ssSite s)) tu" "ssLive (addRefs tu n s) = ssLive s"
  "ssRefs (addRefs tu n s) = ssRefs s + n"
  by (simp_all add: addRefs_def)

lemma shape_addRefs: "shape (addRefs tu n s) = shape s"
  by (simp add: shape_def addRefs_def)

lemma crefs_addRefs: "i < length ss \<Longrightarrow> crefs (ss[i := addRefs tu n (ss ! i)]) = crefs ss + replicate_mset n i"
  by (rule multiset_eqI) (auto simp: count_crefs nth_list_update)

lemma registered_hit:
  assumes "registered ss m" "i < length ss" "0 < n"
  shows "registered (ss[i := addRefs tu n (ss ! i)]) (if tu = [] then m else um_put m tu (um_get m tu @ replicate n i))"
proof -
  have ok: "um_ok m" and sub: "tuMset m \<subseteq># crefs ss" using assms(1) by (simp_all add: registered_def)
  have "tuMset m + replicate_mset n i \<subseteq># crefs ss + replicate_mset n i" using sub by simp
  moreover have "tuMset m \<subseteq># crefs ss + replicate_mset n i" using sub by (metis mset_subset_eq_add_left subset_mset.order_trans)
  moreover have "betterTu cur [] = cur" for cur by (simp add: betterTu_def)
  ultimately show ?thesis
    using assms leastTu_insert [OF finite_contributors contributors_nonempty [OF assms(1)], of tu]
    by (auto simp: registered_def crefs_addRefs tuMset_append ok contributors_append nth_list_update)
qed

lemma registered_new:
  assumes "registered ss m" "0 < n" "siteTuPath s = tu"
  shows "registered (ss @ [\<lparr>ssSite = s, ssRefs = n, ssLive = True\<rparr>])
    (if tu = [] then m else um_put m tu (um_get m tu @ replicate n (length ss)))"
proof -
  have ok: "um_ok m" and sub: "tuMset m \<subseteq># crefs ss" using assms(1) by (simp_all add: registered_def)
  have "tuMset m + replicate_mset n (length ss) \<subseteq># crefs ss + replicate_mset n (length ss)" using sub by simp
  moreover have "tuMset m \<subseteq># crefs ss + replicate_mset n (length ss)" using sub by (metis mset_subset_eq_add_left subset_mset.order_trans)
  moreover have "contributors m (length ss) = {}" using registered_in(1) [OF assms(1)] by (force simp: contributors_def)
  ultimately show ?thesis
    using assms by (auto simp: registered_def crefs_append tuMset_append ok contributors_append nth_append leastTu_def less_Suc_eq)
qed

lemma indexed_new:
  assumes "indexed ss m" "map_of m (siteKey s) = None"
  shows "indexed (ss @ [\<lparr>ssSite = s, ssRefs = n, ssLive = True\<rparr>]) (um_emplace m (siteKey s) (length ss))"
proof -
  have "\<not> (i < length ss \<and> ssLive (ss ! i) \<and> siteKey (ssSite (ss ! i)) = siteKey s)" for i
    using assms unfolding indexed_def by (metis option.distinct(1))
  then show ?thesis using assms by (auto simp: indexed_def nth_append less_Suc_eq)
qed

lemma listed_new:
  assumes "listed sel ss m"
  shows "listed sel (ss @ [\<lparr>ssSite = s, ssRefs = n, ssLive = True\<rparr>])
    (case sel s of None \<Rightarrow> m | Some k \<Rightarrow> um_push m k (length ss))"
  using assms by (auto simp: listed_def um_push_def split: option.split)

text \<open>One registration step: the site is counted \<open>n\<close> times more, under its unit if it has one.\<close>

lemma addSiteRefs_hit:
  assumes wf: "chan_wf x" and n: "0 < n" and hit: "map_of (ch_index x) (siteKey s) = Some i"
  shows "chan_wf (addSiteRefs x s n) \<and>
    map shape (ch_sites (addSiteRefs x s n)) = map shape (ch_sites x) \<and>
    crefs (ch_sites (addSiteRefs x s n)) = crefs (ch_sites x) + replicate_mset n i \<and>
    ch_byTu (addSiteRefs x s n) = (if siteTuPath s = [] then ch_byTu x
      else um_put (ch_byTu x) (siteTuPath s) (um_get (ch_byTu x) (siteTuPath s) @ replicate n i)) \<and>
    i < length (ch_sites x) \<and> keyAt x i = siteKey s"
proof -
  note W = chan_wfD [OF wf]
  let ?y = "addSiteRefs x s n" and ?ss = "(ch_sites x)[i := addRefs (siteTuPath s) n (ch_sites x ! i)]"
  have i: "i < length (ch_sites x)" "ssLive (ch_sites x ! i)" "keyAt x i = siteKey s"
    using W(2) hit by (auto simp: indexed_def keyAt_def)
  have y: "ch_sites ?y = ?ss" "ch_index ?y = ch_index x" "ch_byChannel ?y = ch_byChannel x"
    "ch_byFunctionUsr ?y = ch_byFunctionUsr x" "ch_byFunctionDisplay ?y = ch_byFunctionDisplay x"
    "ch_liveCount ?y = ch_liveCount x"
    "ch_byTu ?y = (if siteTuPath s = [] then ch_byTu x
      else um_put (ch_byTu x) (siteTuPath s) (um_get (ch_byTu x) (siteTuPath s) @ replicate n i))"
    using n hit by (simp_all add: addSiteRefs_def Let_def)
  have sh: "map shape ?ss = map shape (ch_sites x)" by (rule map_shape_update) (rule shape_addRefs)
  have "\<forall>t \<in> set ?ss. ssLive t \<longleftrightarrow> 0 < ssRefs t"
    using W(1) i by (auto simp: in_set_conv_nth nth_list_update split: if_splits)
  then have "chan_wf ?y"
    unfolding chan_wf_def y indexed_shape [OF sh] filter_live_shape [OF sh]
      listed_shape [OF sh unitless_sel(2)] listed_shape [OF sh unitless_sel(3)] listed_shape [OF sh unitless_sel(4)]
    using W(2-5,7) registered_hit [OF W(6) i(1) n] by blast
  then show ?thesis using sh i crefs_addRefs y(1,7) by simp
qed

lemma addSiteRefs_new:
  assumes wf: "chan_wf x" and n: "0 < n" and new: "map_of (ch_index x) (siteKey s) = None"
  shows "chan_wf (addSiteRefs x s n) \<and>
    ch_sites (addSiteRefs x s n) = ch_sites x @ [\<lparr>ssSite = s, ssRefs = n, ssLive = True\<rparr>] \<and>
    ch_byTu (addSiteRefs x s n) = (if siteTuPath s = [] then ch_byTu x
      else um_put (ch_byTu x) (siteTuPath s) (um_get (ch_byTu x) (siteTuPath s) @ replicate n (length (ch_sites x))))"
proof -
  note W = chan_wfD [OF wf]
  let ?y = "addSiteRefs x s n" and ?ss = "ch_sites x @ [\<lparr>ssSite = s, ssRefs = n, ssLive = True\<rparr>]" and ?i = "length (ch_sites x)"
  have y: "ch_sites ?y = ?ss" "ch_index ?y = um_emplace (ch_index x) (siteKey s) ?i"
    "ch_byChannel ?y = um_push (ch_byChannel x) (channelId s) ?i"
    "ch_byFunctionUsr ?y = um_push (ch_byFunctionUsr x) (siteFunctionUsr s) ?i"
    "ch_byFunctionDisplay ?y = (case displayOf s of None \<Rightarrow> ch_byFunctionDisplay x
       | Some k \<Rightarrow> um_push (ch_byFunctionDisplay x) k ?i)"
    "ch_liveCount ?y = ch_liveCount x + 1"
    "ch_byTu ?y = (if siteTuPath s = [] then ch_byTu x
      else um_put (ch_byTu x) (siteTuPath s) (um_get (ch_byTu x) (siteTuPath s) @ replicate n ?i))"
    using n new by (simp_all add: addSiteRefs_def insertSite_def displayOf_def Let_def)
  have "\<forall>t \<in> set ?ss. ssLive t \<longleftrightarrow> 0 < ssRefs t" using wf n by (auto simp: chan_wf_def)
  moreover have "listed (Some \<circ> channelId) ?ss (um_push (ch_byChannel x) (channelId s) ?i)"
    "listed (Some \<circ> siteFunctionUsr) ?ss (um_push (ch_byFunctionUsr x) (siteFunctionUsr s) ?i)"
    using listed_new [OF W(3), of s n] listed_new [OF W(4), of s n] by simp_all
  ultimately have "chan_wf ?y"
    unfolding chan_wf_def y
    using W(7) indexed_new [OF W(2) new] listed_new [OF W(5)] registered_new [OF W(6) n refl] by simp
  then show ?thesis using y by simp
qed

lemma keyAt_shape: "map shape (ch_sites y) = map shape (ch_sites x) \<Longrightarrow> i < length (ch_sites x) \<Longrightarrow> keyAt y i = keyAt x i"
  unfolding keyAt_def using shapes_nth by (metis shape_eq(2) unitless_sel(1))

lemma keyAt_cong_regs:
  assumes "chan_wf x" "\<And>i. i < length (ch_sites x) \<Longrightarrow> keyAt y i = keyAt x i"
  shows "image_mset (keyAt y) (crefs (ch_sites x)) = chRegs x"
    "image_mset (keyAt y) (mset (um_get (ch_byTu x) t)) = unitRegs x t"
  unfolding chRegs_def unitRegs_def
  using assms(2) registered_in(1) [OF chan_wfD(6) [OF assms(1)]] by (auto intro!: image_mset_cong simp: in_crefs)

lemma addSiteRefs_ledger:
  assumes wf: "chan_wf x"
  shows "chan_wf (addSiteRefs x s n)" "chRegs (addSiteRefs x s n) = chRegs x + replicate_mset n (siteKey s)"
    "unitRegs (addSiteRefs x s n) t = unitRegs x t + (if t \<noteq> [] \<and> t = siteTuPath s then replicate_mset n (siteKey s) else {#})"
proof -
  let ?y = "addSiteRefs x s n"
  have "chan_wf ?y \<and> chRegs ?y = chRegs x + replicate_mset n (siteKey s) \<and>
    unitRegs ?y t = unitRegs x t + (if t \<noteq> [] \<and> t = siteTuPath s then replicate_mset n (siteKey s) else {#})"
  proof (cases "n = 0")
    case True
    then show ?thesis using wf by (simp add: addSiteRefs_def)
  next
    case False
    show ?thesis
    proof (cases "map_of (ch_index x) (siteKey s)")
      case (Some i)
      note H = addSiteRefs_hit [OF wf _ Some, of n]
      have k: "keyAt ?y j = keyAt x j" if "j < length (ch_sites x)" for j using H False that keyAt_shape by blast
      note R = keyAt_cong_regs [where y = ?y, OF wf k]
      show ?thesis using H False R k by (simp add: chRegs_def [of ?y] unitRegs_def [of ?y])
    next
      case None
      note H = addSiteRefs_new [OF wf _ None, of n]
      have k: "keyAt ?y j = (if j < length (ch_sites x) then keyAt x j else siteKey s)" if "j \<le> length (ch_sites x)" for j
        using H False that by (auto simp: keyAt_def nth_append)
      note R = keyAt_cong_regs [where y = ?y, OF wf]
      show ?thesis using H False R k by (simp add: chRegs_def [of ?y] unitRegs_def [of ?y] crefs_append)
    qed
  qed
  then show "chan_wf ?y" "chRegs ?y = chRegs x + replicate_mset n (siteKey s)"
    "unitRegs ?y t = unitRegs x t + (if t \<noteq> [] \<and> t = siteTuPath s then replicate_mset n (siteKey s) else {#})" by blast+
qed

section \<open>Merging a shard\<close>

lemma replicate_mset_plus: "replicate_mset (m + n) a = replicate_mset m a + replicate_mset n a"
  by (rule multiset_eqI) simp

lemma count_list_run: "count_list (takeWhile (\<lambda>v. v = u) ts) w = (if w = u then length (takeWhile (\<lambda>v. v = u) ts) else 0)"
  by (induction ts) auto

text \<open>With enough registrations left, the replay registers every unit of the list once per occurrence.\<close>

lemma replayTus_ledger:
  assumes "chan_wf x" "replayed + length ts \<le> ssRefs stored" "replayTus stored ts replayed x = (r, y)"
  shows "chan_wf y \<and> r = replayed + length ts \<and> chRegs y = chRegs x + replicate_mset (length ts) (siteKey (ssSite stored)) \<and>
    unitRegs y t = unitRegs x t + (if t = [] then {#} else replicate_mset (count_list ts t) (siteKey (ssSite stored)))"
  using assms
proof (induction stored ts replayed x arbitrary: y rule: replayTus.induct)
  case (2 stored u ts replayed x)
  let ?run = "takeWhile (\<lambda>v. v = u) ts" and ?rest = "dropWhile (\<lambda>v. v = u) ts"
  let ?s = "(ssSite stored)\<lparr>siteTuPath := u\<rparr>" and ?n = "Suc (length (takeWhile (\<lambda>v. v = u) ts))"
  have len: "length ?run + length ?rest = length ts" by (metis length_append takeWhile_dropWhile_id)
  have all: "count_list ?run v = (if v = u then length ?run else 0)" for v by (rule count_list_run)
  have "count_list ts v = count_list ?run v + count_list ?rest v" for v by (metis count_list_append takeWhile_dropWhile_id)
  then have cnt: "count_list (u # ts) v = (if v = u then ?n else 0) + count_list ?rest v" for v unfolding all by auto
  have less: "replayed < ssRefs stored" and n: "min ?n (ssRefs stored - replayed) = ?n"
    using "2.prems"(2) len by simp_all
  have key: "siteKey ?s = siteKey (ssSite stored)" by (simp add: siteKey_def)
  note L = addSiteRefs_ledger [OF "2.prems"(1), where s = ?s and n = ?n, unfolded key]
  have run: "replayTus stored ?rest (replayed + ?n) (addSiteRefs x ?s ?n) = (r, y)"
    using "2.prems"(3) less n by simp
  have "chan_wf y \<and> r = replayed + ?n + length ?rest \<and>
    chRegs y = chRegs (addSiteRefs x ?s ?n) + replicate_mset (length ?rest) (siteKey (ssSite stored)) \<and>
    unitRegs y t = unitRegs (addSiteRefs x ?s ?n) t + (if t = [] then {#} else replicate_mset (count_list ?rest t) (siteKey (ssSite stored)))"
    using "2.IH" [OF less n [symmetric] L(1) _ run] "2.prems"(2) len by simp
  moreover have "length (u # ts) = ?n + length ?rest" using len by simp
  ultimately show ?case unfolding L cnt by (simp only: replicate_mset_plus) (simp add: ac_simps)
qed simp

lemma length_siteTus: "length (siteTus x i) = count (tuMset (ch_byTu x)) i"
proof -
  have one: "length (filter (\<lambda>j. j = i) v) = count (mset v) i" for v by (induction v) auto
  have "length (concat (map (\<lambda>(t, v). map (\<lambda>_. t) (filter (\<lambda>j. j = i) v)) m)) = count (tuMset m) i" for m :: "(string, nat list) umap"
    by (induction m) (auto simp: one)
  then show ?thesis by (simp add: siteTus_def)
qed

lemma count_siteTus: "um_ok (ch_byTu x) \<Longrightarrow> count_list (siteTus x i) t = count (mset (um_get (ch_byTu x) t)) i"
proof -
  have run: "count_list (map (\<lambda>_. u) (filter (\<lambda>j. j = i) v)) t = (if u = t then count (mset v) i else 0)" for u v
    by (induction v) auto
  have "um_ok m \<Longrightarrow> count_list (concat (map (\<lambda>(t, v). map (\<lambda>_. t) (filter (\<lambda>j. j = i) v)) m)) t = count (mset (um_get m t)) i" for m
  proof (induction m)
    case (Cons a m)
    obtain u v where a: "a = (u, v)" by (cases a)
    have "um_get m t = []" if "u = t" using Cons.prems that map_of_eq_None_iff [of m t] by (simp add: a)
    then show ?case using Cons run [of u v] by (auto simp: a um_get_def)
  qed simp
  then show "um_ok (ch_byTu x) \<Longrightarrow> ?thesis" by (simp add: siteTus_def)
qed

lemma count_list_sort [simp]: "count_list (sort ts) t = count_list ts t"
  by (metis count_mset mset_sort)

lemma absorbSite_ledger:
  assumes x: "chan_wf x" and sh: "chan_wf sh" and i: "i < length (ch_sites sh)"
  shows "chan_wf (absorbSite sh (i, ch_sites sh ! i) x) \<and>
    chRegs (absorbSite sh (i, ch_sites sh ! i) x) = chRegs x + replicate_mset (count (crefs (ch_sites sh)) i) (keyAt sh i) \<and>
    unitRegs (absorbSite sh (i, ch_sites sh ! i) x) t = unitRegs x t + replicate_mset (count (mset (um_get (ch_byTu sh) t)) i) (keyAt sh i)"
proof -
  let ?st = "ch_sites sh ! i" and ?ts = "sort (siteTus sh i)"
  have reg: "registered (ch_sites sh) (ch_byTu sh)" using chan_wfD(6) [OF sh] .
  then have ok: "um_ok (ch_byTu sh)" and sub: "tuMset (ch_byTu sh) \<subseteq># crefs (ch_sites sh)" and nil: "um_get (ch_byTu sh) [] = []"
    by (simp_all add: registered_def)
  have total: "length ?ts \<le> ssRefs ?st"
    using mset_subset_eq_count [OF sub, of i] i by (simp add: length_siteTus count_crefs)
  have unit: "count_list ?ts t = count (mset (um_get (ch_byTu sh) t)) i" using count_siteTus [OF ok] by simp
  show ?thesis
  proof (cases "ssRefs ?st = 0")
    case True
    then have "count (mset (um_get (ch_byTu sh) t)) i = 0" using total unit by (simp add: count_list_0_iff)
    then show ?thesis using True x i by (simp add: absorbSite_def count_crefs)
  next
    case False
    obtain r y where run: "replayTus ?st ?ts 0 x = (r, y)" by (cases "replayTus ?st ?ts 0 x")
    from replayTus_ledger [OF x _ run] total have y: "chan_wf y" "r = length ?ts"
      "chRegs y = chRegs x + replicate_mset (length ?ts) (keyAt sh i)"
      "unitRegs y t = unitRegs x t + (if t = [] then {#} else replicate_mset (count_list ?ts t) (keyAt sh i))"
      by (simp_all add: keyAt_def)
    have key: "siteKey ((ssSite ?st)\<lparr>siteTuPath := []\<rparr>) = keyAt sh i" by (simp add: siteKey_def keyAt_def)
    have "absorbSite sh (i, ?st) x = addSiteRefs y ((ssSite ?st)\<lparr>siteTuPath := []\<rparr>) (ssRefs ?st - length ?ts)"
      using False run y(2) chan_wfD(1) [OF sh i] by (simp add: absorbSite_def)
    with addSiteRefs_ledger [OF y(1), where s = "(ssSite ?st)\<lparr>siteTuPath := []\<rparr>" and n = "ssRefs ?st - length ?ts"] y total
    show ?thesis unfolding key unit
      by (auto simp: count_crefs i nil add.assoc simp flip: replicate_mset_plus)
  qed
qed

lemma image_by_count:
  assumes "set_mset M \<subseteq> {..<n}"
  shows "image_mset f M = sum_list (map (\<lambda>i. replicate_mset (count M i) (f i)) [0..<n])"
proof -
  have "M = sum_list (map (\<lambda>i. replicate_mset (count M i) i) [0..<n])"
    by (rule multiset_eqI) (use assms in \<open>auto simp: count_sum_replicate not_in_iff [symmetric]\<close>)
  then have "image_mset f M = image_mset f (sum_list (map (\<lambda>i. replicate_mset (count M i) i) [0..<n]))" by simp
  also have "\<dots> = sum_list (map (\<lambda>i. replicate_mset (count M i) (f i)) [0..<n])"
    by (induction n) simp_all
  finally show ?thesis .
qed

lemma absorbSites_ledger:
  assumes "chan_wf x" "chan_wf sh" "set is \<subseteq> {..<length (ch_sites sh)}"
  shows "chan_wf (fold (absorbSite sh) (map (\<lambda>i. (i, ch_sites sh ! i)) is) x) \<and>
    chRegs (fold (absorbSite sh) (map (\<lambda>i. (i, ch_sites sh ! i)) is) x) =
      chRegs x + sum_list (map (\<lambda>i. replicate_mset (count (crefs (ch_sites sh)) i) (keyAt sh i)) is) \<and>
    unitRegs (fold (absorbSite sh) (map (\<lambda>i. (i, ch_sites sh ! i)) is) x) t =
      unitRegs x t + sum_list (map (\<lambda>i. replicate_mset (count (mset (um_get (ch_byTu sh) t)) i) (keyAt sh i)) is)"
  using assms(1,3)
proof (induction "is" arbitrary: x)
  case (Cons i "is")
  then have "i < length (ch_sites sh)" by simp
  note S = absorbSite_ledger [OF Cons.prems(1) assms(2) this, of t]
  show ?case using Cons.IH [of "absorbSite sh (i, ch_sites sh ! i) x"] S Cons.prems(2) by (simp add: ac_simps)
qed simp

lemma absorb_channels_ledger:
  assumes "chan_wf x" "chan_wf sh"
  shows "chan_wf (absorbChannels x sh)" "chRegs (absorbChannels x sh) = chRegs x + chRegs sh"
    "unitRegs (absorbChannels x sh) t = unitRegs x t + unitRegs sh t"
proof -
  let ?n = "length (ch_sites sh)"
  have enum: "enumerate 0 (ch_sites sh) = map (\<lambda>i. (i, ch_sites sh ! i)) [0..<?n]"
    by (rule nth_equalityI) (simp_all add: nth_enumerate_eq)
  have "set_mset (crefs (ch_sites sh)) \<subseteq> {..<?n}" "set_mset (mset (um_get (ch_byTu sh) t)) \<subseteq> {..<?n}"
    using registered_in(1) [OF chan_wfD(6) [OF assms(2)]] by (auto simp: in_crefs)
  note I = image_by_count [OF this(1)] image_by_count [OF this(2)]
  have "set [0..<?n] \<subseteq> {..<?n}" by auto
  from absorbSites_ledger [OF assms this, of t]
  show "chan_wf (absorbChannels x sh)" "chRegs (absorbChannels x sh) = chRegs x + chRegs sh"
    "unitRegs (absorbChannels x sh) t = unitRegs x t + unitRegs sh t"
    unfolding absorbChannels_def enum chRegs_def [of sh] unitRegs_def [of sh] I by auto
qed

end
