(* ===== verification/ChannelIndexRemove.thy ===== *)
theory ChannelIndexRemove
  imports ChannelIndexInv
begin

text \<open>
  Removal of units and compaction keep the invariant of the channel index, and act on its ledger: removal
  subtracts what the units registered, compaction changes nothing.
\<close>

section \<open>Releasing registrations\<close>

text \<open>
  The state of the first loop of \<open>removeTUs\<close> after the registrations \<open>M\<close> are released, \<open>P\<close> the pairs of unit and
  position they came from.
\<close>

definition chReleased :: "channel_index \<Rightarrow> nat multiset \<Rightarrow> (string \<times> nat) set \<Rightarrow> channel_remove \<Rightarrow> bool" where
  "chReleased x0 M P r \<longleftrightarrow>
     (let ss0 = ch_sites x0; x = cr_index r; ss = ch_sites x; dead = {i. i < length ss0 \<and> ssLive (ss0 ! i) \<and> \<not> ssLive (ss ! i)} in
      map ssSite ss = map ssSite ss0 \<and> crefs ss + M = crefs ss0 \<and>
      (\<forall>s \<in> set ss. ssLive s \<longleftrightarrow> 0 < ssRefs s) \<and>
      indexed ss (ch_index x) \<and> ch_liveCount x = length (filter ssLive ss) \<and>
      ch_byChannel x = ch_byChannel x0 \<and> ch_byFunctionUsr x = ch_byFunctionUsr x0 \<and>
      ch_byFunctionDisplay x = ch_byFunctionDisplay x0 \<and>
      set (cr_dead r) = dead \<and> distinct (cr_dead r) \<and> cr_removed r = length (cr_dead r) \<and>
      set (cr_channels r) = (\<lambda>i. channelId (ssSite (ss0 ! i))) ` dead \<and>
      set (cr_usrs r) = (\<lambda>i. siteFunctionUsr (ssSite (ss0 ! i))) ` dead \<and>
      set (cr_displays r) = {k. \<exists>i \<in> dead. displayOf (ssSite (ss0 ! i)) = Some k} \<and>
      set (cr_surviving r) = {i. i < length ss0 \<and> ssLive (ss ! i) \<and> (siteTuPath (ssSite (ss0 ! i)), i) \<in> P})"

lemma chReleasedD:
  assumes "chReleased x0 M P r"
  shows "map ssSite (ch_sites (cr_index r)) = map ssSite (ch_sites x0)" "length (ch_sites (cr_index r)) = length (ch_sites x0)"
    "\<And>i. i < length (ch_sites x0) \<Longrightarrow> ssSite (ch_sites (cr_index r) ! i) = ssSite (ch_sites x0 ! i)"
    "crefs (ch_sites (cr_index r)) + M = crefs (ch_sites x0)"
    "\<And>i. i < length (ch_sites x0) \<Longrightarrow> ssLive (ch_sites (cr_index r) ! i) \<longleftrightarrow> 0 < ssRefs (ch_sites (cr_index r) ! i)"
    "indexed (ch_sites (cr_index r)) (ch_index (cr_index r))"
proof -
  show m: "map ssSite (ch_sites (cr_index r)) = map ssSite (ch_sites x0)" using assms by (simp add: chReleased_def Let_def)
  then show l: "length (ch_sites (cr_index r)) = length (ch_sites x0)" by (rule map_eq_imp_length_eq)
  show "ssSite (ch_sites (cr_index r) ! i) = ssSite (ch_sites x0 ! i)" if "i < length (ch_sites x0)" for i
    using that l arg_cong [OF m, of "\<lambda>xs. xs ! i"] by simp
  show "crefs (ch_sites (cr_index r)) + M = crefs (ch_sites x0)" "indexed (ch_sites (cr_index r)) (ch_index (cr_index r))"
    using assms by (simp_all add: chReleased_def Let_def)
  show "ssLive (ch_sites (cr_index r) ! i) \<longleftrightarrow> 0 < ssRefs (ch_sites (cr_index r) ! i)" if "i < length (ch_sites x0)" for i
    using assms that l by (simp add: chReleased_def Let_def)
qed

lemma indexed_kill:
  assumes "indexed ss m" "i < length ss" "ssLive (ss ! i)" "\<not> ssLive s"
  shows "indexed (ss[i := s]) (um_erase m (siteKey (ssSite (ss ! i))))"
proof -
  have ok: "um_ok m" and m: "\<And>k j. map_of m k = Some j \<longleftrightarrow> j < length ss \<and> ssLive (ss ! j) \<and> siteKey (ssSite (ss ! j)) = k"
    using assms(1) by (auto simp: indexed_def)
  have "j = i" if "j < length ss" "ssLive (ss ! j)" "siteKey (ssSite (ss ! j)) = siteKey (ssSite (ss ! i))" for j
    using m [of "siteKey (ssSite (ss ! i))" i] m [of "siteKey (ssSite (ss ! i))" j] that assms(2,3) by simp
  then show ?thesis using ok m assms(2,4) by (auto simp: indexed_def nth_list_update split: if_splits)
qed

lemma indexed_refs:
  assumes "indexed ss m" "ssLive s = ssLive (ss ! i)" "ssSite s = ssSite (ss ! i)"
  shows "indexed (ss[i := s]) m"
proof -
  have "map shape (ss[i := s]) = map shape ss" using assms(2,3) by (intro map_shape_update) (simp add: shape_def)
  then show ?thesis using assms(1) indexed_shape by blast
qed

lemma length_filter_update:
  "i < length ss \<Longrightarrow> P (ss ! i) \<Longrightarrow> \<not> P s \<Longrightarrow> length (filter P (ss[i := s])) = length (filter P ss) - 1"
proof -
  assume i: "i < length ss" "P (ss ! i)" "\<not> P s"
  have "filter P ss = filter P (take i ss) @ ss ! i # filter P (drop (Suc i) ss)"
    using id_take_nth_drop [OF i(1)] i(2) by (metis filter.simps(2) filter_append)
  moreover have "filter P (ss[i := s]) = filter P (take i ss) @ filter P (drop (Suc i) ss)"
    using i by (simp add: upd_conv_take_nth_drop)
  ultimately show ?thesis by simp
qed

lemma map_ssSite_update: "ssSite s = ssSite (ss ! i) \<Longrightarrow> map ssSite (ss[i := s]) = map ssSite ss"
  by (cases "i < length ss") (simp_all add: map_update list_update_same_conv list_update_beyond)

lemma releaseSite_survives:
  assumes R: "chReleased x0 M P r" and i: "i < length (ch_sites x0)" and refs: "1 < ssRefs (ch_sites (cr_index r) ! i)"
  shows "chReleased x0 (add_mset i M) (insert (t, i) P) (releaseSite t i r)"
proof -
  note D = chReleasedD [OF R]
  let ?ss = "ch_sites (cr_index r)" and ?se = "ch_sites (cr_index r) ! i"
  let ?se' = "?se\<lparr>ssRefs := ssRefs ?se - 1\<rparr>" and ?r = "releaseSite t i r"
  let ?ss' = "?ss[i := ?se']"
  have i': "i < length ?ss" and live: "ssLive ?se" using i refs D(2,5) by auto
  have r': "?r = r\<lparr>cr_index := (cr_index r)\<lparr>ch_sites := ?ss'\<rparr>,
      cr_surviving := (if siteTuPath (ssSite ?se) = t then add_new i (cr_surviving r) else cr_surviving r)\<rparr>"
    using refs by (simp add: releaseSite_def Let_def)
  have "crefs ?ss' + replicate_mset (ssRefs ?se) i = crefs ?ss + replicate_mset (ssRefs ?se - 1) i"
    using crefs_update [OF i', of ?se'] by simp
  moreover have "replicate_mset (ssRefs ?se) i = add_mset i (replicate_mset (ssRefs ?se - 1) i)"
    using refs by (cases "ssRefs ?se") simp_all
  ultimately have "crefs ?ss' + {#i#} = crefs ?ss" by simp
  then have "crefs ?ss' + add_mset i M = crefs (ch_sites x0)" using D(4) by (metis add_mset_add_single add.assoc add.commute)
  moreover have "map ssSite ?ss' = map ssSite (ch_sites x0)" using map_ssSite_update [of ?se'] D(1) by simp
  moreover have l: "ssLive (?ss' ! j) = ssLive (?ss ! j)" for j using i' by (simp add: nth_list_update)
  moreover have "\<forall>s \<in> set ?ss'. ssLive s \<longleftrightarrow> 0 < ssRefs s"
    using i' D(2,5) refs live by (auto simp: in_set_conv_nth nth_list_update split: if_splits)
  moreover have "indexed ?ss' (ch_index (cr_index r))" using D(6) by (intro indexed_refs) simp_all
  moreover have "length (filter ssLive ?ss') = length (filter ssLive ?ss)"
    by (rule filter_live_shape) (simp add: map_shape_update shape_def)
  moreover have "set (cr_surviving ?r) =
      {j. j < length (ch_sites x0) \<and> ssLive (?ss' ! j) \<and> (siteTuPath (ssSite (ch_sites x0 ! j)), j) \<in> insert (t, i) P}"
    using R live i D(3) [OF i] unfolding l by (auto simp: r' chReleased_def Let_def)
  ultimately show ?thesis using R by (simp add: chReleased_def Let_def r')
qed

lemma releaseSite_dies:
  assumes R: "chReleased x0 M P r" and i: "i < length (ch_sites x0)" and refs: "ssRefs (ch_sites (cr_index r) ! i) = 1"
    and live0: "ssLive (ch_sites x0 ! i)"
  shows "chReleased x0 (add_mset i M) (insert (t, i) P) (releaseSite t i r)"
proof -
  note D = chReleasedD [OF R]
  let ?ss = "ch_sites (cr_index r)" and ?se = "ch_sites (cr_index r) ! i" and ?s0 = "ssSite (ch_sites x0 ! i)"
  let ?se' = "?se\<lparr>ssRefs := 0, ssLive := False\<rparr>" and ?r = "releaseSite t i r"
  let ?ss' = "?ss[i := ?se']"
  have i': "i < length ?ss" and live: "ssLive ?se" and s0: "ssSite ?se = ?s0" using i refs D(2,3,5) by auto
  have r': "?r = r\<lparr>cr_surviving := removeAll i (cr_surviving r), cr_dead := add_new i (cr_dead r),
      cr_channels := add_new (channelId ?s0) (cr_channels r), cr_usrs := add_new (siteFunctionUsr ?s0) (cr_usrs r),
      cr_displays := (if siteFunctionDisplay ?s0 \<noteq> siteFunctionUsr ?s0
               then add_new (siteFunctionDisplay ?s0) (cr_displays r) else cr_displays r),
      cr_index := (cr_index r)\<lparr>ch_sites := ?ss', ch_index := um_erase (ch_index (cr_index r)) (siteKey ?s0),
                    ch_liveCount := ch_liveCount (cr_index r) - 1\<rparr>,
      cr_removed := cr_removed r + 1\<rparr>"
    using refs s0 by (simp add: releaseSite_def Let_def)
  let ?dead = "{j. j < length (ch_sites x0) \<and> ssLive (ch_sites x0 ! j) \<and> \<not> ssLive (?ss ! j)}"
  have dead: "{j. j < length (ch_sites x0) \<and> ssLive (ch_sites x0 ! j) \<and> \<not> ssLive (?ss' ! j)} = insert i ?dead"
    using i' live0 D(2) by (auto simp: nth_list_update)
  have "i \<notin> ?dead" using live by simp
  have "crefs ?ss' + {#i#} = crefs ?ss" using crefs_update [OF i', of ?se'] refs by simp
  then have "crefs ?ss' + add_mset i M = crefs (ch_sites x0)" using D(4) by (metis add_mset_add_single add.assoc add.commute)
  moreover have "map ssSite ?ss' = map ssSite (ch_sites x0)" using map_ssSite_update [of ?se'] D(1) by simp
  moreover have "\<forall>s \<in> set ?ss'. ssLive s \<longleftrightarrow> 0 < ssRefs s"
    using i' D(2,5) by (auto simp: in_set_conv_nth nth_list_update split: if_splits)
  moreover have "indexed ?ss' (um_erase (ch_index (cr_index r)) (siteKey ?s0))"
    using indexed_kill [OF D(6) i' live, of ?se'] s0 by simp
  moreover have "length (filter ssLive ?ss') = length (filter ssLive ?ss) - 1"
    using i' live by (intro length_filter_update) simp_all
  moreover have "set (cr_surviving ?r) =
      {j. j < length (ch_sites x0) \<and> ssLive (?ss' ! j) \<and> (siteTuPath (ssSite (ch_sites x0 ! j)), j) \<in> insert (t, i) P}"
    using R i' by (auto simp: r' chReleased_def Let_def nth_list_update D(2))
  moreover have "set (cr_displays ?r) = {k. \<exists>j \<in> insert i ?dead. displayOf (ssSite (ch_sites x0 ! j)) = Some k}"
    using R by (auto simp: r' chReleased_def Let_def displayOf_def)
  moreover have "add_new i (cr_dead r) = cr_dead r @ [i]" "distinct (cr_dead r)" "i \<notin> set (cr_dead r)"
    using R \<open>i \<notin> ?dead\<close> by (simp_all add: chReleased_def Let_def add_new_def)
  ultimately show ?thesis using R unfolding chReleased_def Let_def by (simp add: r' dead)
qed

lemma byTu_releaseSite: "ch_byTu (cr_index (releaseSite t i r)) = ch_byTu (cr_index r)"
  by (simp add: releaseSite_def Let_def)

lemma byTu_releaseSites: "ch_byTu (cr_index (fold (releaseSite t) js r)) = ch_byTu (cr_index r)"
  by (induction js arbitrary: r) (simp_all add: byTu_releaseSite)

lemma releaseSites_released:
  assumes "chan_wf x0" "chReleased x0 M P r" "mset js \<subseteq># crefs (ch_sites (cr_index r))"
  shows "chReleased x0 (M + mset js) (P \<union> {t} \<times> set js) (fold (releaseSite t) js r)"
  using assms(2,3)
proof (induction js arbitrary: r M P)
  case (Cons i js)
  note D = chReleasedD [OF Cons.prems(1)]
  have in_c: "i \<in># crefs (ch_sites (cr_index r))" using Cons.prems(2) by (simp add: insert_subset_eq_iff)
  then have i: "i < length (ch_sites x0)" "0 < ssRefs (ch_sites (cr_index r) ! i)" using D(2) by (simp_all add: in_crefs)
  have "i \<in># crefs (ch_sites x0)" using in_c D(4) by (metis union_iff)
  then have live0: "ssLive (ch_sites x0 ! i)" using chan_wfD(1) [OF assms(1)] by (simp add: in_crefs)
  have R: "chReleased x0 (add_mset i M) (insert (t, i) P) (releaseSite t i r)"
  proof (cases "ssRefs (ch_sites (cr_index r) ! i) = 1")
    case True
    then show ?thesis using releaseSite_dies [OF Cons.prems(1) i(1) _ live0] by blast
  next
    case False
    then show ?thesis using releaseSite_survives [OF Cons.prems(1) i(1)] i(2) by simp
  qed
  have "crefs (ch_sites (cr_index r)) = add_mset i (crefs (ch_sites (cr_index (releaseSite t i r))))"
    using D(4) chReleasedD(4) [OF R] by (metis add_mset_add_single add_right_cancel union_mset_add_mset_left union_mset_add_mset_right)
  then have "mset js \<subseteq># crefs (ch_sites (cr_index (releaseSite t i r)))"
    using Cons.prems(2) by simp
  from Cons.IH [OF R this] show ?case by (simp add: insert_def [symmetric] Un_assoc)
qed simp

lemma chReleased_byTu: "chReleased x0 M P (r\<lparr>cr_index := (cr_index r)\<lparr>ch_byTu := m\<rparr>\<rparr>) = chReleased x0 M P r"
  by (simp add: chReleased_def Let_def)

text \<open>After the units with texts \<open>T\<close> are released.\<close>

definition unitsReleased :: "channel_index \<Rightarrow> string set \<Rightarrow> channel_remove \<Rightarrow> bool" where
  "unitsReleased x0 T r \<longleftrightarrow>
     chReleased x0 (\<Sum>t \<in> T. mset (um_get (ch_byTu x0) t)) (SIGMA t:T. set (um_get (ch_byTu x0) t)) r \<and>
     um_ok (ch_byTu (cr_index r)) \<and>
     (\<forall>t. map_of (ch_byTu (cr_index r)) t = (if t \<in> T then None else map_of (ch_byTu x0) t)) \<and>
     tuMset (ch_byTu (cr_index r)) + (\<Sum>t \<in> T. mset (um_get (ch_byTu x0) t)) = tuMset (ch_byTu x0)"

lemma releaseUnit_released:
  assumes wf: "chan_wf x0" and U: "unitsReleased x0 T r" and fin: "finite T"
  shows "unitsReleased x0 (insert (toIndexText p) T) (releaseUnit p r)"
proof -
  let ?t = "toIndexText p" and ?m = "ch_byTu (cr_index r)" and ?M = "\<Sum>t \<in> T. mset (um_get (ch_byTu x0) t)"
  have R: "chReleased x0 ?M (SIGMA t:T. set (um_get (ch_byTu x0) t)) r" and ok: "um_ok ?m"
    and m: "\<And>t. map_of ?m t = (if t \<in> T then None else map_of (ch_byTu x0) t)"
    and tot: "tuMset ?m + ?M = tuMset (ch_byTu x0)"
    using U by (auto simp: unitsReleased_def)
  show ?thesis
  proof (cases "map_of ?m ?t")
    case None
    then have rr: "releaseUnit p r = r" by (simp add: releaseUnit_def)
    show ?thesis
    proof (cases "?t \<in> T")
      case True
      then show ?thesis using U rr by (simp add: insert_absorb)
    next
      case False
      then have none: "map_of (ch_byTu x0) ?t = None" using None m by simp
      have "(SIGMA t:insert ?t T. set (um_get (ch_byTu x0) t)) = (SIGMA t:T. set (um_get (ch_byTu x0) t))"
        using none by auto
      then show ?thesis using U False none fin rr by (auto simp: unitsReleased_def)
    qed
  next
    case (Some js)
    then have T: "?t \<notin> T" and js: "um_get (ch_byTu x0) ?t = js" and js': "um_get ?m ?t = js" using m by (auto split: if_splits)
    have "tuMset ?m + ?M \<subseteq># crefs (ch_sites (cr_index r)) + ?M"
      using chan_wfD(6) [OF wf] unfolding tot chReleasedD(4) [OF R] by (simp add: registered_def)
    then have "tuMset ?m \<subseteq># crefs (ch_sites (cr_index r))" by simp
    then have "mset js \<subseteq># crefs (ch_sites (cr_index r))"
      using mset_get_subset_tuMset [OF ok, of ?t] unfolding js' by (rule subset_mset.order_trans [rotated])
    note rel = releaseSites_released [OF wf R this, of ?t]
    have sig: "(SIGMA t:insert ?t T. set (um_get (ch_byTu x0) t)) = (SIGMA t:T. set (um_get (ch_byTu x0) t)) \<union> {?t} \<times> set js"
      using js by blast
    from rel have "chReleased x0 (\<Sum>t \<in> insert ?t T. mset (um_get (ch_byTu x0) t)) (SIGMA t:insert ?t T. set (um_get (ch_byTu x0) t))
        (fold (releaseSite ?t) js r)"
      unfolding sum.insert [OF fin T] js sig by (simp only: add.commute)
    moreover have "tuMset (um_erase ?m ?t) + (\<Sum>t \<in> insert ?t T. mset (um_get (ch_byTu x0) t)) = tuMset (ch_byTu x0)"
      using tuMset_erase [OF ok, of ?t] T fin tot js js' by (simp flip: add.assoc)
    moreover have "releaseUnit p r = (fold (releaseSite ?t) js r)\<lparr>cr_index :=
        (cr_index (fold (releaseSite ?t) js r))\<lparr>ch_byTu := um_erase ?m ?t\<rparr>\<rparr>"
      using Some by (simp add: releaseUnit_def Let_def byTu_releaseSites)
    ultimately show ?thesis using ok m by (simp add: unitsReleased_def chReleased_byTu)
  qed
qed

section \<open>Refreshing contributors\<close>

definition strip :: "StoredSite \<Rightarrow> (bool \<times> ChannelSite) \<times> nat" where
  "strip s = (shape s, ssRefs s)"

abbreviation tuAt :: "StoredSite list \<Rightarrow> nat \<Rightarrow> string" where
  "tuAt ss i \<equiv> siteTuPath (ssSite (ss ! i))"

lemma strip_setTu: "map strip (setTu i t ss) = map strip ss"
proof (cases "i < length ss")
  case True
  have "strip ((ss ! i)\<lparr>ssSite := (ssSite (ss ! i))\<lparr>siteTuPath := t\<rparr>\<rparr>) = strip (ss ! i)" by (simp add: strip_def shape_def)
  then show ?thesis using True by (simp add: setTu_def map_update list_update_same_conv)
qed (simp add: setTu_def list_update_beyond)

lemma tuAt_setTu: "j < length ss \<Longrightarrow> tuAt (setTu i t ss) j = (if i = j then t else tuAt ss j)"
  by (auto simp: setTu_def nth_list_update)

lemma length_setTu [simp]: "length (setTu i t ss) = length ss"
  by (simp add: setTu_def)

lemma fold_clear:
  "map strip (fold (\<lambda>i. setTu i []) sv ss) = map strip ss \<and>
   (\<forall>j < length ss. tuAt (fold (\<lambda>i. setTu i []) sv ss) j = (if j \<in> set sv then [] else tuAt ss j))"
proof (induction sv arbitrary: ss)
  case (Cons i sv)
  from Cons [of "setTu i [] ss"] show ?case by (auto simp: strip_setTu tuAt_setTu)
qed simp

lemma refreshSite_step:
  assumes "t \<noteq> []" "j < length ss"
  shows "map strip (refreshSite sv t i ss) = map strip ss"
    "tuAt (refreshSite sv t i ss) j = (if i = j \<and> j \<in> set sv then betterTu (tuAt ss j) t else tuAt ss j)"
  using assms by (simp_all add: refreshSite_def Let_def strip_setTu tuAt_setTu betterTu_def)

lemma fold_refresh:
  assumes "\<forall>(t, i) \<in> set ps. t \<noteq> []" "\<forall>j \<in> set sv. finite (T j) \<and> [] \<notin> T j \<and> (j < length ss \<longrightarrow> tuAt ss j = leastTu (T j))"
  shows "map strip (fold (\<lambda>(t, i). refreshSite sv t i) ps ss) = map strip ss \<and>
    (\<forall>j < length ss. tuAt (fold (\<lambda>(t, i). refreshSite sv t i) ps ss) j =
       (if j \<in> set sv then leastTu (T j \<union> {t. (t, j) \<in> set ps}) else tuAt ss j))"
  using assms
proof (induction ps arbitrary: ss T)
  case (Cons p ps)
  obtain t i where p: "p = (t, i)" by (cases p)
  have t: "t \<noteq> []" using Cons.prems(1) p by auto
  let ?ss = "refreshSite sv t i ss" and ?T = "\<lambda>j. if i = j then insert t (T j) else T j"
  have strips: "map strip ?ss = map strip ss" using t by (simp add: refreshSite_def Let_def strip_setTu)
  have len: "length ?ss = length ss" using map_eq_imp_length_eq [OF strips] .
  note step = refreshSite_step(2) [OF t, of _ ss sv i]
  have "\<forall>j \<in> set sv. finite (?T j) \<and> [] \<notin> ?T j \<and> (j < length ?ss \<longrightarrow> tuAt ?ss j = leastTu (?T j))"
    using Cons.prems(2) t step len leastTu_insert by auto
  from Cons.IH [OF _ this] Cons.prems(1)
  have IH: "map strip (fold (\<lambda>(t, i). refreshSite sv t i) ps ?ss) = map strip ?ss"
    "\<And>j. j < length ss \<Longrightarrow> tuAt (fold (\<lambda>(t, i). refreshSite sv t i) ps ?ss) j =
       (if j \<in> set sv then leastTu (?T j \<union> {t. (t, j) \<in> set ps}) else tuAt ?ss j)"
    unfolding len by auto
  have "?T j \<union> {u. (u, j) \<in> set ps} = T j \<union> {u. (u, j) \<in> set (p # ps)}" for j by (auto simp: p)
  then show ?case using IH strips step by (simp add: p)
qed simp

lemma fold_nested: "fold (\<lambda>(t, js). fold (f t) js) m s = fold (\<lambda>(t, i). f t i) (concat (map (\<lambda>(t, js). map (Pair t) js) m)) s"
proof (induction m arbitrary: s)
  case (Cons a m)
  obtain t js where "a = (t, js)" by (cases a)
  moreover have "fold (f t) js s = fold (\<lambda>(t, i). f t i) (map (Pair t) js) s" by (simp add: fold_map comp_def)
  ultimately show ?case using Cons by simp
qed simp

lemma refreshTus_spec:
  assumes ok: "um_ok m" and nil: "map_of m [] = None"
  shows "map strip (refreshTus sv m ss) = map strip ss"
    "j < length ss \<Longrightarrow> tuAt (refreshTus sv m ss) j = (if j \<in> set sv then leastTu (contributors m j) else tuAt ss j)"
proof -
  let ?ps = "concat (map (\<lambda>(t, js). map (Pair t) js) m)" and ?ss = "fold (\<lambda>i. setTu i []) sv ss"
  have mem: "(t, i) \<in> set ?ps \<longleftrightarrow> i \<in> set (um_get m t)" for t i
  proof -
    have "(t, i) \<in> set ?ps \<longleftrightarrow> (\<exists>js. (t, js) \<in> set m \<and> i \<in> set js)" by (simp add: image_iff Bex_def split: prod.splits) blast
    also have "\<dots> \<longleftrightarrow> (\<exists>js. map_of m t = Some js \<and> i \<in> set js)" using ok by (simp add: um_ok_def)
    finally show ?thesis by (cases "map_of m t") simp_all
  qed
  have "t \<noteq> []" if "(t, i) \<in> set ?ps" for t i using that um_get_None [OF nil] unfolding mem by (cases t) simp_all
  then have ne: "\<forall>(t, i) \<in> set ?ps. t \<noteq> []" by blast
  note C = fold_clear [of sv ss]
  have len: "length ?ss = length ss" using C map_eq_imp_length_eq by blast
  have "\<forall>j \<in> set sv. finite ({} :: string set) \<and> [] \<notin> ({} :: string set) \<and> (j < length ?ss \<longrightarrow> tuAt ?ss j = leastTu {})"
    using C len by (simp add: leastTu_def)
  from fold_refresh [OF ne, of sv "\<lambda>_. {}", OF this]
  have R: "map strip (refreshTus sv m ss) = map strip ss"
    "j < length ss \<Longrightarrow> sv \<noteq> [] \<Longrightarrow> tuAt (refreshTus sv m ss) j = (if j \<in> set sv then leastTu {t. (t, j) \<in> set ?ps} else tuAt ?ss j)"
    using C len by (auto simp: refreshTus_def fold_nested)
  show "map strip (refreshTus sv m ss) = map strip ss" by (rule R)
  show "tuAt (refreshTus sv m ss) j = (if j \<in> set sv then leastTu (contributors m j) else tuAt ss j)" if "j < length ss"
  proof (cases "sv = []")
    case False
    then show ?thesis using R(2) [OF that] C that unfolding mem contributors_def by simp
  qed (simp add: refreshTus_def)
qed

section \<open>Scrubbing the lists\<close>

lemma scrubChannels:
  assumes "um_ok m" "\<forall>k. map_of m k \<noteq> Some []"
  shows "um_ok (fold (scrubChannel dead) ks m) \<and> (\<forall>k. map_of (fold (scrubChannel dead) ks m) k \<noteq> Some []) \<and>
    (\<forall>k. um_get (fold (scrubChannel dead) ks m) k = (if k \<in> set ks then filter (\<lambda>i. i \<notin> set dead) (um_get m k) else um_get m k))"
  using assms
proof (induction ks arbitrary: m)
  case (Cons c ks)
  have "um_ok (scrubChannel dead c m)" "\<forall>k. map_of (scrubChannel dead c m) k \<noteq> Some []"
    "um_get (scrubChannel dead c m) k = (if k = c then filter (\<lambda>i. i \<notin> set dead) (um_get m c) else um_get m k)" for k
    using Cons.prems by (auto simp: scrubChannel_def Let_def split: option.splits)
  with Cons.IH [of "scrubChannel dead c m"] show ?case by auto
qed simp

lemma listed_scrub:
  assumes L: "listed sel ss0 m" and len: "length ss = length ss0"
    and site: "\<And>i. i < length ss0 \<Longrightarrow> sel (ssSite (ss ! i)) = sel (ssSite (ss0 ! i))"
    and dead: "\<And>i. i < length ss0 \<Longrightarrow> i \<in> set dead \<longleftrightarrow> ssLive (ss0 ! i) \<and> \<not> ssLive (ss ! i)"
    and mono: "\<And>i. i < length ss0 \<Longrightarrow> ssLive (ss ! i) \<Longrightarrow> ssLive (ss0 ! i)"
    and ks: "\<And>i k. i < length ss0 \<Longrightarrow> i \<in> set dead \<Longrightarrow> sel (ssSite (ss0 ! i)) = Some k \<Longrightarrow> k \<in> set ks"
  shows "listed sel ss (fold (scrubChannel dead) ks m)"
proof -
  let ?P = "\<lambda>k s. ssLive s \<and> sel (ssSite s) = Some k"
  have m: "um_ok m" "\<forall>k. map_of m k \<noteq> Some []" and get: "um_get m k = positions (?P k) ss0" for k
    using L by (auto simp: listed_def)
  note S = scrubChannels [OF m, of dead ks]
  have "um_get (fold (scrubChannel dead) ks m) k = filter (\<lambda>i. i \<notin> set dead) (positions (?P k) ss0)" for k
  proof (cases "k \<in> set ks")
    case False
    then have "\<forall>i \<in> set (positions (?P k) ss0). i \<notin> set dead" using ks by (auto simp: set_positions)
    then show ?thesis using S False get by simp
  qed (use S get in simp)
  moreover have "filter (\<lambda>i. i \<notin> set dead) (positions (?P k) ss0) = positions (?P k) ss" for k
    unfolding positions_def filter_filter len by (rule filter_cong) (use dead site mono in auto)
  ultimately show ?thesis using S by (simp add: listed_def)
qed

section \<open>Removal\<close>

lemma strip_eq:
  assumes "map strip ss = map strip ss'"
  shows "map shape ss = map shape ss'" "crefs ss = crefs ss'" "length ss = length ss'"
    "i < length ss \<Longrightarrow> ssRefs (ss ! i) = ssRefs (ss' ! i)" "i < length ss \<Longrightarrow> ssLive (ss ! i) = ssLive (ss' ! i)"
proof -
  show sh: "map shape ss = map shape ss'" using arg_cong [OF assms, of "map fst"] by (simp add: strip_def comp_def)
  show len: "length ss = length ss'" using map_eq_imp_length_eq [OF assms] .
  show refs: "ssRefs (ss ! i) = ssRefs (ss' ! i)" if "i < length ss" for i
    using arg_cong [OF assms, of "\<lambda>xs. snd (xs ! i)"] that len by (simp add: strip_def)
  then show "crefs ss = crefs ss'" by (intro multiset_eqI) (simp add: count_crefs len)
  show "ssLive (ss ! i) = ssLive (ss' ! i)" if "i < length ss" using shape_eq(1) [OF shapes_nth(2) [OF sh that]] .
qed

lemma leastTu_remains:
  assumes "finite C" "leastTu C \<notin> T \<or> C = {}"
  shows "leastTu (C - T) = leastTu C"
proof (cases "C = {}")
  case False
  then have in_C: "Min C \<in> C - T" using assms Min_in [of C] by (auto simp: leastTu_def)
  have "Min (C - T) = Min C"
    by (rule Min_eqI) (use assms(1) in_C in auto)
  with in_C False show ?thesis by (auto simp: leastTu_def)
qed simp

definition liveAtIdx :: "channel_index \<Rightarrow> nat set" where
  "liveAtIdx x = {i. i < length (ch_sites x) \<and> ssLive (ch_sites x ! i)}"

lemma indexedD: "indexed ss m \<Longrightarrow> map_of m k = Some i \<longleftrightarrow> i < length ss \<and> ssLive (ss ! i) \<and> siteKey (ssSite (ss ! i)) = k"
  by (simp add: indexed_def)

lemma live_keys:
  assumes "chan_wf x"
  shows "set_mset (chRegs x) = keyAt x ` liveAtIdx x" "inj_on (keyAt x) (liveAtIdx x)" "ch_liveCount x = card (set_mset (chRegs x))"
proof -
  note W = chan_wfD [OF assms]
  have "set_mset (crefs (ch_sites x)) = liveAtIdx x" using W(1) by (auto simp: in_crefs liveAtIdx_def)
  then show s: "set_mset (chRegs x) = keyAt x ` liveAtIdx x" by (simp add: chRegs_def)
  show i: "inj_on (keyAt x) (liveAtIdx x)"
  proof (rule inj_onI)
    have at': "map_of (ch_index x) (keyAt x k) = Some k" if "k \<in> liveAtIdx x" for k
      using that unfolding indexedD [OF W(2)] by (simp add: liveAtIdx_def keyAt_def)
    fix i j assume "i \<in> liveAtIdx x" "j \<in> liveAtIdx x" "keyAt x i = keyAt x j"
    with at' [of i] at' [of j] show "i = j" by (metis option.inject)
  qed
  show "ch_liveCount x = card (set_mset (chRegs x))"
    using W(7) unfolding s card_image [OF i] by (simp add: liveAtIdx_def length_filter_conv_card)
qed

lemma releaseUnits_released:
  "chan_wf x0 \<Longrightarrow> unitsReleased x0 T r \<Longrightarrow> finite T \<Longrightarrow> unitsReleased x0 (toIndexText ` set ps \<union> T) (fold releaseUnit ps r)"
proof (induction ps arbitrary: r T)
  case (Cons p ps)
  from Cons.IH [OF Cons.prems(1) releaseUnit_released [OF Cons.prems, of p]] Cons.prems(3) show ?case by simp
qed simp

abbreviation removeStart :: "channel_index \<Rightarrow> channel_remove" where
  "removeStart x \<equiv> \<lparr>cr_index = x, cr_dead = [], cr_surviving = [], cr_channels = [], cr_usrs = [], cr_displays = [], cr_removed = 0\<rparr>"

lemma removeStart_released: "chan_wf x \<Longrightarrow> unitsReleased x {} (removeStart x)"
  by (auto simp: unitsReleased_def chReleased_def Let_def chan_wf_def registered_def)

lemma registered_after:
  assumes wf: "chan_wf x" and U: "unitsReleased x T r" and T: "finite T"
  shows "registered (refreshTus (cr_surviving r) (ch_byTu (cr_index r)) (ch_sites (cr_index r))) (ch_byTu (cr_index r))"
proof -
  let ?m = "ch_byTu (cr_index r)" and ?M = "\<Sum>t \<in> T. mset (um_get (ch_byTu x) t)" and ?ss = "ch_sites (cr_index r)"
  let ?ss' = "refreshTus (cr_surviving r) ?m ?ss"
  have R: "chReleased x ?M (SIGMA t:T. set (um_get (ch_byTu x) t)) r" and ok: "um_ok ?m"
    and m: "\<And>t. map_of ?m t = (if t \<in> T then None else map_of (ch_byTu x) t)" and tot: "tuMset ?m + ?M = tuMset (ch_byTu x)"
    using U by (auto simp: unitsReleased_def)
  note D = chReleasedD [OF R]
  have reg: "registered (ch_sites x) (ch_byTu x)" using chan_wfD(6) [OF wf] .
  then have nil: "map_of ?m [] = None" using m by (simp add: registered_def)
  note F = refreshTus_spec [OF ok nil]
  note E = strip_eq [OF F(1) [of "cr_surviving r" ?ss]]
  have "tuMset ?m + ?M \<subseteq># crefs ?ss + ?M" using reg unfolding tot D(4) by (simp add: registered_def)
  then have sub: "tuMset ?m \<subseteq># crefs ?ss'" using E(2) by simp
  have con: "contributors ?m i = contributors (ch_byTu x) i - T" for i
    using m by (auto simp: contributors_def um_get_def split: if_splits)
  have "tuAt ?ss' i = leastTu (contributors ?m i)" if "i < length ?ss'" "ssLive (?ss' ! i)" for i
  proof -
    have i: "i < length ?ss" "i < length (ch_sites x)" "ssLive (?ss ! i)" using that E(3,5) D(2) by auto
    have "0 < count (crefs ?ss) i" using i D(5) by (simp add: count_crefs)
    then have "0 < count (crefs (ch_sites x)) i" unfolding D(4) [symmetric] by simp
    then have "ssLive (ch_sites x ! i)" using chan_wfD(1) [OF wf i(2)] i(2) by (simp add: count_crefs)
    then have least: "tuAt (ch_sites x) i = leastTu (contributors (ch_byTu x) i)" using reg i(2) by (simp add: registered_def)
    let ?C = "contributors (ch_byTu x) i"
    have sv: "i \<in> set (cr_surviving r) \<longleftrightarrow> leastTu ?C \<in> T \<and> leastTu ?C \<in> ?C"
      using R i unfolding least [symmetric] by (simp add: chReleased_def Let_def contributors_def)
    show ?thesis
    proof (cases "i \<in> set (cr_surviving r)")
      case False
      have "leastTu ?C \<in> ?C" if "?C \<noteq> {}" using Min_in [OF finite_contributors that] that by (simp add: leastTu_def)
      with False have "leastTu ?C \<notin> T \<or> ?C = {}" using sv by blast
      then have "leastTu (contributors ?m i) = leastTu ?C"
        unfolding con by (rule leastTu_remains [OF finite_contributors])
      then show ?thesis using F(2) [OF i(1)] False D(3) [OF i(2)] least by simp
    qed (use F(2) [OF i(1)] in simp)
  qed
  then show ?thesis using ok sub nil by (simp add: registered_def)
qed

lemma chRemoveTUs_released:
  assumes wf: "chan_wf x" and eq: "chRemoveTUs x ps = (n, y)"
  obtains r where "unitsReleased x (toIndexText ` set ps) r" "n = cr_removed r" "chan_wf y" "ch_byTu y = ch_byTu (cr_index r)"
    "map strip (ch_sites y) = map strip (ch_sites (cr_index r))"
proof -
  let ?T = "toIndexText ` set ps"
  define r where "r = fold releaseUnit ps (removeStart x)"
  let ?ss = "ch_sites (cr_index r)" and ?ss' = "refreshTus (cr_surviving r) (ch_byTu (cr_index r)) (ch_sites (cr_index r))"
  have U: "unitsReleased x ?T r"
    using releaseUnits_released [OF wf removeStart_released [OF wf] finite.emptyI] by (simp add: r_def)
  then have R: "chReleased x (\<Sum>t \<in> ?T. mset (um_get (ch_byTu x) t)) (SIGMA t:?T. set (um_get (ch_byTu x) t)) r"
    by (simp add: unitsReleased_def)
  note D = chReleasedD [OF R] and W = chan_wfD [OF wf]
  have y: "ch_sites y = ?ss'" "ch_index y = ch_index (cr_index r)" "ch_byTu y = ch_byTu (cr_index r)"
    "ch_liveCount y = ch_liveCount (cr_index r)" "n = cr_removed r"
    "ch_byChannel y = fold (scrubChannel (cr_dead r)) (cr_channels r) (ch_byChannel x)"
    "ch_byFunctionUsr y = fold (scrubChannel (cr_dead r)) (cr_usrs r) (ch_byFunctionUsr x)"
    "ch_byFunctionDisplay y = fold (scrubChannel (cr_dead r)) (cr_displays r) (ch_byFunctionDisplay x)"
    using eq R by (auto simp: chRemoveTUs_def Let_def r_def chReleased_def)
  have reg: "registered ?ss' (ch_byTu (cr_index r))" by (rule registered_after [OF wf U]) simp
  have strips: "map strip ?ss' = map strip ?ss"
  proof (rule refreshTus_spec(1))
    show "um_ok (ch_byTu (cr_index r))" "map_of (ch_byTu (cr_index r)) [] = None" using reg by (simp_all add: registered_def)
  qed
  note E = strip_eq [OF strips]
  have dead: "i \<in> set (cr_dead r) \<longleftrightarrow> ssLive (ch_sites x ! i) \<and> \<not> ssLive (?ss ! i)" if "i < length (ch_sites x)" for i
    using R that by (simp add: chReleased_def Let_def)
  have mono: "ssLive (ch_sites x ! i)" if "i < length (ch_sites x)" "ssLive (?ss ! i)" for i
  proof -
    have "0 < count (crefs ?ss) i" using that D(2,5) by (simp add: count_crefs)
    then have "0 < count (crefs (ch_sites x)) i" unfolding D(4) [symmetric] by simp
    then show ?thesis using W(1) that(1) by (simp add: count_crefs)
  qed
  have keys: "channelId (ssSite (ch_sites x ! i)) \<in> set (cr_channels r)" "siteFunctionUsr (ssSite (ch_sites x ! i)) \<in> set (cr_usrs r)"
    "displayOf (ssSite (ch_sites x ! i)) = Some k \<Longrightarrow> k \<in> set (cr_displays r)" if "i < length (ch_sites x)" "i \<in> set (cr_dead r)" for i k
    using R that by (auto simp: chReleased_def Let_def)
  have "listed sel ?ss (fold (scrubChannel (cr_dead r)) ks m)" if "listed sel (ch_sites x) m"
    "\<And>i k. i < length (ch_sites x) \<Longrightarrow> i \<in> set (cr_dead r) \<Longrightarrow> sel (ssSite (ch_sites x ! i)) = Some k \<Longrightarrow> k \<in> set ks" for sel ks m
    by (rule listed_scrub [OF that(1) D(2)]) (use D(3) dead mono that(2) in auto)
  note L = this
  have L3: "listed (Some \<circ> channelId) ?ss (ch_byChannel y)" unfolding y by (rule L [OF W(3)]) (use keys(1) in auto)
  have L4: "listed (Some \<circ> siteFunctionUsr) ?ss (ch_byFunctionUsr y)" unfolding y by (rule L [OF W(4)]) (use keys(2) in auto)
  have L5: "listed displayOf ?ss (ch_byFunctionDisplay y)" unfolding y by (rule L [OF W(5)]) (use keys(3) in auto)
  have "chan_wf y"
  proof (rule chan_wfI)
    show "\<forall>s \<in> set (ch_sites y). ssLive s \<longleftrightarrow> 0 < ssRefs s" unfolding y(1) using E(3,4,5) D(2,5) by (auto simp: in_set_conv_nth)
    show "indexed (ch_sites y) (ch_index y)" unfolding y(1,2) indexed_shape [OF E(1)] by (rule D(6))
    show "listed (Some \<circ> channelId) (ch_sites y) (ch_byChannel y)" using L3 unfolding y(1) listed_shape [OF E(1) unitless_sel(2)] .
    show "listed (Some \<circ> siteFunctionUsr) (ch_sites y) (ch_byFunctionUsr y)" using L4 unfolding y(1) listed_shape [OF E(1) unitless_sel(3)] .
    show "listed displayOf (ch_sites y) (ch_byFunctionDisplay y)" using L5 unfolding y(1) listed_shape [OF E(1) unitless_sel(4)] .
    show "registered (ch_sites y) (ch_byTu y)" unfolding y(1,3) by (rule reg)
    show "ch_liveCount y = length (filter ssLive (ch_sites y))"
      unfolding y(1,4) filter_live_shape [OF E(1)] using R by (simp add: chReleased_def Let_def)
  qed
  then show ?thesis by (rule that [OF U y(5) _ y(3)]) (simp only: y(1) strips)
qed

lemma image_mset_sum: "image_mset f (\<Sum>t \<in> T. g t) = (\<Sum>t \<in> T. image_mset f (g t))"
  by (induction T rule: infinite_finite_induct) simp_all

lemma chRemoveTUs_ledger:
  assumes wf: "chan_wf x" and eq: "chRemoveTUs x ps = (n, y)"
  shows "chan_wf y" "chRegs y + (\<Sum>p \<in> set ps. chTuRegs x p) = chRegs x"
    "chTuRegs y q = (if q \<in> set ps then {#} else chTuRegs x q)"
    "n = card (set_mset (chRegs x) - set_mset (chRegs y))"
proof -
  let ?T = "toIndexText ` set ps"
  obtain r where U: "unitsReleased x ?T r" and n: "n = cr_removed r" and wf': "chan_wf y"
    and tu: "ch_byTu y = ch_byTu (cr_index r)" and st: "map strip (ch_sites y) = map strip (ch_sites (cr_index r))"
    using chRemoveTUs_released [OF wf eq] .
  let ?M = "\<Sum>t \<in> ?T. mset (um_get (ch_byTu x) t)"
  have R: "chReleased x ?M (SIGMA t:?T. set (um_get (ch_byTu x) t)) r"
    and m: "\<And>t. map_of (ch_byTu (cr_index r)) t = (if t \<in> ?T then None else map_of (ch_byTu x) t)"
    using U by (auto simp: unitsReleased_def)
  note D = chReleasedD [OF R] and E = strip_eq [OF st]
  show "chan_wf y" by (rule wf')
  have len: "length (ch_sites y) = length (ch_sites x)" using E(3) D(2) by simp
  have key: "keyAt y i = keyAt x i" if "i < length (ch_sites x)" for i
    using shape_eq(2) [OF shapes_nth(2) [OF E(1)] unitless_sel(1), of i] D(3) [OF that] that len by (simp add: keyAt_def)
  have refs: "crefs (ch_sites y) + ?M = crefs (ch_sites x)" using E(2) D(4) by simp
  have "chRegs x = image_mset (keyAt y) (crefs (ch_sites x))" using keyAt_cong_regs(1) [where y = y, OF wf key] by simp
  also have "\<dots> = chRegs y + image_mset (keyAt y) ?M" unfolding refs [symmetric] chRegs_def [of y] by simp
  also have "image_mset (keyAt y) ?M = (\<Sum>t \<in> ?T. unitRegs x t)"
    using keyAt_cong_regs(2) [where y = y, OF wf key] by (simp add: image_mset_sum)
  also have "\<dots> = (\<Sum>p \<in> set ps. chTuRegs x p)"
    unfolding chTuRegs_def by (subst sum.reindex) (simp_all add: inj_on_def comp_def)
  finally show sum: "chRegs y + (\<Sum>p \<in> set ps. chTuRegs x p) = chRegs x" by simp
  show "chTuRegs y q = (if q \<in> set ps then {#} else chTuRegs x q)"
  proof (cases "q \<in> set ps")
    case True
    then have "map_of (ch_byTu y) (toIndexText q) = None" using m unfolding tu by simp
    then show ?thesis using True by (simp add: chTuRegs_def unitRegs_def)
  next
    case False
    then have "map_of (ch_byTu y) (toIndexText q) = map_of (ch_byTu x) (toIndexText q)" using m unfolding tu by auto
    then have "um_get (ch_byTu y) (toIndexText q) = um_get (ch_byTu x) (toIndexText q)" by (simp add: um_get_def)
    then show ?thesis using False keyAt_cong_regs(2) [where y = y, OF wf key] by (simp add: chTuRegs_def unitRegs_def [of y])
  qed
  note K = live_keys [OF wf] and K' = live_keys [OF wf']
  have sub: "liveAtIdx y \<subseteq> liveAtIdx x"
  proof
    fix i assume "i \<in> liveAtIdx y"
    then have "i \<in># crefs (ch_sites y)" using chan_wfD(1) [OF wf', of i] by (simp add: in_crefs liveAtIdx_def)
    then have "i \<in># crefs (ch_sites x)" unfolding refs [symmetric] by simp
    then show "i \<in> liveAtIdx x" using chan_wfD(1) [OF wf, of i] by (simp add: in_crefs liveAtIdx_def)
  qed
  have dead: "set (cr_dead r) = liveAtIdx x - liveAtIdx y" "distinct (cr_dead r)" "n = length (cr_dead r)"
    using R n E(5) len by (auto simp: chReleased_def Let_def liveAtIdx_def)
  have "keyAt y ` liveAtIdx y = keyAt x ` liveAtIdx y" using key sub by (auto simp: liveAtIdx_def intro!: image_cong)
  then have "set_mset (chRegs x) - set_mset (chRegs y) = keyAt x ` set (cr_dead r)"
    unfolding K(1) K'(1) dead(1) using inj_on_image_set_diff [OF K(2) _ sub] by simp
  moreover have "inj_on (keyAt x) (set (cr_dead r))" unfolding dead(1) using K(2) by (rule inj_on_diff)
  ultimately show "n = card (set_mset (chRegs x) - set_mset (chRegs y))"
    using dead(2,3) by (simp add: card_image distinct_card)
qed

section \<open>Compaction\<close>

definition newPos :: "StoredSite list \<Rightarrow> nat \<Rightarrow> nat" where
  "newPos ss i = length (filter ssLive (take i ss))"

lemma newPos_append [simp]: "i \<le> length ss \<Longrightarrow> newPos (ss @ xs) i = newPos ss i"
  by (simp add: newPos_def)

lemma newPos_length [simp]: "newPos ss (length ss) = length (filter ssLive ss)"
  by (simp add: newPos_def)

lemma oldToNew_nth: "i < length ss \<Longrightarrow> oldToNew ss n ! i = (if ssLive (ss ! i) then Some (n + newPos ss i) else None)"
  by (induction ss n arbitrary: i rule: oldToNew.induct) (auto simp: newPos_def nth_Cons' take_Cons')

lemma map_newPos_positions:
  assumes "\<And>s. P s \<Longrightarrow> ssLive s"
  shows "map (newPos ss) (positions P ss) = positions P (filter ssLive ss)"
proof (induction ss rule: rev_induct)
  case (snoc s ss)
  have "map (newPos (ss @ [s])) (positions P ss) = map (newPos ss) (positions P ss)"
    by (rule map_cong) (auto simp: set_positions)
  then show ?case using snoc assms by auto
qed simp

lemma newPos_nth:
  assumes "i < length ss" "ssLive (ss ! i)"
  shows "newPos ss i < length (filter ssLive ss)" "filter ssLive ss ! newPos ss i = ss ! i"
proof -
  have "filter ssLive ss = filter ssLive (take i ss @ ss ! i # drop (Suc i) ss)"
    by (rule arg_cong [OF id_take_nth_drop [OF assms(1)]])
  then have "filter ssLive ss = filter ssLive (take i ss) @ ss ! i # filter ssLive (drop (Suc i) ss)"
    using assms(2) by simp
  then show "newPos ss i < length (filter ssLive ss)" "filter ssLive ss ! newPos ss i = ss ! i"
    by (simp_all add: newPos_def)
qed

lemma newPos_bij:
  shows "j < length (filter ssLive ss) \<Longrightarrow> \<exists>i < length ss. ssLive (ss ! i) \<and> newPos ss i = j"
    and "inj_on (newPos ss) {i. i < length ss \<and> ssLive (ss ! i)}"
proof -
  have "positions ssLive (filter ssLive ss) = [0..<length (filter ssLive ss)]"
    unfolding positions_def by (rule filter_True) (use nth_mem [of _ "filter ssLive ss"] in auto)
  then have m: "map (newPos ss) (positions ssLive ss) = [0..<length (filter ssLive ss)]"
    using map_newPos_positions [of ssLive ss] by simp
  show "\<exists>i < length ss. ssLive (ss ! i) \<and> newPos ss i = j" if "j < length (filter ssLive ss)"
  proof -
    have "j \<in> set (map (newPos ss) (positions ssLive ss))" unfolding m using that by simp
    then show ?thesis by (auto simp: set_positions)
  qed
  have "distinct (map (newPos ss) (positions ssLive ss))" unfolding m by simp
  then show "inj_on (newPos ss) {i. i < length ss \<and> ssLive (ss ! i)}" by (simp add: distinct_map set_positions)
qed

lemma crefs_filter:
  assumes "\<forall>s \<in> set ss. ssLive s \<longleftrightarrow> 0 < ssRefs s"
  shows "crefs (filter ssLive ss) = image_mset (newPos ss) (crefs ss)"
  using assms
proof (induction ss rule: rev_induct)
  case (snoc s ss)
  have "image_mset (newPos (ss @ [s])) (crefs ss) = image_mset (newPos ss) (crefs ss)"
    by (rule image_mset_cong) (auto simp: in_crefs)
  then show ?case using snoc by (auto simp: crefs_append)
qed (simp add: crefs_def)

text \<open>Re-keyed maps: every list goes through the renumbering, and empty ones are dropped.\<close>

lemma remapInto_map:
  assumes "um_ok src"
  shows "um_ok (remapInto remap src)"
    "map_of (remapInto remap src) k = (case map_of src k of None \<Rightarrow> None
       | Some v \<Rightarrow> if List.map_filter (\<lambda>i. remap ! i) v = [] then None else Some (List.map_filter (\<lambda>i. remap ! i) v))"
  using assms
proof (induction src rule: rev_induct)
  case Nil
  { case 1 show ?case by (simp add: remapInto_def)
  next case 2 show ?case by (simp add: remapInto_def) }
next
  case (snoc a src)
  obtain u v where a: "a = (u, v)" by (cases a)
  have step: "remapInto remap (src @ [a]) = (if List.map_filter (\<lambda>i. remap ! i) v = [] then remapInto remap src
      else um_emplace (remapInto remap src) u (List.map_filter (\<lambda>i. remap ! i) v))"
    by (simp add: remapInto_def a Let_def)
  { case 1
    then have "um_ok src" by (simp add: um_ok_def)
    then show ?case using snoc.IH(1) step by simp
  next
    case 2
    then have ok: "um_ok src" and u: "map_of src u = None" by (auto simp: um_ok_def a map_of_eq_None_iff)
    show ?case unfolding step using snoc.IH(2) [OF ok] u by (auto simp: a map_add_def split: option.splits) }
qed

lemma remapIndex_map:
  assumes "um_ok src"
  shows "um_ok (remapIndex remap src)" "map_of (remapIndex remap src) k = Option.bind (map_of src k) (\<lambda>i. remap ! i)"
  using assms
proof (induction src rule: rev_induct)
  case Nil
  { case 1 show ?case by (simp add: remapIndex_def)
  next case 2 show ?case by (simp add: remapIndex_def) }
next
  case (snoc a src)
  obtain u i where a: "a = (u, i)" by (cases a)
  have step: "remapIndex remap (src @ [a]) = (case remap ! i of None \<Rightarrow> remapIndex remap src | Some n \<Rightarrow> um_emplace (remapIndex remap src) u n)"
    by (simp add: remapIndex_def a split: option.split)
  { case 1
    then have "um_ok src" by (simp add: um_ok_def)
    then show ?case using snoc.IH(1) step by (simp split: option.split)
  next
    case 2
    then have ok: "um_ok src" and u: "map_of src u = None" by (auto simp: um_ok_def a map_of_eq_None_iff)
    show ?case unfolding step using snoc.IH(2) [OF ok] u by (auto simp: a map_add_def split: option.splits) }
qed

lemma map_filter_live:
  assumes "\<forall>i \<in> set v. i < length ss \<and> ssLive (ss ! i)"
  shows "List.map_filter (\<lambda>i. oldToNew ss 0 ! i) v = map (newPos ss) v"
  using assms by (induction v) (simp_all add: map_filter_simps oldToNew_nth)

lemma remapInto_live:
  assumes ok: "um_ok m" and live: "\<And>k i. i \<in> set (um_get m k) \<Longrightarrow> i < length ss \<and> ssLive (ss ! i)"
  shows "um_get (remapInto (oldToNew ss 0) m) k = map (newPos ss) (um_get m k)"
    "map_of (remapInto (oldToNew ss 0) m) k \<noteq> Some []" "map_of m k = None \<Longrightarrow> map_of (remapInto (oldToNew ss 0) m) k = None"
proof -
  have "List.map_filter (\<lambda>i. oldToNew ss 0 ! i) v = map (newPos ss) v" if "map_of m k = Some v" for v
    using live [of _ k] that by (intro map_filter_live) simp
  then show "um_get (remapInto (oldToNew ss 0) m) k = map (newPos ss) (um_get m k)"
    "map_of (remapInto (oldToNew ss 0) m) k \<noteq> Some []" "map_of m k = None \<Longrightarrow> map_of (remapInto (oldToNew ss 0) m) k = None"
    using remapInto_map(2) [OF ok, of "oldToNew ss 0" k] by (auto simp: um_get_def split: option.splits if_splits)
qed

lemma listed_compact:
  assumes "listed sel ss m"
  shows "listed sel (filter ssLive ss) (remapInto (oldToNew ss 0) m)"
proof -
  let ?P = "\<lambda>k s. ssLive s \<and> sel (ssSite s) = Some k"
  have ok: "um_ok m" and get: "\<And>k. um_get m k = positions (?P k) ss" using assms by (auto simp: listed_def)
  have live: "i < length ss \<and> ssLive (ss ! i)" if "i \<in> set (um_get m k)" for i k using that get by (auto simp: set_positions)
  show ?thesis using remapInto_map(1) [OF ok] remapInto_live [OF ok live] get map_newPos_positions [of "?P _" ss]
    by (simp add: listed_def)
qed

lemma indexed_compact:
  assumes "indexed ss m"
  shows "indexed (filter ssLive ss) (remapIndex (oldToNew ss 0) m)"
proof -
  have ok: "um_ok m" using assms by (simp add: indexed_def)
  have "map_of (remapIndex (oldToNew ss 0) m) k = Some j \<longleftrightarrow>
      j < length (filter ssLive ss) \<and> ssLive (filter ssLive ss ! j) \<and> siteKey (ssSite (filter ssLive ss ! j)) = k" for k j
  proof
    assume "map_of (remapIndex (oldToNew ss 0) m) k = Some j"
    then obtain i where i: "map_of m k = Some i" "oldToNew ss 0 ! i = Some j"
      using remapIndex_map(2) [OF ok] by (auto simp: bind_eq_Some_conv)
    then have "i < length ss" "ssLive (ss ! i)" "siteKey (ssSite (ss ! i)) = k" using indexedD [OF assms] by auto
    with i(2) newPos_nth [of i ss] show "j < length (filter ssLive ss) \<and> ssLive (filter ssLive ss ! j) \<and> siteKey (ssSite (filter ssLive ss ! j)) = k"
      by (auto simp: oldToNew_nth)
  next
    assume j: "j < length (filter ssLive ss) \<and> ssLive (filter ssLive ss ! j) \<and> siteKey (ssSite (filter ssLive ss ! j)) = k"
    then obtain i where i: "i < length ss" "ssLive (ss ! i)" "newPos ss i = j" using newPos_bij(1) by blast
    then have "map_of m k = Some i" using j newPos_nth(2) [OF i(1,2)] indexedD [OF assms] by simp
    then show "map_of (remapIndex (oldToNew ss 0) m) k = Some j" using i remapIndex_map(2) [OF ok] by (simp add: oldToNew_nth)
  qed
  then show ?thesis using remapIndex_map(1) [OF ok] by (simp add: indexed_def)
qed

lemma tuMset_compact:
  assumes "um_ok m" "\<And>k i. i \<in> set (um_get m k) \<Longrightarrow> i < length ss \<and> ssLive (ss ! i)"
  shows "tuMset (remapInto (oldToNew ss 0) m) = image_mset (newPos ss) (tuMset m)"
  using assms
proof (induction m rule: rev_induct)
  case (snoc a m)
  obtain u v where a: "a = (u, v)" by (cases a)
  have ok: "um_ok m" and u: "map_of m u = None" using snoc.prems(1) by (auto simp: um_ok_def a map_of_eq_None_iff)
  have get: "um_get (m @ [a]) k = (if k = u then v else um_get m k)" for k
    using u by (auto simp: a um_get_def map_add_def split: option.split)
  have live: "i < length ss \<and> ssLive (ss ! i)" if "i \<in> set (um_get m k)" for i k
    using snoc.prems(2) [of i k] that u get [of k] by (cases "k = u") simp_all
  have v: "List.map_filter (\<lambda>i. oldToNew ss 0 ! i) v = map (newPos ss) v"
    using snoc.prems(2) [of _ u] get [of u] by (intro map_filter_live) simp
  have step: "remapInto (oldToNew ss 0) (m @ [a]) = (if v = [] then remapInto (oldToNew ss 0) m
      else um_emplace (remapInto (oldToNew ss 0) m) u (map (newPos ss) v))"
    using v by (simp add: remapInto_def a Let_def)
  have none: "map_of (remapInto (oldToNew ss 0) m) u = None" by (rule remapInto_live(3) [OF ok live u])
  have "tuMset (um_emplace (remapInto (oldToNew ss 0) m) u (map (newPos ss) v)) = tuMset (remapInto (oldToNew ss 0) m) + image_mset (newPos ss) (mset v)"
    using tuMset_put [OF remapInto_map(1) [OF ok], of "oldToNew ss 0" u "map (newPos ss) v"] none by (simp add: um_emplace_def)
  then show ?case unfolding step using snoc.IH [OF ok live] by (simp add: a tuMset_def)
qed (simp add: remapInto_def)

lemma chCompact_ledger:
  assumes wf: "chan_wf x"
  shows "chan_wf (chCompact x)" "chRegs (chCompact x) = chRegs x" "unitRegs (chCompact x) t = unitRegs x t"
    "allSites (chCompact x) = allSites x" "length (ch_sites (chCompact x)) = ch_liveCount x"
proof -
  let ?ss = "ch_sites x" and ?y = "chCompact x" and ?m = "ch_byTu x"
  note W = chan_wfD [OF wf]
  have live: "\<forall>s \<in> set ?ss. ssLive s \<longleftrightarrow> 0 < ssRefs s" using wf by (simp add: chan_wf_def)
  have y: "ch_sites ?y = filter ssLive ?ss" "ch_index ?y = remapIndex (oldToNew ?ss 0) (ch_index x)"
    "ch_byChannel ?y = remapInto (oldToNew ?ss 0) (ch_byChannel x)" "ch_byFunctionUsr ?y = remapInto (oldToNew ?ss 0) (ch_byFunctionUsr x)"
    "ch_byFunctionDisplay ?y = remapInto (oldToNew ?ss 0) (ch_byFunctionDisplay x)" "ch_byTu ?y = remapInto (oldToNew ?ss 0) ?m"
    "ch_liveCount ?y = ch_liveCount x"
    by (simp_all add: chCompact_def Let_def)
  have ok: "um_ok ?m" and sub: "tuMset ?m \<subseteq># crefs ?ss" and nil: "map_of ?m [] = None" using W(6) by (simp_all add: registered_def)
  have tu: "i < length ?ss \<and> ssLive (?ss ! i)" if "i \<in> set (um_get ?m k)" for i k
    using registered_in(1,2) [OF W(6) that] W(1) by simp
  have get: "um_get (ch_byTu ?y) k = map (newPos ?ss) (um_get ?m k)" for k unfolding y by (rule remapInto_live(1) [OF ok tu])
  have crefs: "crefs (filter ssLive ?ss) = image_mset (newPos ?ss) (crefs ?ss)" by (rule crefs_filter [OF live])
  have con: "contributors (ch_byTu ?y) (newPos ?ss i) = contributors ?m i" if "i < length ?ss" "ssLive (?ss ! i)" for i
  proof -
    have "newPos ?ss i \<in> newPos ?ss ` set (um_get ?m k) \<longleftrightarrow> i \<in> set (um_get ?m k)" for k
      by (rule inj_on_image_mem_iff [OF newPos_bij(2)]) (use that tu in auto)
    then show ?thesis by (simp add: contributors_def get)
  qed
  have tm: "tuMset (remapInto (oldToNew ?ss 0) ?m) = image_mset (newPos ?ss) (tuMset ?m)" by (rule tuMset_compact [OF ok tu])
  show "chan_wf ?y"
  proof (rule chan_wfI)
    show "\<forall>s \<in> set (ch_sites ?y). ssLive s \<longleftrightarrow> 0 < ssRefs s" using live by (auto simp: y)
    show "indexed (ch_sites ?y) (ch_index ?y)" unfolding y by (rule indexed_compact [OF W(2)])
    show "listed (Some \<circ> channelId) (ch_sites ?y) (ch_byChannel ?y)" unfolding y by (rule listed_compact [OF W(3)])
    show "listed (Some \<circ> siteFunctionUsr) (ch_sites ?y) (ch_byFunctionUsr ?y)" unfolding y by (rule listed_compact [OF W(4)])
    show "listed displayOf (ch_sites ?y) (ch_byFunctionDisplay ?y)" unfolding y by (rule listed_compact [OF W(5)])
    show "ch_liveCount ?y = length (filter ssLive (ch_sites ?y))" using W(7) by (simp add: y)
    have "tuAt (filter ssLive ?ss) j = leastTu (contributors (ch_byTu ?y) j)" if j: "j < length (filter ssLive ?ss)" for j
    proof -
      obtain i where i: "i < length ?ss" "ssLive (?ss ! i)" "newPos ?ss i = j" using newPos_bij(1) [OF j] by blast
      then show ?thesis using con newPos_nth(2) [OF i(1,2)] W(6) by (auto simp: registered_def)
    qed
    moreover have "tuMset (ch_byTu ?y) \<subseteq># crefs (ch_sites ?y)"
      unfolding y(1,6) crefs tm using sub by (rule image_mset_subseteq_mono)
    moreover have "um_ok (ch_byTu ?y)" "map_of (ch_byTu ?y) [] = None"
      unfolding y using remapInto_map(1) [OF ok] remapInto_live(3) [OF ok tu nil] by auto
    ultimately show "registered (ch_sites ?y) (ch_byTu ?y)" by (simp add: registered_def y(1))
  qed
  have key: "keyAt ?y (newPos ?ss i) = keyAt x i" if "i < length ?ss" "ssLive (?ss ! i)" for i
    using newPos_nth(2) [OF that] by (simp add: keyAt_def y)
  have "image_mset (keyAt ?y \<circ> newPos ?ss) (crefs ?ss) = chRegs x"
    unfolding chRegs_def using key W(1) by (intro image_mset_cong) (simp add: in_crefs)
  then show "chRegs ?y = chRegs x" by (simp add: chRegs_def [of ?y] y(1) crefs multiset.map_comp)
  have "image_mset (keyAt ?y \<circ> newPos ?ss) (mset (um_get ?m t)) = unitRegs x t"
    unfolding unitRegs_def using key tu by (intro image_mset_cong) simp
  then show "unitRegs ?y t = unitRegs x t" by (simp add: unitRegs_def [of ?y] get multiset.map_comp flip: mset_map)
  show "allSites ?y = allSites x" "length (ch_sites ?y) = ch_liveCount x" using W(7) by (simp_all add: allSites_def y)
qed

end
