(* ===== verification/ChannelIndexProps.thy ===== *)
theory ChannelIndexProps
  imports ChannelIndexRemove
begin

text \<open>
  The channel index is a ledger of registrations, like the edges of the call graph: the locale \<open>edge_ledger\<close> is
  interpreted a second time, on the operations of the channel index, and gives the facts about re-indexing units.
  The queries read the list of live sites.
\<close>

section \<open>The ledger contract\<close>

definition recordSite :: "channel_index \<Rightarrow> ChannelSite \<Rightarrow> string \<Rightarrow> channel_index" where
  "recordSite x s p = addSite x (s\<lparr>siteTuPath := p\<rparr>)"

definition chRemoved :: "channel_index \<Rightarrow> string list \<Rightarrow> channel_index" where
  "chRemoved x ps = snd (chRemoveTUs x ps)"

definition keyText :: "ChannelSite \<Rightarrow> SiteKey" where
  "keyText s = siteKey (siteIndexText s)"

lemma toIndexText_Nil_iff [simp]: "toIndexText s = [] \<longleftrightarrow> s = []"
proof -
  have "toIndexText [] = []" by code_simp
  then show ?thesis using toIndexText_inject [of s "[]"] by metis
qed

lemma recordSite_ledger:
  assumes "chan_wf x"
  shows "chan_wf (recordSite x s p)" "chRegs (recordSite x s p) = add_mset (keyText s) (chRegs x)"
    "chTuRegs (recordSite x s p) q = (if p \<noteq> [] \<and> q = p then add_mset (keyText s) (chTuRegs x q) else chTuRegs x q)"
proof -
  have k: "siteKey (siteIndexText (s\<lparr>siteTuPath := p\<rparr>)) = keyText s" "siteTuPath (siteIndexText (s\<lparr>siteTuPath := p\<rparr>)) = toIndexText p"
    by (simp_all add: keyText_def siteKey_def siteIndexText_def)
  note L = addSiteRefs_ledger [OF assms, where s = "siteIndexText (s\<lparr>siteTuPath := p\<rparr>)" and n = 1]
  show "chan_wf (recordSite x s p)" "chRegs (recordSite x s p) = add_mset (keyText s) (chRegs x)"
    "chTuRegs (recordSite x s p) q = (if p \<noteq> [] \<and> q = p then add_mset (keyText s) (chTuRegs x q) else chTuRegs x q)"
    using L unfolding recordSite_def addSite_def chTuRegs_def k by simp_all
qed

lemma chRemoved_ledger:
  assumes "chan_wf x"
  shows "chan_wf (chRemoved x ps)" "chRegs (chRemoved x ps) + (\<Sum>p \<in> set ps. chTuRegs x p) = chRegs x"
    "chTuRegs (chRemoved x ps) q = (if q \<in> set ps then {#} else chTuRegs x q)"
  using chRemoveTUs_ledger [OF assms, of ps "fst (chRemoveTUs x ps)" "chRemoved x ps"] by (simp_all add: chRemoved_def)

interpretation chl: edge_ledger chan_wf chRegs chTuRegs recordSite keyText absorbChannels chRemoved chCompact
proof unfold_locales
  fix g h :: channel_index and e p q ps
  assume g: "chan_wf g"
  note R = recordSite_ledger [OF g] and D = chRemoved_ledger [OF g] and S = chCompact_ledger [OF g]
  show "chan_wf (recordSite g e p)" "chRegs (recordSite g e p) = add_mset (keyText e) (chRegs g)"
    "chTuRegs (recordSite g e p) q = (if p \<noteq> [] \<and> q = p then add_mset (keyText e) (chTuRegs g q) else chTuRegs g q)"
    by (rule R)+
  show "chan_wf (chRemoved g ps)" "chTuRegs (chRemoved g ps) q = (if q \<in> set ps then {#} else chTuRegs g q)" by (rule D)+
  show "(\<Sum>p \<in> set ps. chTuRegs g p) \<subseteq># chRegs g" using D(2) [of ps] by (metis mset_subset_eq_add_right)
  show "chRegs (chRemoved g ps) = chRegs g - (\<Sum>p \<in> set ps. chTuRegs g p)" using D(2) [of ps] by (metis add_diff_cancel_right')
  show "chan_wf (chCompact g)" "chRegs (chCompact g) = chRegs g" by (rule S)+
  show "chTuRegs (chCompact g) q = chTuRegs g q" unfolding chTuRegs_def by (rule S)
  assume "chan_wf h"
  note A = absorb_channels_ledger [OF g this]
  show "chan_wf (absorbChannels g h)" "chRegs (absorbChannels g h) = chRegs g + chRegs h" by (rule A)+
  show "chTuRegs (absorbChannels g h) q = chTuRegs g q + chTuRegs h q" unfolding chTuRegs_def by (rule A)
qed

lemma chan_wf_empty: "chan_wf emptyChannels"
  by (simp add: chan_wf_def emptyChannels_def indexed_def listed_def registered_def)

lemma empty_channels [simp]: "chRegs emptyChannels = {#}" "chTuRegs emptyChannels p = {#}"
  by (simp_all add: chRegs_def chTuRegs_def unitRegs_def emptyChannels_def crefs_def)

section \<open>Reading the sites\<close>

lemma sitesAt_positions:
  assumes "\<And>s. Q s \<Longrightarrow> ssLive s"
  shows "sitesAt x P (positions Q (ch_sites x)) = map ssSite (filter (\<lambda>s. P s \<and> Q s) (ch_sites x))"
  unfolding sitesAt_def map_nth_positions filter_filter by (intro arg_cong [where f = "map ssSite"] filter_cong) (use assms in auto)

lemma listed_lookup:
  assumes "listed sel (ch_sites x) m"
  shows "(case map_of m k of None \<Rightarrow> [] | Some v \<Rightarrow> sitesAt x P v) =
    map ssSite (filter (\<lambda>s. P s \<and> ssLive s \<and> sel (ssSite s) = Some k) (ch_sites x))"
proof -
  have "(case map_of m k of None \<Rightarrow> [] | Some v \<Rightarrow> sitesAt x P v) = sitesAt x P (um_get m k)"
    by (cases "map_of m k") (simp_all add: sitesAt_def)
  also have "um_get m k = positions (\<lambda>s. ssLive s \<and> sel (ssSite s) = Some k) (ch_sites x)" using assms by (simp add: listed_def)
  finally show ?thesis using sitesAt_positions [of "\<lambda>s. ssLive s \<and> sel (ssSite s) = Some k" x P] by simp
qed

lemma filter_allSites: "filter P (allSites x) = map ssSite (filter (\<lambda>s. ssLive s \<and> P (ssSite s)) (ch_sites x))"
  by (simp add: allSites_def filter_map comp_def conj_commute)

lemma allSites_idx: "s \<in> set (allSites x) \<longleftrightarrow> (\<exists>i \<in> liveAtIdx x. s = ssSite (ch_sites x ! i))"
  by (auto simp: allSites_def liveAtIdx_def in_set_conv_nth)

lemma contributors_regs:
  assumes wf: "chan_wf x" and i: "i \<in> liveAtIdx x"
  shows "contributors (ch_byTu x) i = {t. keyAt x i \<in># unitRegs x t}"
proof -
  have "j \<in> liveAtIdx x" if "j \<in> set (um_get (ch_byTu x) t)" for j t
    using registered_in(1,2) [OF chan_wfD(6) [OF wf] that] chan_wfD(1) [OF wf] by (simp add: liveAtIdx_def)
  then have "keyAt x i \<in> keyAt x ` set (um_get (ch_byTu x) t) \<longleftrightarrow> i \<in> set (um_get (ch_byTu x) t)" for t
    by (intro inj_on_image_mem_iff [OF live_keys(2) [OF wf] i]) auto
  then show ?thesis by (simp add: contributors_def unitRegs_def)
qed

text \<open>
  C27: the channel index counts registrations. Adding a site under a unit adds one registration of its key, in
  total and for the unit; merging a shard adds the shard's ledger, whichever sites the two share; removing units
  subtracts exactly what they registered and returns the number of sites that vanish; compaction changes
  nothing but the storage, which then holds the live sites only. Every operation keeps the invariant.
\<close>

theorem channels_ledger:
  assumes x: "chan_wf x" and y: "chan_wf y" and removed: "chRemoveTUs x ps = (n, z)"
  shows "chan_wf (recordSite x s p) \<and> chRegs (recordSite x s p) = add_mset (keyText s) (chRegs x) \<and>
      chTuRegs (recordSite x s p) q = (if p \<noteq> [] \<and> q = p then add_mset (keyText s) (chTuRegs x q) else chTuRegs x q) \<and>
    chan_wf (absorbChannels x y) \<and> chRegs (absorbChannels x y) = chRegs x + chRegs y \<and>
      chTuRegs (absorbChannels x y) q = chTuRegs x q + chTuRegs y q \<and>
    chan_wf z \<and> chRegs z + (\<Sum>p \<in> set ps. chTuRegs x p) = chRegs x \<and>
      chTuRegs z q = (if q \<in> set ps then {#} else chTuRegs x q) \<and> n = card (set_mset (chRegs x) - set_mset (chRegs z)) \<and>
    chan_wf (chCompact x) \<and> chRegs (chCompact x) = chRegs x \<and> chTuRegs (chCompact x) q = chTuRegs x q \<and>
      allSites (chCompact x) = allSites x \<and> length (ch_sites (chCompact x)) = ch_liveCount x"
  using recordSite_ledger [OF x] absorb_channels_ledger(1,2) [OF x y] chl.unit_merge [OF x y] chRemoveTUs_ledger [OF x removed]
    chCompact_ledger(1,2,4,5) [OF x] chl.unit_squeeze [OF x]
  by (intro conjI) blast+

text \<open>
  C28: the queries of the channel index read the list of live sites: the sites of a channel by role, the sites of
  a function by usr and then by a display name that differs from it, the channel ids, and the size. A site is
  listed once per key, exactly for the keys with a registration, and reports the least of the units that
  registered it.
\<close>

theorem channel_queries:
  assumes wf: "chan_wf x"
  shows "producersOf isUTF8 x c = filter (\<lambda>s. channelId s = lookupText isUTF8 c \<and> chanOp s = Produce) (allSites x) \<and>
    consumersOf isUTF8 x c = filter (\<lambda>s. channelId s = lookupText isUTF8 c \<and> chanOp s = Consume) (allSites x) \<and>
    sitesForFunction isUTF8 x f = filter (\<lambda>s. siteFunctionUsr s = lookupText isUTF8 f) (allSites x) @
      filter (\<lambda>s. siteFunctionDisplay s = lookupText isUTF8 f \<and> siteFunctionUsr s \<noteq> lookupText isUTF8 f) (allSites x) \<and>
    set (allChannelIds x) = channelId ` set (allSites x) \<and> distinct (allChannelIds x) \<and>
    ch_liveCount x = length (allSites x) \<and> distinct (map siteKey (allSites x)) \<and>
    siteKey ` set (allSites x) = set_mset (chRegs x) \<and>
    (\<forall>s \<in> set (allSites x). siteTuPath s = leastTu {t. siteKey s \<in># unitRegs x t})"
proof (intro conjI)
  note W = chan_wfD [OF wf] and K = live_keys [OF wf]
  show "producersOf isUTF8 x c = filter (\<lambda>s. channelId s = lookupText isUTF8 c \<and> chanOp s = Produce) (allSites x)"
    "consumersOf isUTF8 x c = filter (\<lambda>s. channelId s = lookupText isUTF8 c \<and> chanOp s = Consume) (allSites x)"
    unfolding producersOf_def consumersOf_def filter_allSites listed_lookup [OF W(3)]
    by (auto intro!: arg_cong [where f = "map ssSite"] filter_cong)
  show "sitesForFunction isUTF8 x f = filter (\<lambda>s. siteFunctionUsr s = lookupText isUTF8 f) (allSites x) @
      filter (\<lambda>s. siteFunctionDisplay s = lookupText isUTF8 f \<and> siteFunctionUsr s \<noteq> lookupText isUTF8 f) (allSites x)"
    unfolding sitesForFunction_def Let_def filter_allSites listed_lookup [OF W(4)] listed_lookup [OF W(5)]
    by (intro arg_cong2 [where f = append] arg_cong [where f = "map ssSite"] filter_cong) (auto simp: displayOf_def)
  have all: "map siteKey (allSites x) = map (\<lambda>i. keyAt x i) (positions ssLive (ch_sites x))"
    using arg_cong [OF map_nth_positions [of "ch_sites x" ssLive], of "map (siteKey \<circ> ssSite)"]
    by (simp add: allSites_def keyAt_def comp_def)
  have pos: "set (positions ssLive (ch_sites x)) = liveAtIdx x" by (auto simp: set_positions liveAtIdx_def)
  show "distinct (map siteKey (allSites x))" unfolding all using K(2) pos by (simp add: distinct_map positions_def)
  show "siteKey ` set (allSites x) = set_mset (chRegs x)"
    using arg_cong [OF all, of set] unfolding K(1) by (simp add: pos)
  show "ch_liveCount x = length (allSites x)" using W(7) by (simp add: allSites_def)
  have mem: "(c, v) \<in> set (ch_byChannel x) \<longleftrightarrow> map_of (ch_byChannel x) c = Some v" for c v
    using W(3) by (simp add: listed_def um_ok_def)
  have chan: "set v \<subseteq> liveAtIdx x \<and> v \<noteq> [] \<and> (\<forall>i \<in> set v. channelId (ssSite (ch_sites x ! i)) = c)" if "map_of (ch_byChannel x) c = Some v" for c v
    using W(3) that um_get_Some [OF that] by (auto simp: listed_def set_positions liveAtIdx_def)
  have found: "\<exists>v. map_of (ch_byChannel x) c = Some v" if "i \<in> liveAtIdx x" "channelId (ssSite (ch_sites x ! i)) = c" for i c
  proof (rule ccontr)
    assume "\<nexists>v. map_of (ch_byChannel x) c = Some v"
    then have "um_get (ch_byChannel x) c = []" by simp
    then have "i \<notin> set (positions (\<lambda>s. ssLive s \<and> (Some \<circ> channelId) (ssSite s) = Some c) (ch_sites x))"
      using W(3) by (simp add: listed_def)
    with that show False by (simp add: set_positions liveAtIdx_def)
  qed
  have ex: "list_ex (\<lambda>i. ssLive (ch_sites x ! i)) v" if "(c, v) \<in> set (ch_byChannel x)" for c v
    using chan [of c v] that unfolding mem by (cases v) (auto simp: liveAtIdx_def)
  then have "filter (\<lambda>(c, v). list_ex (\<lambda>i. ssLive (ch_sites x ! i)) v) (ch_byChannel x) = ch_byChannel x"
    by (intro filter_True) auto
  then have ids: "allChannelIds x = map fst (ch_byChannel x)" by (simp add: allChannelIds_def)
  show "distinct (allChannelIds x)" unfolding ids using W(3) by (simp add: listed_def um_ok_def)
  show "set (allChannelIds x) = channelId ` set (allSites x)"
  proof (intro equalityI subsetI)
    fix c assume "c \<in> set (allChannelIds x)"
    then obtain v where v: "map_of (ch_byChannel x) c = Some v" unfolding ids using mem by auto
    then obtain i where "i \<in> set v" "i \<in> liveAtIdx x" "channelId (ssSite (ch_sites x ! i)) = c"
      using chan [OF v] by (cases v) auto
    then show "c \<in> channelId ` set (allSites x)" using allSites_idx by blast
  next
    fix c assume "c \<in> channelId ` set (allSites x)"
    then obtain s where "s \<in> set (allSites x)" "channelId s = c" by blast
    then obtain i where "i \<in> liveAtIdx x" "channelId (ssSite (ch_sites x ! i)) = c" unfolding allSites_idx by blast
    then show "c \<in> set (allChannelIds x)" unfolding ids using found mem by (metis image_eqI fst_conv list.set_map)
  qed
  show "\<forall>s \<in> set (allSites x). siteTuPath s = leastTu {t. siteKey s \<in># unitRegs x t}"
  proof
    fix s assume "s \<in> set (allSites x)"
    then obtain i where i: "i \<in> liveAtIdx x" "s = ssSite (ch_sites x ! i)" using allSites_idx by blast
    then have "siteTuPath s = leastTu (contributors (ch_byTu x) i)" using W(6) by (simp add: registered_def liveAtIdx_def)
    then show "siteTuPath s = leastTu {t. siteKey s \<in># unitRegs x t}"
      unfolding contributors_regs [OF wf i(1)] using i(2) by (simp add: keyAt_def)
  qed
qed

text \<open>The 32-bit count of a site does not wrap while the number of registrations fits 32 bits.\<close>

lemma ssRefs_le_chRegs:
  assumes "s \<in> set (ch_sites x)"
  shows "ssRefs s \<le> size (chRegs x)"
proof -
  obtain i where "i < length (ch_sites x)" "ch_sites x ! i = s" using assms by (metis in_set_conv_nth)
  then have "ssRefs s = count (crefs (ch_sites x)) i" by (simp add: count_crefs)
  also have "\<dots> \<le> size (chRegs x)" by (simp add: chRegs_def count_le_size)
  finally show ?thesis .
qed

section \<open>Re-indexing\<close>

definition channelShard :: "string \<Rightarrow> ChannelSite list \<Rightarrow> channel_index" where
  "channelShard p ss = fold (\<lambda>s x. recordSite x s p) ss emptyChannels"

lemma channelShard_ledger:
  "p \<noteq> [] \<Longrightarrow> chan_wf (channelShard p ss) \<and> chRegs (channelShard p ss) = image_mset keyText (mset ss) \<and>
    chTuRegs (channelShard p ss) q = (if q = p then image_mset keyText (mset ss) else {#})"
  unfolding channelShard_def using chl.ok_fold_record [OF chan_wf_empty, of p ss] chl.fold_record [OF chan_wf_empty, of p ss] by simp

text \<open>
  Re-indexing a unit: merging the shard of its old sites, removing the unit and merging the shard of its new
  sites gives the ledger that merging only the new shard gives, when the index held nothing of the unit before.
\<close>

theorem channels_reindex:
  assumes "chan_wf x" and "p \<noteq> []" and "chTuRegs x p = {#}"
  shows "chRegs (absorbChannels (snd (chRemoveTU (absorbChannels x (channelShard p old)) p)) (channelShard p new)) =
      chRegs (absorbChannels x (channelShard p new)) \<and>
    chTuRegs (absorbChannels (snd (chRemoveTU (absorbChannels x (channelShard p old)) p)) (channelShard p new)) =
      chTuRegs (absorbChannels x (channelShard p new))"
proof -
  note S = channelShard_ledger [OF assms(2)]
  have "chl.only_unit (channelShard p old) p" using S by (simp add: chl.only_unit_def)
  from chl.replace_unit [OF assms(1) _ _ this assms(3), of "channelShard p new"] S
  show ?thesis by (simp add: chl.same_def chRemoved_def chRemoveTU_def)
qed

section \<open>Witnesses\<close>

definition sendSite :: "string \<Rightarrow> ChannelSite" where
  "sendSite at' = \<lparr>channelId = ''q'', channelTypeName = ''Queue'', category = ''queue'', chanOp = Produce,
     siteFunctionUsr = ''f'', siteFunctionDisplay = ''f()'', chanCallSite = at', siteGuards = [], siteTuPath = []\<rparr>"

definition twoUnits :: channel_index where
  "twoUnits = absorbChannels (channelShard ''b'' [sendSite ''h:1:1'']) (channelShard ''a'' [sendSite ''h:1:1'', sendSite ''a:2:1''])"

lemma twoUnits_wf: "chan_wf twoUnits"
  unfolding twoUnits_def by (rule chl.ok_merge) (simp_all add: channelShard_ledger)

theorem channels_ledger_witness:
  "fst (chRemoveTUs twoUnits [''a'']) = 1 \<and> map siteTuPath (allSites twoUnits) = [''a'', ''a''] \<and>
   map siteTuPath (allSites (snd (chRemoveTUs twoUnits [''a'']))) = [''b''] \<and> chan_wf (snd (chRemoveTUs twoUnits [''a'']))"
proof -
  have "fst (chRemoveTUs twoUnits [''a'']) = 1 \<and> map siteTuPath (allSites twoUnits) = [''a'', ''a''] \<and>
    map siteTuPath (allSites (snd (chRemoveTUs twoUnits [''a'']))) = [''b'']" by code_simp
  moreover have "chRemoveTUs twoUnits [''a''] = (fst (chRemoveTUs twoUnits [''a'']), snd (chRemoveTUs twoUnits [''a'']))" by simp
  ultimately show ?thesis using channels_ledger [OF twoUnits_wf twoUnits_wf] by blast
qed

theorem channel_queries_witness:
  "producersOf (\<lambda>_. True) twoUnits ''q'' = allSites twoUnits \<and> length (allSites twoUnits) = 2"
proof -
  have "filter (\<lambda>s. channelId s = lookupText (\<lambda>_. True) ''q'' \<and> chanOp s = Produce) (allSites twoUnits) = allSites twoUnits \<and>
    length (allSites twoUnits) = 2" by code_simp
  then show ?thesis using channel_queries [OF twoUnits_wf, of "\<lambda>_. True" "''q''" "''f''"] by simp
qed

theorem channels_reindex_witness:
  "chRegs (absorbChannels (snd (chRemoveTU (absorbChannels emptyChannels (channelShard ''a'' [sendSite ''1''])) ''a''))
     (channelShard ''a'' [sendSite ''2''])) = {#keyText (sendSite ''2'')#}"
  using channels_reindex [OF chan_wf_empty, of "''a''" "[sendSite ''1'']" "[sendSite ''2'']"]
    chl.all_merge [OF chan_wf_empty, of "channelShard ''a'' [sendSite ''2'']"] by (simp add: channelShard_ledger)

end
