(* ===== verification/ContextSignatures.thy ===== *)
theory ContextSignatures
  imports ControlFlow
begin

text \<open>
  Context signatures (\<open>include/vycor/impact/SemanticDiff.h\<close>, \<open>src/impact/SemanticDiff.cpp\<close>): the text that
  stands for a call site's context in a semantic diff, and the table that answers, for an edge, the signature
  of the context \<open>contextForEdge\<close> would choose, built in one pass over the stored contexts. The class
  \<open>ContextSignatures\<close> has its own string table; the sentinel \<open>kAnyCallee\<close> of a fallback key is left out of the
  key, as the fallback table is separate.
\<close>

section \<open>Signatures\<close>

definition noexceptSpecToString :: "NoexceptSpec \<Rightarrow> string" where
  "noexceptSpecToString s = (case s of NoSpec \<Rightarrow> ''none'' | Noexcept \<Rightarrow> ''noexcept'' | NoexceptFalse \<Rightarrow> ''noexcept(false)''
     | ThrowNone \<Rightarrow> ''throw()'' | UnknownSpec \<Rightarrow> ''unknown'')"

text \<open>The separator goes before every element but the first.\<close>

fun joinWith :: "string \<Rightarrow> string list \<Rightarrow> string" where
  "joinWith sep [] = []"
| "joinWith sep [x] = x"
| "joinWith sep (x # y # xs) = x @ sep @ joinWith sep (y # xs)"

definition handlerSig :: "CatchHandlerInfo \<Rightarrow> string" where
  "handlerSig h = (if isCatchAll h then ''...'' else caughtType h) @ (if rethrows h then ''!'' else [])"

definition guardSig :: "ConditionalGuard \<Rightarrow> string" where
  "guardSig g = conditionText g @ (if inTrueBranch g then ''#T'' else ''#F'') @ (if isAssertion g then ''A'' else [])"

definition contextSignature :: "CallSiteContext \<Rightarrow> string" where
  "contextSignature ctx =
     (if enclosingTryCatches ctx = [] then ''protected=0'' else ''protected=1'') @ '';handlers='' @
     joinWith ''|'' (map (\<lambda>scope. joinWith '','' (map handlerSig (handlers scope))) (enclosingTryCatches ctx)) @
     '';noexcept='' @ noexceptSpecToString (callerNoexcept ctx) @
     (if insideCatchBlock ctx then '';inCatch=1'' else '';inCatch=0'') @ '';locks='' @
     joinWith '','' (sort (map typeName (filter (\<lambda>l. raiiKind l = Lock) (liveRaiiLocals ctx)))) @ '';guards='' @
     joinWith ''|'' (map guardSig (enclosingGuards ctx))"

section \<open>The table\<close>

record Choice =
  coCallee :: sid
  coTuPath :: sid
  coCallerName :: sid
  coSignature :: nat

record ContextSignatures =
  cs_strings :: interner
  cs_signatures :: "string list"
  cs_exact :: "(sid \<times> sid \<times> sid, Choice) umap"
  cs_fallback :: "(sid \<times> sid, Choice) umap"
  cs_contexts :: nat

definition beats :: "interner \<Rightarrow> Choice \<Rightarrow> Choice \<Rightarrow> bool" where
  "beats it a b =
     (if coCallee a \<noteq> coCallee b then resolve it (coCallee a) < resolve it (coCallee b)
      else if coTuPath a \<noteq> coTuPath b then resolve it (coTuPath a) < resolve it (coTuPath b)
      else if coCallerName a \<noteq> coCallerName b then resolve it (coCallerName a) < resolve it (coCallerName b)
      else False)"

definition offer :: "interner \<Rightarrow> ('k, Choice) umap \<Rightarrow> 'k \<Rightarrow> Choice \<Rightarrow> ('k, Choice) umap" where
  "offer it tab key c =
     (case map_of tab key of
        None \<Rightarrow> um_put tab key c
      | Some b \<Rightarrow> if beats it c b then um_put tab key c else tab)"

text \<open>The locals of \<open>build\<close>: \<open>remap\<close> caches the own id of each id of the index.\<close>

record sig_state =
  sg_strings :: interner
  sg_remap :: "(sid, sid) umap"
  sg_shapeIds :: "(ContextShape, nat) umap"
  sg_shapes :: "ContextShape list"
  sg_exact :: "(sid \<times> sid \<times> sid, Choice) umap"
  sg_contexts :: nat

definition ownId :: "cf_index \<Rightarrow> sid option \<Rightarrow> sid \<Rightarrow> sig_state \<Rightarrow> sid \<times> sig_state" where
  "ownId cf i noTu st =
     (case i of
        None \<Rightarrow> (noTu, st)
      | Some i \<Rightarrow>
          (case map_of (sg_remap st) i of
             Some j \<Rightarrow> (j, st)
           | None \<Rightarrow>
               let (j, it) = intern (sg_strings st) (stringOf cf i)
               in (j, st\<lparr>sg_strings := it, sg_remap := um_put (sg_remap st) i j\<rparr>)))"

definition shapeId :: "ContextShape \<Rightarrow> sig_state \<Rightarrow> nat \<times> sig_state" where
  "shapeId sh st =
     (case map_of (sg_shapeIds st) sh of
        Some n \<Rightarrow> (n, st)
      | None \<Rightarrow>
          (length (sg_shapes st),
           st\<lparr>sg_shapeIds := um_emplace (sg_shapeIds st) sh (length (sg_shapes st)), sg_shapes := sg_shapes st @ [sh]\<rparr>))"

definition offerRecord :: "cf_index \<Rightarrow> sid \<Rightarrow> ContextRecord \<Rightarrow> sig_state \<Rightarrow> sig_state" where
  "offerRecord cf noTu r st =
     (let st = st\<lparr>sg_contexts := sg_contexts st + 1\<rparr>;
          (sh, st) = shapeId (crShape r) st;
          (callee, st) = ownId cf (Some (crCalleeUsr r)) noTu st;
          (tu, st) = ownId cf (crTuPath r) noTu st;
          (callerName, st) = ownId cf (Some (crCallerName r)) noTu st;
          c = \<lparr>coCallee = callee, coTuPath = tu, coCallerName = callerName, coSignature = sh\<rparr>;
          (site, st) = ownId cf (Some (crCallSite r)) noTu st;
          (byUsr, st) = ownId cf (Some (crCallerUsr r)) noTu st;
          (byName, st) = ownId cf (Some (crCallerName r)) noTu st
      in st\<lparr>sg_exact := fold (\<lambda>caller tab. offer (sg_strings st) tab (site, caller, callee) c)
             (if byUsr = byName then [byUsr] else [byUsr, byName]) (sg_exact st)\<rparr>)"

definition buildSignatures :: "cf_index \<Rightarrow> ContextSignatures" where
  "buildSignatures cf =
     (let (noTu, it) = intern empty_interner [];
          st = fold (offerRecord cf noTu) (allContextRecords cf)
                 \<lparr>sg_strings = it, sg_remap = [], sg_shapeIds = [], sg_shapes = [], sg_exact = [], sg_contexts = 0\<rparr>
      in \<lparr>cs_strings = sg_strings st,
          cs_signatures = map (\<lambda>sh. contextSignature (contextOfShape cf sh)) (sg_shapes st),
          cs_exact = sg_exact st,
          cs_fallback = fold (\<lambda>((site, caller, callee), c) tab. offer (sg_strings st) tab (site, caller) c) (sg_exact st) [],
          cs_contexts = sg_contexts st\<rparr>)"

definition forEdge :: "ContextSignatures \<Rightarrow> string \<Rightarrow> string \<Rightarrow> string \<Rightarrow> string" where
  "forEdge cs callSite callerU calleeU =
     (case findId (cs_strings cs) callSite of
        None \<Rightarrow> ''absent''
      | Some site \<Rightarrow>
          (case findId (cs_strings cs) callerU of
             None \<Rightarrow> ''absent''
           | Some caller \<Rightarrow>
               (case Option.bind (findId (cs_strings cs) calleeU) (\<lambda>callee. map_of (cs_exact cs) (site, caller, callee)) of
                  Some c \<Rightarrow> cs_signatures cs ! coSignature c
                | None \<Rightarrow>
                    (case map_of (cs_fallback cs) (site, caller) of
                       Some c \<Rightarrow> cs_signatures cs ! coSignature c
                     | None \<Rightarrow> ''absent''))))"

end
