(* ===== verification/ContextSignaturesProps.thy ===== *)
theory ContextSignaturesProps
  imports ContextSignatures ControlFlowProps
begin

text \<open>
  The signature table answers what \<open>contextForEdge\<close> would have chosen: for every site, caller and callee the
  signature of the first least matching context, the callee's own contexts preferred.
\<close>

section \<open>The first least element of a list\<close>

definition firstMin :: "('a \<Rightarrow> 'k::linorder) \<Rightarrow> 'a list \<Rightarrow> 'a \<Rightarrow> bool" where
  "firstMin f xs y \<longleftrightarrow> (\<exists>us vs. xs = us @ y # vs \<and> (\<forall>u \<in> set us. f y < f u) \<and> (\<forall>v \<in> set vs. f y \<le> f v))"

lemma firstMin_snoc: "firstMin f xs y \<Longrightarrow> firstMin f (xs @ [x]) (if f x < f y then x else y)"
proof -
  assume "firstMin f xs y"
  then obtain us vs where xs: "xs = us @ y # vs" "\<forall>u \<in> set us. f y < f u" "\<forall>v \<in> set vs. f y \<le> f v"
    by (auto simp: firstMin_def)
  show ?thesis
  proof (cases "f x < f y")
    case True
    then have "\<forall>u \<in> set xs. f x < f u" using xs by (auto intro: less_trans less_le_trans)
    then show ?thesis using True unfolding firstMin_def by (intro exI [of _ xs] exI [of _ "[]"]) auto
  next
    case False
    then show ?thesis using xs unfolding firstMin_def by (intro exI [of _ us] exI [of _ "vs @ [x]"]) auto
  qed
qed

lemma firstMin_single: "firstMin f [x] x"
  unfolding firstMin_def by (intro exI [of _ "[]"]) auto

lemma firstMin_in: "firstMin f xs y \<Longrightarrow> y \<in> set xs"
  by (auto simp: firstMin_def)

lemma firstMin_le: "firstMin f xs y \<Longrightarrow> z \<in> set xs \<Longrightarrow> f y \<le> f z"
  by (auto simp: firstMin_def le_less)

lemma firstMin_filter:
  assumes "firstMin f xs y" "P y"
  shows "firstMin f (filter P xs) y"
proof -
  obtain us vs where xs: "xs = us @ y # vs" "\<forall>u \<in> set us. f y < f u" "\<forall>v \<in> set vs. f y \<le> f v"
    using assms(1) by (auto simp: firstMin_def)
  then show ?thesis using assms(2) unfolding firstMin_def
    by (intro exI [of _ "filter P us"] exI [of _ "filter P vs"]) auto
qed

lemma firstMin_unique: "firstMin f xs y \<Longrightarrow> firstMin f xs z \<Longrightarrow> y = z"
proof -
  assume y: "firstMin f xs y" and z: "firstMin f xs z"
  obtain us vs where 1: "xs = us @ y # vs" "\<forall>u \<in> set us. f y < f u" using y by (auto simp: firstMin_def)
  obtain us' vs' where 2: "xs = us' @ z # vs'" "\<forall>u \<in> set us'. f z < f u" using z by (auto simp: firstMin_def)
  have eq: "f y = f z" using firstMin_le [OF y firstMin_in [OF z]] firstMin_le [OF z firstMin_in [OF y]] by simp
  have first: "takeWhile (\<lambda>w. f w \<noteq> f v) (as @ v # bs) = as" if "\<forall>u \<in> set as. f v < f u" for as v bs
    using that by (subst takeWhile_append2) auto
  have "takeWhile (\<lambda>w. f w \<noteq> f y) xs = us" unfolding 1(1) by (rule first [OF 1(2)])
  moreover have "takeWhile (\<lambda>w. f w \<noteq> f z) xs = us'" unfolding 2(1) by (rule first [OF 2(2)])
  ultimately have "us = us'" using eq by simp
  then have "us @ y # vs = us @ z # vs'" using 1(1) 2(1) by (simp only:)
  then show "y = z" by simp
qed

lemma firstMin_sort: "xs \<noteq> [] \<Longrightarrow> firstMin f xs (hd (sort_key f xs))"
proof (induction xs)
  case (Cons x xs)
  show ?case
  proof (cases "xs = []")
    case False
    let ?m = "hd (sort_key f xs)"
    have m: "firstMin f xs ?m" using Cons.IH False by simp
    then obtain us vs where xs: "xs = us @ ?m # vs" "\<forall>u \<in> set us. f ?m < f u" "\<forall>v \<in> set vs. f ?m \<le> f v"
      by (auto simp: firstMin_def)
    obtain rest where s: "sort_key f xs = ?m # rest" using False by (metis length_0_conv length_sort list.collapse)
    have hd': "hd (sort_key f (x # xs)) = (if f x \<le> f ?m then x else ?m)" unfolding sort_key_simps by (subst s) (subst insort_key.simps, simp)
    show ?thesis
    proof (cases "f x \<le> f ?m")
      case True
      then have "\<forall>v \<in> set xs. f x \<le> f v" using firstMin_le [OF m] by (auto intro: order_trans)
      then show ?thesis unfolding hd' using True unfolding firstMin_def by (intro exI [of _ "[]"] exI [of _ xs]) auto
    next
      case False
      then show ?thesis unfolding hd' using xs unfolding firstMin_def by (intro exI [of _ "x # us"] exI [of _ vs]) auto
    qed
  qed (simp add: firstMin_single)
qed simp

section \<open>The invariant of the walk\<close>

definition siteMatch :: "string \<Rightarrow> string \<Rightarrow> CallSiteContext \<Rightarrow> bool" where
  "siteMatch S C c \<longleftrightarrow> cxCallSite c = S \<and> (cxCallerUsr c = C \<or> cxCallerName c = C)"

definition ctxRank :: "CallSiteContext \<Rightarrow> string \<times> string \<times> string" where
  "ctxRank c = (cxCalleeUsr c, cxTuPath c, cxCallerName c)"

definition exactly :: "string \<Rightarrow> string \<Rightarrow> string \<Rightarrow> CallSiteContext list \<Rightarrow> CallSiteContext list" where
  "exactly S C D = filter (\<lambda>c. siteMatch S C c \<and> cxCalleeUsr c = D)"

definition shapeOf :: "StoredContext \<Rightarrow> ContextShape" where
  "shapeOf se = \<lparr>shScopeSet = scScopeSet se, shGuardSet = scGuardSet se, shRaiiSet = scRaiiSet se,
        shNoexcept = scNoexcept se, shInsideCatch = scInsideCatch se\<rparr>"

definition recordOf :: "StoredContext \<Rightarrow> ContextRecord" where
  "recordOf se = \<lparr>crCallSite = scSite se, crCallerUsr = scCaller se, crCallerName = scCallerDisplay se,
      crCalleeUsr = scCallee se, crTuPath = scTuPath se, crShape = shapeOf se\<rparr>"

text \<open>A choice stands for a context: its strings, and a shape with the same signature.\<close>

definition stands :: "cf_index \<Rightarrow> interner \<Rightarrow> ContextShape list \<Rightarrow> Choice \<Rightarrow> CallSiteContext \<Rightarrow> bool" where
  "stands cf it shapes ch c \<longleftrightarrow>
     coCallee ch < internerSize it \<and> resolve it (coCallee ch) = cxCalleeUsr c \<and>
     coTuPath ch < internerSize it \<and> resolve it (coTuPath ch) = cxTuPath c \<and>
     coCallerName ch < internerSize it \<and> resolve it (coCallerName ch) = cxCallerName c \<and>
     coSignature ch < length shapes \<and> contextSignature (contextOfShape cf (shapes ! coSignature ch)) = contextSignature c"

definition tableOk :: "cf_index \<Rightarrow> CallSiteContext list \<Rightarrow> sig_state \<Rightarrow> bool" where
  "tableOk cf cs st \<longleftrightarrow>
     (\<forall>s c d ch. map_of (sg_exact st) (s, c, d) = Some ch \<longrightarrow>
        s < internerSize (sg_strings st) \<and> c < internerSize (sg_strings st) \<and> d < internerSize (sg_strings st) \<and>
        (\<exists>ctx. firstMin ctxRank (exactly (resolve (sg_strings st) s) (resolve (sg_strings st) c) (resolve (sg_strings st) d) cs) ctx \<and>
           stands cf (sg_strings st) (sg_shapes st) ch ctx)) \<and>
     (\<forall>S C D. exactly S C D cs \<noteq> [] \<longrightarrow> (\<exists>s c d. findId (sg_strings st) S = Some s \<and> findId (sg_strings st) C = Some c \<and>
        findId (sg_strings st) D = Some d \<and> map_of (sg_exact st) (s, c, d) \<noteq> None))"

definition stringsOk :: "cf_index \<Rightarrow> sid \<Rightarrow> sig_state \<Rightarrow> bool" where
  "stringsOk cf noTu st \<longleftrightarrow> interner_wf (sg_strings st) \<and> findId (sg_strings st) [] = Some noTu \<and>
     (\<forall>i j. map_of (sg_remap st) i = Some j \<longrightarrow> findId (sg_strings st) (stringOf cf i) = Some j) \<and>
     (\<forall>sh n. map_of (sg_shapeIds st) sh = Some n \<longleftrightarrow> n < length (sg_shapes st) \<and> sg_shapes st ! n = sh)"

text \<open>A later state with the same table, in which every string keeps its id and every shape its number.\<close>

definition later :: "sig_state \<Rightarrow> sig_state \<Rightarrow> bool" where
  "later st st' \<longleftrightarrow> grows (sg_strings st) (sg_strings st') \<and> sg_exact st' = sg_exact st \<and> (\<exists>extra. sg_shapes st' = sg_shapes st @ extra)"

lemma later_trans: "later a b \<Longrightarrow> later b c \<Longrightarrow> later a c"
  unfolding later_def using grows_trans by (metis append.assoc)

lemma later_refl: "stringsOk cf noTu st \<Longrightarrow> later st st"
  by (simp add: later_def stringsOk_def)

lemma stands_later:
  assumes "grows it it'" "stands cf it shapes ch c"
  shows "stands cf it' (shapes @ extra) ch c"
  using assms grows_resolve [OF assms(1)] unfolding stands_def by (auto simp: grows_def nth_append)

lemma tableOk_later:
  assumes "tableOk cf cs st" "later st st'"
  shows "tableOk cf cs st'"
proof -
  have g: "grows (sg_strings st) (sg_strings st')" and ex: "sg_exact st' = sg_exact st" using assms(2) by (auto simp: later_def)
  obtain extra where sh: "sg_shapes st' = sg_shapes st @ extra" using assms(2) by (auto simp: later_def)
  have sz: "i < internerSize (sg_strings st')" if "i < internerSize (sg_strings st)" for i using g that by (simp add: grows_def)
  have find: "findId (sg_strings st') s = Some i" if "findId (sg_strings st) s = Some i" for s i using g that by (simp add: grows_def)
  show ?thesis
    unfolding tableOk_def ex sh
  proof (intro conjI allI impI)
    fix s c d ch assume m: "map_of (sg_exact st) (s, c, d) = Some ch"
    then have i: "s < internerSize (sg_strings st)" "c < internerSize (sg_strings st)" "d < internerSize (sg_strings st)"
      and b: "\<exists>ctx. firstMin ctxRank (exactly (resolve (sg_strings st) s) (resolve (sg_strings st) c) (resolve (sg_strings st) d) cs) ctx \<and>
           stands cf (sg_strings st) (sg_shapes st) ch ctx"
      using assms(1) unfolding tableOk_def by blast+
    from b i g show "\<exists>ctx. firstMin ctxRank (exactly (resolve (sg_strings st') s) (resolve (sg_strings st') c) (resolve (sg_strings st') d) cs) ctx \<and>
           stands cf (sg_strings st') (sg_shapes st @ extra) ch ctx"
      using stands_later [OF g] by (simp add: grows_resolve [OF g]) blast
    show "s < internerSize (sg_strings st')" "c < internerSize (sg_strings st')" "d < internerSize (sg_strings st')" using sz i by auto
  next
    fix S C D assume "exactly S C D cs \<noteq> []"
    then obtain s c d where "findId (sg_strings st) S = Some s" "findId (sg_strings st) C = Some c"
      "findId (sg_strings st) D = Some d" "map_of (sg_exact st) (s, c, d) \<noteq> None" using assms(1) unfolding tableOk_def by blast
    then show "\<exists>s c d. findId (sg_strings st') S = Some s \<and> findId (sg_strings st') C = Some c \<and>
        findId (sg_strings st') D = Some d \<and> map_of (sg_exact st) (s, c, d) \<noteq> None" using find by blast
  qed
qed

lemma ownId_step:
  assumes ok: "stringsOk cf noTu st" and run: "ownId cf i noTu st = (j, st')"
  shows "stringsOk cf noTu st' \<and> later st st' \<and> findId (sg_strings st') (case i of None \<Rightarrow> [] | Some i \<Rightarrow> stringOf cf i) = Some j \<and>
    sg_shapes st' = sg_shapes st"
proof (cases i)
  case None
  then show ?thesis using ok run later_refl [OF ok] by (auto simp: ownId_def stringsOk_def)
next
  case (Some k)
  show ?thesis
  proof (cases "map_of (sg_remap st) k")
    case (Some j')
    then show ?thesis using ok run \<open>i = Some k\<close> later_refl [OF ok] by (auto simp: ownId_def stringsOk_def)
  next
    case None
    have wf: "interner_wf (sg_strings st)" using ok by (simp add: stringsOk_def)
    obtain it where it: "intern (sg_strings st) (stringOf cf k) = (j, it)" and st': "st' = st\<lparr>sg_strings := it, sg_remap := um_put (sg_remap st) k j\<rparr>"
      using run Some None by (auto simp: ownId_def split: prod.splits)
    have g: "grows (sg_strings st) it" using grows_intern [OF wf it] .
    have f: "findId it (stringOf cf k) = Some j" using st.intern_result(3) [OF wf it] .
    show ?thesis using ok g f Some by (auto simp: st' stringsOk_def later_def grows_def)
  qed
qed

lemma shapeId_step:
  assumes ok: "stringsOk cf noTu st" and run: "shapeId sh st = (n, st')"
  shows "stringsOk cf noTu st' \<and> later st st' \<and> n < length (sg_shapes st') \<and> sg_shapes st' ! n = sh"
proof (cases "map_of (sg_shapeIds st) sh")
  case None
  then have st': "n = length (sg_shapes st)" "st' = st\<lparr>sg_shapeIds := um_emplace (sg_shapeIds st) sh n, sg_shapes := sg_shapes st @ [sh]\<rparr>"
    using run by (auto simp: shapeId_def)
  have "\<not> (m < length (sg_shapes st) \<and> sg_shapes st ! m = sh)" for m using ok None unfolding stringsOk_def by (metis option.distinct(1))
  then show ?thesis using ok None by (auto simp: st' stringsOk_def later_def nth_append less_Suc_eq)
next
  case (Some m)
  then show ?thesis using run ok later_refl [OF ok] by (auto simp: shapeId_def stringsOk_def)
qed

section \<open>Offering a context\<close>

definition better :: "interner \<Rightarrow> Choice \<Rightarrow> Choice option \<Rightarrow> Choice" where
  "better it c old = (case old of None \<Rightarrow> c | Some b \<Rightarrow> if beats it c b then c else b)"

lemma map_of_offer: "map_of (offer it t k c) k' = (if k' = k then Some (better it c (map_of t k)) else map_of t k')"
  by (auto simp: offer_def better_def split: option.split)

lemma better_idem: "better it c (Some (better it c old)) = better it c old"
  by (simp add: better_def beats_def split: option.split)

lemma map_of_offers:
  "map_of (fold (\<lambda>u t. offer it t (s, u, d) c) us t) (s', u', d') =
     (if s' = s \<and> u' \<in> set us \<and> d' = d then Some (better it c (map_of t (s', u', d'))) else map_of t (s', u', d'))"
  by (induction us arbitrary: t) (auto simp: map_of_offer better_idem)

lemma resolve_eq_id: "interner_wf it \<Longrightarrow> i < internerSize it \<Longrightarrow> j < internerSize it \<Longrightarrow> resolve it i = resolve it j \<longleftrightarrow> i = j"
  using st.resolve_inj by blast

lemma findId_eq:
  assumes "interner_wf it" "findId it S = Some i" "j < internerSize it"
  shows "S = resolve it j \<longleftrightarrow> j = i"
  using assms findId_iff [OF assms(1)] by (metis option.inject)

definition choiceRank :: "interner \<Rightarrow> Choice \<Rightarrow> string \<times> string \<times> string" where
  "choiceRank it ch = (resolve it (coCallee ch), resolve it (coTuPath ch), resolve it (coCallerName ch))"

definition knownChoice :: "interner \<Rightarrow> Choice \<Rightarrow> bool" where
  "knownChoice it ch \<longleftrightarrow> coCallee ch < internerSize it \<and> coTuPath ch < internerSize it \<and> coCallerName ch < internerSize it"

lemma stands_choice: "stands cf it sh ch c \<Longrightarrow> knownChoice it ch \<and> choiceRank it ch = ctxRank c"
  by (simp add: stands_def knownChoice_def choiceRank_def ctxRank_def)

lemma beats_choiceRank:
  assumes wf: "interner_wf it" and "knownChoice it a" "knownChoice it b"
  shows "beats it a b \<longleftrightarrow> choiceRank it a < choiceRank it b"
  using assms(2,3) unfolding knownChoice_def choiceRank_def beats_def less_prod_simp
  by (auto simp: less_le resolve_eq_id [OF wf])

lemma beats_rank:
  assumes wf: "interner_wf it" and a: "stands cf it sh a x" and b: "stands cf it sh b y"
  shows "beats it a b \<longleftrightarrow> ctxRank x < ctxRank y"
  using beats_choiceRank [OF wf] stands_choice [OF a] stands_choice [OF b] by metis

lemma exactly_snoc:
  "exactly S C D (cs @ [ctx]) = exactly S C D cs @ (if siteMatch S C ctx \<and> cxCalleeUsr ctx = D then [ctx] else [])"
  by (simp add: exactly_def)

lemma tableOkD:
  assumes "tableOk cf cs st" "map_of (sg_exact st) (s, c, d) = Some ch"
  shows "s < internerSize (sg_strings st) \<and> c < internerSize (sg_strings st) \<and> d < internerSize (sg_strings st) \<and>
        (\<exists>ctx. firstMin ctxRank (exactly (resolve (sg_strings st) s) (resolve (sg_strings st) c) (resolve (sg_strings st) d) cs) ctx \<and>
           stands cf (sg_strings st) (sg_shapes st) ch ctx)"
  using assms unfolding tableOk_def by blast

lemma tableOk_key:
  assumes "tableOk cf cs st" "exactly S C D cs \<noteq> []"
  obtains s c d ch where "findId (sg_strings st) S = Some s" "findId (sg_strings st) C = Some c"
    "findId (sg_strings st) D = Some d" "map_of (sg_exact st) (s, c, d) = Some ch"
  using assms unfolding tableOk_def by blast

lemma tableOk_none:
  assumes wf: "interner_wf (sg_strings st)" and ok: "tableOk cf cs st" and none: "map_of (sg_exact st) (s, c, d) = None"
    and f: "findId (sg_strings st) S = Some s" "findId (sg_strings st) C = Some c" "findId (sg_strings st) D = Some d"
  shows "exactly S C D cs = []"
proof (rule ccontr)
  assume "exactly S C D cs \<noteq> []"
  then obtain s' c' d' ch where "findId (sg_strings st) S = Some s'" "findId (sg_strings st) C = Some c'"
    "findId (sg_strings st) D = Some d'" "map_of (sg_exact st) (s', c', d') = Some ch" by (rule tableOk_key [OF ok])
  then show False using f none by simp
qed

lemma tableOk_offers:
  assumes wf: "interner_wf (sg_strings st)" and ok: "tableOk cf cs st"
    and s: "findId (sg_strings st) (cxCallSite ctx) = Some s" and d: "findId (sg_strings st) (cxCalleeUsr ctx) = Some d"
    and u: "findId (sg_strings st) (cxCallerUsr ctx) = Some u" and n: "findId (sg_strings st) (cxCallerName ctx) = Some n"
    and us: "set us = {u, n}" and ch: "stands cf (sg_strings st) (sg_shapes st) ch ctx"
  shows "tableOk cf (cs @ [ctx]) (st\<lparr>sg_exact := fold (\<lambda>u t. offer (sg_strings st) t (s, u, d) ch) us (sg_exact st)\<rparr>)"
proof -
  let ?it = "sg_strings st"
  let ?t = "fold (\<lambda>u t. offer ?it t (s, u, d) ch) us (sg_exact st)"
  have known: "i < internerSize ?it \<and> resolve ?it i = S" if "findId ?it S = Some i" for S i using findId_iff [OF wf] that by auto
  have sel: "siteMatch (resolve ?it s') (resolve ?it u') ctx \<and> cxCalleeUsr ctx = resolve ?it d' \<longleftrightarrow> s' = s \<and> u' \<in> set us \<and> d' = d"
    if i: "s' < internerSize ?it" "u' < internerSize ?it" "d' < internerSize ?it" for s' u' d'
    unfolding siteMatch_def us findId_eq [OF wf s i(1)] findId_eq [OF wf d i(3)] findId_eq [OF wf u i(2)] findId_eq [OF wf n i(2)]
    by auto
  have found: "s' < internerSize ?it \<and> u' < internerSize ?it \<and> d' < internerSize ?it \<and>
      (\<exists>c. firstMin ctxRank (exactly (resolve ?it s') (resolve ?it u') (resolve ?it d') (cs @ [ctx])) c \<and> stands cf ?it (sg_shapes st) b c)"
    if m: "map_of ?t (s', u', d') = Some b" for s' u' d' b
  proof (cases "s' = s \<and> u' \<in> set us \<and> d' = d")
    case True
    then have i: "s' < internerSize ?it" "u' < internerSize ?it" "d' < internerSize ?it" using known s d u n us by auto
    have e: "exactly (resolve ?it s') (resolve ?it u') (resolve ?it d') (cs @ [ctx]) = exactly (resolve ?it s') (resolve ?it u') (resolve ?it d') cs @ [ctx]"
      using sel [OF i] True by (simp add: exactly_snoc)
    have f: "findId ?it (resolve ?it s') = Some s'" "findId ?it (resolve ?it u') = Some u'" "findId ?it (resolve ?it d') = Some d'"
      using findId_iff [OF wf] i by auto
    have b: "b = better ?it ch (map_of (sg_exact st) (s', u', d'))" using m unfolding map_of_offers using True by simp
    show ?thesis
    proof (cases "map_of (sg_exact st) (s', u', d')")
      case None
      then show ?thesis unfolding e using i tableOk_none [OF wf ok None f] ch b
        by (auto simp: better_def intro!: exI [of _ ctx] firstMin_single)
    next
      case (Some a)
      obtain c where c: "firstMin ctxRank (exactly (resolve ?it s') (resolve ?it u') (resolve ?it d') cs) c" "stands cf ?it (sg_shapes st) a c"
        using tableOkD [OF ok Some] by blast
      show ?thesis unfolding e
        using i firstMin_snoc [OF c(1), of ctx] b c(2) ch Some beats_rank [OF wf ch c(2)] by (auto simp: better_def split: if_splits)
    qed
  next
    case False
    then have o: "map_of (sg_exact st) (s', u', d') = Some b" using m unfolding map_of_offers by (simp only: if_False)
    then show ?thesis using tableOkD [OF ok o] sel [of s' u' d'] False by (auto simp: exactly_snoc)
  qed
  have keys: "\<exists>s' c' d'. findId ?it S = Some s' \<and> findId ?it C = Some c' \<and> findId ?it D = Some d' \<and> map_of ?t (s', c', d') \<noteq> None"
    if e: "exactly S C D (cs @ [ctx]) \<noteq> []" for S C D
  proof (cases "siteMatch S C ctx \<and> cxCalleeUsr ctx = D")
    case True
    then obtain c' where "findId ?it C = Some c'" "c' \<in> set us" using u n us by (auto simp: siteMatch_def)
    then show ?thesis using True s d by (auto simp: siteMatch_def map_of_offers)
  next
    case False
    then have "exactly S C D cs \<noteq> []" using e unfolding exactly_snoc if_not_P [OF False] by simp
    then obtain s' c' d' ch' where "findId ?it S = Some s'" "findId ?it C = Some c'" "findId ?it D = Some d'" "map_of (sg_exact st) (s', c', d') = Some ch'"
      by (rule tableOk_key [OF ok])
    then show ?thesis by (auto simp: map_of_offers)
  qed
  show ?thesis using found keys by (simp add: tableOk_def)
qed

section \<open>The walk over the contexts\<close>

lemma signature_ofShape:
  "ctx_ok cf se \<Longrightarrow> contextSignature (contextOfShape cf (shapeOf se)) = contextSignature (materializeCtx cf se)"
  by (simp add: ctx_ok_def contextOfShape_def shapeOf_def materializeCtx_def contextSignature_def emptyContext_def)

definition walked :: "cf_index \<Rightarrow> sid \<Rightarrow> CallSiteContext list \<Rightarrow> sig_state \<Rightarrow> bool" where
  "walked cf noTu cs st \<longleftrightarrow> stringsOk cf noTu st \<and> tableOk cf cs st \<and> um_ok (sg_exact st)"

lemma tableOk_contexts [simp]: "tableOk cf cs (st\<lparr>sg_contexts := n\<rparr>) = tableOk cf cs st"
  by (simp add: tableOk_def)

lemma stringsOk_fields [simp]:
  "stringsOk cf noTu (st\<lparr>sg_contexts := n\<rparr>) = stringsOk cf noTu st" "stringsOk cf noTu (st\<lparr>sg_exact := t\<rparr>) = stringsOk cf noTu st"
  by (simp_all add: stringsOk_def)

lemma um_ok_offer: "um_ok (offer it t k c) = um_ok t"
  by (simp add: offer_def split: option.split)

lemma offerRecord_step:
  assumes w: "walked cf noTu cs st" and se: "ctx_ok cf se"
  shows "walked cf noTu (cs @ [materializeCtx cf se]) (offerRecord cf noTu (recordOf se) st)"
proof -
  let ?c = "materializeCtx cf se"
  let ?st = "st\<lparr>sg_contexts := Suc (sg_contexts st)\<rparr>"
  obtain sh s1 where 1: "shapeId (shapeOf se) ?st = (sh, s1)" by (cases "shapeId (shapeOf se) ?st")
  obtain d s2 where 2: "ownId cf (Some (scCallee se)) noTu s1 = (d, s2)" by (cases "ownId cf (Some (scCallee se)) noTu s1")
  obtain t s3 where 3: "ownId cf (scTuPath se) noTu s2 = (t, s3)" by (cases "ownId cf (scTuPath se) noTu s2")
  obtain n s4 where 4: "ownId cf (Some (scCallerDisplay se)) noTu s3 = (n, s4)" by (cases "ownId cf (Some (scCallerDisplay se)) noTu s3")
  obtain s s5 where 5: "ownId cf (Some (scSite se)) noTu s4 = (s, s5)" by (cases "ownId cf (Some (scSite se)) noTu s4")
  obtain u s6 where 6: "ownId cf (Some (scCaller se)) noTu s5 = (u, s6)" by (cases "ownId cf (Some (scCaller se)) noTu s5")
  obtain n' s7 where 7: "ownId cf (Some (scCallerDisplay se)) noTu s6 = (n', s7)" by (cases "ownId cf (Some (scCallerDisplay se)) noTu s6")
  have ok: "stringsOk cf noTu ?st" "tableOk cf cs ?st" using w by (simp_all add: walked_def)
  note r1 = shapeId_step [OF ok(1) 1]
  note r2 = ownId_step [OF conjunct1 [OF r1] 2]
  note r3 = ownId_step [OF conjunct1 [OF r2] 3]
  note r4 = ownId_step [OF conjunct1 [OF r3] 4]
  note r5 = ownId_step [OF conjunct1 [OF r4] 5]
  note r6 = ownId_step [OF conjunct1 [OF r5] 6]
  note r7 = ownId_step [OF conjunct1 [OF r6] 7]
  have l: "later ?st s7" using r1 r2 r3 r4 r5 r6 r7 later_trans by metis
  have g: "findId (sg_strings s2) x = Some i \<Longrightarrow> findId (sg_strings s7) x = Some i"
    "findId (sg_strings s3) x = Some i \<Longrightarrow> findId (sg_strings s7) x = Some i"
    "findId (sg_strings s4) x = Some i \<Longrightarrow> findId (sg_strings s7) x = Some i"
    "findId (sg_strings s5) x = Some i \<Longrightarrow> findId (sg_strings s7) x = Some i"
    "findId (sg_strings s6) x = Some i \<Longrightarrow> findId (sg_strings s7) x = Some i" for x i
    using r3 r4 r5 r6 r7 by (auto simp: later_def grows_def)
  have wf: "interner_wf (sg_strings s7)" using r7 by (simp add: stringsOk_def)
  have ids: "findId (sg_strings s7) (cxCalleeUsr ?c) = Some d" "findId (sg_strings s7) (cxTuPath ?c) = Some t"
    "findId (sg_strings s7) (cxCallSite ?c) = Some s" "findId (sg_strings s7) (cxCallerUsr ?c) = Some u"
    "findId (sg_strings s7) (cxCallerName ?c) = Some n'" "findId (sg_strings s7) (cxCallerName ?c) = Some n"
    using r2 r3 r4 r5 r6 r7 g by (auto simp: materializeCtx_def)
  have shapes: "sg_shapes s7 = sg_shapes s1" using r2 r3 r4 r5 r6 r7 by simp
  define ch where "ch = \<lparr>coCallee = d, coTuPath = t, coCallerName = n, coSignature = sh\<rparr>"
  have st: "stands cf (sg_strings s7) (sg_shapes s7) ch ?c"
    using ids findId_iff [OF wf] r1 signature_ofShape [OF se] by (simp add: stands_def ch_def shapes)
  let ?us = "if u = n' then [u] else [u, n']"
  have out: "offerRecord cf noTu (recordOf se) st =
      s7\<lparr>sg_exact := fold (\<lambda>u t. offer (sg_strings s7) t (s, u, d) ch) ?us (sg_exact s7)\<rparr>"
    by (simp add: offerRecord_def recordOf_def 1 2 3 4 5 6 7 ch_def)
  have "tableOk cf (cs @ [?c]) (s7\<lparr>sg_exact := fold (\<lambda>u t. offer (sg_strings s7) t (s, u, d) ch) ?us (sg_exact s7)\<rparr>)"
    by (rule tableOk_offers [OF wf tableOk_later [OF ok(2) l] ids(3,1,4,5) _ st]) auto
  moreover have "um_ok (sg_exact s7)" using w l by (simp add: walked_def later_def)
  ultimately show ?thesis using r7 by (simp add: walked_def out um_ok_offer)
qed

lemma walked_fold:
  "walked cf noTu cs st \<Longrightarrow> \<forall>se \<in> set ses. ctx_ok cf se \<Longrightarrow>
     walked cf noTu (cs @ map (materializeCtx cf) ses) (fold (offerRecord cf noTu) (map recordOf ses) st)"
proof (induction ses arbitrary: cs st)
  case (Cons se ses)
  then show ?case using Cons.IH [OF offerRecord_step [OF Cons.prems(1), of se]] by simp
qed simp

section \<open>The fallback table\<close>

definition underKey :: "sid \<Rightarrow> sid \<Rightarrow> (sid \<times> sid \<times> sid) \<times> Choice \<Rightarrow> bool" where
  "underKey s c e \<longleftrightarrow> fst (fst e) = s \<and> fst (snd (fst e)) = c"

lemma map_of_fallback:
  assumes wf: "interner_wf it" and k: "\<forall>(key, ch) \<in> set es. knownChoice it ch"
  shows "case map_of (fold (\<lambda>((s, c, d), ch) t. offer it t (s, c) ch) es []) (s0, c0) of
      None \<Rightarrow> filter (underKey s0 c0) es = []
    | Some ch \<Rightarrow> firstMin (choiceRank it) (map snd (filter (underKey s0 c0) es)) ch"
  using k
proof (induction es rule: rev_induct)
  case (snoc e es)
  obtain s c d ch where e: "e = ((s, c, d), ch)" by (cases e) auto
  let ?t = "fold (\<lambda>((s, c, d), ch) t. offer it t (s, c) ch) es []"
  let ?F = "map snd (filter (underKey s0 c0) es)"
  have IH: "case map_of ?t (s0, c0) of None \<Rightarrow> filter (underKey s0 c0) es = [] | Some ch \<Rightarrow> firstMin (choiceRank it) ?F ch"
    using snoc by simp
  show ?case
  proof (cases "s = s0 \<and> c = c0")
    case True
    show ?thesis
    proof (cases "map_of ?t (s0, c0)")
      case None
      then show ?thesis using IH True by (simp add: e map_of_offer better_def underKey_def firstMin_single)
    next
      case (Some b)
      then have m: "firstMin (choiceRank it) ?F b" using IH by simp
      then have "b \<in> set ?F" by (rule firstMin_in)
      then have "beats it ch b \<longleftrightarrow> choiceRank it ch < choiceRank it b"
        using snoc.prems by (intro beats_choiceRank [OF wf]) (auto simp: e)
      then show ?thesis using firstMin_snoc [OF m, of ch] Some True by (simp add: e map_of_offer better_def underKey_def)
    qed
  next
    case False
    then have "map_of (fold (\<lambda>((s, c, d), ch) t. offer it t (s, c) ch) (es @ [e]) []) (s0, c0) = map_of ?t (s0, c0)"
      "filter (underKey s0 c0) (es @ [e]) = filter (underKey s0 c0) es" by (auto simp: e map_of_offer underKey_def)
    then show ?thesis using IH by (simp only:)
  qed
qed simp

lemma firstMin_unfilter:
  assumes m: "firstMin f (filter P xs) y" and le: "\<And>z. z \<in> set xs \<Longrightarrow> f y \<le> f z" and P: "\<And>z. z \<in> set xs \<Longrightarrow> f z = f y \<Longrightarrow> P z"
  shows "firstMin f xs y"
proof -
  have y: "y \<in> set xs" using firstMin_in [OF m] by simp
  then have "xs \<noteq> []" by auto
  then have h: "firstMin f xs (hd (sort_key f xs))" by (rule firstMin_sort)
  then have "P (hd (sort_key f xs))" using firstMin_in [OF h] firstMin_le [OF h y] le P by (meson antisym)
  then show ?thesis using firstMin_unique [OF m firstMin_filter [OF h]] h by simp
qed

lemma firstMin_cong:
  assumes "firstMin f xs y" "\<And>a b. a \<in> set xs \<Longrightarrow> b \<in> set xs \<Longrightarrow> f a < f b \<longleftrightarrow> g a < g b"
  shows "firstMin g xs y"
proof -
  obtain us vs where xs: "xs = us @ y # vs" "\<forall>u \<in> set us. f y < f u" "\<forall>v \<in> set vs. f y \<le> f v"
    using assms(1) by (auto simp: firstMin_def)
  have "\<forall>v \<in> set vs. g y \<le> g v" using xs(3) assms(2) unfolding not_less [symmetric] by (simp add: xs(1))
  moreover have "\<forall>u \<in> set us. g y < g u" using xs(2) assms(2) by (simp add: xs(1))
  ultimately show ?thesis using xs(1) unfolding firstMin_def by blast
qed

section \<open>The table against the index\<close>

lemma contextForEdge_firstMin:
  assumes mine: "mine = filter (\<lambda>c. cxCallerUsr c = C \<or> cxCallerName c = C) (contextsAtSite isUTF8 x S)" and ne: "mine \<noteq> []"
  obtains c where "contextForEdge isUTF8 x S C D = Some c" "firstMin (edgeRank D) mine c"
proof -
  have "contextForEdge isUTF8 x S C D = Some (hd (sort_key (edgeRank D) mine))"
    unfolding contextForEdge_def Let_def mine [symmetric] using ne by (rule if_not_P)
  then show thesis using firstMin_sort [OF ne] that by blast
qed

lemma edgeRank_exact:
  assumes m: "firstMin (edgeRank D) xs c" and e: "filter (\<lambda>c. cxCalleeUsr c = D) xs \<noteq> []"
  shows "firstMin ctxRank (filter (\<lambda>c. cxCalleeUsr c = D) xs) c"
proof -
  obtain z where z: "z \<in> set xs" "cxCalleeUsr z = D" using e by (auto simp: filter_empty_conv)
  then have "cxCalleeUsr c = D" using firstMin_le [OF m z(1)] by (auto simp: edgeRank_def)
  then show ?thesis by (intro firstMin_cong [OF firstMin_filter [OF m]]) (auto simp: edgeRank_def ctxRank_def less_prod_simp)
qed

lemma edgeRank_other:
  assumes m: "firstMin (edgeRank D) xs c" and e: "filter (\<lambda>c. cxCalleeUsr c = D) xs = []"
  shows "firstMin ctxRank xs c"
  using e by (intro firstMin_cong [OF m]) (auto simp: edgeRank_def ctxRank_def less_prod_simp filter_empty_conv)

lemma exact_some:
  assumes w: "walked cf noTu cs st" and "findId (sg_strings st) S = Some s" "findId (sg_strings st) C = Some c"
    and "map_of (sg_exact st) (s, c, d) = Some ch"
  shows "\<exists>ctx. firstMin ctxRank (exactly S C (resolve (sg_strings st) d) cs) ctx \<and> stands cf (sg_strings st) (sg_shapes st) ch ctx"
proof -
  have "interner_wf (sg_strings st)" "tableOk cf cs st" using w by (auto simp: walked_def stringsOk_def)
  then show ?thesis using assms(2,3) tableOkD [OF _ assms(4)] findId_iff by metis
qed

lemma fallback_known:
  assumes w: "walked cf noTu cs st"
  shows "\<forall>(key, ch) \<in> set (sg_exact st). knownChoice (sg_strings st) ch"
proof clarify
  fix a b d ch assume "((a, b, d), ch) \<in> set (sg_exact st)"
  then have "map_of (sg_exact st) (a, b, d) = Some ch" using w by (simp add: walked_def um_ok_def)
  then obtain z where "stands cf (sg_strings st) (sg_shapes st) ch z" using w tableOkD [of cf cs st a b d ch] by (auto simp: walked_def)
  then show "knownChoice (sg_strings st) ch" using stands_choice by blast
qed

lemma fallback_least:
  assumes w: "walked cf noTu cs st" and S: "findId (sg_strings st) S = Some s" and C: "findId (sg_strings st) C = Some c"
    and ne: "filter (siteMatch S C) cs \<noteq> []"
  shows "\<exists>ch ctx. map_of (fold (\<lambda>((s, c, d), ch) t. offer (sg_strings st) t (s, c) ch) (sg_exact st) []) (s, c) = Some ch \<and>
    firstMin ctxRank (filter (siteMatch S C) cs) ctx \<and> stands cf (sg_strings st) (sg_shapes st) ch ctx"
proof -
  let ?it = "sg_strings st"
  let ?F = "map snd (filter (underKey s c) (sg_exact st))"
  have wf: "interner_wf ?it" and ok: "tableOk cf cs st" and um: "um_ok (sg_exact st)" using w by (auto simp: walked_def stringsOk_def)
  have mem: "(k, ch) \<in> set (sg_exact st) \<longleftrightarrow> map_of (sg_exact st) k = Some ch" for k ch using um by (simp add: um_ok_def)
  have rs: "resolve ?it s = S" "resolve ?it c = C" using findId_iff [OF wf] S C by auto
  have key: "\<exists>d ch. map_of (sg_exact st) (s, c, d) = Some ch \<and> resolve ?it d = cxCalleeUsr z" if z: "z \<in> set cs" "siteMatch S C z" for z
  proof -
    have "exactly S C (cxCalleeUsr z) cs \<noteq> []" using z by (auto simp: exactly_def filter_empty_conv)
    then obtain s' c' d ch where "findId ?it S = Some s'" "findId ?it C = Some c'" "findId ?it (cxCalleeUsr z) = Some d"
      "map_of (sg_exact st) (s', c', d) = Some ch" by (rule tableOk_key [OF ok])
    then show ?thesis using S C findId_iff [OF wf] by auto
  qed
  note k = fallback_known [OF w]
  obtain z0 where "z0 \<in> set cs" "siteMatch S C z0" using ne by (auto simp: filter_empty_conv)
  then obtain d0 ch0 where "map_of (sg_exact st) (s, c, d0) = Some ch0" using key by blast
  then have "((s, c, d0), ch0) \<in> set (filter (underKey s c) (sg_exact st))" by (simp add: mem underKey_def)
  then have "filter (underKey s c) (sg_exact st) \<noteq> []" by (metis list.distinct(1) list.set_cases)
  then obtain ch where ch: "map_of (fold (\<lambda>((s, c, d), ch) t. offer ?it t (s, c) ch) (sg_exact st) []) (s, c) = Some ch"
    "firstMin (choiceRank ?it) ?F ch" using map_of_fallback [OF wf k, of s c] by (auto split: option.splits)
  then obtain d where d: "map_of (sg_exact st) (s, c, d) = Some ch" using firstMin_in [OF ch(2)] by (auto simp: underKey_def mem)
  then obtain ctx where ctx: "firstMin ctxRank (exactly S C (resolve ?it d) cs) ctx" "stands cf ?it (sg_shapes st) ch ctx"
    using tableOkD [OF ok d] rs by auto
  have ex: "exactly S C (resolve ?it d) cs = filter (\<lambda>z. cxCalleeUsr z = resolve ?it d) (filter (siteMatch S C) cs)"
    by (simp add: exactly_def conj_commute)
  have here: "cxCalleeUsr ctx = resolve ?it d" using firstMin_in [OF ctx(1)] by (simp add: exactly_def)
  have "firstMin ctxRank (filter (siteMatch S C) cs) ctx"
  proof (rule firstMin_unfilter [OF ctx(1) [unfolded ex]])
    fix z assume z: "z \<in> set (filter (siteMatch S C) cs)"
    then obtain d' ch' where d': "map_of (sg_exact st) (s, c, d') = Some ch'" "resolve ?it d' = cxCalleeUsr z" using key [of z] by auto
    obtain c' where c': "firstMin ctxRank (exactly S C (cxCalleeUsr z) cs) c'" "stands cf ?it (sg_shapes st) ch' c'"
      using tableOkD [OF ok d'(1)] rs d'(2) by auto
    have "ch' \<in> set ?F" using d'(1) by (auto simp: underKey_def mem [symmetric] intro!: image_eqI [of _ _ "((s, c, d'), ch')"])
    then have "ctxRank ctx \<le> ctxRank c'" using firstMin_le [OF ch(2)] stands_choice [OF ctx(2)] stands_choice [OF c'(2)] by metis
    also have "ctxRank c' \<le> ctxRank z" using z by (intro firstMin_le [OF c'(1)]) (simp add: exactly_def)
    finally show "ctxRank ctx \<le> ctxRank z" .
  next
    fix z assume "ctxRank z = ctxRank ctx"
    then show "cxCalleeUsr z = resolve ?it d" using here by (simp add: ctxRank_def)
  qed
  then show ?thesis using ch(1) ctx(2) by blast
qed

lemma fallback_none:
  assumes w: "walked cf noTu cs st" and S: "findId (sg_strings st) S = Some s" and C: "findId (sg_strings st) C = Some c"
    and e: "filter (siteMatch S C) cs = []"
  shows "map_of (fold (\<lambda>((s, c, d), ch) t. offer (sg_strings st) t (s, c) ch) (sg_exact st) []) (s, c) = None"
proof (rule ccontr)
  have wf: "interner_wf (sg_strings st)" using w by (simp add: walked_def stringsOk_def)
  assume "\<not> ?thesis"
  then obtain ch where "firstMin (choiceRank (sg_strings st)) (map snd (filter (underKey s c) (sg_exact st))) ch"
    using map_of_fallback [OF wf fallback_known [OF w], of s c] by (auto split: option.splits)
  then obtain d where "((s, c, d), ch) \<in> set (sg_exact st)" using firstMin_in by (fastforce simp: underKey_def)
  then have "map_of (sg_exact st) (s, c, d) = Some ch" using w by (simp add: walked_def um_ok_def)
  then obtain ctx where "firstMin ctxRank (exactly S C (resolve (sg_strings st) d) cs) ctx" using exact_some [OF w S C] by blast
  then have "ctx \<in> set (filter (siteMatch S C) cs)" using firstMin_in by (fastforce simp: exactly_def)
  then show False using e by (simp only: empty_iff list.set)
qed

lemma walked_build:
  assumes wf: "cf_wf x"
  obtains noTu st where "walked x noTu (allContexts x) st" "cs_strings (buildSignatures x) = sg_strings st"
    "cs_signatures (buildSignatures x) = map (\<lambda>sh. contextSignature (contextOfShape x sh)) (sg_shapes st)"
    "cs_exact (buildSignatures x) = sg_exact st"
    "cs_fallback (buildSignatures x) = fold (\<lambda>((s, c, d), ch) t. offer (sg_strings st) t (s, c) ch) (sg_exact st) []"
proof -
  obtain noTu it where i: "intern empty_interner [] = (noTu, it)" by (cases "intern empty_interner []")
  have ok: "interner_wf empty_interner" by simp
  let ?st = "\<lparr>sg_strings = it, sg_remap = [], sg_shapeIds = [], sg_shapes = [], sg_exact = [], sg_contexts = 0\<rparr>"
  have "walked x noTu [] ?st"
    using st.intern_result [OF ok i] grows_intern [OF ok i] by (simp add: grows_def walked_def stringsOk_def tableOk_def exactly_def um_ok_def)
  moreover have "\<forall>se \<in> set (filter scLive (i_contexts x)). ctx_ok x se" using wf by (simp add: cf_wf_def)
  ultimately have w: "walked x noTu (allContexts x) (fold (offerRecord x noTu) (map recordOf (filter scLive (i_contexts x))) ?st)"
    using walked_fold [of x noTu "[]" ?st] by (simp add: allContexts_def)
  have r: "allContextRecords x = map recordOf (filter scLive (i_contexts x))"
    by (simp add: allContextRecords_def recordOf_def shapeOf_def)
  show thesis by (rule that [OF w]) (simp_all add: buildSignatures_def i r Let_def)
qed

lemma stands_signature:
  "stands cf it shapes ch c \<Longrightarrow> map (\<lambda>sh. contextSignature (contextOfShape cf sh)) shapes ! coSignature ch = contextSignature c"
  by (simp add: stands_def)

lemma exactly_mine: "filter (\<lambda>c. cxCalleeUsr c = D) (filter (siteMatch S C) cs) = exactly S C D cs"
  by (simp add: exactly_def conj_commute)

text \<open>
  C32: the signature table gives, for a site in stored form, a caller by usr or name and a callee, the signature
  of the context that \<open>contextForEdge\<close> chooses among all contexts of the index, the first recorded of equal
  ones, and \<open>absent\<close> exactly when it finds none.
\<close>

theorem forEdge_contextForEdge:
  assumes wf: "cf_wf x" and S: "lookupText isUTF8 S = S"
  shows "forEdge (buildSignatures x) S C D =
    (case contextForEdge isUTF8 x S C D of None \<Rightarrow> ''absent'' | Some c \<Rightarrow> contextSignature c)"
proof -
  obtain noTu st where w: "walked x noTu (allContexts x) st" and b: "cs_strings (buildSignatures x) = sg_strings st"
    "cs_signatures (buildSignatures x) = map (\<lambda>sh. contextSignature (contextOfShape x sh)) (sg_shapes st)"
    "cs_exact (buildSignatures x) = sg_exact st"
    "cs_fallback (buildSignatures x) = fold (\<lambda>((s, c, d), ch) t. offer (sg_strings st) t (s, c) ch) (sg_exact st) []"
    by (rule walked_build [OF wf])
  let ?it = "sg_strings st"
  let ?mine = "filter (siteMatch S C) (allContexts x)"
  have it: "interner_wf ?it" and ok: "tableOk x (allContexts x) st" using w by (auto simp: walked_def stringsOk_def)
  have mine: "?mine = filter (\<lambda>c. cxCallerUsr c = C \<or> cxCallerName c = C) (contextsAtSite isUTF8 x S)"
    by (simp add: contextsAtSite_filter [OF wf] S siteMatch_def [abs_def])
  show ?thesis
  proof (cases "?mine = []")
    case True
    then have n: "contextForEdge isUTF8 x S C D = None" by (simp add: contextForEdge_def mine [symmetric])
    have e: "map_of (sg_exact st) (s, c, d) = None" if k: "findId ?it S = Some s" "findId ?it C = Some c" for s c d
    proof (rule ccontr)
      assume "map_of (sg_exact st) (s, c, d) \<noteq> None"
      then obtain ctx where "firstMin ctxRank (exactly S C (resolve ?it d) (allContexts x)) ctx"
        using exact_some [OF w k] by blast
      then have "ctx \<in> set ?mine" using firstMin_in by (fastforce simp: exactly_def)
      then show False using True by (simp only: empty_iff list.set)
    qed
    have f: "map_of (cs_fallback (buildSignatures x)) (s, c) = None" if "findId ?it S = Some s" "findId ?it C = Some c" for s c
      unfolding b(4) using fallback_none [OF w that True] .
    show ?thesis unfolding n by (auto simp: forEdge_def b(1,2,3) e f split: option.split)
  next
    case False
    obtain c where c: "contextForEdge isUTF8 x S C D = Some c" "firstMin (edgeRank D) ?mine c"
      by (rule contextForEdge_firstMin [OF mine False])
    obtain z where z: "z \<in> set (allContexts x)" "siteMatch S C z" using False by (auto simp: filter_empty_conv)
    then have "exactly S C (cxCalleeUsr z) (allContexts x) \<noteq> []" by (auto simp: exactly_def filter_empty_conv)
    then obtain s u where su: "findId ?it S = Some s" "findId ?it C = Some u" by (rule tableOk_key [OF ok])
    show ?thesis
    proof (cases "exactly S C D (allContexts x) = []")
      case True
      then have m: "firstMin ctxRank ?mine c" using edgeRank_other [OF c(2)] by (simp only: exactly_mine)
      obtain ch ctx where ch: "map_of (cs_fallback (buildSignatures x)) (s, u) = Some ch" "firstMin ctxRank ?mine ctx"
        "stands x ?it (sg_shapes st) ch ctx" using fallback_least [OF w su False] unfolding b(4) by blast
      have "Option.bind (findId ?it D) (\<lambda>d. map_of (sg_exact st) (s, u, d)) = None"
      proof (rule ccontr)
        assume "\<not> ?thesis"
        then obtain d ch' where k: "findId ?it D = Some d" "map_of (sg_exact st) (s, u, d) = Some ch'" by (auto simp: bind_eq_None_conv)
        then obtain ctx where "firstMin ctxRank (exactly S C D (allContexts x)) ctx"
          using exact_some [OF w su k(2)] findId_iff [OF it] by auto
        then show False using firstMin_in True by fastforce
      qed
      then show ?thesis using ch firstMin_unique [OF m ch(2)] stands_signature [OF ch(3)] by (simp add: forEdge_def b(1,2,3) su c(1))
    next
      case False
      then have m: "firstMin ctxRank (exactly S C D (allContexts x)) c" using edgeRank_exact [OF c(2), unfolded exactly_mine] by blast
      obtain s' u' d ch where k: "findId ?it S = Some s'" "findId ?it C = Some u'" "findId ?it D = Some d" "map_of (sg_exact st) (s', u', d) = Some ch"
        using False by (rule tableOk_key [OF ok])
      then obtain ctx where ctx: "firstMin ctxRank (exactly S C D (allContexts x)) ctx" "stands x ?it (sg_shapes st) ch ctx"
        using tableOkD [OF ok k(4)] findId_iff [OF it] by auto
      then show ?thesis using k firstMin_unique [OF m ctx(1)] stands_signature [OF ctx(2)] by (simp add: forEdge_def b(1,2,3) c(1))
    qed
  qed
qed

theorem forEdge_contextForEdge_witness:
  "forEdge (buildSignatures (addCallSiteContext emptyIndex (callCtx ''f'' ''g'' ''a:1'' ''a''))) ''a:1'' ''f'' ''z'' =
     ''protected=0;handlers=;noexcept=none;inCatch=0;locks=;guards=''"
proof -
  let ?x = "addCallSiteContext emptyIndex (callCtx ''f'' ''g'' ''a:1'' ''a'')"
  have "internerSize (i_interner ?x) = 4" by code_simp
  then have wf: "cf_wf ?x" using represents_wf [OF represents_one] by simp
  have s: "lookupText (\<lambda>_. True) ''a:1'' = ''a:1''" by (simp add: lookupText_def)
  have "(case contextForEdge (\<lambda>_. True) ?x ''a:1'' ''f'' ''z'' of None \<Rightarrow> ''absent'' | Some c \<Rightarrow> contextSignature c) =
      ''protected=0;handlers=;noexcept=none;inCatch=0;locks=;guards=''" by code_simp
  then show ?thesis using forEdge_contextForEdge [OF wf s, of "''f''" "''z''"] by simp
qed

end
