(* ===== verification/Identity.thy ===== *)
theory Identity
  imports CallGraph PatchMapping
begin

text \<open>
  Cross-index identities (\<open>include/vycor/impact/SemanticDiff.h\<close>, \<open>src/impact/SemanticDiff.cpp\<close>): the table that
  gives every usr of a graph a key free of source positions. A lambda's key has its rank among the lambdas of
  its grp in place of its position; a clang usr with byte offsets has each replaced by its rank among the
  offsets of its group. \<open>asInt\<close> and \<open>asLong\<close> stand for \<open>llvm::StringRef::getAsInteger\<close> in base 10 into 32 and 64
  bits; a number they do not read stays 0. An ordered map is an association list, read in key order by
  \<open>inOrder\<close>.
\<close>

definition inOrder :: "('k::linorder, 'v) umap \<Rightarrow> ('k \<times> 'v) list" where
  "inOrder m = sort_key fst m"

section \<open>Lambdas\<close>

definition kLambdaPrefix :: string where
  "kLambdaPrefix = ''vycor-lambda:lambda#''"

record LambdaParts =
  lpFile :: string
  lpLine :: "32 word"
  lpCol :: "32 word"
  lpEnclosing :: string

definition isDigitChar :: "char \<Rightarrow> bool" where
  "isDigitChar c \<longleftrightarrow> 48 \<le> byte c \<and> byte c \<le> 57"

definition allDigits :: "string \<Rightarrow> bool" where
  "allDigits s \<longleftrightarrow> s \<noteq> [] \<and> list_all isDigitChar s"

text \<open>The site before a hash: the texts around its last two colons.\<close>

definition lambdaAt :: "(string \<Rightarrow> 32 word option) \<Rightarrow> string \<Rightarrow> nat \<Rightarrow> LambdaParts option" where
  "lambdaAt asInt rest hash =
     (case rsplitChar (CHR '':'') (take hash rest) of
        None \<Rightarrow> None
      | Some (left, col) \<Rightarrow>
          (case rsplitChar (CHR '':'') left of
             None \<Rightarrow> None
           | Some (file, ln) \<Rightarrow>
               if file \<noteq> [] \<and> allDigits ln \<and> allDigits col
               then Some \<lparr>lpFile = file, lpLine = (case asInt ln of None \<Rightarrow> 0 | Some v \<Rightarrow> v),
                          lpCol = (case asInt col of None \<Rightarrow> 0 | Some v \<Rightarrow> v), lpEnclosing = drop (hash + 1) rest\<rparr>
               else None))"

definition parseLambda :: "(string \<Rightarrow> 32 word option) \<Rightarrow> string \<Rightarrow> LambdaParts option" where
  "parseLambda asInt u =
     (if \<not> startsWith kLambdaPrefix u then None
      else let rest = drop (length kLambdaPrefix) u in
        case List.map_filter (lambdaAt asInt rest) (positions (\<lambda>c. c = CHR ''#'') rest) of
          [] \<Rightarrow> None
        | p # _ \<Rightarrow> Some p)"

section \<open>Byte offsets\<close>

record LocationFragment =
  lfBegin :: nat
  lfEnd :: nat
  lfFile :: string
  lfOffset :: "64 word"
  lfGroup :: string

definition isUsrSeparator :: "char \<Rightarrow> bool" where
  "isUsrSeparator c \<longleftrightarrow> c \<in> set ''@#$<>(),&*:''"

definition isAlnum :: "char \<Rightarrow> bool" where
  "isAlnum c \<longleftrightarrow> isDigitChar c \<or> 65 \<le> byte c \<and> byte c \<le> 90 \<or> 97 \<le> byte c \<and> byte c \<le> 122"

fun findSub :: "string \<Rightarrow> string \<Rightarrow> nat option" where
  "findSub m [] = (if m = [] then Some 0 else None)"
| "findSub m (c # s) = (if startsWith m (c # s) then Some 0 else map_option Suc (findSub m s))"

definition closureGroup :: "string \<Rightarrow> string \<Rightarrow> string" where
  "closureGroup file rest =
     ''closure:'' @ file @
     (case List.map_filter (\<lambda>m. findSub m rest) [''@Sa'', ''@Ua'', ''@Ea''] of
        [] \<Rightarrow> []
      | p # ps \<Rightarrow> take (fold min ps p + 3) rest)"

definition fragmentAt :: "(string \<Rightarrow> 64 word option) \<Rightarrow> string \<Rightarrow> nat \<Rightarrow> LocationFragment option" where
  "fragmentAt asLong u at' =
     (let digits = takeWhile isDigitChar (drop (at' + 1) u);
          d = at' + 1 + length digits;
          file = rev (takeWhile (\<lambda>c. \<not> isUsrSeparator c) (rev (take at' u)))
      in if digits = [] then None
         else if d < length u \<and> (isAlnum (u ! d) \<or> u ! d = CHR ''_'') then None
         else if file = [] \<or> CHR ''.'' \<notin> set file then None
         else Some \<lparr>lfBegin = at' + 1, lfEnd = d, lfFile = file, lfOffset = (case asLong digits of None \<Rightarrow> 0 | Some v \<Rightarrow> v),
                    lfGroup = closureGroup file (drop d u)\<rparr>)"

definition locationFragments :: "(string \<Rightarrow> 64 word option) \<Rightarrow> string \<Rightarrow> LocationFragment list" where
  "locationFragments asLong u = List.map_filter (fragmentAt asLong u) (positions (\<lambda>c. c = CHR ''@'') u)"

section \<open>The table\<close>

record IdentityTable =
  it_keyByUsr :: "(string, string) umap"
  it_usrByKey :: "(string, string) umap"
  it_groups :: "(string, string list) umap"
  it_groupSizes :: "(string, nat) umap"
  it_groupByKey :: "(string, string) umap"
  it_ambiguousKeys :: "(string, bool) umap"

definition emptyIdentity :: IdentityTable where
  "emptyIdentity = \<lparr>it_keyByUsr = [], it_usrByKey = [], it_groups = [], it_groupSizes = [], it_groupByKey = [], it_ambiguousKeys = []\<rparr>"

text \<open>The lambdas of a graph in source order, each with its parts.\<close>

definition graphLambdas :: "(string \<Rightarrow> 32 word option) \<Rightarrow> call_graph \<Rightarrow> (string \<times> LambdaParts) list" where
  "graphLambdas asInt g =
     sort_key (\<lambda>(u, p). (lpFile p, lpLine p, lpCol p, u))
       (List.map_filter (\<lambda>n. map_option (Pair (usr n)) (parseLambda asInt (usr n))) (allNodes g))"

definition lambdaKey :: "string \<Rightarrow> nat \<Rightarrow> string" where
  "lambdaKey grp n = ''vycor-lambda:'' @ grp @ ''#'' @ toString n"

definition lambdaGroup :: "IdentityTable \<Rightarrow> LambdaParts \<Rightarrow> string" where
  "lambdaGroup t p =
     (let enclosing = lpEnclosing p;
          enclosingKey =
            (if startsWith ''lambda#'' enclosing
             then (case map_of (it_keyByUsr t) (''vycor-lambda:'' @ enclosing) of None \<Rightarrow> enclosing | Some k \<Rightarrow> k)
             else enclosing)
      in lpFile p @ ''#'' @ enclosingKey)"

definition addLambda :: "string \<times> LambdaParts \<Rightarrow> IdentityTable \<times> (string, string list) umap \<Rightarrow> IdentityTable \<times> (string, string list) umap" where
  "addLambda l st =
     (let (u, p) = l;
          (t, groupUsrs) = st;
          grp = lambdaGroup t p;
          members = um_get groupUsrs grp;
          key = lambdaKey grp (length members);
          members = members @ [u]
      in (t\<lparr>it_keyByUsr := um_put (it_keyByUsr t) u key, it_usrByKey := um_put (it_usrByKey t) key u,
            it_groups := um_push (it_groups t) grp key, it_groupByKey := um_put (it_groupByKey t) key grp,
            it_groupSizes := um_put (it_groupSizes t) grp (length members)\<rparr>,
          um_put groupUsrs grp members))"

definition mentionedUsrs :: "(string \<Rightarrow> bool) \<Rightarrow> call_graph \<Rightarrow> string list" where
  "mentionedUsrs isUTF8 g =
     remdups (sort (concat (map (\<lambda>n. usr n # map calleeUsr (calleesOf isUTF8 g (usr n))) (allNodes g))))"

definition locatedUsrs :: "(string \<Rightarrow> 64 word option) \<Rightarrow> IdentityTable \<Rightarrow> string list \<Rightarrow> (string \<times> LocationFragment list) list" where
  "locatedUsrs asLong t us =
     filter (\<lambda>(u, frags). frags \<noteq> [])
       (map (\<lambda>u. (u, locationFragments asLong u)) (filter (\<lambda>u. map_of (it_keyByUsr t) u = None) us))"

definition offsetGroups :: "(string \<times> LocationFragment list) list \<Rightarrow> (string, 64 word list) umap" where
  "offsetGroups located =
     fold (\<lambda>f m. um_set_insert m (lfGroup f) (lfOffset f)) (concat (map snd located)) []"

definition offsetOrdinal :: "(string, 64 word list) umap \<Rightarrow> LocationFragment \<Rightarrow> nat" where
  "offsetOrdinal offsets f = length (takeWhile (\<lambda>v. v \<noteq> lfOffset f) (um_get offsets (lfGroup f)))"

definition locatedKey :: "(string, 64 word list) umap \<Rightarrow> string \<Rightarrow> LocationFragment list \<Rightarrow> string" where
  "locatedKey offsets u frags =
     foldr (\<lambda>f key. take (lfBegin f) key @ ''%'' @ toString (offsetOrdinal offsets f) @ drop (lfEnd f) key) frags u"

definition addLocated :: "(string \<Rightarrow> bool) \<Rightarrow> call_graph \<Rightarrow> (string, 64 word list) umap \<Rightarrow> string \<times> LocationFragment list \<Rightarrow>
    IdentityTable \<Rightarrow> IdentityTable" where
  "addLocated isUTF8 g offsets l t =
     (let (u, frags) = l;
          key = locatedKey offsets u frags;
          grp = lfGroup (hd frags)
      in t\<lparr>it_keyByUsr := um_put (it_keyByUsr t) u key,
           it_usrByKey := (if findNode isUTF8 g u \<noteq> None then um_put (it_usrByKey t) key u else it_usrByKey t),
           it_groups := um_push (it_groups t) grp key,
           it_groupByKey := um_put (it_groupByKey t) key grp\<rparr>)"

definition addPlain :: "CallGraphNode \<Rightarrow> IdentityTable \<Rightarrow> IdentityTable" where
  "addPlain n t =
     (if map_of (it_keyByUsr t) (usr n) \<noteq> None then t
      else t\<lparr>it_keyByUsr := um_put (it_keyByUsr t) (usr n) (usr n), it_usrByKey := um_put (it_usrByKey t) (usr n) (usr n)\<rparr>)"

definition buildIdentity :: "(string \<Rightarrow> bool) \<Rightarrow> (string \<Rightarrow> 32 word option) \<Rightarrow> (string \<Rightarrow> 64 word option) \<Rightarrow> call_graph \<Rightarrow> IdentityTable" where
  "buildIdentity isUTF8 asInt asLong g =
     (let t = fst (fold addLambda (graphLambdas asInt g) (emptyIdentity, []));
          located = locatedUsrs asLong t (mentionedUsrs isUTF8 g);
          offsets = offsetGroups located;
          t = fold (addLocated isUTF8 g offsets) located t;
          t = t\<lparr>it_groupSizes := fold (\<lambda>(grp, os) m. um_put m grp (length os)) (inOrder offsets) (it_groupSizes t)\<rparr>
      in fold addPlain (allNodes g) t)"

definition groupOf :: "IdentityTable \<Rightarrow> string \<Rightarrow> string" where
  "groupOf t key = (case map_of (it_groupByKey t) key of None \<Rightarrow> [] | Some grp \<Rightarrow> grp)"

definition identityOf :: "IdentityTable \<Rightarrow> string \<Rightarrow> string" where
  "identityOf t u = (case map_of (it_keyByUsr t) u of None \<Rightarrow> u | Some key \<Rightarrow> key)"

definition usrOf :: "IdentityTable \<Rightarrow> string \<Rightarrow> string option" where
  "usrOf t key = map_of (it_usrByKey t) key"

definition isAmbiguous :: "IdentityTable \<Rightarrow> string \<Rightarrow> bool" where
  "isAmbiguous t key \<longleftrightarrow> map_of (it_ambiguousKeys t) key = Some True"

definition markKeys :: "string list \<Rightarrow> IdentityTable \<Rightarrow> IdentityTable" where
  "markKeys keys t = t\<lparr>it_ambiguousKeys := fold (\<lambda>k m. um_put m k True) keys (it_ambiguousKeys t)\<rparr>"

text \<open>
  \<open>at\<close> on the sizes would throw on a group without a size; every group of a built table has one
  (\<open>groups_sized\<close>).
\<close>

definition markGroup :: "string \<times> string list \<Rightarrow> IdentityTable \<times> IdentityTable \<Rightarrow> IdentityTable \<times> IdentityTable" where
  "markGroup g ts =
     (let (grp, keysA) = g; (a, b) = ts in
      case map_of (it_groups b) grp of
        None \<Rightarrow> (a, b)
      | Some keysB \<Rightarrow>
          if map_of (it_groupSizes a) grp = map_of (it_groupSizes b) grp then (a, b)
          else (markKeys keysA a, markKeys keysB b))"

definition markAmbiguousGroups :: "IdentityTable \<Rightarrow> IdentityTable \<Rightarrow> IdentityTable \<times> IdentityTable" where
  "markAmbiguousGroups a b = fold markGroup (inOrder (it_groups a)) (a, b)"

end
