(* ===== verification/Comparability.thy ===== *)
theory Comparability
  imports IndexText "HOL-Library.Word"
begin

text \<open>
  The bake-level comparison of two indexes (\<open>checkComparability\<close> of \<open>src/impact/SemanticDiff.cpp\<close>) over the
  metadata of their snapshots (\<open>include/vycor/callgraph/Snapshot.h\<close>, \<open>TuOutcome.h\<close>, \<open>FileStamp.h\<close>): whether the
  builds were configured alike, and whether something absent from one side is really absent. The coverage counts
  and the recorded outcomes are those of \<open>src/callgraph/Snapshot.cpp\<close>.
\<close>

section \<open>Snapshot metadata\<close>

datatype TuStatus = Indexed | Partial | Crashed | Poisoned | Skipped | TimedOut

record TuOutcome =
  toStatus :: TuStatus
  toDetail :: string

record FileStamp =
  fsPath :: string
  fsMtimeNs :: "64 word"
  fsSize :: "64 word"

record ChannelTypeSpec =
  ctTypeName :: string
  ctProduce :: "string list"
  ctConsume :: "string list"
  ctCategory :: string

record IndexProvenance =
  ipAnalyzer :: string
  ipToolchain :: string
  ipEnvironment :: string
  ipBakeStartNs :: "64 word"

record SnapshotMeta =
  smCollapsePaths :: "string list"
  smLockAllowlist :: "string list"
  smLockBuiltins :: bool
  smChannelTypes :: "ChannelTypeSpec list"
  smFiles :: "FileStamp list"
  smDeps :: "FileStamp list"
  smTuDeps :: "32 word list list"
  smEntryPoints :: "string list"
  smFingerprints :: "string list"
  smOutcomes :: "TuOutcome list"
  smProvenance :: IndexProvenance

record IndexCoverage =
  covRequested :: nat
  covIndexed :: nat
  covPartial :: nat
  covFailed :: nat

definition statusAt :: "SnapshotMeta \<Rightarrow> nat \<Rightarrow> TuStatus" where
  "statusAt meta i = (if i < length (smOutcomes meta) then toStatus (smOutcomes meta ! i) else Skipped)"

definition coverageStep :: "TuStatus \<Rightarrow> IndexCoverage \<Rightarrow> IndexCoverage" where
  "coverageStep s c =
     (case s of Indexed \<Rightarrow> c\<lparr>covIndexed := covIndexed c + 1\<rparr> | Partial \<Rightarrow> c\<lparr>covPartial := covPartial c + 1\<rparr>
      | _ \<Rightarrow> c\<lparr>covFailed := covFailed c + 1\<rparr>)"

definition coverageOf :: "SnapshotMeta \<Rightarrow> IndexCoverage" where
  "coverageOf meta = fold (\<lambda>i. coverageStep (statusAt meta i)) [0..<length (smFiles meta)]
     \<lparr>covRequested = length (smFiles meta), covIndexed = 0, covPartial = 0, covFailed = 0\<rparr>"

definition coverageComplete :: "IndexCoverage \<Rightarrow> bool" where
  "coverageComplete c \<longleftrightarrow> covRequested c = covIndexed c"

definition outcomesOf :: "SnapshotMeta \<Rightarrow> (string, TuOutcome) umap" where
  "outcomesOf meta = fold (\<lambda>(f, outcome) m. um_put m (fsPath f) outcome) (zip (smFiles meta) (smOutcomes meta)) []"

section \<open>The comparison\<close>

record SideScope =
  scopeBake :: string
  scopeCoverage :: IndexCoverage
  scopeAnalyzer :: string
  scopeToolchain :: string

record Comparability =
  cmpComparable :: bool
  cmpAbsenceReliable :: bool
  cmpAnalyzerSame :: bool
  cmpToolchainSame :: bool
  cmpConfigSame :: bool
  cmpContextsCompared :: bool
  cmpReasons :: "string list"
  cmpBefore :: SideScope
  cmpAfter :: SideScope
  tusOnlyBefore :: "string list"
  tusOnlyAfter :: "string list"
  failedBefore :: "string list"
  failedAfter :: "string list"
  partialBefore :: "string list"
  partialAfter :: "string list"

definition bakeRef :: "SnapshotMeta \<Rightarrow> string" where
  "bakeRef meta =
     (if ipEnvironment (smProvenance meta) = [] then []
      else toIndexText (ipEnvironment (smProvenance meta)) @ ''@'' @ toString (unat (ipBakeStartNs (smProvenance meta))))"

definition noCoverage :: IndexCoverage where
  "noCoverage = \<lparr>covRequested = 0, covIndexed = 0, covPartial = 0, covFailed = 0\<rparr>"

definition scopeOf :: "SnapshotMeta option \<Rightarrow> SideScope" where
  "scopeOf m =
     (case m of
        None \<Rightarrow> \<lparr>scopeBake = [], scopeCoverage = noCoverage, scopeAnalyzer = [], scopeToolchain = []\<rparr>
      | Some meta \<Rightarrow> \<lparr>scopeBake = bakeRef meta, scopeCoverage = coverageOf meta,
          scopeAnalyzer = toIndexText (ipAnalyzer (smProvenance meta)),
          scopeToolchain = toIndexText (ipToolchain (smProvenance meta))\<rparr>)"

definition plural :: "nat \<Rightarrow> string \<Rightarrow> string" where
  "plural n noun = toString n @ '' '' @ noun @ (if n = 1 then [] else ''s'')"

fun commaList :: "string list \<Rightarrow> string" where
  "commaList [] = []"
| "commaList [x] = x"
| "commaList (x # xs) = x @ '', '' @ commaList xs"

definition listSome :: "string list \<Rightarrow> string" where
  "listSome v = commaList (take 3 v) @ (if length v > 3 then '', ...'' else [])"

definition filesOf :: "SnapshotMeta \<Rightarrow> string list" where
  "filesOf meta = remdups (sort (map (\<lambda>f. toIndexText (fsPath f)) (smFiles meta)))"

definition set_difference :: "string list \<Rightarrow> string list \<Rightarrow> string list" where
  "set_difference xs ys = filter (\<lambda>x. x \<notin> set ys) xs"

text \<open>The failed and the partial units of one side.\<close>

definition classify :: "SnapshotMeta \<Rightarrow> string list \<times> string list" where
  "classify meta =
     (sort (map (\<lambda>(p, _). toIndexText p) (filter (\<lambda>(p, outcome). toStatus outcome \<noteq> Partial \<and> toStatus outcome \<noteq> Indexed) (outcomesOf meta))),
      sort (map (\<lambda>(p, _). toIndexText p) (filter (\<lambda>(p, outcome). toStatus outcome = Partial) (outcomesOf meta))))"

definition addReason :: "bool \<Rightarrow> string \<Rightarrow> (Comparability \<Rightarrow> Comparability) \<Rightarrow> Comparability \<Rightarrow> Comparability" where
  "addReason b reason f c = (if b then (f c)\<lparr>cmpReasons := cmpReasons c @ [reason]\<rparr> else c)"

definition configReasons :: "SnapshotMeta \<Rightarrow> SnapshotMeta \<Rightarrow> Comparability \<Rightarrow> Comparability" where
  "configReasons before after c =
     (let config = (\<lambda>c. c\<lparr>cmpConfigSame := False\<rparr>);
          c = addReason (smCollapsePaths before \<noteq> smCollapsePaths after) ''collapse paths differ'' config c;
          c = addReason (smLockAllowlist before \<noteq> smLockAllowlist after \<or> smLockBuiltins before \<noteq> smLockBuiltins after)
                ''lock type configuration differs'' config c;
          c = addReason (smChannelTypes before \<noteq> smChannelTypes after) ''channel type registrations differ'' config c;
          c = (if \<not> cmpConfigSame c then c\<lparr>cmpComparable := False\<rparr> else c);
          pb = smProvenance before; pa = smProvenance after;
          c = addReason (ipAnalyzer pb \<noteq> ipAnalyzer pa)
                (''analyzer differs ('' @ toIndexText (ipAnalyzer pb) @ '' vs '' @ toIndexText (ipAnalyzer pa) @
                 ''): the model itself may differ'') (\<lambda>c. c\<lparr>cmpAnalyzerSame := False\<rparr>) c
      in addReason (ipToolchain pb \<noteq> ipToolchain pa)
           (''toolchain differs ('' @ toIndexText (ipToolchain pb) @ '' vs '' @ toIndexText (ipToolchain pa) @
            ''): the frontend may resolve differently'') (\<lambda>c. c\<lparr>cmpToolchainSame := False\<rparr>) c)"

definition coverageReasons :: "Comparability \<Rightarrow> Comparability" where
  "coverageReasons c =
     (let absence = (\<lambda>c. c\<lparr>cmpAbsenceReliable := False\<rparr>);
          sideReasons = (\<lambda>side failed part c.
            addReason (part \<noteq> [])
              (side @ '': '' @ plural (length part) ''requested TU'' @ '' parsed partially ('' @ listSome part @ '')'') absence
              (addReason (failed \<noteq> [])
                (side @ '': '' @ plural (length failed) ''requested TU'' @ '' failed ('' @ listSome failed @ '')'') absence c));
          c = addReason (tusOnlyBefore c \<noteq> [])
                (''before requested '' @ plural (length (tusOnlyBefore c)) ''TU'' @ '' the after index does not ('' @
                 listSome (tusOnlyBefore c) @ '')'') absence c;
          c = addReason (tusOnlyAfter c \<noteq> [])
                (''after requested '' @ plural (length (tusOnlyAfter c)) ''TU'' @ '' the before index does not ('' @
                 listSome (tusOnlyAfter c) @ '')'') absence c;
          c = sideReasons ''before'' (failedBefore c) (partialBefore c) c
      in sideReasons ''after'' (failedAfter c) (partialAfter c) c)"

definition checkComparability :: "SnapshotMeta option \<Rightarrow> SnapshotMeta option \<Rightarrow> bool \<Rightarrow> Comparability" where
  "checkComparability before after contextsLoaded =
     (let c = \<lparr>cmpComparable = True, cmpAbsenceReliable = True, cmpAnalyzerSame = True, cmpToolchainSame = True,
               cmpConfigSame = True, cmpContextsCompared = contextsLoaded, cmpReasons = [],
               cmpBefore = scopeOf before, cmpAfter = scopeOf after, tusOnlyBefore = [], tusOnlyAfter = [],
               failedBefore = [], failedAfter = [], partialBefore = [], partialAfter = []\<rparr>;
          c = addReason (\<not> contextsLoaded)
                ''call-site contexts were not compared (control-flow section not loaded on both sides)'' id c
      in case (before, after) of
           (Some mb, Some ma) \<Rightarrow>
             let c = configReasons mb ma c
             in coverageReasons (c\<lparr>
                  tusOnlyBefore := set_difference (filesOf mb) (filesOf ma),
                  tusOnlyAfter := set_difference (filesOf ma) (filesOf mb),
                  failedBefore := fst (classify mb), partialBefore := snd (classify mb),
                  failedAfter := fst (classify ma), partialAfter := snd (classify ma)\<rparr>)
         | _ \<Rightarrow> addReason True ((if before = None then ''before'' else ''after'') @ '': no bake metadata; coverage unknown'')
                  (\<lambda>c. c\<lparr>cmpAbsenceReliable := False\<rparr>) c)"

end
