(* ===== verification/SemanticDiff.thy ===== *)
theory SemanticDiff
  imports Identity Comparability ContextSignatures PathSearch
begin

text \<open>
  The semantic diff of two indexes (\<open>include/vycor/impact/SemanticDiff.h\<close>, \<open>src/impact/SemanticDiff.cpp\<close>): the
  functions and call relationships of each side under their identities, their comparison key by key, and the
  comparison of call routes. \<open>mergeJoin\<close> is the walk over two ordered maps that both loops of \<open>semanticDiff\<close> make.
  The identity tables are out parameters of the source and part of the result here, absent when the comparison is
  refused. Sites that differ in their signature only are kept in edge order, one of the orders \<open>std::sort\<close> may give.
\<close>

section \<open>Results\<close>

datatype ChangeKind = FunctionRemoved | FunctionAdded | CallRemoved | CallAdded | CallChanged | ContextChanged

definition changeRank :: "ChangeKind \<Rightarrow> nat" where
  "changeRank k = (case k of FunctionRemoved \<Rightarrow> 0 | FunctionAdded \<Rightarrow> 1 | CallRemoved \<Rightarrow> 2 | CallAdded \<Rightarrow> 3
     | CallChanged \<Rightarrow> 4 | ContextChanged \<Rightarrow> 5)"

definition changeKindName :: "ChangeKind \<Rightarrow> string" where
  "changeKindName k = (case k of FunctionRemoved \<Rightarrow> ''function_removed'' | FunctionAdded \<Rightarrow> ''function_added''
     | CallRemoved \<Rightarrow> ''call_removed'' | CallAdded \<Rightarrow> ''call_added'' | CallChanged \<Rightarrow> ''call_changed''
     | ContextChanged \<Rightarrow> ''context_changed'')"

record SiteWitness =
  swCallSite :: string
  swConfidence :: Confidence
  swExecContext :: ExecutionContext
  swIndirectionDepth :: nat
  swSignature :: string

record RelationshipSide =
  rsSites :: "SiteWitness list"
  rsAttributes :: "string list"
  rsSignatures :: "string list"

record FunctionFacts =
  ffKey :: string
  ffUsr :: string
  ffName :: string
  ffFile :: string
  ffLine :: nat
  ffIsEntryPoint :: bool
  ffIsVirtual :: bool
  ffEnclosingClass :: string

definition noFunction :: FunctionFacts where
  "noFunction = \<lparr>ffKey = [], ffUsr = [], ffName = [], ffFile = [], ffLine = 0, ffIsEntryPoint = False, ffIsVirtual = False,
     ffEnclosingClass = []\<rparr>"

record ChangeRecord =
  chKind :: ChangeKind
  chCallerKey :: string
  chCalleeKey :: string
  chCallerName :: string
  chCalleeName :: string
  chEdgeKind :: EdgeKind
  chBefore :: "RelationshipSide option"
  chAfter :: "RelationshipSide option"
  chFunction :: FunctionFacts
  chExplanation :: string

record AmbiguousIdentity =
  aiGroup :: string
  aiBeforeUsrs :: "string list"
  aiAfterUsrs :: "string list"
  aiWithheldBefore :: nat
  aiWithheldAfter :: nat

record RenameCandidate =
  rnName :: string
  rnBeforeKey :: string
  rnAfterKey :: string
  rnBeforeFile :: string
  rnAfterFile :: string

record FunctionMove =
  mvKey :: string
  mvName :: string
  mvBeforeFile :: string
  mvAfterFile :: string
  mvBeforeLine :: nat
  mvAfterLine :: nat

record SemanticDiffOptions =
  optCompareContexts :: bool
  optIncludeMoves :: bool
  optMaxSites :: nat
  optAllowMismatch :: bool

record SemanticDiffResult =
  sdComparability :: Comparability
  sdRefused :: bool
  sdChanges :: "ChangeRecord list"
  sdAmbiguous :: "AmbiguousIdentity list"
  sdRenameCandidates :: "RenameCandidate list"
  sdMoves :: "FunctionMove list"
  sdMovedFunctions :: nat
  sdFunctionsBefore :: nat
  sdFunctionsAfter :: nat
  sdRelationshipsBefore :: nat
  sdRelationshipsAfter :: nat

definition countChanges :: "SemanticDiffResult \<Rightarrow> ChangeKind \<Rightarrow> nat" where
  "countChanges r k = fold (\<lambda>c n. if chKind c = k then n + 1 else n) (sdChanges r) 0"

record DiffSide =
  dsGraph :: call_graph
  dsCfIndex :: "cf_index option"
  dsMeta :: "SnapshotMeta option"
  dsSignatures :: "ContextSignatures option"

section \<open>One side\<close>

type_synonym RelKey = "string \<times> string \<times> EdgeKind"

record RelValue =
  rvCallerName :: string
  rvCalleeName :: string
  rvSide :: RelationshipSide

definition edgeKindToString :: "EdgeKind \<Rightarrow> string" where
  "edgeKindToString k = (case k of DirectCall \<Rightarrow> ''DirectCall'' | VirtualDispatch \<Rightarrow> ''VirtualDispatch''
     | FunctionPointer \<Rightarrow> ''FunctionPointer'' | ConstructorCall \<Rightarrow> ''ConstructorCall'' | DestructorCall \<Rightarrow> ''DestructorCall''
     | OperatorCall \<Rightarrow> ''OperatorCall'' | TemplateInstantiation \<Rightarrow> ''TemplateInstantiation'' | LambdaCall \<Rightarrow> ''LambdaCall''
     | ThreadEntry \<Rightarrow> ''ThreadEntry'' | FunctionPointerReturn \<Rightarrow> ''FunctionPointerReturn'')"

definition confidenceToString :: "Confidence \<Rightarrow> string" where
  "confidenceToString c = (case c of Proven \<Rightarrow> ''Proven'' | Plausible \<Rightarrow> ''Plausible'' | Unknown \<Rightarrow> ''Unknown'')"

definition executionContextToString :: "ExecutionContext \<Rightarrow> string" where
  "executionContextToString c = (case c of Synchronous \<Rightarrow> ''Synchronous'' | ThreadSpawn \<Rightarrow> ''ThreadSpawn''
     | AsyncTask \<Rightarrow> ''AsyncTask'' | PackagedTask \<Rightarrow> ''PackagedTask'' | Invoke \<Rightarrow> ''Invoke'')"

definition attributeOf :: "SiteWitness \<Rightarrow> string" where
  "attributeOf s = confidenceToString (swConfidence s) @ ''/'' @ executionContextToString (swExecContext s) @ ''/'' @
     toString (swIndirectionDepth s)"

definition siteRank :: "SiteWitness \<Rightarrow> string \<times> Confidence \<times> ExecutionContext \<times> nat" where
  "siteRank s = (swCallSite s, swConfidence s, swExecContext s, swIndirectionDepth s)"

definition nodesByUsr :: "call_graph \<Rightarrow> CallGraphNode list" where
  "nodesByUsr g = sort_key usr (allNodes g)"

definition factsOf :: "string \<Rightarrow> CallGraphNode \<Rightarrow> FunctionFacts" where
  "factsOf key n = \<lparr>ffKey = key, ffUsr = usr n, ffName = qualifiedName n, ffFile = nodeFile n, ffLine = nodeLine n,
     ffIsEntryPoint = isEntryPoint n, ffIsVirtual = isVirtual n, ffEnclosingClass = enclosingClass n\<rparr>"

definition collectFunction :: "IdentityTable \<Rightarrow> CallGraphNode \<Rightarrow> (string, FunctionFacts) umap \<Rightarrow> (string, FunctionFacts) umap" where
  "collectFunction ident n functions =
     (let key = identityOf ident (usr n) in
      if isAmbiguous ident key then functions else um_emplace functions key (factsOf key n))"

definition emptyRel :: RelValue where
  "emptyRel = \<lparr>rvCallerName = [], rvCalleeName = [], rvSide = \<lparr>rsSites = [], rsAttributes = [], rsSignatures = []\<rparr>\<rparr>"

definition witnessOf :: "ContextSignatures option \<Rightarrow> CallGraphEdge \<Rightarrow> SiteWitness" where
  "witnessOf contexts e = \<lparr>swCallSite = edgeCallSite e, swConfidence = edgeConfidence e, swExecContext = edgeExecContext e,
     swIndirectionDepth = edgeIndirectionDepth e,
     swSignature = (case contexts of None \<Rightarrow> [] | Some cs \<Rightarrow> forEdge cs (edgeCallSite e) (callerUsr e) (calleeUsr e))\<rparr>"

definition addWitness :: "CallGraphEdge \<Rightarrow> SiteWitness \<Rightarrow> RelValue \<Rightarrow> RelValue" where
  "addWitness e w v =
     (let v = (if rvCallerName v = [] then v\<lparr>rvCallerName := callerName e, rvCalleeName := calleeName e\<rparr> else v)
      in v\<lparr>rvSide := (rvSide v)\<lparr>rsSites := rsSites (rvSide v) @ [w]\<rparr>\<rparr>)"

definition um_inc :: "('k, nat) umap \<Rightarrow> 'k \<Rightarrow> ('k, nat) umap" where
  "um_inc m k = um_put m k ((case map_of m k of None \<Rightarrow> 0 | Some n \<Rightarrow> n) + 1)"

definition collectEdge :: "IdentityTable \<Rightarrow> ContextSignatures option \<Rightarrow> CallGraphEdge \<Rightarrow>
    (RelKey, RelValue) umap \<times> (string, nat) umap \<Rightarrow> (RelKey, RelValue) umap \<times> (string, nat) umap" where
  "collectEdge ident contexts e st =
     (let (relationships, withheld) = st;
          callerKey = identityOf ident (callerUsr e);
          calleeKey = identityOf ident (calleeUsr e);
          key = (callerKey, calleeKey, edgeKind e)
      in if isAmbiguous ident callerKey then (relationships, um_inc withheld (groupOf ident callerKey))
         else if isAmbiguous ident calleeKey then (relationships, um_inc withheld (groupOf ident calleeKey))
         else (um_put relationships key
                 (addWitness e (witnessOf contexts e) (case map_of relationships key of None \<Rightarrow> emptyRel | Some v \<Rightarrow> v)),
               withheld))"

definition finishSide :: "ContextSignatures option \<Rightarrow> RelationshipSide \<Rightarrow> RelationshipSide" where
  "finishSide contexts s =
     (let sites = sort_key siteRank (rsSites s) in
      s\<lparr>rsSites := sites, rsAttributes := sort (rsAttributes s @ map attributeOf sites),
        rsSignatures := sort (rsSignatures s @ (if contexts \<noteq> None then map swSignature sites else []))\<rparr>)"

record side_facts =
  sf_functions :: "(string, FunctionFacts) umap"
  sf_relationships :: "(RelKey, RelValue) umap"
  sf_withheld :: "(string, nat) umap"

definition collectSide :: "(string \<Rightarrow> bool) \<Rightarrow> call_graph \<Rightarrow> IdentityTable \<Rightarrow> ContextSignatures option \<Rightarrow> side_facts" where
  "collectSide isUTF8 g ident contexts =
     (let nodes = nodesByUsr g;
          functions = fold (collectFunction ident) nodes [];
          (relationships, withheld) =
            fold (collectEdge ident contexts) (concat (map (\<lambda>n. calleesOf isUTF8 g (usr n)) nodes)) ([], [])
      in \<lparr>sf_functions = functions,
          sf_relationships = map (\<lambda>(key, v). (key, v\<lparr>rvSide := finishSide contexts (rvSide v)\<rparr>)) relationships,
          sf_withheld = withheld\<rparr>)"

section \<open>Coverage explanations\<close>

fun stripDotSlash :: "string \<Rightarrow> string" where
  "stripDotSlash (c # d # p) = (if c = CHR ''.'' \<and> d = CHR ''/'' then stripDotSlash p else c # d # p)"
| "stripDotSlash p = p"

definition suffixAtSlash :: "string \<Rightarrow> string \<Rightarrow> bool" where
  "suffixAtSlash long short \<longleftrightarrow> length long > length short \<and> drop (length long - length short) long = short \<and>
     long ! (length long - length short - 1) = CHR ''/''"

definition fileNamesTu :: "string \<Rightarrow> string \<Rightarrow> bool" where
  "fileNamesTu file tuPath =
     (let file = stripDotSlash file in
      if file = [] then False
      else if file = tuPath then True
      else if suffixAtSlash tuPath file then True
      else suffixAtSlash file tuPath)"

definition explainAbsence :: "string \<Rightarrow> string list \<Rightarrow> string list \<Rightarrow> string list \<Rightarrow> string \<Rightarrow> string" where
  "explainAbsence file absent failed part suffix =
     (if list_ex (fileNamesTu file) absent then ''tu_absent_'' @ suffix
      else if list_ex (fileNamesTu file) failed then ''tu_failed_'' @ suffix
      else if list_ex (fileNamesTu file) part then ''tu_partial_'' @ suffix
      else [])"

definition trimSites :: "nat \<Rightarrow> RelationshipSide \<Rightarrow> RelationshipSide" where
  "trimSites maxSites s = (if maxSites \<noteq> 0 \<and> length (rsSites s) > maxSites then s\<lparr>rsSites := take maxSites (rsSites s)\<rparr> else s)"

section \<open>The comparison\<close>

fun mergeJoin :: "('k::linorder \<times> 'a) list \<Rightarrow> ('k \<times> 'b) list \<Rightarrow> ('k \<times> 'a option \<times> 'b option) list" where
  "mergeJoin [] as = map (\<lambda>(k, a). (k, None, Some a)) as"
| "mergeJoin bs [] = map (\<lambda>(k, b). (k, Some b, None)) bs"
| "mergeJoin ((k, b) # bs) ((l, a) # as) =
     (if k < l then (k, Some b, None) # mergeJoin bs ((l, a) # as)
      else if l < k then (l, None, Some a) # mergeJoin ((k, b) # bs) as
      else (k, Some b, Some a) # mergeJoin bs as)"

record fn_state =
  fn_changes :: "ChangeRecord list"
  fn_removedByName :: "(string, FunctionFacts list) umap"
  fn_addedByName :: "(string, FunctionFacts list) umap"
  fn_moved :: nat
  fn_moves :: "FunctionMove list"

definition functionRecord :: "ChangeKind \<Rightarrow> string \<Rightarrow> FunctionFacts \<Rightarrow> string \<Rightarrow> ChangeRecord" where
  "functionRecord change key f explanation = \<lparr>chKind = change, chCallerKey = key, chCalleeKey = [], chCallerName = [],
     chCalleeName = [], chEdgeKind = DirectCall, chBefore = None, chAfter = None, chFunction = f, chExplanation = explanation\<rparr>"

definition functionStep :: "Comparability \<Rightarrow> SemanticDiffOptions \<Rightarrow> string \<times> FunctionFacts option \<times> FunctionFacts option \<Rightarrow>
    fn_state \<Rightarrow> fn_state" where
  "functionStep c opts j st =
     (case j of
        (key, Some b, None) \<Rightarrow>
          st\<lparr>fn_removedByName := um_push (fn_removedByName st) (ffName b) b,
             fn_changes := fn_changes st @ [functionRecord FunctionRemoved key b
               (explainAbsence (ffFile b) (tusOnlyBefore c) (failedAfter c) (partialAfter c) ''after'')]\<rparr>
      | (key, None, Some a) \<Rightarrow>
          st\<lparr>fn_addedByName := um_push (fn_addedByName st) (ffName a) a,
             fn_changes := fn_changes st @ [functionRecord FunctionAdded key a
               (explainAbsence (ffFile a) (tusOnlyAfter c) (failedBefore c) (partialBefore c) ''before'')]\<rparr>
      | (key, Some b, Some a) \<Rightarrow>
          (if ffFile b \<noteq> ffFile a \<or> ffLine b \<noteq> ffLine a
           then st\<lparr>fn_moved := fn_moved st + 1,
                   fn_moves := fn_moves st @ (if optIncludeMoves opts
                     then [\<lparr>mvKey = key, mvName = ffName a, mvBeforeFile = ffFile b, mvAfterFile = ffFile a,
                            mvBeforeLine = ffLine b, mvAfterLine = ffLine a\<rparr>] else [])\<rparr>
           else st)
      | (key, None, None) \<Rightarrow> st)"

definition renamePairs :: "(string, FunctionFacts list) umap \<Rightarrow> (string, FunctionFacts list) umap \<Rightarrow> RenameCandidate list" where
  "renamePairs removedByName addedByName =
     sort_key (\<lambda>r. (rnBeforeKey r, rnAfterKey r))
       (concat (map (\<lambda>(name, removed).
          concat (map (\<lambda>rf. map (\<lambda>af. \<lparr>rnName = name, rnBeforeKey = ffKey rf, rnAfterKey = ffKey af,
            rnBeforeFile = ffFile rf, rnAfterFile = ffFile af\<rparr>) (um_get addedByName name)) removed)) (inOrder removedByName)))"

definition callRecord :: "ChangeKind \<Rightarrow> RelKey \<Rightarrow> RelValue \<Rightarrow> RelationshipSide option \<Rightarrow> RelationshipSide option \<Rightarrow> ChangeRecord" where
  "callRecord change key v before after = \<lparr>chKind = change, chCallerKey = fst key, chCalleeKey = fst (snd key),
     chCallerName = rvCallerName v, chCalleeName = rvCalleeName v, chEdgeKind = snd (snd key), chBefore = before, chAfter = after,
     chFunction = noFunction, chExplanation = []\<rparr>"

definition relationChanges :: "bool \<Rightarrow> SemanticDiffOptions \<Rightarrow> RelKey \<times> RelValue option \<times> RelValue option \<Rightarrow> ChangeRecord list" where
  "relationChanges contexts opts j =
     (let trim = trimSites (optMaxSites opts) in
      case j of
        (key, Some b, None) \<Rightarrow> [callRecord CallRemoved key b (Some (trim (rvSide b))) None]
      | (key, None, Some a) \<Rightarrow> [callRecord CallAdded key a None (Some (trim (rvSide a)))]
      | (key, Some b, Some a) \<Rightarrow>
          (if rsAttributes (rvSide b) \<noteq> rsAttributes (rvSide a)
           then [callRecord CallChanged key a (Some (trim (rvSide b))) (Some (trim (rvSide a)))] else []) @
          (if contexts \<and> rsSignatures (rvSide b) \<noteq> rsSignatures (rvSide a)
           then [callRecord ContextChanged key a (Some (trim (rvSide b))) (Some (trim (rvSide a)))] else [])
      | (key, None, None) \<Rightarrow> [])"

definition changeOrder :: "ChangeRecord \<Rightarrow> nat \<times> string \<times> string \<times> EdgeKind" where
  "changeOrder c = (changeRank (chKind c), chCallerKey c, chCalleeKey c, chEdgeKind c)"

definition ambiguousOf :: "IdentityTable \<Rightarrow> IdentityTable \<Rightarrow> (string, nat) umap \<Rightarrow> (string, nat) umap \<Rightarrow> AmbiguousIdentity list" where
  "ambiguousOf idB idA withheldB withheldA =
     map (\<lambda>(grp, keysB). \<lparr>aiGroup = grp, aiBeforeUsrs = List.map_filter (usrOf idB) keysB,
           aiAfterUsrs = List.map_filter (usrOf idA) (um_get (it_groups idA) grp),
           aiWithheldBefore = (case map_of withheldB grp of None \<Rightarrow> 0 | Some n \<Rightarrow> n),
           aiWithheldAfter = (case map_of withheldA grp of None \<Rightarrow> 0 | Some n \<Rightarrow> n)\<rparr>)
       (filter (\<lambda>(grp, keysB). keysB \<noteq> [] \<and> isAmbiguous idB (hd keysB)) (inOrder (it_groups idB)))"

definition signaturesOf :: "bool \<Rightarrow> DiffSide \<Rightarrow> ContextSignatures option" where
  "signaturesOf contexts side =
     (if contexts then (case dsSignatures side of Some s \<Rightarrow> Some s | None \<Rightarrow> map_option buildSignatures (dsCfIndex side)) else None)"

definition compareContexts :: "DiffSide \<Rightarrow> DiffSide \<Rightarrow> SemanticDiffOptions \<Rightarrow> bool" where
  "compareContexts before after opts \<longleftrightarrow> optCompareContexts opts \<and> (dsSignatures before \<noteq> None \<or> dsCfIndex before \<noteq> None) \<and>
     (dsSignatures after \<noteq> None \<or> dsCfIndex after \<noteq> None)"

definition emptyDiff :: "Comparability \<Rightarrow> SemanticDiffResult" where
  "emptyDiff c = \<lparr>sdComparability = c, sdRefused = False, sdChanges = [], sdAmbiguous = [], sdRenameCandidates = [], sdMoves = [],
     sdMovedFunctions = 0, sdFunctionsBefore = 0, sdFunctionsAfter = 0, sdRelationshipsBefore = 0, sdRelationshipsAfter = 0\<rparr>"

text \<open>The two identity tables, with their ambiguous groups marked.\<close>

definition identities :: "(string \<Rightarrow> bool) \<Rightarrow> (string \<Rightarrow> 32 word option) \<Rightarrow> (string \<Rightarrow> 64 word option) \<Rightarrow> call_graph \<Rightarrow> call_graph \<Rightarrow>
    IdentityTable \<times> IdentityTable" where
  "identities isUTF8 asInt asLong gb ga =
     markAmbiguousGroups (buildIdentity isUTF8 asInt asLong gb) (buildIdentity isUTF8 asInt asLong ga)"

definition compareFacts :: "Comparability \<Rightarrow> SemanticDiffOptions \<Rightarrow> bool \<Rightarrow> IdentityTable \<Rightarrow> IdentityTable \<Rightarrow> side_facts \<Rightarrow> side_facts \<Rightarrow>
    SemanticDiffResult" where
  "compareFacts c opts contexts idB idA fb fa =
     (let fns = fold (functionStep c opts) (mergeJoin (inOrder (sf_functions fb)) (inOrder (sf_functions fa)))
                  \<lparr>fn_changes = [], fn_removedByName = [], fn_addedByName = [], fn_moved = 0, fn_moves = []\<rparr>;
          calls = concat (map (relationChanges contexts opts)
                    (mergeJoin (inOrder (sf_relationships fb)) (inOrder (sf_relationships fa))))
      in (emptyDiff c)\<lparr>sdChanges := sort_key changeOrder (fn_changes fns @ calls),
            sdAmbiguous := ambiguousOf idB idA (sf_withheld fb) (sf_withheld fa),
            sdRenameCandidates := renamePairs (fn_removedByName fns) (fn_addedByName fns),
            sdMoves := fn_moves fns, sdMovedFunctions := fn_moved fns,
            sdFunctionsBefore := length (sf_functions fb), sdFunctionsAfter := length (sf_functions fa),
            sdRelationshipsBefore := length (sf_relationships fb), sdRelationshipsAfter := length (sf_relationships fa)\<rparr>)"

definition semanticDiff :: "(string \<Rightarrow> bool) \<Rightarrow> (string \<Rightarrow> 32 word option) \<Rightarrow> (string \<Rightarrow> 64 word option) \<Rightarrow> DiffSide \<Rightarrow> DiffSide \<Rightarrow>
    SemanticDiffOptions \<Rightarrow> SemanticDiffResult \<times> (IdentityTable \<times> IdentityTable) option" where
  "semanticDiff isUTF8 asInt asLong before after opts =
     (let contexts = compareContexts before after opts;
          c = checkComparability (dsMeta before) (dsMeta after) contexts
      in if \<not> cmpComparable c \<and> \<not> optAllowMismatch opts then ((emptyDiff c)\<lparr>sdRefused := True\<rparr>, None)
         else
           let (idB, idA) = identities isUTF8 asInt asLong (dsGraph before) (dsGraph after);
               fb = collectSide isUTF8 (dsGraph before) idB (signaturesOf contexts before);
               fa = collectSide isUTF8 (dsGraph after) idA (signaturesOf contexts after)
           in (compareFacts c opts contexts idB idA fb fa, Some (idB, idA)))"

definition changedFunctionsAfter :: "SemanticDiffResult \<Rightarrow> IdentityTable \<Rightarrow> string list" where
  "changedFunctionsAfter diff after =
     remdups (sort (List.map_filter (\<lambda>c. case chKind c of
         FunctionAdded \<Rightarrow> Some (ffUsr (chFunction c))
       | FunctionRemoved \<Rightarrow> None
       | _ \<Rightarrow> usrOf after (chCallerKey c)) (sdChanges diff)))"

section \<open>Routes\<close>

record RouteDiff =
  rdBefore :: PathSearchResult
  rdAfter :: PathSearchResult
  rdAdded :: "CallPath list"
  rdRemoved :: "CallPath list"
  rdUnchanged :: nat
  rdComplete :: bool
  rdExhaustive :: bool

definition routeKey :: "IdentityTable \<Rightarrow> CallPath \<Rightarrow> string" where
  "routeKey ident p = concat (map (\<lambda>hop. identityOf ident (hopCallerUsr hop) @ ''>'' @ identityOf ident (hopCalleeUsr hop) @ ''#'' @
     edgeKindToString (hopKind hop) @ '';'') p)"

record route_state =
  rt_beforeCounts :: "(string, nat) umap"
  rt_matched :: "(string, nat) umap"
  rt_unchanged :: nat
  rt_added :: "CallPath list"

definition matchRoute :: "IdentityTable \<Rightarrow> CallPath \<Rightarrow> route_state \<Rightarrow> route_state" where
  "matchRoute ident p st =
     (let k = routeKey ident p in
      case map_of (rt_beforeCounts st) k of
        Some (Suc n) \<Rightarrow> st\<lparr>rt_beforeCounts := um_put (rt_beforeCounts st) k n, rt_matched := um_inc (rt_matched st) k,
                           rt_unchanged := rt_unchanged st + 1\<rparr>
      | _ \<Rightarrow> st\<lparr>rt_added := rt_added st @ [p]\<rparr>)"

definition removeRoute :: "IdentityTable \<Rightarrow> CallPath \<Rightarrow> (string, nat) umap \<times> CallPath list \<Rightarrow> (string, nat) umap \<times> CallPath list" where
  "removeRoute ident p st =
     (let (matched, removed) = st; k = routeKey ident p in
      case map_of matched k of
        Some (Suc n) \<Rightarrow> (um_put matched k n, removed)
      | _ \<Rightarrow> (matched, removed @ [p]))"

definition compareRoutes :: "IdentityTable \<Rightarrow> IdentityTable \<Rightarrow> PathSearchResult \<Rightarrow> PathSearchResult \<Rightarrow> RouteDiff" where
  "compareRoutes idB idA rb ra =
     (let beforeCounts = fold (\<lambda>p m. um_inc m (routeKey idB p)) (paths rb) [];
          st = fold (matchRoute idA) (paths ra)
                 \<lparr>rt_beforeCounts = beforeCounts, rt_matched = [], rt_unchanged = 0, rt_added = []\<rparr>;
          removed = snd (fold (removeRoute idB) (paths rb) (rt_matched st, []))
      in \<lparr>rdBefore = rb, rdAfter = ra, rdAdded = rt_added st, rdRemoved = removed, rdUnchanged = rt_unchanged st,
          rdComplete = (complete rb \<and> complete ra), rdExhaustive = (exhaustive rb \<and> exhaustive ra)\<rparr>)"

definition diffRoutes :: "(string \<Rightarrow> bool) \<Rightarrow> DiffSide \<Rightarrow> DiffSide \<Rightarrow> IdentityTable \<Rightarrow> IdentityTable \<Rightarrow> string \<Rightarrow> string list \<Rightarrow> string list \<Rightarrow>
    SearchLimits \<Rightarrow> RouteDiff option" where
  "diffRoutes isUTF8 before after idB idA target beforeStarts afterStarts limits =
     (case findCallerPaths isUTF8 (dsGraph before) target beforeStarts limits SimpleNodes None of
        None \<Rightarrow> None
      | Some rb \<Rightarrow>
          (case findCallerPaths isUTF8 (dsGraph after) target afterStarts limits SimpleNodes None of
             None \<Rightarrow> None
           | Some ra \<Rightarrow> Some (compareRoutes idB idA rb ra)))"

end
