(* ===== verification/IdentityProps.thy ===== *)
theory IdentityProps
  imports Identity PatchMappingProps
begin

text \<open>
  What the identity table promises: distinct lambdas of a graph have distinct keys, every group has a size, and a
  table compared with itself has no ambiguous key.
\<close>

section \<open>Lambda keys\<close>

lemma toString_inj: "toString m = toString n \<Longrightarrow> m = n"
  by (metis toString_value of_nat_eq_iff)

lemma toString_hash: "CHR ''#'' \<notin> set (toString n)"
  using toString_digits [of "CHR ''#''" n] by auto

lemma append_last_sep:
  assumes "xs @ c # ys = xs' @ c # ys'" "c \<notin> set ys" "c \<notin> set ys'"
  shows "xs = xs' \<and> ys = ys'"
  using assms by (auto simp: append_eq_append_conv2 append_eq_Cons_conv Cons_eq_append_conv)

lemma lambdaKey_inj: "lambdaKey g n = lambdaKey g' n' \<longleftrightarrow> g = g' \<and> n = n'"
  using append_last_sep [of g "CHR ''#''" "toString n" g' "toString n'"] toString_inj
  by (auto simp: lambdaKey_def toString_hash)

text \<open>While the lambdas are added every key stands for the member it numbers.\<close>

definition numbered :: "IdentityTable \<times> (string, string list) umap \<Rightarrow> bool" where
  "numbered st \<longleftrightarrow> (\<forall>u key. map_of (it_keyByUsr (fst st)) u = Some key \<longrightarrow>
     (\<exists>grp n. key = lambdaKey grp n \<and> n < length (um_get (snd st) grp) \<and> um_get (snd st) grp ! n = u))"

lemma addLambda_numbered: "numbered st \<Longrightarrow> numbered (addLambda l st)"
proof -
  assume N: "numbered st"
  obtain u p where l: "l = (u, p)" by (cases l)
  obtain t gu where st: "st = (t, gu)" by (cases st)
  show ?thesis
    unfolding numbered_def
  proof (intro allI impI)
    fix v key assume k: "map_of (it_keyByUsr (fst (addLambda l st))) v = Some key"
    show "\<exists>grp n. key = lambdaKey grp n \<and> n < length (um_get (snd (addLambda l st)) grp) \<and> um_get (snd (addLambda l st)) grp ! n = v"
    proof (cases "v = u")
      case True
      then show ?thesis using k
        by (intro exI [of _ "lambdaGroup t p"] exI [of _ "length (um_get gu (lambdaGroup t p))"]) (auto simp: addLambda_def l st Let_def)
    next
      case False
      then have "map_of (it_keyByUsr t) v = Some key" using k by (simp add: addLambda_def l st Let_def)
      then obtain grp n where "key = lambdaKey grp n" "n < length (um_get gu grp)" "um_get gu grp ! n = v"
        using N unfolding numbered_def st fst_conv snd_conv by blast
      then show ?thesis by (intro exI [of _ grp] exI [of _ n]) (auto simp: addLambda_def l st Let_def nth_append)
    qed
  qed
qed

lemma fold_numbered: "numbered st \<Longrightarrow> numbered (fold addLambda ls st)"
  by (induction ls arbitrary: st) (simp_all add: addLambda_numbered)

lemma numbered_inj:
  "numbered st \<Longrightarrow> map_of (it_keyByUsr (fst st)) u = Some k \<Longrightarrow> map_of (it_keyByUsr (fst st)) v = Some k \<Longrightarrow> u = v"
  unfolding numbered_def by (metis lambdaKey_inj)

lemma keys_addLambda: "map_of (it_keyByUsr (fst (addLambda l st))) u \<noteq> None \<longleftrightarrow> u = fst l \<or> map_of (it_keyByUsr (fst st)) u \<noteq> None"
  by (simp add: addLambda_def Let_def split: prod.split)

lemma keys_fold_addLambda:
  "map_of (it_keyByUsr (fst (fold addLambda ls st))) u \<noteq> None \<longleftrightarrow> u \<in> fst ` set ls \<or> map_of (it_keyByUsr (fst st)) u \<noteq> None"
proof (induction ls arbitrary: st)
  case (Cons l ls)
  show ?case unfolding fold_Cons comp_apply Cons.IH keys_addLambda by auto
qed simp

section \<open>The later phases keep the keys\<close>

lemma fold_addLocated_key:
  "\<forall>(u, frags) \<in> set ls. map_of (it_keyByUsr t) u = None \<Longrightarrow> map_of (it_keyByUsr t) v = Some k \<Longrightarrow>
     map_of (it_keyByUsr (fold (addLocated isUTF8 g os) ls t')) v = map_of (it_keyByUsr t') v"
proof (induction ls arbitrary: t')
  case (Cons l ls)
  have "map_of (it_keyByUsr (addLocated isUTF8 g os l t')) v = map_of (it_keyByUsr t') v"
    using Cons.prems by (auto simp: addLocated_def Let_def split: prod.splits)
  then show ?case using Cons by simp
qed simp

lemma fold_addPlain_key: "map_of (it_keyByUsr t) v = Some k \<Longrightarrow> map_of (it_keyByUsr (fold addPlain ns t)) v = Some k"
proof (induction ns arbitrary: t)
  case (Cons n ns)
  have "map_of (it_keyByUsr (addPlain n t)) v = Some k" using Cons.prems by (auto simp: addPlain_def)
  then show ?case using Cons.IH by simp
qed simp

definition lambdaPhase :: "(string \<Rightarrow> 32 word option) \<Rightarrow> call_graph \<Rightarrow> IdentityTable" where
  "lambdaPhase asInt g = fst (fold addLambda (graphLambdas asInt g) (emptyIdentity, []))"

lemma buildIdentity_lambda:
  assumes "map_of (it_keyByUsr (lambdaPhase asInt g)) u = Some k"
  shows "identityOf (buildIdentity isUTF8 asInt asLong g) u = k"
proof -
  let ?t = "lambdaPhase asInt g"
  have l: "\<forall>(u, frags) \<in> set (locatedUsrs asLong ?t us). map_of (it_keyByUsr ?t) u = None" for us
    by (auto simp: locatedUsrs_def)
  show ?thesis unfolding identityOf_def buildIdentity_def Let_def lambdaPhase_def [symmetric]
    by (subst fold_addPlain_key [of _ _ k]) (simp_all add: fold_addLocated_key [OF l assms] assms)
qed

lemma graphLambdas_usr:
  "n \<in> set (allNodes g) \<Longrightarrow> parseLambda asInt (usr n) \<noteq> None \<Longrightarrow> usr n \<in> fst ` set (graphLambdas asInt g)"
  by (force simp: graphLambdas_def set_map_filter)

text \<open>
  C34: two lambdas of one graph never share an identity: on the nodes whose usrs are lambda usrs, the key is
  injective, whatever their files, enclosing functions and nesting.
\<close>

theorem lambda_identity_injective:
  "inj_on (identityOf (buildIdentity isUTF8 asInt asLong g)) {u \<in> usr ` set (allNodes g). parseLambda asInt u \<noteq> None}"
proof (rule inj_onI)
  fix u v assume u: "u \<in> {u \<in> usr ` set (allNodes g). parseLambda asInt u \<noteq> None}"
    and v: "v \<in> {u \<in> usr ` set (allNodes g). parseLambda asInt u \<noteq> None}"
    and eq: "identityOf (buildIdentity isUTF8 asInt asLong g) u = identityOf (buildIdentity isUTF8 asInt asLong g) v"
  have num: "numbered (fold addLambda (graphLambdas asInt g) (emptyIdentity, []))"
    by (rule fold_numbered) (simp add: numbered_def emptyIdentity_def)
  have key: "\<exists>k. map_of (it_keyByUsr (lambdaPhase asInt g)) w = Some k" if w: "w \<in> {u \<in> usr ` set (allNodes g). parseLambda asInt u \<noteq> None}" for w
  proof -
    obtain n where "n \<in> set (allNodes g)" "parseLambda asInt (usr n) \<noteq> None" "w = usr n" using w by blast
    then have "w \<in> fst ` set (graphLambdas asInt g)" using graphLambdas_usr by blast
    then show ?thesis using keys_fold_addLambda [of "graphLambdas asInt g" "(emptyIdentity, [])" w] unfolding lambdaPhase_def by blast
  qed
  obtain k k' where k: "map_of (it_keyByUsr (lambdaPhase asInt g)) u = Some k" "map_of (it_keyByUsr (lambdaPhase asInt g)) v = Some k'"
    using key [OF u] key [OF v] by blast
  then have "k = k'" using eq by (simp add: buildIdentity_lambda)
  then show "u = v" using numbered_inj [OF num] k unfolding lambdaPhase_def by blast
qed

section \<open>Group sizes and ambiguity\<close>

definition sized :: "IdentityTable \<Rightarrow> (string, nat) umap \<Rightarrow> bool" where
  "sized t sizes \<longleftrightarrow> fst ` set (it_groups t) \<subseteq> fst ` set sizes"

lemma addLambda_sized:
  "sized (fst st) (it_groupSizes (fst st)) \<Longrightarrow> sized (fst (addLambda l st)) (it_groupSizes (fst (addLambda l st)))"
proof -
  obtain u p t gu where e: "l = (u, p)" "st = (t, gu)" by (metis surj_pair)
  assume "sized (fst st) (it_groupSizes (fst st))"
  then show ?thesis by (simp add: e sized_def addLambda_def Let_def subset_insertI2)
qed

lemma fold_addLambda_sized:
  "sized (fst st) (it_groupSizes (fst st)) \<Longrightarrow> sized (fst (fold addLambda ls st)) (it_groupSizes (fst (fold addLambda ls st)))"
proof (induction ls arbitrary: st)
  case (Cons l ls)
  show ?case unfolding fold_Cons comp_apply by (rule Cons.IH [OF addLambda_sized [OF Cons.prems]])
qed simp

lemma groups_fold_addLocated:
  "fst ` set (it_groups (fold (addLocated isUTF8 g os) ls t)) = (\<lambda>l. lfGroup (hd (snd l))) ` set ls \<union> fst ` set (it_groups t)"
proof (induction ls arbitrary: t)
  case (Cons l ls)
  have "fst ` set (it_groups (addLocated isUTF8 g os l t)) = insert (lfGroup (hd (snd l))) (fst ` set (it_groups t))"
    by (simp add: addLocated_def Let_def split: prod.split)
  then show ?case using Cons.IH by auto
qed simp

lemma fields_fold_addLocated [simp]:
  "it_groupSizes (fold (addLocated isUTF8 g os) ls t) = it_groupSizes t"
  "it_ambiguousKeys (fold (addLocated isUTF8 g os) ls t) = it_ambiguousKeys t"
  by (induction ls arbitrary: t) (simp_all add: addLocated_def Let_def split: prod.split)

lemma fields_fold_addPlain [simp]:
  "it_groupSizes (fold addPlain ns t) = it_groupSizes t" "it_ambiguousKeys (fold addPlain ns t) = it_ambiguousKeys t"
  "it_groups (fold addPlain ns t) = it_groups t"
  by (induction ns arbitrary: t) (simp_all add: addPlain_def)

lemma keys_offsetGroups: "fst ` set (offsetGroups located) = lfGroup ` set (concat (map snd located))"
proof -
  have "fst ` set (fold (\<lambda>f m. um_set_insert m (lfGroup f) (lfOffset f)) fs m) = lfGroup ` set fs \<union> fst ` set m"
    for fs :: "LocationFragment list" and m
  proof (induction fs arbitrary: m)
    case (Cons f fs)
    show ?case unfolding fold_Cons comp_apply Cons.IH by (auto simp: um_set_insert_def)
  qed simp
  then show ?thesis by (simp add: offsetGroups_def)
qed

lemma keys_fold_sizes:
  "fst ` set (fold (\<lambda>(grp, os) m. um_put m grp (length os)) ls m) = fst ` set ls \<union> fst ` set m"
proof (induction ls arbitrary: m)
  case (Cons l ls)
  show ?case unfolding fold_Cons comp_apply Cons.IH by (auto split: prod.split)
qed simp

lemma set_inOrder [simp]: "set (inOrder m) = set m"
  by (simp add: inOrder_def)

lemma groups_sized: "sized (buildIdentity isUTF8 asInt asLong g) (it_groupSizes (buildIdentity isUTF8 asInt asLong g))"
proof -
  let ?t = "lambdaPhase asInt g"
  let ?ls = "locatedUsrs asLong ?t (mentionedUsrs isUTF8 g)"
  have t: "sized ?t (it_groupSizes ?t)" unfolding lambdaPhase_def by (rule fold_addLambda_sized) (simp add: sized_def emptyIdentity_def)
  have "lfGroup (hd (snd l)) \<in> fst ` set (offsetGroups ?ls)" if "l \<in> set ?ls" for l
  proof -
    have "hd (snd l) \<in> set (snd l)" using that by (auto simp: locatedUsrs_def)
    then show ?thesis using that by (force simp: keys_offsetGroups)
  qed
  then show ?thesis using t
    unfolding buildIdentity_def Let_def lambdaPhase_def [symmetric]
    by (auto simp: sized_def groups_fold_addLocated keys_fold_sizes)
qed

lemma ambiguous_addLambda [simp]: "it_ambiguousKeys (fst (fold addLambda ls st)) = it_ambiguousKeys (fst st)"
  by (induction ls arbitrary: st) (simp_all add: addLambda_def Let_def split: prod.split)

lemma unmarked: "it_ambiguousKeys (buildIdentity isUTF8 asInt asLong g) = []"
  by (simp add: buildIdentity_def Let_def emptyIdentity_def)

lemma markAmbiguousGroups_self: "markAmbiguousGroups t t = (t, t)"
proof -
  have "fold markGroup ls (t, t) = (t, t)" for ls
    by (induction ls) (auto simp: markGroup_def split: option.split)
  then show ?thesis by (simp add: markAmbiguousGroups_def)
qed

end
