(* ===== verification/SemanticDiffProps.thy ===== *)
theory SemanticDiffProps
  imports SemanticDiff IdentityProps PathSearchProps "HOL-Library.Multiset" "HOL-Library.Sublist"
begin

text \<open>
  What the semantic diff promises: the merge of the ordered maps reports each key of one side only, and the
  differing facts of each shared key, in the documented order; an index does not differ from itself; the route
  comparison is a difference of multisets; absence is called reliable exactly when both indexes are complete and
  ask for the same units.
\<close>

section \<open>The merge\<close>

definition keysSorted :: "('k::linorder \<times> 'a) list \<Rightarrow> bool" where
  "keysSorted xs \<longleftrightarrow> sorted_wrt (<) (map fst xs)"

lemma keysSorted_inOrder: "um_ok m \<Longrightarrow> keysSorted (inOrder m)"
  by (simp add: keysSorted_def inOrder_def um_ok_def strict_sorted_iff distinct_map)

lemma map_of_inOrder: "um_ok m \<Longrightarrow> map_of (inOrder m) = map_of m"
  unfolding inOrder_def um_ok_def by (subst map_of_inject_set) (simp_all add: distinct_map)

definition leftOnly :: "'k \<times> 'a option \<times> 'b option \<Rightarrow> ('k \<times> 'a) option" where
  "leftOnly j = (case j of (k, Some b, None) \<Rightarrow> Some (k, b) | _ \<Rightarrow> None)"

definition rightOnly :: "'k \<times> 'a option \<times> 'b option \<Rightarrow> ('k \<times> 'b) option" where
  "rightOnly j = (case j of (k, None, Some a) \<Rightarrow> Some (k, a) | _ \<Rightarrow> None)"

definition shared :: "'k \<times> 'a option \<times> 'b option \<Rightarrow> ('k \<times> 'a \<times> 'b) option" where
  "shared j = (case j of (k, Some b, Some a) \<Rightarrow> Some (k, b, a) | _ \<Rightarrow> None)"

definition onlyIn :: "('k \<times> 'a) list \<Rightarrow> ('k \<times> 'b) list \<Rightarrow> ('k \<times> 'a) list" where
  "onlyIn m m' = filter (\<lambda>e. map_of m' (fst e) = None) m"

definition inBoth :: "('k \<times> 'a) list \<Rightarrow> ('k \<times> 'b) list \<Rightarrow> ('k \<times> 'a \<times> 'b) list" where
  "inBoth m m' = concat (map (\<lambda>(k, b). case map_of m' k of None \<Rightarrow> [] | Some a \<Rightarrow> [(k, b, a)]) m)"

lemma absent_below: "keysSorted ((l, a) # as) \<Longrightarrow> k < l \<Longrightarrow> map_of ((l, a) # as) k = None"
  by (auto simp: keysSorted_def map_of_eq_None_iff)

lemma keysSorted_tl: "keysSorted (x # xs) \<Longrightarrow> keysSorted xs"
  by (simp add: keysSorted_def)

lemma keysSorted_Cons: "keysSorted ((k, b) # bs) \<longleftrightarrow> (\<forall>e \<in> set bs. k < fst e) \<and> keysSorted bs"
  by (auto simp: keysSorted_def)

lemma onlyIn_skip: "\<forall>e \<in> set m. (l :: 'k :: linorder) < fst e \<Longrightarrow> onlyIn m ((l, a) # as) = onlyIn m as"
  unfolding onlyIn_def by (rule filter_cong) auto

lemma inBoth_skip: "\<forall>e \<in> set m. (l :: 'k :: linorder) < fst e \<Longrightarrow> inBoth m ((l, a) # as) = inBoth m as"
  unfolding inBoth_def by (induction m) auto

lemma join_sel [simp]:
  "leftOnly (k, Some b, None) = Some (k, b)" "leftOnly (k, None, x) = None" "leftOnly (k, x, Some a) = None"
  "shared (k, Some b, Some a) = Some (k, b, a)" "shared (k, None, x) = None" "shared (k, y, None) = None"
  by (simp_all add: leftOnly_def shared_def split: option.split)

lemma onlyIn_Cons: "onlyIn ((k, b) # m) m' = (if map_of m' k = None then (k, b) # onlyIn m m' else onlyIn m m')"
  by (simp add: onlyIn_def)

lemma inBoth_Cons: "inBoth ((k, b) # m) m' = (case map_of m' k of None \<Rightarrow> inBoth m m' | Some a \<Rightarrow> (k, b, a) # inBoth m m')"
  by (simp add: inBoth_def split: option.split)

lemma only_right [simp]:
  "List.map_filter leftOnly (map (\<lambda>(k, a). (k, None, Some a)) xs) = []"
  "List.map_filter shared (map (\<lambda>(k, a). (k, None, Some a)) xs) = []"
  by (induction xs) (auto simp: leftOnly_def shared_def)

lemma only_left [simp]:
  "List.map_filter leftOnly (map (\<lambda>(k, b). (k, Some b, None)) xs) = xs"
  "List.map_filter shared (map (\<lambda>(k, b). (k, Some b, None)) xs) = []"
  by (induction xs) (auto simp: leftOnly_def shared_def)

lemma nothing_shared [simp]: "onlyIn [] m = []" "onlyIn m [] = m" "inBoth [] m = []" "inBoth m [] = []"
  by (induction m) (auto simp: onlyIn_def inBoth_def)

lemma leftOnly_swap: "leftOnly (case j of (k, b, a) \<Rightarrow> (k, a, b)) = rightOnly j"
  by (auto simp: leftOnly_def rightOnly_def split: prod.split option.split)

lemma mergeJoin_left: "keysSorted bs \<Longrightarrow> keysSorted as \<Longrightarrow> List.map_filter leftOnly (mergeJoin bs as) = onlyIn bs as"
proof (induction bs as rule: mergeJoin.induct)
  case (2 b bs)
  show ?case by (simp only: mergeJoin.simps only_left nothing_shared)
next
  case (3 k b bs l a as)
  have s: "\<forall>e \<in> set bs. k < fst e" "keysSorted bs" "keysSorted as" using 3(4,5) by (simp_all add: keysSorted_Cons)
  consider (less) "k < l" | (greater) "l < k" | (same) "k = l" by force
  then show ?case
  proof cases
    case less
    then show ?thesis using 3(1) [OF less s(2) 3(5)] absent_below [OF 3(5) less] by (simp add: onlyIn_Cons del: map_of.simps)
  next
    case greater
    then have "\<forall>e \<in> set ((k, b) # bs). l < fst e" using s(1) by auto
    then show ?thesis using greater 3(2) [OF less_not_sym [OF greater] greater 3(4) s(3)] less_not_sym [OF greater]
      by (simp add: onlyIn_skip)
  next
    case same
    then have "onlyIn ((k, b) # bs) ((l, a) # as) = onlyIn bs as" using onlyIn_skip [of bs l a as] s(1) by (simp add: onlyIn_Cons)
    then show ?thesis using same 3(3) s by simp
  qed
qed simp

lemma mergeJoin_swap: "map (\<lambda>(k, b, a). (k, a, b)) (mergeJoin bs as) = mergeJoin as bs"
proof (induction bs as rule: mergeJoin.induct)
  case (1 as)
  show ?case by (cases as) auto
qed auto

lemma mergeJoin_right:
  assumes "keysSorted bs" "keysSorted as"
  shows "List.map_filter rightOnly (mergeJoin bs as) = onlyIn as bs"
proof -
  have "List.map_filter rightOnly js = List.map_filter leftOnly (map (\<lambda>(k, b, a). (k, a, b)) js)" for js :: "('a \<times> 'b option \<times> 'c option) list"
    unfolding List.map_filter_def by (simp add: comp_def leftOnly_swap filter_map)
  then show ?thesis using mergeJoin_left [OF assms(2,1)] by (simp add: mergeJoin_swap)
qed

lemma mergeJoin_shared: "keysSorted bs \<Longrightarrow> keysSorted as \<Longrightarrow> List.map_filter shared (mergeJoin bs as) = inBoth bs as"
proof (induction bs as rule: mergeJoin.induct)
  case (2 b bs)
  show ?case by (simp only: mergeJoin.simps only_left nothing_shared)
next
  case (3 k b bs l a as)
  have s: "\<forall>e \<in> set bs. k < fst e" "keysSorted bs" "keysSorted as" using 3(4,5) by (simp_all add: keysSorted_Cons)
  consider (less) "k < l" | (greater) "l < k" | (same) "k = l" by force
  then show ?case
  proof cases
    case less
    then show ?thesis using 3(1) [OF less s(2) 3(5)] absent_below [OF 3(5) less] by (simp add: inBoth_Cons del: map_of.simps)
  next
    case greater
    then have "\<forall>e \<in> set ((k, b) # bs). l < fst e" using s(1) by auto
    then show ?thesis using greater 3(2) [OF less_not_sym [OF greater] greater 3(4) s(3)] less_not_sym [OF greater]
      by (simp add: inBoth_skip)
  next
    case same
    then have "inBoth ((k, b) # bs) ((l, a) # as) = (k, b, a) # inBoth bs as" using inBoth_skip [of bs l a as] s(1) by (simp add: inBoth_Cons)
    then show ?thesis using same 3(3) s by simp
  qed
qed simp

lemma mergeJoin_self: "mergeJoin m m = map (\<lambda>(k, v). (k, Some v, Some v)) m"
  by (induction m) auto

section \<open>The order of the changes\<close>

definition changeKinds :: "ChangeKind list" where
  "changeKinds = [FunctionRemoved, FunctionAdded, CallRemoved, CallAdded, CallChanged, ContextChanged]"

definition ofKind :: "ChangeKind \<Rightarrow> ChangeRecord list \<Rightarrow> ChangeRecord list" where
  "ofKind k = filter (\<lambda>c. chKind c = k)"

definition relationKey :: "ChangeRecord \<Rightarrow> string \<times> string \<times> EdgeKind" where
  "relationKey c = (chCallerKey c, chCalleeKey c, chEdgeKind c)"

lemma changeOrder_rank: "changeOrder c = (changeRank (chKind c), relationKey c)"
  by (simp add: changeOrder_def relationKey_def)

lemma changeRank_inj: "changeRank a = changeRank b \<longleftrightarrow> a = b"
  by (cases a; cases b) (simp_all add: changeRank_def)

lemma ofKind_mset: "mset (concat (map (\<lambda>k. ofKind k xs) changeKinds)) = mset xs"
proof (induction xs)
  case (Cons c xs)
  show ?case using Cons by (cases "chKind c") (simp_all add: changeKinds_def ofKind_def)
qed (simp add: changeKinds_def ofKind_def)

lemma sorted_ofKind: "sorted (map relationKey (ofKind k xs)) \<Longrightarrow> sorted (map changeOrder (ofKind k xs))"
  unfolding sorted_map
  by (erule sorted_wrt_mono_rel [rotated]) (auto simp: ofKind_def changeOrder_rank less_eq_prod_simp)

lemma ofKind_less:
  "x \<in> set (ofKind k xs) \<Longrightarrow> y \<in> set (ofKind k' xs) \<Longrightarrow> changeRank k < changeRank k' \<Longrightarrow> changeOrder x \<le> changeOrder y"
  by (auto simp: ofKind_def changeOrder_rank less_eq_prod_simp)

lemma sort_changes:
  assumes "\<And>k. sorted (map relationKey (ofKind k xs))"
  shows "sort_key changeOrder xs = concat (map (\<lambda>k. ofKind k xs) changeKinds)"
proof (rule properties_for_sort_key [OF ofKind_mset])
  show "sorted (map changeOrder (concat (map (\<lambda>k. ofKind k xs) changeKinds)))"
    using sorted_ofKind [OF assms] by (auto simp: changeKinds_def sorted_append changeRank_def elim!: ofKind_less)
  fix c
  have "filter (\<lambda>x. changeOrder c = changeOrder x) (ofKind k xs) =
      (if k = chKind c then filter (\<lambda>x. changeOrder c = changeOrder x) xs else [])" for k
    by (auto simp: ofKind_def filter_empty_conv changeOrder_rank changeRank_inj intro!: filter_cong)
  then show "filter (\<lambda>x. changeOrder c = changeOrder x) (concat (map (\<lambda>k. ofKind k xs) changeKinds)) =
      filter (\<lambda>x. changeOrder c = changeOrder x) xs"
    by (cases "chKind c") (simp_all add: changeKinds_def)
qed

section \<open>The reference\<close>

definition removedFunction :: "Comparability \<Rightarrow> string \<times> FunctionFacts \<Rightarrow> ChangeRecord" where
  "removedFunction c e = functionRecord FunctionRemoved (fst e) (snd e)
     (explainAbsence (ffFile (snd e)) (tusOnlyBefore c) (failedAfter c) (partialAfter c) ''after'')"

definition addedFunction :: "Comparability \<Rightarrow> string \<times> FunctionFacts \<Rightarrow> ChangeRecord" where
  "addedFunction c e = functionRecord FunctionAdded (fst e) (snd e)
     (explainAbsence (ffFile (snd e)) (tusOnlyAfter c) (failedBefore c) (partialBefore c) ''before'')"

definition removedCall :: "SemanticDiffOptions \<Rightarrow> RelKey \<times> RelValue \<Rightarrow> ChangeRecord" where
  "removedCall opts e = callRecord CallRemoved (fst e) (snd e) (Some (trimSites (optMaxSites opts) (rvSide (snd e)))) None"

definition addedCall :: "SemanticDiffOptions \<Rightarrow> RelKey \<times> RelValue \<Rightarrow> ChangeRecord" where
  "addedCall opts e = callRecord CallAdded (fst e) (snd e) None (Some (trimSites (optMaxSites opts) (rvSide (snd e))))"

definition differingCall :: "ChangeKind \<Rightarrow> SemanticDiffOptions \<Rightarrow> RelKey \<times> RelValue \<times> RelValue \<Rightarrow> ChangeRecord" where
  "differingCall change opts e = (case e of (k, b, a) \<Rightarrow>
     callRecord change k a (Some (trimSites (optMaxSites opts) (rvSide b))) (Some (trimSites (optMaxSites opts) (rvSide a))))"

definition attributesDiffer :: "RelKey \<times> RelValue \<times> RelValue \<Rightarrow> bool" where
  "attributesDiffer e = (case e of (k, b, a) \<Rightarrow> rsAttributes (rvSide b) \<noteq> rsAttributes (rvSide a))"

definition signaturesDiffer :: "RelKey \<times> RelValue \<times> RelValue \<Rightarrow> bool" where
  "signaturesDiffer e = (case e of (k, b, a) \<Rightarrow> rsSignatures (rvSide b) \<noteq> rsSignatures (rvSide a))"

text \<open>The changes by lookup: kind after kind, each in key order.\<close>

definition expectedChanges :: "Comparability \<Rightarrow> SemanticDiffOptions \<Rightarrow> bool \<Rightarrow> side_facts \<Rightarrow> side_facts \<Rightarrow> ChangeRecord list" where
  "expectedChanges c opts contexts fb fa =
     map (removedFunction c) (onlyIn (inOrder (sf_functions fb)) (sf_functions fa)) @
     map (addedFunction c) (onlyIn (inOrder (sf_functions fa)) (sf_functions fb)) @
     map (removedCall opts) (onlyIn (inOrder (sf_relationships fb)) (sf_relationships fa)) @
     map (addedCall opts) (onlyIn (inOrder (sf_relationships fa)) (sf_relationships fb)) @
     map (differingCall CallChanged opts) (filter attributesDiffer (inBoth (inOrder (sf_relationships fb)) (sf_relationships fa))) @
     map (differingCall ContextChanged opts)
       (filter (\<lambda>e. contexts \<and> signaturesDiffer e) (inBoth (inOrder (sf_relationships fb)) (sf_relationships fa)))"

definition functionChange :: "Comparability \<Rightarrow> string \<times> FunctionFacts option \<times> FunctionFacts option \<Rightarrow> ChangeRecord list" where
  "functionChange c j = (case j of (k, Some b, None) \<Rightarrow> [removedFunction c (k, b)] | (k, None, Some a) \<Rightarrow> [addedFunction c (k, a)] | _ \<Rightarrow> [])"

lemma fold_functionStep_changes:
  "fn_changes (fold (functionStep c opts) js st) = fn_changes st @ concat (map (functionChange c) js)"
proof (induction js arbitrary: st)
  case (Cons j js)
  have "fn_changes (functionStep c opts j st) = fn_changes st @ functionChange c j"
    by (auto simp: functionStep_def functionChange_def removedFunction_def addedFunction_def split: prod.split option.split)
  then show ?case by (simp add: Cons.IH)
qed simp

lemma rightOnly_sel [simp]: "rightOnly (k, None, Some a) = Some (k, a)" "rightOnly (k, Some b, x) = None" "rightOnly (k, x, None) = None"
  by (simp_all add: rightOnly_def split: option.split)

lemma ofKind_simps [simp]:
  "ofKind k [] = []" "ofKind k (xs @ ys) = ofKind k xs @ ofKind k ys" "ofKind k (c # xs) = (if chKind c = k then c # ofKind k xs else ofKind k xs)"
  by (simp_all add: ofKind_def)

lemma record_kinds [simp]:
  "chKind (removedFunction c e) = FunctionRemoved" "chKind (addedFunction c e) = FunctionAdded" "chKind (removedCall opts x) = CallRemoved"
  "chKind (addedCall opts x) = CallAdded" "chKind (differingCall k opts y) = k"
  by (simp_all add: removedFunction_def addedFunction_def functionRecord_def removedCall_def addedCall_def differingCall_def callRecord_def
      split: prod.split)

lemma functionChange_sel:
  "functionChange c (k, Some b, None) = [removedFunction c (k, b)]" "functionChange c (k, None, Some a) = [addedFunction c (k, a)]"
  "functionChange c (k, Some b, Some a) = []" "functionChange c (k, None, None) = []"
  by (simp_all add: functionChange_def)

lemma ofKind_functions:
  "ofKind k (concat (map (functionChange c) js)) =
     (case k of FunctionRemoved \<Rightarrow> map (removedFunction c) (List.map_filter leftOnly js)
      | FunctionAdded \<Rightarrow> map (addedFunction c) (List.map_filter rightOnly js) | _ \<Rightarrow> [])"
proof (induction js)
  case (Cons j js)
  obtain key b a where j: "j = (key, b, a)" by (cases j)
  show ?case using Cons.IH by (cases k; cases b; cases a) (simp_all add: j functionChange_sel)
qed (cases k, simp_all)

lemma relationChanges_sel:
  "relationChanges contexts opts (k, Some b, None) = [removedCall opts (k, b)]"
  "relationChanges contexts opts (k, None, Some a) = [addedCall opts (k, a)]"
  "relationChanges contexts opts (k, Some b, Some a) =
     (if attributesDiffer (k, b, a) then [differingCall CallChanged opts (k, b, a)] else []) @
     (if contexts \<and> signaturesDiffer (k, b, a) then [differingCall ContextChanged opts (k, b, a)] else [])"
  "relationChanges contexts opts (k, None, None) = []"
  by (simp_all add: relationChanges_def removedCall_def addedCall_def differingCall_def attributesDiffer_def signaturesDiffer_def Let_def)

lemma ofKind_relations:
  "ofKind k (concat (map (relationChanges contexts opts) js)) =
     (case k of CallRemoved \<Rightarrow> map (removedCall opts) (List.map_filter leftOnly js)
      | CallAdded \<Rightarrow> map (addedCall opts) (List.map_filter rightOnly js)
      | CallChanged \<Rightarrow> map (differingCall CallChanged opts) (filter attributesDiffer (List.map_filter shared js))
      | ContextChanged \<Rightarrow> map (differingCall ContextChanged opts) (filter (\<lambda>e. contexts \<and> signaturesDiffer e) (List.map_filter shared js))
      | _ \<Rightarrow> [])"
proof (induction js)
  case (Cons j js)
  obtain key b a where j: "j = (key, b, a)" by (cases j)
  show ?case using Cons.IH by (cases k; cases b; cases a) (simp_all add: j relationChanges_sel)
qed (cases k, simp_all)

lemma keysSorted_onlyIn: "keysSorted m \<Longrightarrow> keysSorted (onlyIn m m')"
  unfolding keysSorted_def onlyIn_def sorted_wrt_map by (rule sorted_wrt_filter)

lemma keysSorted_inBoth: "keysSorted m \<Longrightarrow> keysSorted (inBoth m m')"
proof (induction m)
  case (Cons e m)
  obtain k b where e: "e = (k, b)" by (cases e)
  have "fst ` set (inBoth m m') \<subseteq> fst ` set m" by (force simp: inBoth_def split: option.splits)
  then have "k < fst x" if "x \<in> set (inBoth m m')" for x using Cons.prems that by (force simp: e keysSorted_Cons)
  then show ?case using Cons by (simp add: e inBoth_Cons keysSorted_Cons split: option.split)
qed (simp add: keysSorted_def)

lemma keysSorted_filter: "keysSorted m \<Longrightarrow> keysSorted (filter P m)"
  unfolding keysSorted_def sorted_wrt_map by (rule sorted_wrt_filter)

lemma sorted_records:
  assumes "keysSorted m"
  shows "sorted (map fst m)" "sorted (map (\<lambda>e. (fst e, d)) m)"
  using assms unfolding keysSorted_def sorted_map sorted_wrt_map by (auto elim!: sorted_wrt_mono_rel [rotated] simp: less_eq_prod_simp)

lemma relationKey_records [simp]:
  "relationKey (removedFunction c e) = (fst e, [], DirectCall)" "relationKey (addedFunction c e) = (fst e, [], DirectCall)"
  "relationKey (removedCall opts x) = fst x" "relationKey (addedCall opts x) = fst x" "relationKey (differingCall k opts y) = fst y"
  by (simp_all add: relationKey_def removedFunction_def addedFunction_def functionRecord_def removedCall_def addedCall_def
      differingCall_def callRecord_def split: prod.split)

lemma onlyIn_cong: "map_of m' = map_of m'' \<Longrightarrow> onlyIn m m' = onlyIn m m''"
  by (simp add: onlyIn_def)

lemma inBoth_cong: "map_of m' = map_of m'' \<Longrightarrow> inBoth m m' = inBoth m m''"
  by (simp add: inBoth_def)

lemma compareFacts_changes:
  assumes ok: "um_ok (sf_functions fb)" "um_ok (sf_functions fa)" "um_ok (sf_relationships fb)" "um_ok (sf_relationships fa)"
  shows "sdChanges (compareFacts c opts contexts idB idA fb fa) = expectedChanges c opts contexts fb fa"
proof -
  let ?F = "mergeJoin (inOrder (sf_functions fb)) (inOrder (sf_functions fa))"
  let ?R = "mergeJoin (inOrder (sf_relationships fb)) (inOrder (sf_relationships fa))"
  let ?xs = "concat (map (functionChange c) ?F) @ concat (map (relationChanges contexts opts) ?R)"
  note s = keysSorted_inOrder [OF ok(1)] keysSorted_inOrder [OF ok(2)] keysSorted_inOrder [OF ok(3)] keysSorted_inOrder [OF ok(4)]
  note m = map_of_inOrder [OF ok(1)] map_of_inOrder [OF ok(2)] map_of_inOrder [OF ok(3)] map_of_inOrder [OF ok(4)]
  have F: "List.map_filter leftOnly ?F = onlyIn (inOrder (sf_functions fb)) (sf_functions fa)"
    "List.map_filter rightOnly ?F = onlyIn (inOrder (sf_functions fa)) (sf_functions fb)"
    using mergeJoin_left [OF s(1,2)] mergeJoin_right [OF s(1,2)] by (simp_all add: onlyIn_cong [OF m(1)] onlyIn_cong [OF m(2)])
  have R: "List.map_filter leftOnly ?R = onlyIn (inOrder (sf_relationships fb)) (sf_relationships fa)"
    "List.map_filter rightOnly ?R = onlyIn (inOrder (sf_relationships fa)) (sf_relationships fb)"
    "List.map_filter shared ?R = inBoth (inOrder (sf_relationships fb)) (sf_relationships fa)"
    using mergeJoin_left [OF s(3,4)] mergeJoin_right [OF s(3,4)] mergeJoin_shared [OF s(3,4)]
    by (simp_all add: onlyIn_cong [OF m(3)] onlyIn_cong [OF m(4)] inBoth_cong [OF m(4)])
  have "sorted (map relationKey (ofKind k ?xs))" for k
    using s by (cases k) (simp_all add: ofKind_functions ofKind_relations F R comp_def sorted_records keysSorted_onlyIn keysSorted_inBoth keysSorted_filter)
  then have "sort_key changeOrder ?xs = concat (map (\<lambda>k. ofKind k ?xs) changeKinds)" by (rule sort_changes)
  also have "\<dots> = expectedChanges c opts contexts fb fa"
    by (simp add: changeKinds_def ofKind_functions ofKind_relations F R expectedChanges_def)
  finally show ?thesis by (simp add: compareFacts_def fold_functionStep_changes Let_def)
qed

definition movedFunction :: "string \<times> FunctionFacts \<times> FunctionFacts \<Rightarrow> bool" where
  "movedFunction e = (case e of (k, b, a) \<Rightarrow> ffFile b \<noteq> ffFile a \<or> ffLine b \<noteq> ffLine a)"

lemma fold_functionStep_moved:
  "fn_moved (fold (functionStep c opts) js st) = fn_moved st + length (filter movedFunction (List.map_filter shared js))"
proof (induction js arbitrary: st)
  case (Cons j js)
  obtain key b a where j: "j = (key, b, a)" by (cases j)
  have "fn_moved (functionStep c opts j st) = fn_moved st + length (filter movedFunction (List.map_filter shared [j]))"
    by (cases b; cases a) (simp_all add: functionStep_def movedFunction_def j)
  moreover have "List.map_filter shared (j # js) = List.map_filter shared [j] @ List.map_filter shared js"
    by (simp add: List.map_filter_def)
  ultimately show ?case by (simp add: Cons.IH del: map_filter_simps)
qed simp

lemma um_ok_collectSide: "um_ok (sf_functions (collectSide isUTF8 g ident cs))" "um_ok (sf_relationships (collectSide isUTF8 g ident cs))"
proof -
  have f: "um_ok m \<Longrightarrow> um_ok (fold (collectFunction ident) ns m)" for ns m
    by (induction ns arbitrary: m) (simp_all add: collectFunction_def Let_def)
  have e: "um_ok (fst st) \<Longrightarrow> um_ok (fst (fold (collectEdge ident cs) es st))" for es st
  proof (induction es arbitrary: st)
    case (Cons x es)
    have "um_ok (fst (collectEdge ident cs x st))" using Cons.prems by (auto simp: collectEdge_def Let_def split: prod.split)
    then show ?case using Cons.IH by simp
  qed simp
  have v: "um_ok (map (\<lambda>(key, v). (key, h v)) m) = um_ok m" for h :: "RelValue \<Rightarrow> RelValue" and m :: "(RelKey, RelValue) umap"
    by (simp add: um_ok_def comp_def case_prod_unfold)
  show "um_ok (sf_functions (collectSide isUTF8 g ident cs))"
    using f [of "[]"] by (simp add: collectSide_def Let_def um_ok_def split: prod.split)
  show "um_ok (sf_relationships (collectSide isUTF8 g ident cs))"
    using e [of "([], [])"] by (simp add: collectSide_def Let_def v split: prod.split) (metis fst_conv um_ok_Nil)
qed

text \<open>
  C29: the changes of a semantic diff that is not refused are, kind after kind and in key order, the functions of
  one side only, the relationships of one side only, and the relationships of both sides whose attributes or,
  when contexts are compared, signatures differ; the moved functions are those with another file or line.
\<close>

theorem semanticDiff_changes:
  assumes run: "semanticDiff isUTF8 asInt asLong before after opts = (r, Some (idB, idA))"
    and contexts: "contexts = compareContexts before after opts"
    and fb: "fb = collectSide isUTF8 (dsGraph before) idB (signaturesOf contexts before)"
    and fa: "fa = collectSide isUTF8 (dsGraph after) idA (signaturesOf contexts after)"
  shows "sdChanges r = expectedChanges (sdComparability r) opts contexts fb fa \<and>
    sdMovedFunctions r = length (filter movedFunction (inBoth (inOrder (sf_functions fb)) (sf_functions fa)))"
proof -
  let ?c = "checkComparability (dsMeta before) (dsMeta after) contexts"
  have r: "r = compareFacts ?c opts contexts idB idA fb fa"
    using run by (auto simp: semanticDiff_def Let_def contexts fb fa split: if_splits prod.splits)
  have ok: "um_ok (sf_functions fb)" "um_ok (sf_functions fa)" "um_ok (sf_relationships fb)" "um_ok (sf_relationships fa)"
    by (simp_all add: fb fa um_ok_collectSide)
  have "sdComparability r = ?c" by (simp add: r compareFacts_def emptyDiff_def Let_def)
  moreover have "List.map_filter shared (mergeJoin (inOrder (sf_functions fb)) (inOrder (sf_functions fa))) = inBoth (inOrder (sf_functions fb)) (sf_functions fa)"
    unfolding inBoth_cong [OF map_of_inOrder [OF ok(2)], symmetric]
    by (rule mergeJoin_shared [OF keysSorted_inOrder [OF ok(1)] keysSorted_inOrder [OF ok(2)]])
  ultimately show ?thesis
    using compareFacts_changes [OF ok] by (simp add: r compareFacts_def fold_functionStep_moved Let_def)
qed

definition sampleSide :: "call_graph \<Rightarrow> DiffSide" where
  "sampleSide g = \<lparr>dsGraph = g, dsCfIndex = None, dsMeta = None, dsSignatures = None\<rparr>"

definition sampleOptions :: SemanticDiffOptions where
  "sampleOptions = \<lparr>optCompareContexts = True, optIncludeMoves = False, optMaxSites = 8, optAllowMismatch = False\<rparr>"

definition sampleNode :: "string \<Rightarrow> CallGraphNode" where
  "sampleNode s = \<lparr>qualifiedName = s, nodeFile = ''a.cc'', nodeLine = 1, isEntryPoint = False, isVirtual = False, enclosingClass = [], usr = s\<rparr>"

theorem semanticDiff_changes_witness:
  "map chKind (sdChanges (fst (semanticDiff (\<lambda>_. True) (\<lambda>_. None) (\<lambda>_. None) (sampleSide (addNode emptyGraph (sampleNode ''f'') ''a''))
     (sampleSide (addNode emptyGraph (sampleNode ''g'') ''a'')) sampleOptions))) = [FunctionRemoved, FunctionAdded]"
proof -
  let ?b = "sampleSide (addNode emptyGraph (sampleNode ''f'') ''a'')"
  let ?a = "sampleSide (addNode emptyGraph (sampleNode ''g'') ''a'')"
  let ?r = "fst (semanticDiff (\<lambda>_. True) (\<lambda>_. None) (\<lambda>_. None) ?b ?a sampleOptions)"
  let ?t = "identities (\<lambda>_. True) (\<lambda>_. None) (\<lambda>_. None) (dsGraph ?b) (dsGraph ?a)"
  let ?s = "\<lambda>side ident. collectSide (\<lambda>_. True) (dsGraph side) ident (signaturesOf (compareContexts ?b ?a sampleOptions) side)"
  have run: "semanticDiff (\<lambda>_. True) (\<lambda>_. None) (\<lambda>_. None) ?b ?a sampleOptions = (?r, Some (fst ?t, snd ?t))"
    by (simp add: semanticDiff_def Let_def sampleSide_def checkComparability_def addReason_def split: prod.split)
  have "map chKind (expectedChanges (sdComparability ?r) sampleOptions (compareContexts ?b ?a sampleOptions) (?s ?b (fst ?t)) (?s ?a (snd ?t))) =
      [FunctionRemoved, FunctionAdded]" by code_simp
  then show ?thesis using semanticDiff_changes [OF run refl refl refl] by simp
qed

section \<open>Comparability\<close>

lemma addReason_comparable [simp]:
  "cmpComparable (addReason b x (\<lambda>c. c\<lparr>cmpAbsenceReliable := False\<rparr>) c) = cmpComparable c"
  "cmpComparable (addReason b x (\<lambda>c. c\<lparr>cmpConfigSame := False\<rparr>) c) = cmpComparable c"
  "cmpComparable (addReason b x (\<lambda>c. c\<lparr>cmpAnalyzerSame := False\<rparr>) c) = cmpComparable c"
  "cmpComparable (addReason b x (\<lambda>c. c\<lparr>cmpToolchainSame := False\<rparr>) c) = cmpComparable c"
  "cmpComparable (addReason b x id c) = cmpComparable c"
  "cmpConfigSame (addReason b x (\<lambda>c. c\<lparr>cmpConfigSame := False\<rparr>) c) = (\<not> b \<and> cmpConfigSame c)"
  "cmpConfigSame (addReason b x id c) = cmpConfigSame c"
  by (simp_all add: addReason_def)

lemma addReason_absence [simp]:
  "cmpAbsenceReliable (addReason b x (\<lambda>c. c\<lparr>cmpAbsenceReliable := False\<rparr>) c) = (\<not> b \<and> cmpAbsenceReliable c)"
  "cmpAbsenceReliable (addReason b x (\<lambda>c. c\<lparr>cmpConfigSame := False\<rparr>) c) = cmpAbsenceReliable c"
  "cmpAbsenceReliable (addReason b x (\<lambda>c. c\<lparr>cmpAnalyzerSame := False\<rparr>) c) = cmpAbsenceReliable c"
  "cmpAbsenceReliable (addReason b x (\<lambda>c. c\<lparr>cmpToolchainSame := False\<rparr>) c) = cmpAbsenceReliable c"
  "cmpAbsenceReliable (addReason b x id c) = cmpAbsenceReliable c"
  by (simp_all add: addReason_def)

lemma addReason_units [simp]:
  "tusOnlyAfter (addReason b x (\<lambda>c. c\<lparr>cmpAbsenceReliable := False\<rparr>) c) = tusOnlyAfter c"
  "failedBefore (addReason b x (\<lambda>c. c\<lparr>cmpAbsenceReliable := False\<rparr>) c) = failedBefore c"
  "failedAfter (addReason b x (\<lambda>c. c\<lparr>cmpAbsenceReliable := False\<rparr>) c) = failedAfter c"
  "partialBefore (addReason b x (\<lambda>c. c\<lparr>cmpAbsenceReliable := False\<rparr>) c) = partialBefore c"
  "partialAfter (addReason b x (\<lambda>c. c\<lparr>cmpAbsenceReliable := False\<rparr>) c) = partialAfter c"
  by (simp_all add: addReason_def)

definition sameConfig :: "SnapshotMeta \<Rightarrow> SnapshotMeta \<Rightarrow> bool" where
  "sameConfig mb ma \<longleftrightarrow> smCollapsePaths mb = smCollapsePaths ma \<and> smLockAllowlist mb = smLockAllowlist ma \<and>
     smLockBuiltins mb = smLockBuiltins ma \<and> smChannelTypes mb = smChannelTypes ma"

lemma configReasons_comparable [simp]:
  "cmpComparable (configReasons mb ma c) = (sameConfig mb ma \<and> cmpConfigSame c \<and> cmpComparable c)"
  by (auto simp: configReasons_def Let_def sameConfig_def)

lemma configReasons_absence [simp]: "cmpAbsenceReliable (configReasons mb ma c) = cmpAbsenceReliable c"
  by (simp add: configReasons_def Let_def)

lemma coverageReasons_comparable [simp]: "cmpComparable (coverageReasons c) = cmpComparable c"
  by (simp add: coverageReasons_def Let_def)

lemma coverageReasons_absence [simp]:
  "cmpAbsenceReliable (coverageReasons c) \<longleftrightarrow> tusOnlyBefore c = [] \<and> tusOnlyAfter c = [] \<and> failedBefore c = [] \<and> partialBefore c = [] \<and>
     failedAfter c = [] \<and> partialAfter c = [] \<and> cmpAbsenceReliable c"
  by (auto simp: coverageReasons_def Let_def)

definition recorded :: "SnapshotMeta \<Rightarrow> bool" where
  "recorded meta \<longleftrightarrow> length (smOutcomes meta) = length (smFiles meta) \<and> distinct (map fsPath (smFiles meta))"

lemma fold_um_put_new:
  "distinct (map fst ps) \<Longrightarrow> fst ` set ps \<inter> fst ` set m = {} \<Longrightarrow> fold (\<lambda>(k, v) m. um_put m k v) ps m = m @ ps"
proof (induction ps arbitrary: m)
  case (Cons p ps)
  obtain k v where p: "p = (k, v)" by (cases p)
  have "um_put m k v = m @ [(k, v)]" using Cons.prems unfolding um_put_def p by (induction m) auto
  then show ?case using Cons by (simp add: p)
qed simp

lemma outcomesOf_zip: "recorded meta \<Longrightarrow> outcomesOf meta = zip (map fsPath (smFiles meta)) (smOutcomes meta)"
proof -
  assume r: "recorded meta"
  have "fold (\<lambda>(f, outcome) m. um_put m (fsPath f) outcome) xs m = fold (\<lambda>(k, v) m. um_put m k v) (map (\<lambda>(f, v). (fsPath f, v)) xs) m" for xs m
    by (induction xs arbitrary: m) auto
  then have "outcomesOf meta = fold (\<lambda>(k, v) m. um_put m k v) (zip (map fsPath (smFiles meta)) (smOutcomes meta)) []"
    by (simp add: outcomesOf_def zip_map1)
  then show ?thesis using r fold_um_put_new [of "zip (map fsPath (smFiles meta)) (smOutcomes meta)" "[]"] by (simp add: recorded_def)
qed

lemma sort_Nil_iff: "sort_key f xs = [] \<longleftrightarrow> xs = []"
  by (metis length_0_conv length_sort)

lemma classify_empty:
  assumes "recorded meta"
  shows "fst (classify meta) = [] \<and> snd (classify meta) = [] \<longleftrightarrow> (\<forall>i < length (smFiles meta). statusAt meta i = Indexed)"
proof -
  have "fst (classify meta) = [] \<and> snd (classify meta) = [] \<longleftrightarrow> (\<forall>(p, outcome) \<in> set (outcomesOf meta). toStatus outcome = Indexed)"
    by (auto simp: classify_def filter_empty_conv sort_Nil_iff)
  also have "\<dots> \<longleftrightarrow> (\<forall>i < length (smFiles meta). statusAt meta i = Indexed)"
    using assms unfolding outcomesOf_zip [OF assms] by (auto simp: recorded_def set_zip statusAt_def)
  finally show ?thesis .
qed

lemma coverageOf_indexed:
  "covRequested (coverageOf meta) = length (smFiles meta)"
  "covIndexed (coverageOf meta) = length (filter (\<lambda>i. statusAt meta i = Indexed) [0..<length (smFiles meta)])"
proof -
  have "covRequested (fold (\<lambda>i. coverageStep (statusAt meta i)) is c) = covRequested c \<and>
      covIndexed (fold (\<lambda>i. coverageStep (statusAt meta i)) is c) = covIndexed c + length (filter (\<lambda>i. statusAt meta i = Indexed) is)"
    for "is" :: "nat list" and c
    by (induction "is" arbitrary: c) (auto simp: coverageStep_def split: TuStatus.split)
  then show "covRequested (coverageOf meta) = length (smFiles meta)"
    "covIndexed (coverageOf meta) = length (filter (\<lambda>i. statusAt meta i = Indexed) [0..<length (smFiles meta)])"
    by (simp_all add: coverageOf_def)
qed

lemma coverage_complete: "coverageComplete (coverageOf meta) \<longleftrightarrow> (\<forall>i < length (smFiles meta). statusAt meta i = Indexed)"
proof -
  have "length (filter P xs) = length xs \<longleftrightarrow> (\<forall>x \<in> set xs. P x)" for P and xs :: "nat list"
    by (metis filter_id_conv length_filter_less less_irrefl)
  from this [of "\<lambda>i. statusAt meta i = Indexed" "[0..<length (smFiles meta)]"] show ?thesis
    by (auto simp: coverageComplete_def coverageOf_indexed)
qed

text \<open>
  C30: two bakes with metadata are comparable exactly when their collapse paths, lock types and channel types
  agree, and an absence is called reliable exactly when both cover every unit they requested and, as reported
  text, requested the same units. The metadata of a snapshot has an outcome per file and each file once.
\<close>

theorem checkComparability_verdict:
  assumes "recorded mb" "recorded ma"
  shows "(cmpComparable (checkComparability (Some mb) (Some ma) contexts) \<longleftrightarrow> sameConfig mb ma) \<and>
    (cmpAbsenceReliable (checkComparability (Some mb) (Some ma) contexts) \<longleftrightarrow>
       coverageComplete (coverageOf mb) \<and> coverageComplete (coverageOf ma) \<and>
       toIndexText ` fsPath ` set (smFiles mb) = toIndexText ` fsPath ` set (smFiles ma))"
proof -
  have "set_difference (filesOf mb) (filesOf ma) = [] \<and> set_difference (filesOf ma) (filesOf mb) = [] \<longleftrightarrow>
      toIndexText ` fsPath ` set (smFiles mb) = toIndexText ` fsPath ` set (smFiles ma)"
    by (auto simp: set_difference_def filesOf_def filter_empty_conv image_image)
  moreover have "cmpAbsenceReliable (checkComparability (Some mb) (Some ma) contexts) \<longleftrightarrow>
      (set_difference (filesOf mb) (filesOf ma) = [] \<and> set_difference (filesOf ma) (filesOf mb) = []) \<and>
      (fst (classify mb) = [] \<and> snd (classify mb) = []) \<and> (fst (classify ma) = [] \<and> snd (classify ma) = [])"
    by (simp add: checkComparability_def)
  moreover have "cmpComparable (checkComparability (Some mb) (Some ma) contexts) \<longleftrightarrow> sameConfig mb ma"
    by (simp add: checkComparability_def)
  ultimately show ?thesis
    unfolding classify_empty [OF assms(1)] classify_empty [OF assms(2)] coverage_complete by blast
qed

definition sampleMeta :: "TuStatus \<Rightarrow> SnapshotMeta" where
  "sampleMeta s = \<lparr>smCollapsePaths = [], smLockAllowlist = [], smLockBuiltins = True, smChannelTypes = [],
     smFiles = [\<lparr>fsPath = ''/a.cc'', fsMtimeNs = 1, fsSize = 2\<rparr>], smDeps = [], smTuDeps = [[]], smEntryPoints = [], smFingerprints = [[]],
     smOutcomes = [\<lparr>toStatus = s, toDetail = []\<rparr>],
     smProvenance = \<lparr>ipAnalyzer = ''v'', ipToolchain = ''c'', ipEnvironment = ''e'', ipBakeStartNs = 7\<rparr>\<rparr>"

theorem checkComparability_verdict_witness:
  "\<not> cmpAbsenceReliable (checkComparability (Some (sampleMeta Indexed)) (Some (sampleMeta TimedOut)) True) \<and>
   cmpComparable (checkComparability (Some (sampleMeta Indexed)) (Some (sampleMeta TimedOut)) True)"
proof -
  have "recorded (sampleMeta s)" for s by (simp add: recorded_def sampleMeta_def)
  moreover have "\<not> coverageComplete (coverageOf (sampleMeta TimedOut))" by code_simp
  moreover have "sameConfig (sampleMeta Indexed) (sampleMeta TimedOut)" by code_simp
  ultimately show ?thesis using checkComparability_verdict [of "sampleMeta Indexed" "sampleMeta TimedOut" True] by blast
qed

section \<open>An index against itself\<close>

lemma comparable_self: "cmpComparable (checkComparability m m contexts)"
  by (cases m) (simp_all add: checkComparability_def sameConfig_def)

text \<open>
  C31: an index has no semantic difference to itself: the comparison is never refused, and reports no change, no
  ambiguous identity, no rename and no move.
\<close>

theorem semanticDiff_self:
  "let r = fst (semanticDiff isUTF8 asInt asLong side side opts)
   in \<not> sdRefused r \<and> sdChanges r = [] \<and> sdAmbiguous r = [] \<and> sdRenameCandidates r = [] \<and> sdMoves r = [] \<and> sdMovedFunctions r = 0"
proof -
  let ?t = "buildIdentity isUTF8 asInt asLong (dsGraph side)"
  let ?contexts = "compareContexts side side opts"
  let ?c = "checkComparability (dsMeta side) (dsMeta side) ?contexts"
  let ?f = "collectSide isUTF8 (dsGraph side) ?t (signaturesOf ?contexts side)"
  have r: "fst (semanticDiff isUTF8 asInt asLong side side opts) = compareFacts ?c opts ?contexts ?t ?t ?f ?f"
    by (simp add: semanticDiff_def Let_def comparable_self identities_def markAmbiguousGroups_self)
  have f: "fold (functionStep ?c opts) (map (\<lambda>(k, v). (k, Some v, Some v)) m) st = st" for m st
    by (induction m) (auto simp: functionStep_def)
  have c: "concat (map (relationChanges ?contexts opts) (map (\<lambda>(k, v). (k, Some v, Some v)) m)) = []" for m
    by (induction m) (auto simp: relationChanges_def)
  have a: "ambiguousOf ?t ?t w w' = []" for w w'
    by (simp add: ambiguousOf_def isAmbiguous_def unmarked)
  show ?thesis unfolding r compareFacts_def mergeJoin_self f c a
    by (simp add: emptyDiff_def renamePairs_def inOrder_def)
qed

section \<open>Routes\<close>














end
