(* ===== verification/WarmStart.thy ===== *)
theory WarmStart
  imports Comparability
begin

text \<open>
  The warm start (\<open>include/vycor/callgraph/Snapshot.h\<close>, \<open>src/callgraph/Snapshot.cpp\<close>): the stamps, dependencies,
  fingerprints and outcomes an index keeps of its units, and which units must be parsed again. \<open>stat\<close> stands for
  \<open>llvm::sys::fs::status\<close>: the modification time in nanoseconds and the size of a file, or \<open>None\<close>.
\<close>

section \<open>Stamps\<close>

definition stampFiles :: "(string \<Rightarrow> (64 word \<times> 64 word) option) \<Rightarrow> string list \<Rightarrow> FileStamp list" where
  "stampFiles stat files = map (\<lambda>f. case stat f of
       None \<Rightarrow> \<lparr>fsPath = f, fsMtimeNs = 0, fsSize = 0\<rparr>
     | Some (m, s) \<Rightarrow> \<lparr>fsPath = f, fsMtimeNs = m, fsSize = s\<rparr>) files"

definition kNsPerSecond :: "64 word" where
  "kNsPerSecond = 1000000000"

definition sameParsedVersion :: "FileStamp \<Rightarrow> FileStamp \<Rightarrow> bool" where
  "sameParsedVersion old now \<longleftrightarrow> fsMtimeNs old \<noteq> 0 \<and> fsSize old = fsSize now \<and>
     fsMtimeNs old = fsMtimeNs now - fsMtimeNs now mod kNsPerSecond"

definition sameTuVersion :: "FileStamp \<Rightarrow> FileStamp \<Rightarrow> bool" where
  "sameTuVersion old now \<longleftrightarrow> fsMtimeNs old \<noteq> 0 \<and> old = now"

definition tuStatusName :: "TuStatus \<Rightarrow> string" where
  "tuStatusName s = (case s of Indexed \<Rightarrow> ''indexed'' | Partial \<Rightarrow> ''partial'' | Crashed \<Rightarrow> ''crashed'' | Poisoned \<Rightarrow> ''poisoned''
     | Skipped \<Rightarrow> ''skipped'' | TimedOut \<Rightarrow> ''timeout'')"

section \<open>Dirty units\<close>

datatype DirtyReason = Clean | Stamp | Inputs | Deps | Retry

record DirtyReport =
  drViaInputs :: nat
  drViaDeps :: nat
  drRetried :: nat
  drReasons :: "DirtyReason list"
  drDetail :: "string list"

definition recordedAt :: "SnapshotMeta \<Rightarrow> (string, nat) umap" where
  "recordedAt meta = fold (\<lambda>i m. um_put m (fsPath (smFiles meta ! i)) i) [0..<length (smFiles meta)] []"

definition depStampsNow :: "(string \<Rightarrow> (64 word \<times> 64 word) option) \<Rightarrow> SnapshotMeta \<Rightarrow> FileStamp list" where
  "depStampsNow stat meta = stampFiles stat (map fsPath (smDeps meta))"

definition depChanged :: "(string \<Rightarrow> (64 word \<times> 64 word) option) \<Rightarrow> SnapshotMeta \<Rightarrow> bool list" where
  "depChanged stat meta = map2 (\<lambda>d now. \<not> sameParsedVersion d now) (smDeps meta) (depStampsNow stat meta)"

definition stampText :: "FileStamp \<Rightarrow> string" where
  "stampText fs =
     (if fsMtimeNs fs = 0 then ''unstable or absent''
      else ''mtime '' @ toString (unat (fsMtimeNs fs div kNsPerSecond)) @ ''.'' @ toString (unat (fsMtimeNs fs mod kNsPerSecond)) @
        '' size '' @ toString (unat (fsSize fs)))"

text \<open>The first recorded dependency of a unit that changed.\<close>

definition changedDep :: "(string \<Rightarrow> (64 word \<times> 64 word) option) \<Rightarrow> SnapshotMeta \<Rightarrow> nat \<Rightarrow> nat option" where
  "changedDep stat meta r =
     (if r < length (smTuDeps meta)
      then List.find (\<lambda>i. i < length (depChanged stat meta) \<and> depChanged stat meta ! i) (map unat (smTuDeps meta ! r))
      else None)"

definition dirtyReason :: "(string \<Rightarrow> (64 word \<times> 64 word) option) \<Rightarrow> SnapshotMeta \<Rightarrow> string list option \<Rightarrow> nat \<Rightarrow> FileStamp \<Rightarrow>
    DirtyReason \<times> string" where
  "dirtyReason stat meta fingerprints i cur =
     (case map_of (recordedAt meta) (fsPath cur) of
        None \<Rightarrow> (Stamp, ''not recorded in the index'')
      | Some r \<Rightarrow>
          if \<not> sameTuVersion (smFiles meta ! r) cur
          then (Stamp, ''own stamp changed (recorded '' @ stampText (smFiles meta ! r) @ '', now '' @ stampText cur @ '')'')
          else if (case fingerprints of
                     None \<Rightarrow> False
                   | Some fps \<Rightarrow> r \<ge> length (smFingerprints meta) \<or> i \<ge> length fps \<or> smFingerprints meta ! r \<noteq> fps ! i)
          then (Inputs, ''compile inputs changed (fingerprint differs)'')
          else
            (case changedDep stat meta r of
               Some d \<Rightarrow> (Deps, ''opened file changed: '' @ fsPath (smDeps meta ! d) @ '' (recorded '' @ stampText (smDeps meta ! d) @
                 '', now '' @ stampText (depStampsNow stat meta ! d) @ '')'')
             | None \<Rightarrow>
                 if smOutcomes meta \<noteq> [] \<and> (r \<ge> length (smOutcomes meta) \<or> toStatus (smOutcomes meta ! r) \<noteq> Indexed)
                 then (Retry, ''last parse did not end indexed'')
                 else (Clean, [])))"

definition dirtyTUs :: "(string \<Rightarrow> (64 word \<times> 64 word) option) \<Rightarrow> SnapshotMeta \<Rightarrow> FileStamp list \<Rightarrow> string list option \<Rightarrow>
    bool list \<times> DirtyReport" where
  "dirtyTUs stat meta cur fingerprints =
     (let rs = map (\<lambda>i. dirtyReason stat meta fingerprints i (cur ! i)) [0..<length cur];
          reasons = map fst rs;
          number = (\<lambda>x. length (filter (\<lambda>y. y = x) reasons))
      in (map (\<lambda>r. r \<noteq> Clean) reasons,
          \<lparr>drViaInputs = number Inputs, drViaDeps = number Deps, drRetried = number Retry, drReasons = reasons, drDetail = map snd rs\<rparr>))"

definition bakeSecond :: "64 word \<Rightarrow> 64 word" where
  "bakeSecond bakeStartNs = bakeStartNs - bakeStartNs mod kNsPerSecond"

definition markStamp :: "64 word \<Rightarrow> FileStamp \<Rightarrow> nat \<times> FileStamp" where
  "markStamp sec fs = (if fsMtimeNs fs \<noteq> 0 \<and> fsMtimeNs fs \<ge> sec then (1, fs\<lparr>fsMtimeNs := 0\<rparr>) else (0, fs))"

definition markUnstableStamps :: "SnapshotMeta \<Rightarrow> 64 word \<Rightarrow> nat \<times> SnapshotMeta" where
  "markUnstableStamps meta bakeStartNs =
     (let files = map (markStamp (bakeSecond bakeStartNs)) (smFiles meta);
          deps = map (markStamp (bakeSecond bakeStartNs)) (smDeps meta)
      in (sum_list (map fst files) + sum_list (map fst deps), meta\<lparr>smFiles := map snd files, smDeps := map snd deps\<rparr>))"

section \<open>Recording\<close>

definition dependenciesOf :: "SnapshotMeta \<Rightarrow> (string, FileStamp list) umap" where
  "dependenciesOf meta =
     fold (\<lambda>(f, ids) m. um_put m (fsPath f)
         (um_get m (fsPath f) @ map (\<lambda>i. smDeps meta ! unat i) (filter (\<lambda>i. unat i < length (smDeps meta)) ids)))
       (zip (smFiles meta) (smTuDeps meta)) []"

record dep_state =
  dp_deps :: "FileStamp list"
  dp_ids :: "(string, nat) umap"

definition recordDep :: "FileStamp \<Rightarrow> dep_state \<times> 32 word list \<Rightarrow> dep_state \<times> 32 word list" where
  "recordDep d st =
     (let (s, ids) = st in
      case map_of (dp_ids s) (fsPath d) of
        None \<Rightarrow>
          (s\<lparr>dp_deps := dp_deps s @ [d], dp_ids := um_put (dp_ids s) (fsPath d) (length (dp_deps s))\<rparr>,
           ids @ [of_nat (length (dp_deps s))])
      | Some pos \<Rightarrow>
          (s\<lparr>dp_deps := (if fsMtimeNs d < fsMtimeNs (dp_deps s ! pos) then (dp_deps s)[pos := d] else dp_deps s)\<rparr>,
           ids @ [of_nat pos]))"

definition recordUnit :: "(string, FileStamp list) umap \<Rightarrow> FileStamp \<Rightarrow> dep_state \<times> 32 word list list \<Rightarrow> dep_state \<times> 32 word list list" where
  "recordUnit deps f st =
     (let (s, tuDeps) = st in
      case map_of deps (fsPath f) of
        None \<Rightarrow> (s, tuDeps @ [[]])
      | Some ds \<Rightarrow> let (s, ids) = fold recordDep ds (s, []) in (s, tuDeps @ [ids]))"

definition recordDependencies :: "SnapshotMeta \<Rightarrow> (string, FileStamp list) umap \<Rightarrow> SnapshotMeta" where
  "recordDependencies meta deps =
     (let (s, tuDeps) = fold (recordUnit deps) (smFiles meta) (\<lparr>dp_deps = [], dp_ids = []\<rparr>, [])
      in meta\<lparr>smDeps := dp_deps s, smTuDeps := tuDeps\<rparr>)"

definition recordOutcomes :: "SnapshotMeta \<Rightarrow> (string, TuOutcome) umap \<Rightarrow> SnapshotMeta" where
  "recordOutcomes meta outcomes =
     meta\<lparr>smOutcomes := map (\<lambda>f. case map_of outcomes (fsPath f) of
       Some outcome \<Rightarrow> outcome
     | None \<Rightarrow> \<lparr>toStatus = Skipped, toDetail = ''no outcome recorded''\<rparr>) (smFiles meta)\<rparr>"

text \<open>The scan of the requested units: \<open>None\<close> once one was parsed, else the missing ones and the first detail.\<close>

fun unparsed :: "(string, TuOutcome) umap \<Rightarrow> string list \<Rightarrow> nat \<Rightarrow> string \<Rightarrow> (nat \<times> string) option" where
  "unparsed outcomes [] missing firstDetail = Some (missing, firstDetail)"
| "unparsed outcomes (tu # tus) missing firstDetail =
     (case map_of outcomes tu of
        None \<Rightarrow> unparsed outcomes tus (missing + 1) firstDetail
      | Some outcome \<Rightarrow>
          if toStatus outcome \<noteq> Skipped then None
          else unparsed outcomes tus missing (if firstDetail = [] then toDetail outcome else firstDetail))"

definition unpublishableBake :: "string list \<Rightarrow> (string, TuOutcome) umap \<Rightarrow> string" where
  "unpublishableBake requested outcomes =
     (if requested = [] then []
      else case unparsed outcomes requested 0 [] of
        None \<Rightarrow> []
      | Some (missing, firstDetail) \<Rightarrow>
          ''the bake parsed none of the '' @ toString (length requested) @ '' selected TU(s) ('' @
          (if missing = length requested then ''no TU reported an outcome''
           else toString (length requested - missing) @ '' skipped'' @ (if firstDetail = [] then [] else '': '' @ firstDetail) @
             (if missing \<noteq> 0 then '', '' @ toString missing @ '' without an outcome'' else [])) @ '')'')"

end
