(* ===== verification/WarmStartProps.thy ===== *)
theory WarmStartProps
  imports WarmStart
begin

text \<open>
  What the warm start promises: a unit is clean exactly when everything recorded of it still holds, and a unit
  that is called clean has nothing newer on disk than what its parse saw.
\<close>

section \<open>Lookups\<close>

lemma recordedAt_distinct:
  assumes "distinct (map fsPath (smFiles meta))"
  shows "map_of (recordedAt meta) p = Some r \<longleftrightarrow> r < length (smFiles meta) \<and> fsPath (smFiles meta ! r) = p"
proof -
  have "map_of (fold (\<lambda>i m. um_put m (fsPath (smFiles meta ! i)) i) [0..<n] []) p = Some r \<longleftrightarrow> r < n \<and> fsPath (smFiles meta ! r) = p"
    if "n \<le> length (smFiles meta)" for n using that
  proof (induction n)
    case (Suc n)
    have "fsPath (smFiles meta ! n) \<noteq> fsPath (smFiles meta ! r)" if "r < n"
      using assms that Suc.prems by (auto simp: distinct_conv_nth)
    then show ?case using Suc by (auto simp: less_Suc_eq)
  qed simp
  then show ?thesis by (simp add: recordedAt_def)
qed

definition stampNow :: "(string \<Rightarrow> (64 word \<times> 64 word) option) \<Rightarrow> string \<Rightarrow> FileStamp" where
  "stampNow stat p = hd (stampFiles stat [p])"

lemma depStampsNow_nth: "i < length (smDeps meta) \<Longrightarrow> depStampsNow stat meta ! i = stampNow stat (fsPath (smDeps meta ! i))"
  by (simp add: depStampsNow_def stampFiles_def stampNow_def)

lemma depChanged_nth:
  "length (depChanged stat meta) = length (smDeps meta)"
  "i < length (smDeps meta) \<Longrightarrow> depChanged stat meta ! i \<longleftrightarrow> \<not> sameParsedVersion (smDeps meta ! i) (stampNow stat (fsPath (smDeps meta ! i)))"
proof -
  show l: "length (depChanged stat meta) = length (smDeps meta)" by (simp add: depChanged_def depStampsNow_def stampFiles_def)
  assume i: "i < length (smDeps meta)"
  then have "depChanged stat meta ! i \<longleftrightarrow> \<not> sameParsedVersion (smDeps meta ! i) (depStampsNow stat meta ! i)"
    by (simp add: depChanged_def depStampsNow_def stampFiles_def)
  then show "depChanged stat meta ! i \<longleftrightarrow> \<not> sameParsedVersion (smDeps meta ! i) (stampNow stat (fsPath (smDeps meta ! i)))"
    using depStampsNow_nth [OF i] by simp
qed

definition depsUnchanged :: "(string \<Rightarrow> (64 word \<times> 64 word) option) \<Rightarrow> SnapshotMeta \<Rightarrow> nat \<Rightarrow> bool" where
  "depsUnchanged stat meta r \<longleftrightarrow> (r < length (smTuDeps meta) \<longrightarrow> (\<forall>i \<in> set (smTuDeps meta ! r). unat i < length (smDeps meta) \<longrightarrow>
     sameParsedVersion (smDeps meta ! unat i) (stampNow stat (fsPath (smDeps meta ! unat i)))))"

lemma changedDep_None: "changedDep stat meta r = None \<longleftrightarrow> depsUnchanged stat meta r"
  by (auto simp: changedDep_def depsUnchanged_def find_None_iff depChanged_nth)

definition inputsSame :: "SnapshotMeta \<Rightarrow> string list option \<Rightarrow> nat \<Rightarrow> nat \<Rightarrow> bool" where
  "inputsSame meta fingerprints i r \<longleftrightarrow> (case fingerprints of None \<Rightarrow> True
     | Some fps \<Rightarrow> r < length (smFingerprints meta) \<and> i < length fps \<and> smFingerprints meta ! r = fps ! i)"

definition parsedCleanly :: "SnapshotMeta \<Rightarrow> nat \<Rightarrow> bool" where
  "parsedCleanly meta r \<longleftrightarrow> smOutcomes meta = [] \<or> r < length (smOutcomes meta) \<and> toStatus (smOutcomes meta ! r) = Indexed"

lemma dirtyTUs_flag: "i < length cur \<Longrightarrow> fst (dirtyTUs stat meta cur fps) ! i \<longleftrightarrow> fst (dirtyReason stat meta fps i (cur ! i)) \<noteq> Clean"
  by (simp add: dirtyTUs_def Let_def)

lemma dirtyReason_clean:
  "fst (dirtyReason stat meta fps i cur) = Clean \<longleftrightarrow> (\<exists>r. map_of (recordedAt meta) (fsPath cur) = Some r \<and>
     sameTuVersion (smFiles meta ! r) cur \<and> inputsSame meta fps i r \<and> depsUnchanged stat meta r \<and> parsedCleanly meta r)"
proof (cases "map_of (recordedAt meta) (fsPath cur)")
  case (Some r)
  show ?thesis
    by (auto simp: dirtyReason_def Some inputsSame_def parsedCleanly_def changedDep_None [symmetric] not_less split: option.split)
qed (simp add: dirtyReason_def)

text \<open>
  C35: a unit is clean exactly when it is recorded with the very stamp it has now, taken and not marked unstable,
  its inputs have the recorded fingerprint, every file its parse opened has the size and the second of
  modification it had then, and the parse ended cleanly; there is a flag for each selected unit. The metadata records
  each unit path once, as the producers of unit lists see to.
\<close>

theorem dirtyTUs_exact:
  assumes "distinct (map fsPath (smFiles meta))" "i < length cur"
  shows "length (fst (dirtyTUs stat meta cur fps)) = length cur \<and>
    (\<not> fst (dirtyTUs stat meta cur fps) ! i \<longleftrightarrow> (\<exists>r < length (smFiles meta). smFiles meta ! r = cur ! i \<and> fsMtimeNs (cur ! i) \<noteq> 0 \<and>
       inputsSame meta fps i r \<and> depsUnchanged stat meta r \<and> parsedCleanly meta r))"
proof -
  have "\<not> fst (dirtyTUs stat meta cur fps) ! i \<longleftrightarrow> fst (dirtyReason stat meta fps i (cur ! i)) = Clean"
    using assms(2) by (simp add: dirtyTUs_flag)
  moreover have "length (fst (dirtyTUs stat meta cur fps)) = length cur" by (simp add: dirtyTUs_def Let_def)
  ultimately show ?thesis
    unfolding dirtyReason_clean recordedAt_distinct [OF assms(1)] by (auto simp: sameTuVersion_def)
qed

section \<open>Recorded dependencies\<close>

definition below :: "FileStamp list \<Rightarrow> FileStamp list \<Rightarrow> bool" where
  "below xs ys \<longleftrightarrow> length xs \<le> length ys \<and> (\<forall>i < length xs. fsPath (ys ! i) = fsPath (xs ! i) \<and> fsMtimeNs (ys ! i) \<le> fsMtimeNs (xs ! i))"

lemma below_refl [simp]: "below xs xs"
  by (simp add: below_def)

lemma below_trans: "below xs ys \<Longrightarrow> below ys zs \<Longrightarrow> below xs zs"
  unfolding below_def by (metis order_less_le_trans order_trans)

definition covers :: "FileStamp list \<Rightarrow> 32 word list \<Rightarrow> FileStamp \<Rightarrow> bool" where
  "covers xs ids d \<longleftrightarrow> (\<exists>pos < length xs. of_nat pos \<in> set ids \<and> fsPath (xs ! pos) = fsPath d \<and> fsMtimeNs (xs ! pos) \<le> fsMtimeNs d)"

lemma covers_below: "covers xs ids d \<Longrightarrow> below xs ys \<Longrightarrow> set ids \<subseteq> set ids' \<Longrightarrow> covers ys ids' d"
  unfolding covers_def below_def by (metis order_less_le_trans order_trans subsetD)

definition depsOk :: "dep_state \<Rightarrow> bool" where
  "depsOk s \<longleftrightarrow> (\<forall>p pos. map_of (dp_ids s) p = Some pos \<longrightarrow> pos < length (dp_deps s) \<and> fsPath (dp_deps s ! pos) = p)"

lemma recordDep_step:
  assumes ok: "depsOk s" and run: "recordDep d (s, ids) = (s', ids')"
  shows "depsOk s' \<and> below (dp_deps s) (dp_deps s') \<and> set ids \<subseteq> set ids' \<and> covers (dp_deps s') ids' d"
proof (cases "map_of (dp_ids s) (fsPath d)")
  case None
  then have "s' = s\<lparr>dp_deps := dp_deps s @ [d], dp_ids := um_put (dp_ids s) (fsPath d) (length (dp_deps s))\<rparr>"
    "ids' = ids @ [of_nat (length (dp_deps s))]" using run by (simp_all add: recordDep_def)
  then show ?thesis using ok
    by (auto simp: depsOk_def below_def nth_append covers_def less_Suc_eq intro!: exI [of _ "length (dp_deps s)"] split: if_splits)
next
  case (Some pos)
  then have s': "s' = s\<lparr>dp_deps := (if fsMtimeNs d < fsMtimeNs (dp_deps s ! pos) then (dp_deps s)[pos := d] else dp_deps s)\<rparr>"
    "ids' = ids @ [of_nat pos]" using run by (simp_all add: recordDep_def)
  have p: "pos < length (dp_deps s)" "fsPath (dp_deps s ! pos) = fsPath d" using ok Some by (auto simp: depsOk_def)
  show ?thesis using ok p
    by (auto simp: s' depsOk_def below_def nth_list_update covers_def intro!: exI [of _ pos])
qed

lemma fold_recordDep:
  "depsOk s \<Longrightarrow> fold recordDep ds (s, ids) = (s', ids') \<Longrightarrow>
     depsOk s' \<and> below (dp_deps s) (dp_deps s') \<and> set ids \<subseteq> set ids' \<and> (\<forall>d \<in> set ds. covers (dp_deps s') ids' d)"
proof (induction ds arbitrary: s ids)
  case (Cons d ds)
  obtain s1 ids1 where 1: "recordDep d (s, ids) = (s1, ids1)" by (cases "recordDep d (s, ids)")
  note step = recordDep_step [OF Cons.prems(1) 1]
  note rest = Cons.IH [of s1 ids1]
  have r: "depsOk s' \<and> below (dp_deps s1) (dp_deps s') \<and> set ids1 \<subseteq> set ids' \<and> (\<forall>d \<in> set ds. covers (dp_deps s') ids' d)"
    using rest step Cons.prems(2) 1 by simp
  then have "covers (dp_deps s') ids' d" using step covers_below by blast
  then show ?case using r step below_trans by auto
qed simp

definition unitsCovered :: "(string, FileStamp list) umap \<Rightarrow> FileStamp list \<Rightarrow> dep_state \<times> 32 word list list \<Rightarrow> bool" where
  "unitsCovered deps fs st \<longleftrightarrow> depsOk (fst st) \<and> length (snd st) = length fs \<and>
     (\<forall>i < length fs. \<forall>ds. map_of deps (fsPath (fs ! i)) = Some ds \<longrightarrow> (\<forall>d \<in> set ds. covers (dp_deps (fst st)) (snd st ! i) d))"

lemma recordUnit_covered:
  assumes "unitsCovered deps fs st"
  shows "unitsCovered deps (fs @ [f]) (recordUnit deps f st)"
proof (cases "map_of deps (fsPath f)")
  case None
  then show ?thesis using assms by (auto simp: unitsCovered_def recordUnit_def nth_append less_Suc_eq split: prod.split)
next
  case (Some ds)
  obtain s tuDeps where st: "st = (s, tuDeps)" by (cases st)
  obtain s' ids where f: "fold recordDep ds (s, []) = (s', ids)" by (cases "fold recordDep ds (s, [])")
  have ok: "depsOk s" using assms by (simp add: unitsCovered_def st)
  note r = fold_recordDep [OF ok f]
  have "covers (dp_deps s') (tuDeps ! i) d" if "i < length fs" "map_of deps (fsPath (fs ! i)) = Some es" "d \<in> set es" for i es d
    using assms that r covers_below [of "dp_deps s" "tuDeps ! i" d "dp_deps s'" "tuDeps ! i"] by (auto simp: unitsCovered_def st)
  then show ?thesis using assms r Some by (auto simp: unitsCovered_def st recordUnit_def f nth_append less_Suc_eq)
qed

lemma fold_recordUnit: "unitsCovered deps fs st \<Longrightarrow> unitsCovered deps (fs @ gs) (fold (recordUnit deps) gs st)"
proof (induction gs arbitrary: fs st)
  case (Cons g gs)
  show ?case using Cons.IH [OF recordUnit_covered [OF Cons.prems, of g]] by simp
qed simp

lemma recordDependencies_covers:
  assumes "i < length (smFiles meta)" "map_of deps (fsPath (smFiles meta ! i)) = Some ds" "d \<in> set ds"
  shows "i < length (smTuDeps (recordDependencies meta deps)) \<and>
    covers (smDeps (recordDependencies meta deps)) (smTuDeps (recordDependencies meta deps) ! i) d"
proof -
  have "unitsCovered deps [] (\<lparr>dp_deps = [], dp_ids = []\<rparr>, [])" by (simp add: unitsCovered_def depsOk_def)
  from fold_recordUnit [OF this, of "smFiles meta"] show ?thesis
    using assms by (auto simp: unitsCovered_def recordDependencies_def split: prod.split)
qed

lemma markUnstable_sel:
  "map fsPath (smFiles (snd (markUnstableStamps meta b))) = map fsPath (smFiles meta)"
  "length (smFiles (snd (markUnstableStamps meta b))) = length (smFiles meta)"
  "length (smDeps (snd (markUnstableStamps meta b))) = length (smDeps meta)"
  "smTuDeps (snd (markUnstableStamps meta b)) = smTuDeps meta"
  "i < length (smFiles meta) \<Longrightarrow> smFiles (snd (markUnstableStamps meta b)) ! i = snd (markStamp (bakeSecond b) (smFiles meta ! i))"
  "i < length (smDeps meta) \<Longrightarrow> smDeps (snd (markUnstableStamps meta b)) ! i = snd (markStamp (bakeSecond b) (smDeps meta ! i))"
  by (simp_all add: markUnstableStamps_def Let_def comp_def markStamp_def)

lemma markStamp_kept:
  "fsMtimeNs (snd (markStamp sec fs)) \<noteq> 0 \<Longrightarrow> snd (markStamp sec fs) = fs \<and> fsMtimeNs fs < sec"
  by (auto simp: markStamp_def split: if_splits)

lemma recordDependencies_files [simp]: "smFiles (recordDependencies meta deps) = smFiles meta"
  by (simp add: recordDependencies_def split: prod.split)

lemma sameParsedVersion_marked:
  assumes "sameParsedVersion (snd (markStamp sec k)) now"
  shows "bakeSecond (fsMtimeNs now) = fsMtimeNs k \<and> fsMtimeNs k < sec"
  using assms markStamp_kept [of sec k] by (auto simp: sameParsedVersion_def bakeSecond_def)

lemma marked_dep:
  assumes u: "depsUnchanged stat (snd (markUnstableStamps meta bake)) r" and c: "covers (smDeps meta) (smTuDeps meta ! r) d"
    and r: "r < length (smTuDeps meta)" and small: "length (smDeps meta) \<le> 2 ^ 32"
  shows "bakeSecond (fsMtimeNs (stampNow stat (fsPath d))) \<le> fsMtimeNs d \<and> bakeSecond (fsMtimeNs (stampNow stat (fsPath d))) < bakeSecond bake"
proof -
  obtain pos where pos: "pos < length (smDeps meta)" "of_nat pos \<in> set (smTuDeps meta ! r)" "fsPath (smDeps meta ! pos) = fsPath d"
    "fsMtimeNs (smDeps meta ! pos) \<le> fsMtimeNs d" using c by (auto simp: covers_def)
  let ?k = "snd (markStamp (bakeSecond bake) (smDeps meta ! pos))"
  have "unat (of_nat pos :: 32 word) = pos" using pos(1) small by (simp add: unat_of_nat)
  moreover have "fsPath ?k = fsPath d" using pos(3) by (simp add: markStamp_def)
  ultimately have "sameParsedVersion ?k (stampNow stat (fsPath d))"
    using u r pos(1,2) by (auto simp: depsUnchanged_def markUnstable_sel)
  from sameParsedVersion_marked [OF this] pos(4) show ?thesis by simp
qed

text \<open>
  C36: no stale unit is kept: once the dependencies are recorded and the unstable stamps marked, a unit that a
  warm start calls clean has the stamp of its bake, from before the second the bake started in, and no file
  its parse opened was modified after the version that parse saw or in or after that second.
\<close>

theorem clean_unit_not_stale:
  assumes "distinct (map fsPath (smFiles meta))" and small: "length (smDeps (recordDependencies meta deps)) \<le> 2 ^ 32"
    and i: "i < length cur" and clean: "\<not> fst (dirtyTUs stat (snd (markUnstableStamps (recordDependencies meta deps) bake)) cur fps) ! i"
  shows "cur ! i \<in> set (smFiles meta) \<and> fsMtimeNs (cur ! i) < bakeSecond bake \<and>
    (\<forall>ds d. map_of deps (fsPath (cur ! i)) = Some ds \<and> d \<in> set ds \<longrightarrow>
       bakeSecond (fsMtimeNs (stampNow stat (fsPath d))) \<le> fsMtimeNs d \<and> bakeSecond (fsMtimeNs (stampNow stat (fsPath d))) < bakeSecond bake)"
proof -
  let ?m = "recordDependencies meta deps"
  let ?m' = "snd (markUnstableStamps ?m bake)"
  have d: "distinct (map fsPath (smFiles ?m'))" using assms(1) by (simp add: markUnstable_sel)
  obtain r where r: "map_of (recordedAt ?m') (fsPath (cur ! i)) = Some r" "sameTuVersion (smFiles ?m' ! r) (cur ! i)" "depsUnchanged stat ?m' r"
    using clean i by (auto simp: dirtyTUs_flag dirtyReason_clean)
  then have len: "r < length (smFiles meta)" unfolding recordedAt_distinct [OF d] by (simp add: markUnstable_sel)
  have f: "smFiles ?m' ! r = snd (markStamp (bakeSecond bake) (smFiles meta ! r))" using len by (simp add: markUnstable_sel)
  have k: "cur ! i = smFiles meta ! r" "fsMtimeNs (cur ! i) < bakeSecond bake"
    using r(2) markStamp_kept [of "bakeSecond bake" "smFiles meta ! r"] unfolding sameTuVersion_def f by auto
  have "bakeSecond (fsMtimeNs (stampNow stat (fsPath d))) \<le> fsMtimeNs d \<and> bakeSecond (fsMtimeNs (stampNow stat (fsPath d))) < bakeSecond bake"
    if "map_of deps (fsPath (cur ! i)) = Some ds" "d \<in> set ds" for ds d
    using recordDependencies_covers [OF len that [unfolded k(1)]] marked_dep [OF r(3) _ _ small] by blast
  then show ?thesis using k len by (metis nth_mem)
qed

definition bakedMeta :: SnapshotMeta where
  "bakedMeta = \<lparr>smCollapsePaths = [], smLockAllowlist = [], smLockBuiltins = True, smChannelTypes = [],
     smFiles = [\<lparr>fsPath = ''/a.cc'', fsMtimeNs = 1000000005, fsSize = 2\<rparr>], smDeps = [], smTuDeps = [], smEntryPoints = [],
     smFingerprints = [''x''], smOutcomes = [\<lparr>toStatus = Indexed, toDetail = []\<rparr>],
     smProvenance = \<lparr>ipAnalyzer = [], ipToolchain = [], ipEnvironment = [], ipBakeStartNs = 9000000000\<rparr>\<rparr>"

definition bakedDeps :: "(string, FileStamp list) umap" where
  "bakedDeps = [(''/a.cc'', [\<lparr>fsPath = ''/a.h'', fsMtimeNs = 2000000000, fsSize = 3\<rparr>])]"

definition diskStat :: "string \<Rightarrow> (64 word \<times> 64 word) option" where
  "diskStat p = (if p = ''/a.h'' then Some (2000000007, 3) else None)"

theorem dirtyTUs_exact_witness:
  "\<not> fst (dirtyTUs diskStat (recordDependencies bakedMeta bakedDeps) (smFiles bakedMeta) (Some [''x''])) ! 0 \<and>
   depsUnchanged diskStat (recordDependencies bakedMeta bakedDeps) 0"
proof -
  have "distinct (map fsPath (smFiles (recordDependencies bakedMeta bakedDeps)))" "0 < length (smFiles bakedMeta)"
    "length (smFiles (recordDependencies bakedMeta bakedDeps)) = 1" by code_simp+
  moreover have "\<not> fst (dirtyTUs diskStat (recordDependencies bakedMeta bakedDeps) (smFiles bakedMeta) (Some [''x''])) ! 0" by code_simp
  ultimately show ?thesis
    using dirtyTUs_exact [of "recordDependencies bakedMeta bakedDeps" 0 "smFiles bakedMeta" diskStat "Some [''x'']"] by (auto simp: less_Suc_eq)
qed

theorem clean_unit_not_stale_witness:
  "bakeSecond (fsMtimeNs (stampNow diskStat ''/a.h'')) \<le> 2000000000"
proof -
  have c: "distinct (map fsPath (smFiles bakedMeta))" "length (smDeps (recordDependencies bakedMeta bakedDeps)) = 1"
    "0 < length (smFiles bakedMeta)"
    "\<not> fst (dirtyTUs diskStat (snd (markUnstableStamps (recordDependencies bakedMeta bakedDeps) 9000000000)) (smFiles bakedMeta) (Some [''x''])) ! 0"
    "map_of bakedDeps (fsPath (smFiles bakedMeta ! 0)) = Some [\<lparr>fsPath = ''/a.h'', fsMtimeNs = 2000000000, fsSize = 3\<rparr>]"
    by code_simp+
  have "length (smDeps (recordDependencies bakedMeta bakedDeps)) \<le> 2 ^ 32" by (simp add: c(2))
  from clean_unit_not_stale [OF c(1) this c(3,4)] c(5) show ?thesis by simp
qed

end
