(* ===== verification/SnapshotFile.thy ===== *)
theory SnapshotFile
  imports Comparability Interner
begin

unbundle bit_operations_syntax

text \<open>
  Snapshot files (\<open>src/callgraph/Snapshot.cpp\<close>): the little-endian writer and the bounds-checked reader, the
  metadata section, the interner tables, and the header with its section table and checksums. A buffer being
  written is the string so far, a reader the bytes that are left and its sticky flag. \<open>checksum\<close> stands for
  \<open>llvm::xxh3_64bits\<close>; a section range holds its offset in place of a pointer.
\<close>

section \<open>Writer\<close>

definition putU8 :: "string \<Rightarrow> 8 word \<Rightarrow> string" where
  "putU8 out v = out @ [char_of (unat v)]"

definition putU32 :: "string \<Rightarrow> 32 word \<Rightarrow> string" where
  "putU32 out v = out @ map (\<lambda>i. char_of (unat (drop_bit (8 * i) v AND 0xFF))) [0..<4]"

definition putU64 :: "string \<Rightarrow> 64 word \<Rightarrow> string" where
  "putU64 out v = out @ map (\<lambda>i. char_of (unat (drop_bit (8 * i) v AND 0xFF))) [0..<8]"

definition putLenStr :: "string \<Rightarrow> string \<Rightarrow> string" where
  "putLenStr out s = putU32 out (of_nat (length s)) @ s"

section \<open>Reader\<close>

record Reader =
  rdRest :: string
  rdOk :: bool

definition need :: "nat \<Rightarrow> Reader \<Rightarrow> bool \<times> Reader" where
  "need n r = (if \<not> rdOk r \<or> n > length (rdRest r) then (False, r\<lparr>rdOk := False\<rparr>) else (True, r))"

definition advance :: "nat \<Rightarrow> Reader \<Rightarrow> Reader" where
  "advance n r = r\<lparr>rdRest := drop n (rdRest r)\<rparr>"

definition u8 :: "Reader \<Rightarrow> 8 word \<times> Reader" where
  "u8 r = (let (b, r) = need 1 r in if \<not> b then (0, r) else (of_nat (byte (rdRest r ! 0)), advance 1 r))"

definition fromBytes :: "string \<Rightarrow> nat \<Rightarrow> 'a::len word" where
  "fromBytes bs n = fold (\<lambda>i v. v OR push_bit (8 * i) (of_nat (byte (bs ! i)))) [0..<n] 0"

definition u32 :: "Reader \<Rightarrow> 32 word \<times> Reader" where
  "u32 r = (let (b, r) = need 4 r in if \<not> b then (0, r) else (fromBytes (rdRest r) 4, advance 4 r))"

definition u64 :: "Reader \<Rightarrow> 64 word \<times> Reader" where
  "u64 r = (let (b, r) = need 8 r in if \<not> b then (0, r) else (fromBytes (rdRest r) 8, advance 8 r))"

definition bytes :: "32 word \<Rightarrow> Reader \<Rightarrow> string \<times> Reader" where
  "bytes len r = (let (b, r) = need (unat len) r in if \<not> b then ([], r) else (take (unat len) (rdRest r), advance (unat len) r))"

definition lenStr :: "Reader \<Rightarrow> string \<times> Reader" where
  "lenStr r = (let (n, r) = u32 r in bytes n r)"

definition readText :: "(string \<Rightarrow> bool) \<Rightarrow> Reader \<Rightarrow> string \<times> Reader" where
  "readText isUTF8 r =
     (let (s, r) = lenStr r in if rdOk r \<and> \<not> isUTF8 s then ([], r\<lparr>rdOk := False\<rparr>) else (s, r))"

definition readCount :: "Reader \<Rightarrow> nat \<times> Reader" where
  "readCount r =
     (let (n, r) = u32 r in if rdOk r \<and> unat n > length (rdRest r) then (0, r\<lparr>rdOk := False\<rparr>) else (unat n, r))"

text \<open>The loop of every list: \<open>n\<close> elements, stopped by a failure.\<close>

fun readMany :: "nat \<Rightarrow> (Reader \<Rightarrow> 'a \<times> Reader) \<Rightarrow> Reader \<Rightarrow> 'a list \<times> Reader" where
  "readMany 0 f r = ([], r)"
| "readMany (Suc n) f r =
     (if \<not> rdOk r then ([], r)
      else let (x, r) = f r; (xs, r) = readMany n f r in (x # xs, r))"

definition readList :: "(Reader \<Rightarrow> 'a \<times> Reader) \<Rightarrow> Reader \<Rightarrow> 'a list \<times> Reader" where
  "readList f r = (let (n, r) = readCount r in readMany n f r)"

definition putList :: "(string \<Rightarrow> 'a \<Rightarrow> string) \<Rightarrow> string \<Rightarrow> 'a list \<Rightarrow> string" where
  "putList put out xs = fold (\<lambda>x out. put out x) xs (putU32 out (of_nat (length xs)))"

section \<open>The metadata section\<close>

definition emitChannelTypeSpec :: "string \<Rightarrow> ChannelTypeSpec \<Rightarrow> string" where
  "emitChannelTypeSpec out spec =
     (let out = putLenStr out (ctTypeName spec);
          out = putList putLenStr out (ctProduce spec);
          out = putList putLenStr out (ctConsume spec)
      in putLenStr out (ctCategory spec))"

definition readChannelTypeSpec :: "Reader \<Rightarrow> ChannelTypeSpec \<times> Reader" where
  "readChannelTypeSpec r =
     (let (name, r) = lenStr r; (produce, r) = readList lenStr r; (consume, r) = readList lenStr r; (category, r) = lenStr r
      in (\<lparr>ctTypeName = name, ctProduce = produce, ctConsume = consume, ctCategory = category\<rparr>, r))"

definition emitStamp :: "string \<Rightarrow> FileStamp \<Rightarrow> string" where
  "emitStamp out f = putU64 (putU64 (putLenStr out (fsPath f)) (fsMtimeNs f)) (fsSize f)"

definition readStamp :: "Reader \<Rightarrow> FileStamp \<times> Reader" where
  "readStamp r =
     (let (p, r) = lenStr r; (m, r) = u64 r; (s, r) = u64 r in (\<lparr>fsPath = p, fsMtimeNs = m, fsSize = s\<rparr>, r))"

definition statusCode :: "TuStatus \<Rightarrow> 8 word" where
  "statusCode s = (case s of Indexed \<Rightarrow> 0 | Partial \<Rightarrow> 1 | Crashed \<Rightarrow> 2 | Poisoned \<Rightarrow> 3 | Skipped \<Rightarrow> 4 | TimedOut \<Rightarrow> 5)"

definition statusOfCode :: "8 word \<Rightarrow> TuStatus" where
  "statusOfCode v = (if v = 0 then Indexed else if v = 1 then Partial else if v = 2 then Crashed else if v = 3 then Poisoned
     else if v = 4 then Skipped else TimedOut)"

definition noOutcome :: TuOutcome where
  "noOutcome = \<lparr>toStatus = Skipped, toDetail = []\<rparr>"

definition emitResult :: "string \<Rightarrow> string \<times> TuOutcome \<Rightarrow> string" where
  "emitResult out x = putLenStr (putU8 (putLenStr out (fst x)) (statusCode (toStatus (snd x)))) (toDetail (snd x))"

text \<open>The entry of a parallel column at a position, or its default.\<close>

definition entryAt :: "'a \<Rightarrow> 'a list \<Rightarrow> nat \<Rightarrow> 'a" where
  "entryAt d xs i = (if i < length xs then xs ! i else d)"

definition emitMeta :: "string \<Rightarrow> SnapshotMeta \<Rightarrow> string" where
  "emitMeta out meta =
     (let out = putList putLenStr out (smCollapsePaths meta);
          out = putList putLenStr out (smLockAllowlist meta);
          out = putU8 out (if smLockBuiltins meta then 1 else 0);
          out = putList emitChannelTypeSpec out (smChannelTypes meta);
          out = putList emitStamp out (smFiles meta);
          out = putList putLenStr out (smEntryPoints meta);
          out = putList emitStamp out (smDeps meta);
          out = fold (\<lambda>i out. putList putU32 out (entryAt [] (smTuDeps meta) i)) [0..<length (smFiles meta)] out;
          p = smProvenance meta;
          out = putLenStr out (ipAnalyzer p);
          out = putLenStr out (ipToolchain p);
          out = putLenStr out (ipEnvironment p);
          out = putU64 out (ipBakeStartNs p)
      in fold (\<lambda>i out. emitResult out (entryAt [] (smFingerprints meta) i, entryAt noOutcome (smOutcomes meta) i))
           [0..<length (smFiles meta)] out)"

text \<open>An id outside the dependency table fails the reader and is not kept.\<close>

fun readDepIds :: "nat \<Rightarrow> nat \<Rightarrow> Reader \<Rightarrow> 32 word list \<times> Reader" where
  "readDepIds deps 0 r = ([], r)"
| "readDepIds deps (Suc m) r =
     (if \<not> rdOk r then ([], r)
      else let (i, r) = u32 r in
        if unat i \<ge> deps then ([], r\<lparr>rdOk := False\<rparr>)
        else let (is, r) = readDepIds deps m r in (i # is, r))"

definition readTuDeps :: "nat \<Rightarrow> Reader \<Rightarrow> 32 word list \<times> Reader" where
  "readTuDeps deps r = (let (m, r) = readCount r in readDepIds deps m r)"

definition readResult :: "Reader \<Rightarrow> (string \<times> TuOutcome) \<times> Reader" where
  "readResult r =
     (let (fp, r) = lenStr r; (status, r) = u8 r in
      if status > statusCode TimedOut then ((fp, noOutcome), r\<lparr>rdOk := False\<rparr>)
      else let (detail, r) = lenStr r in ((fp, \<lparr>toStatus = statusOfCode status, toDetail = detail\<rparr>), r))"

text \<open>\<open>resize\<close> before the loop leaves defaults behind the position a failure stopped at.\<close>

definition padTo :: "nat \<Rightarrow> 'a \<Rightarrow> 'a list \<Rightarrow> 'a list" where
  "padTo n d xs = xs @ replicate (n - length xs) d"

definition readMeta :: "Reader \<Rightarrow> SnapshotMeta \<times> Reader" where
  "readMeta r =
     (let (collapse, r) = readList lenStr r;
          (locks, r) = readList lenStr r;
          (builtins, r) = u8 r;
          (channels, r) = readList readChannelTypeSpec r;
          (files, r) = readList readStamp r;
          (entries, r) = readList lenStr r;
          (deps, r) = readList readStamp r;
          (tuDeps, r) = readMany (length files) (readTuDeps (length deps)) r;
          (analyzer, r) = lenStr r;
          (toolchain, r) = lenStr r;
          (environment, r) = lenStr r;
          (bakeStart, r) = u64 r;
          (results, r) = readMany (length files) readResult r
      in (\<lparr>smCollapsePaths = collapse, smLockAllowlist = locks, smLockBuiltins = (builtins \<noteq> 0), smChannelTypes = channels,
           smFiles = files, smDeps = deps, smTuDeps = padTo (length files) [] tuDeps, smEntryPoints = entries,
           smFingerprints = padTo (length files) [] (map fst results), smOutcomes = padTo (length files) noOutcome (map snd results),
           smProvenance = \<lparr>ipAnalyzer = analyzer, ipToolchain = toolchain, ipEnvironment = environment, ipBakeStartNs = bakeStart\<rparr>\<rparr>, r))"

section \<open>Interner tables\<close>

definition emitInternerTable :: "string \<Rightarrow> interner \<Rightarrow> string" where
  "emitInternerTable out it = putList putLenStr out (strings it)"

definition readInternerTable :: "(string \<Rightarrow> bool) \<Rightarrow> Reader \<Rightarrow> interner \<Rightarrow> (bool \<times> interner) \<times> Reader" where
  "readInternerTable isUTF8 r it =
     (let (ss, r) = readList (readText isUTF8) r in
      if \<not> rdOk r then ((False, it), r) else (installStrings it ss, r))"

section \<open>The header\<close>

record IndexSummary =
  isNodes :: "64 word"
  isEdges :: "64 word"
  isCallSites :: "64 word"
  isChannelSites :: "64 word"

record SectionRange =
  rgBegin :: "64 word"
  rgLength :: "64 word"
  rgChecksum :: "64 word"

record Header =
  hdSummary :: IndexSummary
  hdRanges :: "SectionRange option list"

definition kMagic :: string where
  "kMagic = ''VYCS''"

definition kFormatVersion :: "32 word" where
  "kFormatVersion = 14"

definition kSectionKinds :: nat where
  "kSectionKinds = 4"

definition kHeaderBytes :: nat where
  "kHeaderBytes = 4 + 4 + 32 + 4 + 4 * 25 + 8"

definition sectionName :: "nat \<Rightarrow> string" where
  "sectionName kind = (if kind = 0 then ''meta'' else if kind = 1 then ''graph'' else if kind = 2 then ''control_flow''
     else if kind = 3 then ''channels'' else ''unknown'')"

definition emitEntry :: "(string \<Rightarrow> 64 word) \<Rightarrow> nat \<times> string \<Rightarrow> string \<times> nat \<Rightarrow> string \<times> nat" where
  "emitEntry checksum ks st =
     (let (kind, sec) = ks; (out, offset) = st;
          out = putU8 out (of_nat kind);
          out = putU64 out (of_nat offset);
          out = putU64 out (of_nat (length sec));
          out = putU64 out (checksum sec)
      in (out, offset + length sec))"

definition emitHeader :: "(string \<Rightarrow> 64 word) \<Rightarrow> IndexSummary \<Rightarrow> string list \<Rightarrow> string" where
  "emitHeader checksum summary sections =
     (let out = putU32 kMagic kFormatVersion;
          out = putU64 out (isNodes summary);
          out = putU64 out (isEdges summary);
          out = putU64 out (isCallSites summary);
          out = putU64 out (isChannelSites summary);
          out = putU32 out (of_nat kSectionKinds);
          out = fst (fold (emitEntry checksum) (zip [0..<kSectionKinds] sections) (out, kHeaderBytes))
      in putU64 out (checksum out))"

definition assembleFile :: "(string \<Rightarrow> 64 word) \<Rightarrow> IndexSummary \<Rightarrow> string list \<Rightarrow> string" where
  "assembleFile checksum summary sections = emitHeader checksum summary sections @ concat sections"

fun parseTable :: "nat \<Rightarrow> nat \<Rightarrow> Reader \<Rightarrow> SectionRange option list \<Rightarrow> nat \<Rightarrow> string + (Reader \<times> SectionRange option list \<times> nat)" where
  "parseTable fileSize 0 r ranges fin = Inr (r, ranges, fin)"
| "parseTable fileSize (Suc n) r ranges fin =
     (let (kind, r) = u8 r; (offset, r) = u64 r; (len, r) = u64 r; (sum, r) = u64 r in
      if unat kind \<ge> kSectionKinds \<or> ranges ! unat kind \<noteq> None then Inl ''section table is malformed''
      else if unat offset < kHeaderBytes \<or> unat offset > fileSize \<or> unat len > fileSize - unat offset
      then Inl (''section '' @ [CHR 0x27] @ sectionName (unat kind) @ [CHR 0x27] @ '' lies outside the file (truncated?)'')
      else parseTable fileSize n r
             (ranges[unat kind := Some \<lparr>rgBegin = offset, rgLength = len, rgChecksum = sum\<rparr>]) (max fin (unat offset + unat len)))"

definition parseSections :: "string \<Rightarrow> Reader \<Rightarrow> string + Header" where
  "parseSections buf r =
     (let (nodes, r) = u64 r; (edges, r) = u64 r; (callSites, r) = u64 r; (channelSites, r) = u64 r; (tableCount, r) = u32 r in
      if unat tableCount \<noteq> kSectionKinds
      then Inl (''section table has '' @ toString (unat tableCount) @ '' entries, expected '' @ toString kSectionKinds)
      else case parseTable (length buf) (unat tableCount) r (replicate kSectionKinds None) kHeaderBytes of
        Inl e \<Rightarrow> Inl e
      | Inr (r, ranges, fin) \<Rightarrow>
          if rdOk r \<and> fin \<noteq> length buf then Inl (toString (length buf - fin) @ '' trailing byte(s) after the last section'')
          else if rdOk r
          then Inr \<lparr>hdSummary = \<lparr>isNodes = nodes, isEdges = edges, isCallSites = callSites, isChannelSites = channelSites\<rparr>, hdRanges = ranges\<rparr>
          else Inl [])"

definition parseHeader :: "(string \<Rightarrow> 64 word) \<Rightarrow> string \<Rightarrow> string + Header" where
  "parseHeader checksum buf =
     (let (magic, r) = bytes 4 \<lparr>rdRest = buf, rdOk = True\<rparr> in
      if \<not> rdOk r \<or> magic \<noteq> kMagic then Inl ''not a megascope index (bad magic)''
      else let (version, r) = u32 r in
        if \<not> rdOk r then Inl ''truncated header''
        else if version \<noteq> kFormatVersion
        then Inl (''format version '' @ toString (unat version) @ '', expected '' @ toString (unat kFormatVersion))
        else if length buf < kHeaderBytes then Inl ''truncated header''
        else if fst (u64 \<lparr>rdRest = take 8 (drop (kHeaderBytes - 8) buf), rdOk = True\<rparr>) \<noteq> checksum (take (kHeaderBytes - 8) buf)
        then Inl ''header checksum mismatch''
        else parseSections buf r)"

definition sectionBytes :: "string \<Rightarrow> Header \<Rightarrow> nat \<Rightarrow> string" where
  "sectionBytes buf h kind =
     (case hdRanges h ! kind of None \<Rightarrow> [] | Some g \<Rightarrow> take (unat (rgLength g)) (drop (unat (rgBegin g)) buf))"

text \<open>The error of a section, empty when its checksum matches.\<close>

definition verifySection :: "(string \<Rightarrow> 64 word) \<Rightarrow> string \<Rightarrow> Header \<Rightarrow> nat \<Rightarrow> string" where
  "verifySection checksum buf h kind =
     (if (case hdRanges h ! kind of None \<Rightarrow> 0 | Some g \<Rightarrow> rgChecksum g) = checksum (sectionBytes buf h kind) then []
      else ''section '' @ [CHR 0x27] @ sectionName kind @ [CHR 0x27] @ '' checksum mismatch (the file is damaged)'')"

fun verifyAll :: "(string \<Rightarrow> 64 word) \<Rightarrow> string \<Rightarrow> Header \<Rightarrow> nat list \<Rightarrow> string" where
  "verifyAll checksum buf h [] = []"
| "verifyAll checksum buf h (k # ks) =
     (let why = verifySection checksum buf h k in if why \<noteq> [] then why else verifyAll checksum buf h ks)"

text \<open>\<open>verify\<close> on the content of the file, or the error of opening it; empty means the file checks out.\<close>

definition verifyFile :: "(string \<Rightarrow> 64 word) \<Rightarrow> string + string \<Rightarrow> string" where
  "verifyFile checksum content =
     (case content of
        Inl e \<Rightarrow> e
      | Inr buf \<Rightarrow> (case parseHeader checksum buf of Inl e \<Rightarrow> e | Inr h \<Rightarrow> verifyAll checksum buf h [0..<kSectionKinds]))"

definition malformed :: "nat \<Rightarrow> string" where
  "malformed kind = ''section '' @ [CHR 0x27] @ sectionName kind @ [CHR 0x27] @
     '' does not decode (the file is damaged or from an incompatible build)''"

text \<open>\<open>load\<close> when no section but the metadata is asked for.\<close>

definition loadMeta :: "(string \<Rightarrow> 64 word) \<Rightarrow> string + string \<Rightarrow> string + (IndexSummary \<times> SnapshotMeta)" where
  "loadMeta checksum content =
     (case content of
        Inl e \<Rightarrow> Inl e
      | Inr buf \<Rightarrow>
          (case parseHeader checksum buf of
             Inl e \<Rightarrow> Inl e
           | Inr h \<Rightarrow>
               let why = verifySection checksum buf h 0 in
               if why \<noteq> [] then Inl why
               else let (meta, r) = readMeta \<lparr>rdRest = sectionBytes buf h 0, rdOk = True\<rparr> in
                 if \<not> rdOk r \<or> rdRest r \<noteq> [] then Inl (malformed 0) else Inr (hdSummary h, meta)))"

end
