(* ===== verification/SnapshotFileProps.thy ===== *)
theory SnapshotFileProps
  imports SnapshotFile
begin

unbundle bit_operations_syntax

text \<open>
  Saved files read back: every writer and reader of the snapshot format is a codec (a locale with the list codec as
  its consequence), and the header, the checksums and the metadata section of an assembled file are what was put
  into them.
\<close>

section \<open>Numbers\<close>

lemma low_byte: "of_nat (byte (char_of (unat (w AND 0xFF)))) = (w AND 0xFF :: 'a::len word)"
proof -
  have "unat (w AND 0xFF) \<le> 255"
  proof -
    have "w AND 0xFF \<le> 0xFF" by (rule word_and_le1)
    then have "unat (w AND 0xFF) \<le> unat (0xFF :: 'a word)" by (simp add: word_le_nat_alt)
    also have "\<dots> \<le> 255" using unat_of_nat [of 255, where ?'a = 'a] by simp
    finally show ?thesis .
  qed
  then show ?thesis by (simp add: byte_char_of)
qed

lemma take_bit_step: "take_bit (8 * n) v OR push_bit (8 * n) (drop_bit (8 * n) v AND 0xFF) = take_bit (8 * Suc n) (v :: 'a::len word)"
proof -
  have m: "(0xFF :: 'a word) = mask 8" by (simp add: mask_eq_exp_minus_1)
  show ?thesis by (rule bit_word_eqI) (auto simp: m bit_simps)
qed

lemma fromBytes_put:
  assumes "\<And>i. i < n \<Longrightarrow> bs ! i = char_of (unat (drop_bit (8 * i) v AND 0xFF))"
  shows "fromBytes bs n = take_bit (8 * n) (v :: 'a::len word)"
  using assms
proof (induction n)
  case (Suc n)
  have "fromBytes bs (Suc n) = take_bit (8 * n) v OR push_bit (8 * n) (of_nat (byte (bs ! n)))"
    using Suc by (simp add: fromBytes_def)
  also have "bs ! n = char_of (unat (drop_bit (8 * n) v AND 0xFF))" using Suc.prems by simp
  finally show ?case unfolding low_byte take_bit_step .
qed (simp add: fromBytes_def)

lemma u8_put: "u8 \<lparr>rdRest = putU8 [] v @ rest, rdOk = True\<rparr> = (v, \<lparr>rdRest = rest, rdOk = True\<rparr>)"
proof -
  have "unat v < 2 ^ LENGTH(8)" by (rule unsigned_less)
  then have "unat v < 256" by simp
  then show ?thesis by (simp add: u8_def putU8_def need_def advance_def byte_char_of)
qed

lemma u32_put: "u32 \<lparr>rdRest = putU32 [] v @ rest, rdOk = True\<rparr> = (v, \<lparr>rdRest = rest, rdOk = True\<rparr>)"
proof -
  have "fromBytes (putU32 [] v @ rest) 4 = take_bit (8 * 4) v"
    by (rule fromBytes_put) (simp add: putU32_def nth_append)
  moreover have "length (putU32 [] v) = 4" by (simp add: putU32_def)
  ultimately show ?thesis by (simp add: u32_def need_def advance_def take_bit_word_eq_self)
qed

lemma u64_put: "u64 \<lparr>rdRest = putU64 [] v @ rest, rdOk = True\<rparr> = (v, \<lparr>rdRest = rest, rdOk = True\<rparr>)"
proof -
  have "fromBytes (putU64 [] v @ rest) 8 = take_bit (8 * 8) v"
    by (rule fromBytes_put) (simp add: putU64_def nth_append)
  moreover have "length (putU64 [] v) = 8" by (simp add: putU64_def)
  ultimately show ?thesis by (simp add: u64_def need_def advance_def take_bit_word_eq_self)
qed

section \<open>Codecs\<close>

locale codec =
  fixes put :: "string \<Rightarrow> 'a \<Rightarrow> string" and get :: "Reader \<Rightarrow> 'a \<times> Reader" and ok :: "'a \<Rightarrow> bool"
  assumes put_append: "put out x = out @ put [] x"
    and put_nonempty: "put [] x \<noteq> []"
    and get_put: "ok x \<Longrightarrow> get \<lparr>rdRest = put [] x @ rest, rdOk = True\<rparr> = (x, \<lparr>rdRest = rest, rdOk = True\<rparr>)"
begin

lemma fold_put: "fold (\<lambda>x out. put out x) xs out = out @ concat (map (put []) xs)"
proof (induction xs arbitrary: out)
  case (Cons x xs)
  show ?case using put_append [of out x] by (simp add: Cons.IH)
qed simp

lemma readMany_put:
  "list_all ok xs \<Longrightarrow> readMany (length xs) get \<lparr>rdRest = concat (map (put []) xs) @ rest, rdOk = True\<rparr> = (xs, \<lparr>rdRest = rest, rdOk = True\<rparr>)"
  by (induction xs) (simp_all add: get_put)

lemma elements_bytes: "length xs \<le> length (concat (map (put []) xs))"
proof (induction xs)
  case (Cons x xs)
  then show ?case using put_nonempty [of x] by (cases "put [] x") simp_all
qed simp

lemma putList_bytes: "putList put out xs = putU32 out (of_nat (length xs)) @ concat (map (put []) xs)"
  by (simp add: putList_def fold_put)

lemma readList_putList:
  assumes "list_all ok xs" "length xs < 2 ^ 32"
  shows "readList get \<lparr>rdRest = putList put [] xs @ rest, rdOk = True\<rparr> = (xs, \<lparr>rdRest = rest, rdOk = True\<rparr>)"
proof -
  have "unat (of_nat (length xs) :: 32 word) = length xs" using assms(2) by (simp add: unat_of_nat)
  then show ?thesis using elements_bytes [of xs] readMany_put [OF assms(1)]
    by (simp add: readList_def readCount_def putList_bytes u32_put)
qed

end

lemma putU_append: "putU8 out a = out @ putU8 [] a" "putU32 out b = out @ putU32 [] b" "putU64 out c = out @ putU64 [] c"
  "putLenStr out s = out @ putLenStr [] s"
  by (simp_all add: putU8_def putU32_def putU64_def putLenStr_def)

lemma putList_append: "(\<And>out x. put out x = out @ put [] x) \<Longrightarrow> putList put out xs = out @ putList put [] xs"
proof -
  assume p: "\<And>out x. put out x = out @ put [] x"
  have "fold (\<lambda>x out. put out x) xs out = out @ fold (\<lambda>x out. put out x) xs []" for out
  proof (induction xs arbitrary: out)
    case (Cons x xs)
    show ?case unfolding fold_Cons comp_apply by (metis Cons.IH append.assoc append_Nil p)
  qed simp
  then show ?thesis unfolding putList_def by (metis append.assoc putU_append(2))
qed

definition short32 :: "'a list \<Rightarrow> bool" where
  "short32 xs \<longleftrightarrow> length xs < 2 ^ 32"

lemma lenStr_put: "short32 s \<Longrightarrow> lenStr \<lparr>rdRest = putLenStr [] s @ rest, rdOk = True\<rparr> = (s, \<lparr>rdRest = rest, rdOk = True\<rparr>)"
  by (simp add: lenStr_def putLenStr_def u32_put bytes_def need_def advance_def unat_of_nat short32_def)

lemma put_not_Nil [simp]: "putU8 out a \<noteq> []" "putU32 out b \<noteq> []" "putU64 out c \<noteq> []" "putLenStr out s \<noteq> []"
  by (simp_all add: putU8_def putU32_def putU64_def putLenStr_def)

interpretation lenStr: codec putLenStr lenStr short32
  by unfold_locales (rule putU_append(4), rule put_not_Nil(4), erule lenStr_put)

interpretation u32: codec putU32 u32 "\<lambda>_. True"
  by unfold_locales (rule putU_append(2), rule put_not_Nil(2), rule u32_put)

definition specFits :: "ChannelTypeSpec \<Rightarrow> bool" where
  "specFits spec \<longleftrightarrow> short32 (ctTypeName spec) \<and> short32 (ctProduce spec) \<and> list_all short32 (ctProduce spec) \<and>
     short32 (ctConsume spec) \<and> list_all short32 (ctConsume spec) \<and> short32 (ctCategory spec)"

lemma lenStrs_put: "short32 xs \<Longrightarrow> list_all short32 xs \<Longrightarrow>
    readList lenStr \<lparr>rdRest = putList putLenStr [] xs @ rest, rdOk = True\<rparr> = (xs, \<lparr>rdRest = rest, rdOk = True\<rparr>)"
  by (rule lenStr.readList_putList) (simp_all add: short32_def)

lemma emitSpec_bytes:
  "emitChannelTypeSpec out spec = out @ putLenStr [] (ctTypeName spec) @ putList putLenStr [] (ctProduce spec) @
     putList putLenStr [] (ctConsume spec) @ putLenStr [] (ctCategory spec)"
  by (simp add: emitChannelTypeSpec_def Let_def lenStr.putList_bytes putLenStr_def putU32_def)

interpretation spec: codec emitChannelTypeSpec readChannelTypeSpec specFits
proof unfold_locales
  fix out spec rest
  show "emitChannelTypeSpec out spec = out @ emitChannelTypeSpec [] spec" by (simp add: emitSpec_bytes)
  show "emitChannelTypeSpec [] spec \<noteq> []" by (simp add: emitSpec_bytes)
  assume "specFits spec"
  then show "readChannelTypeSpec \<lparr>rdRest = emitChannelTypeSpec [] spec @ rest, rdOk = True\<rparr> = (spec, \<lparr>rdRest = rest, rdOk = True\<rparr>)"
    by (simp add: specFits_def readChannelTypeSpec_def emitSpec_bytes lenStr_put lenStrs_put)
qed

definition stampFits :: "FileStamp \<Rightarrow> bool" where
  "stampFits f \<longleftrightarrow> short32 (fsPath f)"

lemma emitStamp_bytes: "emitStamp out f = out @ putLenStr [] (fsPath f) @ putU64 [] (fsMtimeNs f) @ putU64 [] (fsSize f)"
  by (simp add: emitStamp_def putU64_def putLenStr_def putU32_def)

interpretation stamp: codec emitStamp readStamp stampFits
  by unfold_locales (simp_all add: emitStamp_bytes stampFits_def readStamp_def lenStr_put u64_put)

definition resultFits :: "string \<times> TuOutcome \<Rightarrow> bool" where
  "resultFits x \<longleftrightarrow> short32 (fst x) \<and> short32 (toDetail (snd x))"

lemma emitResult_bytes:
  "emitResult out x = out @ putLenStr [] (fst x) @ putU8 [] (statusCode (toStatus (snd x))) @ putLenStr [] (toDetail (snd x))"
  by (simp add: emitResult_def putU8_def putLenStr_def putU32_def)

lemma statusOfCode_code: "statusOfCode (statusCode s) = s" "\<not> statusCode s > statusCode TimedOut"
  by (cases s; simp add: statusOfCode_def statusCode_def)+

interpretation result: codec emitResult readResult resultFits
  by unfold_locales (auto simp: emitResult_bytes resultFits_def readResult_def lenStr_put u8_put statusOfCode_code)

definition idsFit :: "nat \<Rightarrow> 32 word list \<Rightarrow> bool" where
  "idsFit n ids \<longleftrightarrow> short32 ids \<and> list_all (\<lambda>i. unat i < n) ids"

lemma readDepIds_put:
  "list_all (\<lambda>i. unat i < n) ids \<Longrightarrow>
     readDepIds n (length ids) \<lparr>rdRest = concat (map (putU32 []) ids) @ rest, rdOk = True\<rparr> = (ids, \<lparr>rdRest = rest, rdOk = True\<rparr>)"
  by (induction ids) (simp_all add: u32_put)

interpretation tuDeps: codec "putList putU32" "readTuDeps n" "idsFit n" for n
proof unfold_locales
  fix out and ids :: "32 word list" and rest
  show "putList putU32 out ids = out @ putList putU32 [] ids" by (rule putList_append [OF putU_append(2)])
  show "putList putU32 [] ids \<noteq> []" by (simp add: u32.putList_bytes)
  assume f: "idsFit n ids"
  then have "unat (of_nat (length ids) :: 32 word) = length ids" by (simp add: idsFit_def short32_def unat_of_nat)
  then show "readTuDeps n \<lparr>rdRest = putList putU32 [] ids @ rest, rdOk = True\<rparr> = (ids, \<lparr>rdRest = rest, rdOk = True\<rparr>)"
    using f u32.elements_bytes [of ids]
    by (simp add: readTuDeps_def readCount_def u32.putList_bytes u32_put readDepIds_put idsFit_def)
qed

section \<open>The metadata\<close>

definition columns :: "SnapshotMeta \<Rightarrow> (string \<times> TuOutcome) list" where
  "columns meta = map (\<lambda>i. (entryAt [] (smFingerprints meta) i, entryAt noOutcome (smOutcomes meta) i)) [0..<length (smFiles meta)]"

definition depColumn :: "SnapshotMeta \<Rightarrow> 32 word list list" where
  "depColumn meta = map (entryAt [] (smTuDeps meta)) [0..<length (smFiles meta)]"

text \<open>The metadata with one entry per file in each column.\<close>

definition completed :: "SnapshotMeta \<Rightarrow> SnapshotMeta" where
  "completed meta = meta\<lparr>smTuDeps := depColumn meta, smFingerprints := map fst (columns meta), smOutcomes := map snd (columns meta)\<rparr>"

definition metaFits :: "SnapshotMeta \<Rightarrow> bool" where
  "metaFits meta \<longleftrightarrow> short32 (smCollapsePaths meta) \<and> list_all short32 (smCollapsePaths meta) \<and>
     short32 (smLockAllowlist meta) \<and> list_all short32 (smLockAllowlist meta) \<and>
     short32 (smChannelTypes meta) \<and> list_all specFits (smChannelTypes meta) \<and>
     short32 (smFiles meta) \<and> list_all stampFits (smFiles meta) \<and>
     short32 (smEntryPoints meta) \<and> list_all short32 (smEntryPoints meta) \<and>
     short32 (smDeps meta) \<and> list_all stampFits (smDeps meta) \<and> list_all (idsFit (length (smDeps meta))) (depColumn meta) \<and>
     short32 (ipAnalyzer (smProvenance meta)) \<and> short32 (ipToolchain (smProvenance meta)) \<and> short32 (ipEnvironment (smProvenance meta)) \<and>
     list_all resultFits (columns meta)"

lemma fold_put_at: "fold (\<lambda>i out. put out (h i)) is out = fold (\<lambda>x out. put out x) (map h is) out"
  by (simp add: fold_map comp_def)

lemma emitMeta_bytes:
  "emitMeta [] meta = putList putLenStr [] (smCollapsePaths meta) @ putList putLenStr [] (smLockAllowlist meta) @
     putU8 [] (if smLockBuiltins meta then 1 else 0) @ putList emitChannelTypeSpec [] (smChannelTypes meta) @
     putList emitStamp [] (smFiles meta) @ putList putLenStr [] (smEntryPoints meta) @ putList emitStamp [] (smDeps meta) @
     concat (map (putList putU32 []) (depColumn meta)) @ putLenStr [] (ipAnalyzer (smProvenance meta)) @
     putLenStr [] (ipToolchain (smProvenance meta)) @ putLenStr [] (ipEnvironment (smProvenance meta)) @
     putU64 [] (ipBakeStartNs (smProvenance meta)) @ concat (map (emitResult []) (columns meta))"
proof -
  have d: "fold (\<lambda>i out. putList putU32 out (entryAt [] (smTuDeps meta) i)) [0..<length (smFiles meta)] out =
      out @ concat (map (putList putU32 []) (depColumn meta))" for out
    by (subst fold_put_at) (unfold depColumn_def, rule tuDeps.fold_put)
  have r: "fold (\<lambda>i out. emitResult out (entryAt [] (smFingerprints meta) i, entryAt noOutcome (smOutcomes meta) i)) [0..<length (smFiles meta)] out =
      out @ concat (map (emitResult []) (columns meta))" for out
    by (subst fold_put_at) (unfold columns_def, rule result.fold_put)
  define e where "e = putLenStr []"
  define e8 where "e8 = putU8 []"
  define e64 where "e64 = putU64 []"
  define es where "es = putList putLenStr []"
  define ec where "ec = putList emitChannelTypeSpec []"
  define ef where "ef = putList emitStamp []"
  have p: "putLenStr out x = out @ e x" "putU8 out b = out @ e8 b" "putU64 out w = out @ e64 w" "putList putLenStr out xs = out @ es xs"
    "putList emitChannelTypeSpec out cs = out @ ec cs" "putList emitStamp out fs = out @ ef fs" for out x b w xs cs fs
    unfolding e_def e8_def e64_def es_def ec_def ef_def
    by (rule putU_append putList_append lenStr.put_append spec.put_append stamp.put_append)+
  show ?thesis unfolding emitMeta_def Let_def d r p by simp
qed

lemma readMeta_emitMeta:
  assumes "metaFits meta"
  shows "readMeta \<lparr>rdRest = emitMeta [] meta @ rest, rdOk = True\<rparr> = (completed meta, \<lparr>rdRest = rest, rdOk = True\<rparr>)"
proof -
  have c: "length (columns meta) = length (smFiles meta)" "length (depColumn meta) = length (smFiles meta)"
    by (simp_all add: columns_def depColumn_def)
  have l: "readList readChannelTypeSpec \<lparr>rdRest = putList emitChannelTypeSpec [] (smChannelTypes meta) @ r, rdOk = True\<rparr> = (smChannelTypes meta, \<lparr>rdRest = r, rdOk = True\<rparr>)"
    "readList readStamp \<lparr>rdRest = putList emitStamp [] (smFiles meta) @ r, rdOk = True\<rparr> = (smFiles meta, \<lparr>rdRest = r, rdOk = True\<rparr>)"
    "readList readStamp \<lparr>rdRest = putList emitStamp [] (smDeps meta) @ r, rdOk = True\<rparr> = (smDeps meta, \<lparr>rdRest = r, rdOk = True\<rparr>)" for r
    using assms by (auto intro!: spec.readList_putList stamp.readList_putList simp: metaFits_def short32_def)
  have m: "readMany (length (smFiles meta)) (readTuDeps (length (smDeps meta))) \<lparr>rdRest = concat (map (putList putU32 []) (depColumn meta)) @ r, rdOk = True\<rparr> =
      (depColumn meta, \<lparr>rdRest = r, rdOk = True\<rparr>)"
    "readMany (length (smFiles meta)) readResult \<lparr>rdRest = concat (map (emitResult []) (columns meta)) @ r, rdOk = True\<rparr> = (columns meta, \<lparr>rdRest = r, rdOk = True\<rparr>)" for r
    using assms tuDeps.readMany_put [of "length (smDeps meta)" "depColumn meta" r] result.readMany_put [of "columns meta" r]
    by (simp_all add: metaFits_def c)
  show ?thesis
    using assms unfolding emitMeta_bytes readMeta_def
    by (simp add: metaFits_def lenStrs_put lenStr_put u8_put u64_put l m padTo_def c completed_def)
qed

section \<open>The header\<close>

definition entryBytes :: "(string \<Rightarrow> 64 word) \<Rightarrow> nat \<Rightarrow> nat \<Rightarrow> string \<Rightarrow> string" where
  "entryBytes checksum kind offset sec =
     putU8 [] (of_nat kind) @ putU64 [] (of_nat offset) @ putU64 [] (of_nat (length sec)) @ putU64 [] (checksum sec)"

definition rangeOf :: "(string \<Rightarrow> 64 word) \<Rightarrow> nat \<Rightarrow> string \<Rightarrow> SectionRange" where
  "rangeOf checksum offset sec = \<lparr>rgBegin = of_nat offset, rgLength = of_nat (length sec), rgChecksum = checksum sec\<rparr>"

lemma emitEntry_bytes: "emitEntry checksum (kind, sec) (out, offset) = (out @ entryBytes checksum kind offset sec, offset + length sec)"
  by (simp add: emitEntry_def entryBytes_def putU8_def putU64_def)

lemma unat_of_nat_64: "n < 2 ^ 64 \<Longrightarrow> unat (of_nat n :: 64 word) = n"
  by (simp add: unat_of_nat)

lemma parseTable_entry:
  assumes "kind < kSectionKinds" "ranges ! kind = None" "kHeaderBytes \<le> offset" "offset + length sec \<le> size'" "size' < 2 ^ 64"
  shows "parseTable size' (Suc n) \<lparr>rdRest = entryBytes checksum kind offset sec @ rest, rdOk = True\<rparr> ranges fin =
    parseTable size' n \<lparr>rdRest = rest, rdOk = True\<rparr> (ranges[kind := Some (rangeOf checksum offset sec)]) (max fin (offset + length sec))"
proof -
  have "unat (of_nat kind :: 8 word) = kind" using assms(1) by (simp add: unat_of_nat kSectionKinds_def)
  moreover have "unat (of_nat offset :: 64 word) = offset" "unat (of_nat (length sec) :: 64 word) = length sec"
    using assms(4,5) by (simp_all add: unat_of_nat_64)
  moreover have "\<not> length sec > size' - offset" "\<not> offset > size'" using assms(4) by linarith+
  ultimately show ?thesis using assms(1,2,3) by (simp add: entryBytes_def u8_put u64_put rangeOf_def)
qed

definition headBytes :: "(string \<Rightarrow> 64 word) \<Rightarrow> IndexSummary \<Rightarrow> string \<Rightarrow> string \<Rightarrow> string \<Rightarrow> string \<Rightarrow> string" where
  "headBytes checksum summary m g c h = kMagic @ putU32 [] kFormatVersion @ putU64 [] (isNodes summary) @ putU64 [] (isEdges summary) @
     putU64 [] (isCallSites summary) @ putU64 [] (isChannelSites summary) @ putU32 [] (of_nat kSectionKinds) @
     entryBytes checksum 0 kHeaderBytes m @ entryBytes checksum 1 (kHeaderBytes + length m) g @
     entryBytes checksum 2 (kHeaderBytes + length m + length g) c @ entryBytes checksum 3 (kHeaderBytes + length m + length g + length c) h"

lemma length_put [simp]: "length (putU8 [] a) = 1" "length (putU32 [] b) = 4" "length (putU64 [] w) = 8"
  by (simp_all add: putU8_def putU32_def putU64_def)

lemma length_headBytes: "length (headBytes checksum summary m g c h) = kHeaderBytes - 8"
  by (simp add: headBytes_def entryBytes_def kMagic_def kHeaderBytes_def)

lemma assembleFile_bytes:
  "assembleFile checksum summary [m, g, c, h] =
     headBytes checksum summary m g c h @ putU64 [] (checksum (headBytes checksum summary m g c h)) @ m @ g @ c @ h"
proof -
  have z: "zip [0..<kSectionKinds] [m, g, c, h] = [(0, m), (1, g), (2, c), (3, h)]"
    by (simp add: kSectionKinds_def upt_conv_Cons)
  define e32 where "e32 = putU32 []"
  define e64 where "e64 = putU64 []"
  have p: "putU32 out a = out @ e32 a" "putU64 out b = out @ e64 b" for out a b
    unfolding e32_def e64_def by (rule putU_append)+
  show ?thesis unfolding assembleFile_def emitHeader_def Let_def z headBytes_def p
    by (simp add: emitEntry_bytes)
qed

lemma read_bytes4: "length xs = 4 \<Longrightarrow> bytes 4 \<lparr>rdRest = xs @ rest, rdOk = True\<rparr> = (xs, \<lparr>rdRest = rest, rdOk = True\<rparr>)"
  by (simp add: bytes_def need_def advance_def)

definition savedHeader :: "(string \<Rightarrow> 64 word) \<Rightarrow> IndexSummary \<Rightarrow> string \<Rightarrow> string \<Rightarrow> string \<Rightarrow> string \<Rightarrow> Header" where
  "savedHeader checksum summary m g c h = \<lparr>hdSummary = summary, hdRanges =
     [Some (rangeOf checksum kHeaderBytes m), Some (rangeOf checksum (kHeaderBytes + length m) g),
      Some (rangeOf checksum (kHeaderBytes + length m + length g) c), Some (rangeOf checksum (kHeaderBytes + length m + length g + length c) h)]\<rparr>"

lemma parseHeader_saved:
  assumes "kHeaderBytes + length m + length g + length c + length h < 2 ^ 64"
  shows "parseHeader checksum (assembleFile checksum summary [m, g, c, h]) = Inr (savedHeader checksum summary m g c h)"
proof -
  let ?H = "headBytes checksum summary m g c h"
  let ?buf = "?H @ putU64 [] (checksum ?H) @ m @ g @ c @ h"
  let ?size = "kHeaderBytes + length m + length g + length c + length h"
  have len: "length ?buf = ?size" by (simp add: length_headBytes) (simp add: kHeaderBytes_def)
  have tail: "fst (u64 \<lparr>rdRest = take 8 (drop (kHeaderBytes - 8) ?buf), rdOk = True\<rparr>) = checksum (take (kHeaderBytes - 8) ?buf)"
    using u64_put [of "checksum ?H" "[]"] by (simp add: length_headBytes)
  let ?table = "entryBytes checksum 0 kHeaderBytes m @ entryBytes checksum 1 (kHeaderBytes + length m) g @
     entryBytes checksum 2 (kHeaderBytes + length m + length g) c @ entryBytes checksum 3 (kHeaderBytes + length m + length g + length c) h"
  have table: "parseTable ?size 4 \<lparr>rdRest = ?table @ rest, rdOk = True\<rparr> (replicate kSectionKinds None) kHeaderBytes =
      Inr (\<lparr>rdRest = rest, rdOk = True\<rparr>, hdRanges (savedHeader checksum summary m g c h), ?size)" for rest
  proof -
    let ?r0 = "Some (rangeOf checksum kHeaderBytes m)"
    let ?r1 = "Some (rangeOf checksum (kHeaderBytes + length m) g)"
    let ?r2 = "Some (rangeOf checksum (kHeaderBytes + length m + length g) c)"
    let ?e1 = "entryBytes checksum 1 (kHeaderBytes + length m) g"
    let ?e2 = "entryBytes checksum 2 (kHeaderBytes + length m + length g) c"
    let ?e3 = "entryBytes checksum 3 (kHeaderBytes + length m + length g + length c) h"
    note step = parseTable_entry [where size' = ?size and checksum = checksum]
    have "parseTable ?size (Suc (Suc (Suc (Suc 0)))) \<lparr>rdRest = entryBytes checksum 0 kHeaderBytes m @ (?e1 @ ?e2 @ ?e3 @ rest), rdOk = True\<rparr>
        [None, None, None, None] kHeaderBytes =
        parseTable ?size (Suc (Suc (Suc 0))) \<lparr>rdRest = ?e1 @ (?e2 @ ?e3 @ rest), rdOk = True\<rparr> [?r0, None, None, None] (kHeaderBytes + length m)"
      by (subst step) (use assms in \<open>simp_all add: kSectionKinds_def del: parseTable.simps\<close>)
    also have "\<dots> = parseTable ?size (Suc (Suc 0)) \<lparr>rdRest = ?e2 @ (?e3 @ rest), rdOk = True\<rparr> [?r0, ?r1, None, None] (kHeaderBytes + length m + length g)"
      by (subst step) (use assms in \<open>simp_all add: kSectionKinds_def del: parseTable.simps\<close>)
    also have "\<dots> = parseTable ?size (Suc 0) \<lparr>rdRest = ?e3 @ rest, rdOk = True\<rparr> [?r0, ?r1, ?r2, None] (kHeaderBytes + length m + length g + length c)"
      by (subst step) (use assms in \<open>simp_all add: kSectionKinds_def numeral_2_eq_2 del: parseTable.simps\<close>)
    also have "\<dots> = Inr (\<lparr>rdRest = rest, rdOk = True\<rparr>, hdRanges (savedHeader checksum summary m g c h), ?size)"
      by (subst step) (use assms in \<open>simp_all add: kSectionKinds_def savedHeader_def numeral_3_eq_3 del: parseTable.simps(2)\<close>)
    finally show ?thesis by (simp add: kSectionKinds_def numeral_eq_Suc del: parseTable.simps)
  qed
  define buf where "buf = ?buf"
  let ?fin = "putU64 [] (checksum ?H) @ m @ g @ c @ h"
  let ?rest = "putU64 [] (isNodes summary) @ putU64 [] (isEdges summary) @ putU64 [] (isCallSites summary) @
     putU64 [] (isChannelSites summary) @ putU32 [] (of_nat kSectionKinds) @ ?table @ ?fin"
  have magic: "bytes 4 \<lparr>rdRest = buf, rdOk = True\<rparr> = (kMagic, \<lparr>rdRest = putU32 [] kFormatVersion @ ?rest, rdOk = True\<rparr>)"
    unfolding buf_def headBytes_def append.assoc by (rule read_bytes4) (simp add: kMagic_def)
  have small: "\<not> length buf < kHeaderBytes" using len by (simp add: buf_def)
  have "parseHeader checksum buf = parseSections buf \<lparr>rdRest = ?rest, rdOk = True\<rparr>"
    using tail [folded buf_def] small by (simp add: parseHeader_def magic u32_put)
  also have "\<dots> = Inr (savedHeader checksum summary m g c h)"
  proof -
    have n: "unat (of_nat kSectionKinds :: 32 word) = 4" by (simp add: kSectionKinds_def)
    show ?thesis using table [of ?fin] len [folded buf_def]
      by (simp add: parseSections_def u64_put u32_put n kSectionKinds_def savedHeader_def)
  qed
  finally show ?thesis unfolding assembleFile_bytes buf_def .
qed

lemma savedSections:
  assumes "kHeaderBytes + length m + length g + length c + length h < 2 ^ 64"
  shows "sectionBytes (assembleFile checksum summary [m, g, c, h]) (savedHeader checksum summary m g c h) 0 = m"
    "sectionBytes (assembleFile checksum summary [m, g, c, h]) (savedHeader checksum summary m g c h) 1 = g"
    "sectionBytes (assembleFile checksum summary [m, g, c, h]) (savedHeader checksum summary m g c h) 2 = c"
    "sectionBytes (assembleFile checksum summary [m, g, c, h]) (savedHeader checksum summary m g c h) 3 = h"
proof -
  define H where "H = headBytes checksum summary m g c h @ putU64 [] (checksum (headBytes checksum summary m g c h))"
  have b: "assembleFile checksum summary [m, g, c, h] = H @ m @ g @ c @ h" by (simp add: assembleFile_bytes H_def)
  have H: "length H = kHeaderBytes" unfolding H_def by (simp add: length_headBytes) (simp add: kHeaderBytes_def)
  have u: "unat (of_nat n :: 64 word) = n" if "n \<le> kHeaderBytes + length m + length g + length c + length h" for n
    using that assms by (simp add: unat_of_nat_64)
  show "sectionBytes (assembleFile checksum summary [m, g, c, h]) (savedHeader checksum summary m g c h) 0 = m"
    "sectionBytes (assembleFile checksum summary [m, g, c, h]) (savedHeader checksum summary m g c h) 1 = g"
    "sectionBytes (assembleFile checksum summary [m, g, c, h]) (savedHeader checksum summary m g c h) 2 = c"
    "sectionBytes (assembleFile checksum summary [m, g, c, h]) (savedHeader checksum summary m g c h) 3 = h"
    unfolding b sectionBytes_def savedHeader_def by (simp_all add: rangeOf_def u H [symmetric] numeral_2_eq_2 numeral_3_eq_3 del: of_nat_add)
qed

lemma verify_saved:
  assumes "kHeaderBytes + length m + length g + length c + length h < 2 ^ 64" "kind < kSectionKinds"
  shows "verifySection checksum (assembleFile checksum summary [m, g, c, h]) (savedHeader checksum summary m g c h) kind = []"
proof -
  have "kind = 0 \<or> kind = 1 \<or> kind = 2 \<or> kind = 3" using assms(2) by (auto simp: kSectionKinds_def)
  then show ?thesis
    using savedSections [OF assms(1), of checksum summary]
    by (elim disjE) (simp_all add: verifySection_def savedHeader_def rangeOf_def)
qed

lemma verifyAll_clean: "(\<And>k. k \<in> set ks \<Longrightarrow> verifySection checksum buf h k = []) \<Longrightarrow> verifyAll checksum buf h ks = []"
  by (induction ks) simp_all

text \<open>
  C37: a saved file checks out and gives its metadata back: whatever the other sections hold, the header and all
  checksums verify, and loading returns the summary and the metadata, each column filled up to one entry per file.
\<close>

theorem snapshot_meta_roundtrip:
  assumes fits: "metaFits meta" and small: "kHeaderBytes + length (emitMeta [] meta) + length g + length c + length h < 2 ^ 64"
  shows "verifyFile checksum (Inr (assembleFile checksum summary [emitMeta [] meta, g, c, h])) = [] \<and>
    loadMeta checksum (Inr (assembleFile checksum summary [emitMeta [] meta, g, c, h])) = Inr (summary, completed meta)"
proof -
  let ?buf = "assembleFile checksum summary [emitMeta [] meta, g, c, h]"
  let ?h = "savedHeader checksum summary (emitMeta [] meta) g c h"
  have h: "parseHeader checksum ?buf = Inr ?h" by (rule parseHeader_saved [OF small])
  have "verifyAll checksum ?buf ?h [0..<kSectionKinds] = []" by (rule verifyAll_clean, rule verify_saved [OF small]) simp
  moreover have "verifySection checksum ?buf ?h 0 = []" by (rule verify_saved [OF small]) (simp add: kSectionKinds_def)
  moreover have "readMeta \<lparr>rdRest = emitMeta [] meta, rdOk = True\<rparr> = (completed meta, \<lparr>rdRest = [], rdOk = True\<rparr>)"
    using readMeta_emitMeta [OF fits, of "[]"] by simp
  ultimately show ?thesis
    using savedSections(1) [OF small, of checksum summary] by (simp add: verifyFile_def loadMeta_def h savedHeader_def [of _ _ "emitMeta [] meta"])
qed

definition smallMeta :: SnapshotMeta where
  "smallMeta =
     \<lparr>smCollapsePaths = [], smLockAllowlist = [''L''], smLockBuiltins = True, smChannelTypes = [],
      smFiles = [\<lparr>fsPath = ''a'', fsMtimeNs = 7, fsSize = 300\<rparr>], smDeps = [\<lparr>fsPath = ''h'', fsMtimeNs = 5, fsSize = 2\<rparr>],
      smTuDeps = [[0]], smEntryPoints = [''m''], smFingerprints = [''f''], smOutcomes = [],
      smProvenance = \<lparr>ipAnalyzer = ''v'', ipToolchain = [], ipEnvironment = [], ipBakeStartNs = 9\<rparr>\<rparr>"

lemma smallMeta_size: "length (emitMeta [] smallMeta) = 116"
  by code_simp

lemma smallMeta_fits: "metaFits smallMeta"
  by (simp add: metaFits_def smallMeta_def short32_def specFits_def stampFits_def idsFit_def depColumn_def columns_def resultFits_def entryAt_def noOutcome_def)

theorem snapshot_meta_roundtrip_witness:
  "verifyFile (\<lambda>s. of_nat (length s)) (Inr (assembleFile (\<lambda>s. of_nat (length s))
     \<lparr>isNodes = 1, isEdges = 0, isCallSites = 0, isChannelSites = 0\<rparr> [emitMeta [] smallMeta, ''g'', [], ''ch''])) = [] \<and>
   loadMeta (\<lambda>s. of_nat (length s)) (Inr (assembleFile (\<lambda>s. of_nat (length s))
     \<lparr>isNodes = 1, isEdges = 0, isCallSites = 0, isChannelSites = 0\<rparr> [emitMeta [] smallMeta, ''g'', [], ''ch''])) =
     Inr (\<lparr>isNodes = 1, isEdges = 0, isCallSites = 0, isChannelSites = 0\<rparr>,
       smallMeta\<lparr>smOutcomes := [\<lparr>toStatus = Skipped, toDetail = []\<rparr>]\<rparr>)"
proof -
  have "completed smallMeta = smallMeta\<lparr>smOutcomes := [\<lparr>toStatus = Skipped, toDetail = []\<rparr>]\<rparr>"
    by (simp add: completed_def smallMeta_def depColumn_def columns_def entryAt_def noOutcome_def)
  moreover have "kHeaderBytes + length (emitMeta [] smallMeta) + length ''g'' + length ([] :: string) + length ''ch'' < 2 ^ 64"
    unfolding smallMeta_size by (simp add: kHeaderBytes_def)
  ultimately show ?thesis
    using snapshot_meta_roundtrip [OF smallMeta_fits, of "''g''" "[]" "''ch''" "\<lambda>s. of_nat (length s)"
        "\<lparr>isNodes = 1, isEdges = 0, isCallSites = 0, isChannelSites = 0\<rparr>"]
    by simp
qed

end
