(* ===== verification/SnapshotChannels.thy ===== *)
theory SnapshotChannels
  imports SnapshotFile ChannelIndex
begin

text \<open>
  The channel section of a snapshot file (\<open>SnapshotIO::save\<close> and \<open>SnapshotIO::load\<close> of
  \<open>src/callgraph/Snapshot.cpp\<close>): every live site with its registrations and the units that made them. The file
  keeps no unit for the site itself; the reader takes the first of the sorted contributors. An operation is stored
  as a byte and cast back: a code other than those of the enumeration, which no save writes, is read as \<open>Consume\<close>.
  \<open>isUTF8\<close> stands for \<open>llvm::json::isUTF8\<close>.
\<close>

section \<open>Writing\<close>

definition emitGuard :: "string \<Rightarrow> ConditionalGuard \<Rightarrow> string" where
  "emitGuard out g =
     putU8 (putU8 (putLenStr (putLenStr out (conditionText g)) (guardLocation g)) (if inTrueBranch g then 1 else 0))
       (if isAssertion g then 1 else 0)"

definition opCode :: "ChannelOperation \<Rightarrow> 8 word" where
  "opCode p = (case p of Produce \<Rightarrow> 0 | Consume \<Rightarrow> 1)"

definition emitSite :: "string \<Rightarrow> ChannelSite \<times> nat \<times> string list \<Rightarrow> string" where
  "emitSite out x =
     (let (s, refs, tus) = x;
          out = putLenStr out (channelId s);
          out = putLenStr out (channelTypeName s);
          out = putLenStr out (category s);
          out = putU8 out (opCode (chanOp s));
          out = putLenStr out (siteFunctionUsr s);
          out = putLenStr out (siteFunctionDisplay s);
          out = putLenStr out (chanCallSite s);
          out = putU32 out (of_nat refs);
          out = putList emitGuard out (siteGuards s)
      in putList putLenStr out tus)"

definition savedSite :: "channel_index \<Rightarrow> nat \<Rightarrow> ChannelSite \<times> nat \<times> string list" where
  "savedSite x i =
     (let se = ch_sites x ! i in (ssSite se, ssRefs se, if ssRefs se = 0 then [] else sort (siteTus x i)))"

definition emitChannels :: "string \<Rightarrow> channel_index \<Rightarrow> string" where
  "emitChannels out x =
     fold (\<lambda>i out. if \<not> ssLive (ch_sites x ! i) then out else emitSite out (savedSite x i)) [0..<length (ch_sites x)]
       (putU32 out (of_nat (ch_liveCount x)))"

section \<open>Reading\<close>

definition readGuard :: "(string \<Rightarrow> bool) \<Rightarrow> Reader \<Rightarrow> ConditionalGuard \<times> Reader" where
  "readGuard isUTF8 r =
     (let (c, r) = readText isUTF8 r; (l, r) = readText isUTF8 r; (t, r) = u8 r; (a, r) = u8 r
      in (\<lparr>conditionText = c, guardLocation = l, inTrueBranch = (t \<noteq> 0), isAssertion = (a \<noteq> 0)\<rparr>, r))"

definition opOfCode :: "8 word \<Rightarrow> ChannelOperation" where
  "opOfCode v = (if v = 0 then Produce else Consume)"

definition readSite :: "(string \<Rightarrow> bool) \<Rightarrow> Reader \<Rightarrow> (ChannelSite \<times> nat \<times> string list) \<times> Reader" where
  "readSite isUTF8 r =
     (let (channel, r) = readText isUTF8 r; (type, r) = readText isUTF8 r; (cat, r) = readText isUTF8 r; (p, r) = u8 r;
          (usr, r) = readText isUTF8 r; (display, r) = readText isUTF8 r; (site, r) = readText isUTF8 r; (refs, r) = u32 r;
          (guards, r) = readList (readGuard isUTF8) r; (tus, r) = readList (readText isUTF8) r
      in ((\<lparr>channelId = channel, channelTypeName = type, category = cat, chanOp = opOfCode p, siteFunctionUsr = usr,
            siteFunctionDisplay = display, chanCallSite = site, siteGuards = guards, siteTuPath = []\<rparr>, unat refs, tus), r))"

definition installSite :: "bool \<Rightarrow> ChannelSite \<Rightarrow> nat \<Rightarrow> string list \<Rightarrow> channel_index \<Rightarrow> channel_index" where
  "installSite mutableLoad site refs tus x =
     (let idx = length (ch_sites x); x = insertSite x site refs
      in if mutableLoad then x\<lparr>ch_byTu := fold (\<lambda>tu m. um_push m tu idx) tus (ch_byTu x)\<rparr> else x)"

fun readSites :: "(string \<Rightarrow> bool) \<Rightarrow> bool \<Rightarrow> nat \<Rightarrow> Reader \<Rightarrow> channel_index \<Rightarrow> channel_index \<times> Reader" where
  "readSites isUTF8 mutableLoad 0 r x = (x, r)"
| "readSites isUTF8 mutableLoad (Suc n) r x =
     (if \<not> rdOk r then (x, r)
      else let ((s, refs, tus), r) = readSite isUTF8 r in
        if \<not> rdOk r \<or> refs = 0 \<or> refs < length tus then (x, r\<lparr>rdOk := False\<rparr>)
        else readSites isUTF8 mutableLoad n r
               (installSite mutableLoad (s\<lparr>siteTuPath := (case tus of [] \<Rightarrow> [] | tu # _ \<Rightarrow> tu)\<rparr>) refs tus x))"

definition readChannels :: "(string \<Rightarrow> bool) \<Rightarrow> bool \<Rightarrow> Reader \<Rightarrow> channel_index \<times> Reader" where
  "readChannels isUTF8 mutableLoad r = (let (n, r) = readCount r in readSites isUTF8 mutableLoad n r emptyChannels)"

definition sectionDone :: "Reader \<Rightarrow> Reader" where
  "sectionDone r = (if rdOk r \<and> rdRest r \<noteq> [] then r\<lparr>rdOk := False\<rparr> else r)"

text \<open>\<open>load\<close> when the channel section is asked for beside the metadata.\<close>

definition loadChannels :: "(string \<Rightarrow> 64 word) \<Rightarrow> (string \<Rightarrow> bool) \<Rightarrow> bool \<Rightarrow> string + string \<Rightarrow> string + (SnapshotMeta \<times> channel_index)" where
  "loadChannels checksum isUTF8 mutableLoad content =
     (case loadMeta checksum content of
        Inl e \<Rightarrow> Inl e
      | Inr (summary, meta) \<Rightarrow>
          (case content of
             Inl e \<Rightarrow> Inl e
           | Inr buf \<Rightarrow>
               (case parseHeader checksum buf of
                  Inl e \<Rightarrow> Inl e
                | Inr h \<Rightarrow>
                    let why = verifySection checksum buf h 3 in
                    if why \<noteq> [] then Inl why
                    else let (x, r) = readChannels isUTF8 mutableLoad \<lparr>rdRest = sectionBytes buf h 3, rdOk = True\<rparr> in
                      if \<not> rdOk (sectionDone r) then Inl (malformed 3) else Inr (meta, x))))"

end
