(* ===== verification/SnapshotChannelsProps.thy ===== *)
theory SnapshotChannelsProps
  imports SnapshotChannels SnapshotFileProps ChannelIndexProps
begin

text \<open>
  The channel section reads back: guards, texts and sites are codecs of the snapshot format, and installing the
  saved sites does what merging the index into an empty one does.
\<close>

section \<open>Codecs\<close>

definition textFits :: "(string \<Rightarrow> bool) \<Rightarrow> string \<Rightarrow> bool" where
  "textFits isUTF8 s \<longleftrightarrow> isUTF8 s \<and> short32 s"

interpretation utf8: codec putLenStr "readText isUTF8" "textFits isUTF8" for isUTF8
  by unfold_locales (rule putU_append(4), simp, simp add: readText_def textFits_def lenStr_put)

definition chGuardFits :: "(string \<Rightarrow> bool) \<Rightarrow> ConditionalGuard \<Rightarrow> bool" where
  "chGuardFits isUTF8 g \<longleftrightarrow> textFits isUTF8 (conditionText g) \<and> textFits isUTF8 (guardLocation g)"

lemma emitGuard_bytes:
  "emitGuard out g = out @ putLenStr [] (conditionText g) @ putLenStr [] (guardLocation g) @
     putU8 [] (if inTrueBranch g then 1 else 0) @ putU8 [] (if isAssertion g then 1 else 0)"
  unfolding emitGuard_def by (metis append.assoc putU_append(1,4))

interpretation chGuard: codec emitGuard "readGuard isUTF8" "chGuardFits isUTF8" for isUTF8
  by unfold_locales (auto simp: emitGuard_bytes readGuard_def chGuardFits_def utf8.get_put u8_put)

definition siteFits :: "(string \<Rightarrow> bool) \<Rightarrow> ChannelSite \<times> nat \<times> string list \<Rightarrow> bool" where
  "siteFits isUTF8 x \<longleftrightarrow>
     (let (s, rc, tus) = x in
      textFits isUTF8 (channelId s) \<and> textFits isUTF8 (channelTypeName s) \<and> textFits isUTF8 (category s) \<and>
      textFits isUTF8 (siteFunctionUsr s) \<and> textFits isUTF8 (siteFunctionDisplay s) \<and> textFits isUTF8 (chanCallSite s) \<and>
      short32 (siteGuards s) \<and> list_all (chGuardFits isUTF8) (siteGuards s) \<and> short32 tus \<and> list_all (textFits isUTF8) tus \<and> rc < 2 ^ 32)"

lemma opOfCode_opCode [simp]: "opOfCode (opCode p) = p"
  by (cases p) (simp_all add: opOfCode_def opCode_def)

lemma emitSite_bytes:
  "emitSite out (s, rc, tus) = out @ putLenStr [] (channelId s) @ putLenStr [] (channelTypeName s) @ putLenStr [] (category s) @
     putU8 [] (opCode (chanOp s)) @ putLenStr [] (siteFunctionUsr s) @ putLenStr [] (siteFunctionDisplay s) @ putLenStr [] (chanCallSite s) @
     putU32 [] (of_nat rc) @ putList emitGuard [] (siteGuards s) @ putList putLenStr [] tus"
  by (simp add: emitSite_def Let_def chGuard.putList_bytes lenStr.putList_bytes putLenStr_def putU8_def putU32_def)

lemma readSite_emitSite:
  assumes "siteFits isUTF8 (s, rc, tus)"
  shows "readSite isUTF8 \<lparr>rdRest = emitSite [] (s, rc, tus) @ rest, rdOk = True\<rparr> = ((s\<lparr>siteTuPath := []\<rparr>, rc, tus), \<lparr>rdRest = rest, rdOk = True\<rparr>)"
proof -
  have l: "readList (readGuard isUTF8) \<lparr>rdRest = putList emitGuard [] (siteGuards s) @ q, rdOk = True\<rparr> = (siteGuards s, \<lparr>rdRest = q, rdOk = True\<rparr>)"
    "readList (readText isUTF8) \<lparr>rdRest = putList putLenStr [] tus @ q, rdOk = True\<rparr> = (tus, \<lparr>rdRest = q, rdOk = True\<rparr>)" for q
    using assms by (auto intro!: chGuard.readList_putList utf8.readList_putList simp: siteFits_def short32_def)
  have "unat (of_nat rc :: 32 word) = rc" using assms by (simp add: siteFits_def unat_of_nat)
  then show ?thesis using assms unfolding emitSite_bytes siteFits_def Let_def prod.case
    by (simp add: readSite_def utf8.get_put u8_put u32_put l)
qed

interpretation site: codec emitSite "readSite isUTF8" "\<lambda>e. siteFits isUTF8 e \<and> siteTuPath (fst e) = []" for isUTF8
proof unfold_locales
  fix out rest :: string and e :: "ChannelSite \<times> nat \<times> string list"
  obtain s rc tus where e: "e = (s, rc, tus)" by (cases e)
  show "emitSite out e = out @ emitSite [] e" "emitSite [] e \<noteq> []" by (simp_all add: e emitSite_bytes)
  assume "siteFits isUTF8 e \<and> siteTuPath (fst e) = []"
  then show "readSite isUTF8 \<lparr>rdRest = emitSite [] e @ rest, rdOk = True\<rparr> = (e, \<lparr>rdRest = rest, rdOk = True\<rparr>)"
    using readSite_emitSite [of isUTF8 s rc tus rest] by (simp add: e)
qed

section \<open>Installing\<close>

definition reported :: "string list \<Rightarrow> string" where
  "reported tus = (case tus of [] \<Rightarrow> [] | tu # _ \<Rightarrow> tu)"

definition installed :: "ChannelSite \<times> nat \<times> string list \<Rightarrow> channel_index \<Rightarrow> channel_index" where
  "installed e x = (let (s, rc, tus) = e in installSite True (s\<lparr>siteTuPath := reported tus\<rparr>) rc tus x)"

lemma readSites_put:
  assumes "list_all (siteFits isUTF8) es" "list_all (\<lambda>(s, rc, tus). 0 < rc \<and> length tus \<le> rc) es"
  shows "readSites isUTF8 True (length es) \<lparr>rdRest = concat (map (emitSite []) es) @ rest, rdOk = True\<rparr> x = (fold installed es x, \<lparr>rdRest = rest, rdOk = True\<rparr>)"
  using assms
proof (induction es arbitrary: x)
  case (Cons e es)
  obtain s rc tus where e: "e = (s, rc, tus)" by (cases e)
  have f: "siteFits isUTF8 (s, rc, tus)" "0 < rc" "\<not> rc < length tus" using Cons.prems by (auto simp: e)
  note R = readSite_emitSite [OF f(1), of "concat (map (emitSite []) es) @ rest"]
  show ?case using Cons f(2,3) by (simp add: e R installed_def reported_def)
qed simp

lemma um_put_twice: "um_put (um_put m k v) k w = um_put m k w"
  unfolding um_put_def by (induction m) auto

lemma push_run: "0 < n \<Longrightarrow> fold (\<lambda>tu m. um_push m tu idx) (replicate n t) m = um_put m t (um_get m t @ replicate n idx)"
proof (induction n arbitrary: m)
  case (Suc n)
  have "um_push m t idx = um_put m t (um_get m t @ [idx])" by (simp add: um_push_def)
  then show ?case using Suc.IH [of "um_push m t idx"] by (cases "n = 0") (simp_all add: um_put_twice del: fold_replicate)
qed simp

lemma add_first:
  assumes "map_of (ch_index x) (siteKey s) = None" "0 < n"
  shows "addSiteRefs x (s\<lparr>siteTuPath := t\<rparr>) n = installSite True (s\<lparr>siteTuPath := t\<rparr>) n (if t = [] then [] else replicate n t) x"
proof -
  have k: "siteKey (s\<lparr>siteTuPath := t\<rparr>) = siteKey s" by (simp add: siteKey_def)
  show ?thesis using assms by (simp add: addSiteRefs_def installSite_def k push_run insertSite_def Let_def del: fold_replicate)
qed

lemma add_more:
  assumes "map_of (ch_index x) (siteKey s) = None" "t \<noteq> [] \<Longrightarrow> h \<noteq> [] \<and> h \<le> t"
  shows "addSiteRefs (installSite True (s\<lparr>siteTuPath := h\<rparr>) k tus x) (s\<lparr>siteTuPath := t\<rparr>) n =
    installSite True (s\<lparr>siteTuPath := h\<rparr>) (k + n) (tus @ (if t = [] then [] else replicate n t)) x"
proof (cases "n = 0")
  case False
  have k: "siteKey (s\<lparr>siteTuPath := u\<rparr>) = siteKey s" for u by (simp add: siteKey_def)
  have b: "betterTu h t = h" "betterTu h [] = h" using assms(2) by (auto simp: betterTu_def)
  show ?thesis
    using assms(1) False
    by (intro channel_index.equality)
      (simp_all add: addSiteRefs_def installSite_def insertSite_def Let_def k um_emplace_def addRefs_def b push_run del: fold_replicate)
qed (simp add: addSiteRefs_def)

text \<open>The replay of a site that is new to the index installs it.\<close>

lemma run_split: "t # ts = replicate (Suc (length (takeWhile (\<lambda>u. u = t) ts))) t @ dropWhile (\<lambda>u. u = t) ts"
  by (induction ts) simp_all

lemma replay_installs:
  assumes new: "map_of (ch_index x) (siteKey (ssSite se)) = None" and h: "h \<noteq> []"
    and fit: "length pre + length ts \<le> ssRefs se" and ts: "\<forall>t \<in> set ts. t \<noteq> [] \<and> h \<le> t"
  shows "replayTus se ts (length pre) (installSite True ((ssSite se)\<lparr>siteTuPath := h\<rparr>) (length pre) pre x) =
    (length (pre @ ts), installSite True ((ssSite se)\<lparr>siteTuPath := h\<rparr>) (length (pre @ ts)) (pre @ ts) x)"
  using fit ts
proof (induction ts arbitrary: pre rule: length_induct)
  case (1 ts)
  show ?case
  proof (cases ts)
    case (Cons t us)
    let ?n = "Suc (length (takeWhile (\<lambda>u. u = t) us))" and ?rest = "dropWhile (\<lambda>u. u = t) us"
    have split: "ts = replicate ?n t @ ?rest" using run_split [of t us] by (simp add: Cons)
    have len: "length ts = ?n + length ?rest" using arg_cong [OF split, of length] by simp
    have sub: "set ?rest \<subseteq> set ts" by (metis split set_append Un_upper2)
    have t: "t \<noteq> []" "h \<le> t" using "1.prems"(2) by (simp_all add: Cons)
    have less: "length pre < ssRefs se" "min ?n (ssRefs se - length pre) = ?n" using "1.prems"(1) len by simp_all
    have add: "addSiteRefs (installSite True ((ssSite se)\<lparr>siteTuPath := h\<rparr>) (length pre) pre x) ((ssSite se)\<lparr>siteTuPath := t\<rparr>) ?n =
        installSite True ((ssSite se)\<lparr>siteTuPath := h\<rparr>) (length (pre @ replicate ?n t)) (pre @ replicate ?n t) x"
      using add_more [OF new, of t h "length pre" pre ?n] t h by simp
    have "replayTus se ts (length pre) (installSite True ((ssSite se)\<lparr>siteTuPath := h\<rparr>) (length pre) pre x) =
        replayTus se ?rest (length (pre @ replicate ?n t)) (installSite True ((ssSite se)\<lparr>siteTuPath := h\<rparr>) (length (pre @ replicate ?n t)) (pre @ replicate ?n t) x)"
      unfolding add [symmetric] unfolding Cons replayTus.simps Let_def less(2) using less(1) by simp
    also have "\<dots> = (length ((pre @ replicate ?n t) @ ?rest), installSite True ((ssSite se)\<lparr>siteTuPath := h\<rparr>) (length ((pre @ replicate ?n t) @ ?rest)) ((pre @ replicate ?n t) @ ?rest) x)"
      using "1.IH" [rule_format, of ?rest "pre @ replicate ?n t"] "1.prems" len sub by auto
    also have "(pre @ replicate ?n t) @ ?rest = pre @ ts" using split by simp
    finally show ?thesis .
  qed simp
qed

lemma absorbSite_installs:
  assumes new: "map_of (ch_index y) (keyAt x i) = None" and x: "chan_wf x" and i: "i < length (ch_sites x)" and live: "ssLive (ch_sites x ! i)"
  shows "absorbSite x (i, ch_sites x ! i) y = installed (savedSite x i) y"
    and "reported (sort (siteTus x i)) = siteTuPath (ssSite (ch_sites x ! i))" and "length (siteTus x i) \<le> ssRefs (ch_sites x ! i)"
proof -
  let ?se = "ch_sites x ! i" and ?ts = "sort (siteTus x i)"
  have reg: "registered (ch_sites x) (ch_byTu x)" by (rule chan_wfD(6) [OF x])
  then have ok: "um_ok (ch_byTu x)" by (simp add: registered_def)
  have pos: "0 < ssRefs ?se" using chan_wfD(1) [OF x i] live by simp
  have con: "set ?ts = contributors (ch_byTu x) i"
  proof -
    have "t \<in> set (siteTus x i) \<longleftrightarrow> i \<in> set (um_get (ch_byTu x) t)" for t
      using count_siteTus [OF ok, of i t] by (metis count_list_0_iff count_mset_0_iff)
    then show ?thesis by (auto simp: contributors_def)
  qed
  then have ne: "[] \<notin> set ?ts" using contributors_nonempty [OF reg] by simp
  show total: "length (siteTus x i) \<le> ssRefs ?se"
    using reg mset_subset_eq_count [of "tuMset (ch_byTu x)" "crefs (ch_sites x)" i] i by (simp add: registered_def length_siteTus count_crefs)
  show "reported ?ts = siteTuPath (ssSite ?se)"
  proof -
    have "siteTuPath (ssSite ?se) = leastTu (set ?ts)" unfolding con using reg i live by (simp add: registered_def)
    also have "\<dots> = reported ?ts"
      using sorted_sort [of "siteTus x i"] by (cases ?ts) (auto simp: leastTu_def reported_def intro!: Min_eqI)
    finally show ?thesis ..
  qed
  have new': "map_of (ch_index y) (siteKey (ssSite ?se)) = None" using new by (simp add: keyAt_def)
  have sv: "savedSite x i = (ssSite ?se, ssRefs ?se, ?ts)" using pos by (simp add: savedSite_def Let_def)
  show "absorbSite x (i, ?se) y = installed (savedSite x i) y"
  proof (cases ?ts)
    case Nil
    have "absorbSite x (i, ?se) y = addSiteRefs y ((ssSite ?se)\<lparr>siteTuPath := []\<rparr>) (ssRefs ?se)"
      using Nil live pos by (simp add: absorbSite_def)
    then show ?thesis using add_first [OF new' pos, of "[]"] by (simp add: sv installed_def reported_def Nil)
  next
    case (Cons h us)
    let ?n = "Suc (length (takeWhile (\<lambda>u. u = h) us))" and ?rest = "dropWhile (\<lambda>u. u = h) us"
    let ?I = "\<lambda>k tus. installSite True ((ssSite ?se)\<lparr>siteTuPath := h\<rparr>) k tus y"
    have split: "?ts = replicate ?n h @ ?rest" using run_split [of h us] by (simp add: Cons)
    have len: "?n + length ?rest = length (siteTus x i)" using arg_cong [OF split, of length] by simp
    have h: "h \<noteq> []" using ne by (auto simp: Cons)
    have "set ?rest \<subseteq> set ?ts" by (metis split set_append Un_upper2)
    then have rest: "\<forall>t \<in> set ?rest. t \<noteq> [] \<and> h \<le> t"
      using ne sorted_sort [of "siteTus x i"] unfolding Cons by (metis set_ConsD sorted_wrt.simps(2) subset_iff order_refl)
    have min: "min ?n (ssRefs ?se - 0) = ?n" using total len by simp
    have "replayTus ?se ?ts 0 y = replayTus ?se ?rest (length (replicate ?n h)) (?I (length (replicate ?n h)) (replicate ?n h))"
      unfolding Cons replayTus.simps Let_def min using add_first [OF new', of ?n h] h pos by simp
    also have "\<dots> = (length ?ts, ?I (length ?ts) ?ts)"
      using replay_installs [OF new' h, of "replicate ?n h" ?rest] rest total len unfolding split [symmetric] by simp
    finally have "absorbSite x (i, ?se) y = addSiteRefs (?I (length ?ts) ?ts) ((ssSite ?se)\<lparr>siteTuPath := []\<rparr>) (ssRefs ?se - length ?ts)"
      using live pos by (simp add: absorbSite_def)
    also have "\<dots> = ?I (ssRefs ?se) ?ts" using add_more [OF new', of "[]" h "length ?ts" ?ts "ssRefs ?se - length ?ts"] total by simp
    finally show ?thesis by (simp add: sv installed_def reported_def Cons)
  qed
qed

section \<open>The section\<close>

definition livePos :: "channel_index \<Rightarrow> nat \<Rightarrow> nat list" where
  "livePos x n = filter (\<lambda>i. ssLive (ch_sites x ! i)) [0..<n]"

lemma installed_sites:
  "ch_sites (installed (s, rc, tus) y) = ch_sites y @ [\<lparr>ssSite = s\<lparr>siteTuPath := reported tus\<rparr>, ssRefs = rc, ssLive = True\<rparr>]"
  by (simp add: installed_def installSite_def insertSite_def Let_def)

lemma absorb_installs:
  assumes x: "chan_wf x" and n: "n \<le> length (ch_sites x)"
  shows "fold (absorbSite x) (map (\<lambda>i. (i, ch_sites x ! i)) [0..<n]) emptyChannels = fold installed (map (savedSite x) (livePos x n)) emptyChannels \<and>
    ch_sites (fold installed (map (savedSite x) (livePos x n)) emptyChannels) = map ((!) (ch_sites x)) (livePos x n)"
  using n
proof (induction n)
  case 0
  then show ?case by (simp add: livePos_def emptyChannels_def)
next
  case (Suc n)
  define y where "y = fold installed (map (savedSite x) (livePos x n)) emptyChannels"
  have y: "fold (absorbSite x) (map (\<lambda>i. (i, ch_sites x ! i)) [0..<n]) emptyChannels = y" "ch_sites y = map ((!) (ch_sites x)) (livePos x n)"
    using Suc by (simp_all add: y_def)
  show ?case
  proof (cases "ssLive (ch_sites x ! n)")
    case True
    have "set [0..<n] \<subseteq> {..<length (ch_sites x)}" using Suc.prems by auto
    from absorbSites_ledger [OF chan_wf_empty x this] have "chan_wf y" unfolding y(1) by blast
    then have idx: "indexed (ch_sites y) (ch_index y)" by (rule chan_wfD)
    have new: "map_of (ch_index y) (keyAt x n) = None"
    proof (rule ccontr)
      assume "map_of (ch_index y) (keyAt x n) \<noteq> None"
      then obtain j where "map_of (ch_index y) (keyAt x n) = Some j" by blast
      with idx have "j < length (ch_sites y)" "siteKey (ssSite (ch_sites y ! j)) = keyAt x n" by (simp_all add: indexed_def)
      then obtain k where "k \<in> set (livePos x n)" "keyAt x k = keyAt x n" by (auto simp: y(2) keyAt_def set_conv_nth)
      moreover from this have "k \<in> liveAtIdx x" "n \<in> liveAtIdx x" using True Suc.prems by (auto simp: livePos_def liveAtIdx_def)
      ultimately have "k = n" using live_keys(2) [OF x] by (meson inj_onD)
      with \<open>k \<in> set (livePos x n)\<close> show False by (simp add: livePos_def)
    qed
    have i: "n < length (ch_sites x)" using Suc.prems by simp
    note A = absorbSite_installs [OF new x i True]
    have pos: "0 < ssRefs (ch_sites x ! n)" using chan_wfD(1) [OF x i] True by simp
    have "ch_sites (installed (savedSite x n) y) = ch_sites y @ [ch_sites x ! n]"
      using A(2) pos True by (simp add: savedSite_def Let_def installed_sites)
    then show ?thesis using A(1) y True by (simp add: livePos_def y_def [symmetric, unfolded livePos_def])
  next
    case False
    then have "absorbSite x (n, ch_sites x ! n) y = y" by (simp add: absorbSite_def)
    then show ?thesis using y False by (simp add: livePos_def y_def [symmetric, unfolded livePos_def])
  qed
qed

lemma map_livePos: "map ((!) (ch_sites x)) (livePos x (length (ch_sites x))) = filter ssLive (ch_sites x)"
proof -
  have "filter ssLive (map ((!) (ch_sites x)) [0..<length (ch_sites x)]) = map ((!) (ch_sites x)) (livePos x (length (ch_sites x)))"
    by (simp add: livePos_def filter_map comp_def)
  then show ?thesis by (simp add: map_nth)
qed

definition savedSites :: "channel_index \<Rightarrow> (ChannelSite \<times> nat \<times> string list) list" where
  "savedSites x = map (savedSite x) (livePos x (length (ch_sites x)))"

lemma installed_absorbed:
  assumes "chan_wf x"
  shows "fold installed (savedSites x) emptyChannels = absorbChannels emptyChannels x"
    and "ch_sites (absorbChannels emptyChannels x) = filter ssLive (ch_sites x)"
proof -
  have "enumerate 0 (ch_sites x) = map (\<lambda>i. (i, ch_sites x ! i)) [0..<length (ch_sites x)]"
    by (rule nth_equalityI) (simp_all add: nth_enumerate_eq)
  with absorb_installs [OF assms order_refl]
  show "fold installed (savedSites x) emptyChannels = absorbChannels emptyChannels x"
    "ch_sites (absorbChannels emptyChannels x) = filter ssLive (ch_sites x)"
    by (simp_all add: savedSites_def absorbChannels_def map_livePos)
qed

definition channelsFit :: "(string \<Rightarrow> bool) \<Rightarrow> channel_index \<Rightarrow> bool" where
  "channelsFit isUTF8 x \<longleftrightarrow> list_all (siteFits isUTF8) (savedSites x) \<and> ch_liveCount x < 2 ^ 32"

lemma emitChannels_bytes: "emitChannels [] x = putU32 [] (of_nat (ch_liveCount x)) @ concat (map (emitSite []) (savedSites x))"
proof -
  have "fold (\<lambda>i out. if \<not> ssLive (ch_sites x ! i) then out else emitSite out (savedSite x i)) is out =
      out @ concat (map (emitSite []) (map (savedSite x) (filter (\<lambda>i. ssLive (ch_sites x ! i)) is)))" for "is" out
  proof (induction "is" arbitrary: out)
    case (Cons i ks)
    show ?case using site.put_append [of out "savedSite x i"] by (simp add: Cons.IH)
  qed simp
  then show ?thesis by (simp add: emitChannels_def savedSites_def livePos_def)
qed

lemma savedSites_counts: "chan_wf x \<Longrightarrow> list_all (\<lambda>(s, rc, tus). 0 < rc \<and> length tus \<le> rc) (savedSites x)"
proof -
  assume x: "chan_wf x"
  have "0 < ssRefs (ch_sites x ! i) \<and> length (siteTus x i) \<le> ssRefs (ch_sites x ! i)" if "i < length (ch_sites x)" "ssLive (ch_sites x ! i)" for i
    using absorbSite_installs(3) [OF _ x that, of emptyChannels] chan_wfD(1) [OF x that(1)] that(2) by (simp add: emptyChannels_def)
  then show ?thesis by (auto simp: list_all_iff savedSites_def livePos_def savedSite_def Let_def)
qed

lemma readChannels_emitChannels:
  assumes x: "chan_wf x" and fits: "channelsFit isUTF8 x"
  shows "readChannels isUTF8 True \<lparr>rdRest = emitChannels [] x, rdOk = True\<rparr> = (absorbChannels emptyChannels x, \<lparr>rdRest = [], rdOk = True\<rparr>)"
proof -
  have len: "length (savedSites x) = ch_liveCount x"
    using chan_wfD(7) [OF x] arg_cong [OF map_livePos [of x], of length] by (simp add: savedSites_def)
  have u: "unat (of_nat (ch_liveCount x) :: 32 word) = length (savedSites x)" using fits by (simp add: channelsFit_def unat_of_nat len)
  have "length (savedSites x) \<le> length (concat (map (emitSite []) (savedSites x)))" by (rule site.elements_bytes)
  moreover have "readSites isUTF8 True (length (savedSites x)) \<lparr>rdRest = concat (map (emitSite []) (savedSites x)), rdOk = True\<rparr> emptyChannels =
      (absorbChannels emptyChannels x, \<lparr>rdRest = [], rdOk = True\<rparr>)"
    using readSites_put [OF _ savedSites_counts [OF x], of isUTF8 "[]" emptyChannels] fits installed_absorbed(1) [OF x] by (simp add: channelsFit_def)
  ultimately show ?thesis unfolding emitChannels_bytes by (simp add: readChannels_def readCount_def u32_put u)
qed

text \<open>
  C38: a saved channel section loads to the same index: whatever the other sections hold, the metadata and an index
  come back, which is well-formed and compacted, with the live sites in their order, each with its count and its
  least contributor, and with the registrations of every unit.
\<close>

theorem channel_section_roundtrip:
  assumes x: "chan_wf x" and fits: "channelsFit isUTF8 x" "metaFits meta"
    and small: "kHeaderBytes + length (emitMeta [] meta) + length g + length c + length (emitChannels [] x) < 2 ^ 64"
  shows "\<exists>y. loadChannels checksum isUTF8 True (Inr (assembleFile checksum summary [emitMeta [] meta, g, c, emitChannels [] x])) =
      Inr (completed meta, y) \<and> chan_wf y \<and> ch_sites y = filter ssLive (ch_sites x) \<and> allSites y = allSites x \<and> chRegs y = chRegs x \<and>
      (\<forall>p. chTuRegs y p = chTuRegs x p)"
proof -
  let ?y = "absorbChannels emptyChannels x"
  let ?buf = "assembleFile checksum summary [emitMeta [] meta, g, c, emitChannels [] x]"
  let ?h = "savedHeader checksum summary (emitMeta [] meta) g c (emitChannels [] x)"
  have h: "parseHeader checksum ?buf = Inr ?h" by (rule parseHeader_saved [OF small])
  have v: "verifySection checksum ?buf ?h k = []" if "k < kSectionKinds" for k by (rule verify_saved [OF small that])
  have m: "readMeta \<lparr>rdRest = emitMeta [] meta, rdOk = True\<rparr> = (completed meta, \<lparr>rdRest = [], rdOk = True\<rparr>)"
    using readMeta_emitMeta [OF fits(2), of "[]"] by simp
  have "loadMeta checksum (Inr ?buf) = Inr (summary, completed meta)"
    using savedSections(1) [OF small, of checksum summary] v [of 0] m
    by (simp add: loadMeta_def h kSectionKinds_def) (simp add: savedHeader_def)
  then have "loadChannels checksum isUTF8 True (Inr ?buf) = Inr (completed meta, ?y)"
    using savedSections(4) [OF small, of checksum summary] v [of 3] readChannels_emitChannels [OF x fits(1)]
    by (simp add: loadChannels_def h kSectionKinds_def sectionDone_def)
  moreover note A = absorb_channels_ledger [OF chan_wf_empty x] and S = installed_absorbed(2) [OF x]
  moreover have "chTuRegs ?y p = chTuRegs x p" for p using chl.unit_merge [OF chan_wf_empty x, of p] by simp
  ultimately show ?thesis by (intro exI [of _ ?y]) (simp add: allSites_def)
qed

definition smallChannels :: channel_index where
  "smallChannels =
     addSite (addSite emptyChannels
       \<lparr>channelId = ''q'', channelTypeName = ''Q'', category = ''c'', chanOp = Consume, siteFunctionUsr = ''f'', siteFunctionDisplay = ''f'',
        chanCallSite = ''1'', siteGuards = [\<lparr>conditionText = ''p'', guardLocation = ''2'', inTrueBranch = True, isAssertion = False\<rparr>], siteTuPath = ''b''\<rparr>)
       \<lparr>channelId = ''q'', channelTypeName = ''Q'', category = ''c'', chanOp = Consume, siteFunctionUsr = ''f'', siteFunctionDisplay = ''f'',
        chanCallSite = ''1'', siteGuards = [], siteTuPath = ''a''\<rparr>"

lemma smallChannels_wf: "chan_wf smallChannels"
proof -
  have "chan_wf (addSite x s)" if "chan_wf x" for x s using recordSite_ledger(1) [OF that, of s "siteTuPath s"] by (simp add: recordSite_def)
  then show ?thesis by (simp add: smallChannels_def chan_wf_empty)
qed

lemma smallChannels_saved:
  "savedSites smallChannels = [(\<lparr>channelId = ''q'', channelTypeName = ''Q'', category = ''c'', chanOp = Consume, siteFunctionUsr = ''f'', siteFunctionDisplay = ''f'',
     chanCallSite = ''1'', siteGuards = [\<lparr>conditionText = ''p'', guardLocation = ''2'', inTrueBranch = True, isAssertion = False\<rparr>], siteTuPath = ''a''\<rparr>, 2, [''a'', ''b''])]"
  "ch_liveCount smallChannels = 1" "length (emitChannels [] smallChannels) = 69" "map siteTuPath (allSites smallChannels) = [''a'']"
  by code_simp+

theorem channel_section_roundtrip_witness:
  "\<exists>y. loadChannels (\<lambda>s. of_nat (length s)) (\<lambda>_. True) True (Inr (assembleFile (\<lambda>s. of_nat (length s))
     \<lparr>isNodes = 0, isEdges = 0, isCallSites = 0, isChannelSites = 1\<rparr> [emitMeta [] smallMeta, ''g'', [], emitChannels [] smallChannels])) =
     Inr (completed smallMeta, y) \<and> map siteTuPath (allSites y) = [''a'']"
proof -
  have f: "channelsFit (\<lambda>_. True) smallChannels"
    by (simp add: channelsFit_def smallChannels_saved siteFits_def textFits_def chGuardFits_def short32_def)
  have s: "kHeaderBytes + length (emitMeta [] smallMeta) + length ''g'' + length ([] :: string) + length (emitChannels [] smallChannels) < 2 ^ 64"
    unfolding smallMeta_size smallChannels_saved by (simp add: kHeaderBytes_def)
  show ?thesis
    using channel_section_roundtrip [OF smallChannels_wf f smallMeta_fits s, of "\<lambda>s. of_nat (length s)" "\<lparr>isNodes = 0, isEdges = 0, isCallSites = 0, isChannelSites = 1\<rparr>"]
      smallChannels_saved(4) by auto
qed

end
