(* ===== verification/SnapshotMerge.thy ===== *)
theory SnapshotMerge
  imports WarmStart SnapshotFile CallGraphUpdate ControlFlow ChannelIndex
begin

text \<open>
  \<open>SnapshotIO::merge\<close> of \<open>src/callgraph/Snapshot.cpp\<close>: several snapshots become one. The configurations have to
  agree; a unit that several inputs list is taken from the first of them, and the later ones lose it before their
  indexes are absorbed. \<open>load\<close> gives the decoded content of the file at a path, or the error that loading reports
  (possibly without a text). It is an argument because the graph and control-flow sections that
  \<open>SnapshotIO::load\<close> decodes are not modelled; the properties of the merge state what they need of its result.
\<close>

record SnapshotData =
  sdGraph :: call_graph
  sdControlFlow :: cf_index
  sdChannels :: channel_index
  sdMeta :: SnapshotMeta
  sdSummary :: IndexSummary
  sdLoaded :: nat

definition kSectionAll :: nat where
  "kSectionAll = 7"

definition emptyMeta :: SnapshotMeta where
  "emptyMeta =
     \<lparr>smCollapsePaths = [], smLockAllowlist = [], smLockBuiltins = True, smChannelTypes = [], smFiles = [], smDeps = [], smTuDeps = [],
      smEntryPoints = [], smFingerprints = [], smOutcomes = [],
      smProvenance = \<lparr>ipAnalyzer = [], ipToolchain = [], ipEnvironment = [], ipBakeStartNs = 0\<rparr>\<rparr>"

definition emptySnapshot :: SnapshotData where
  "emptySnapshot =
     \<lparr>sdGraph = emptyGraph, sdControlFlow = emptyIndex, sdChannels = emptyChannels, sdMeta = emptyMeta,
      sdSummary = \<lparr>isNodes = 0, isEdges = 0, isCallSites = 0, isChannelSites = 0\<rparr>, sdLoaded = 0\<rparr>"

record MergeOptions =
  moEntryPoints :: "string list"
  moAllowMismatch :: bool

text \<open>The local variables of the function.\<close>

record merge_state =
  mg_out :: SnapshotData
  mg_haveConfig :: bool
  mg_configSource :: string
  mg_firstShard :: bool
  mg_seenTus :: "string list"
  mg_seenEntryPoints :: "string list"
  mg_deps :: "(string, FileStamp list) umap"
  mg_outcomes :: "(string, TuOutcome) umap"
  mg_maxBakeStart :: "64 word"

definition mergeStart :: merge_state where
  "mergeStart =
     \<lparr>mg_out = emptySnapshot, mg_haveConfig = False, mg_configSource = [], mg_firstShard = True, mg_seenTus = [],
      mg_seenEntryPoints = [], mg_deps = [], mg_outcomes = [], mg_maxBakeStart = 0\<rparr>"

section \<open>Configuration\<close>

definition adoptConfig :: "string \<Rightarrow> SnapshotMeta \<Rightarrow> merge_state \<Rightarrow> merge_state" where
  "adoptConfig path meta st =
     (let out = mg_out st;
          m = (sdMeta out)\<lparr>smCollapsePaths := smCollapsePaths meta, smLockAllowlist := smLockAllowlist meta,
                smLockBuiltins := smLockBuiltins meta, smChannelTypes := smChannelTypes meta, smProvenance := smProvenance meta\<rparr>
      in st\<lparr>mg_out := out\<lparr>sdMeta := m\<rparr>, mg_maxBakeStart := ipBakeStartNs (smProvenance meta), mg_haveConfig := True,
            mg_configSource := path\<rparr>)"

definition cfgMatches :: "SnapshotMeta \<Rightarrow> SnapshotMeta \<Rightarrow> bool" where
  "cfgMatches meta m \<longleftrightarrow> smCollapsePaths meta = smCollapsePaths m \<and> smLockAllowlist meta = smLockAllowlist m \<and>
     smLockBuiltins meta = smLockBuiltins m \<and> smChannelTypes meta = smChannelTypes m"

definition envMatches :: "IndexProvenance \<Rightarrow> IndexProvenance \<Rightarrow> bool" where
  "envMatches p q \<longleftrightarrow> ipEnvironment q = [] \<or> ipEnvironment p = [] \<or> ipEnvironment p = ipEnvironment q"

definition fillProvenance :: "IndexProvenance \<Rightarrow> IndexProvenance \<Rightarrow> IndexProvenance" where
  "fillProvenance p q =
     q\<lparr>ipAnalyzer := (if ipAnalyzer q = [] then ipAnalyzer p else ipAnalyzer q),
       ipToolchain := (if ipToolchain q = [] then ipToolchain p else ipToolchain q),
       ipEnvironment := (if ipEnvironment q = [] then ipEnvironment p else ipEnvironment q)\<rparr>"

definition quoted :: "string \<Rightarrow> string" where
  "quoted s = [CHR 0x27] @ s @ [CHR 0x27]"

definition mergeConfig :: "MergeOptions \<Rightarrow> string \<Rightarrow> SnapshotMeta \<Rightarrow> merge_state \<Rightarrow> string + merge_state" where
  "mergeConfig options path meta st =
     (if \<not> mg_haveConfig st then Inr (adoptConfig path meta st)
      else
        let out = mg_out st; m = sdMeta out; p = smProvenance meta; q = smProvenance m in
        if \<not> cfgMatches meta m \<and> \<not> moAllowMismatch options
        then Inl (''build configuration mismatch between '' @ quoted (mg_configSource st) @ '' and '' @ quoted path @
                  '' (pass --allow-mismatch to force)'')
        else if \<not> envMatches p q \<and> \<not> moAllowMismatch options
        then Inl (''bake environment mismatch between '' @ quoted (mg_configSource st) @ '' ('' @ ipEnvironment q @ '') and '' @
                  quoted path @ '' ('' @ ipEnvironment p @ '') (pass --allow-mismatch to force)'')
        else Inr (st\<lparr>mg_out := out\<lparr>sdMeta := m\<lparr>smProvenance := fillProvenance p q\<rparr>\<rparr>,
                     mg_maxBakeStart := max (mg_maxBakeStart st) (ipBakeStartNs p)\<rparr>))"

section \<open>Entry points and units\<close>

definition addEntryPoint :: "string \<Rightarrow> merge_state \<Rightarrow> merge_state" where
  "addEntryPoint ep st =
     (if ep \<in> set (mg_seenEntryPoints st) then st
      else let out = mg_out st; m = sdMeta out in
        st\<lparr>mg_seenEntryPoints := mg_seenEntryPoints st @ [ep], mg_out := out\<lparr>sdMeta := m\<lparr>smEntryPoints := smEntryPoints m @ [ep]\<rparr>\<rparr>\<rparr>)"

definition mergeEntryPoints :: "MergeOptions \<Rightarrow> SnapshotMeta \<Rightarrow> merge_state \<Rightarrow> merge_state" where
  "mergeEntryPoints options meta st =
     (if moEntryPoints options = [] then fold addEntryPoint (smEntryPoints meta) st else st)"

definition mergeFile :: "SnapshotMeta \<Rightarrow> (string, FileStamp list) umap \<Rightarrow> (string, TuOutcome) umap \<Rightarrow> nat \<Rightarrow>
    merge_state \<times> string list \<times> nat \<Rightarrow> merge_state \<times> string list \<times> nat" where
  "mergeFile meta snapDeps snapOutcomes i x =
     (let (st, overlapping, fresh) = x; fs = smFiles meta ! i; path = fsPath fs in
      if path \<in> set (mg_seenTus st) then (st, overlapping @ [path], fresh)
      else
        let out = mg_out st; m = sdMeta out;
            m = m\<lparr>smFiles := smFiles m @ [fs],
                  smFingerprints := smFingerprints m @ [if i < length (smFingerprints meta) then smFingerprints meta ! i else []]\<rparr>
        in (st\<lparr>mg_seenTus := mg_seenTus st @ [path], mg_out := out\<lparr>sdMeta := m\<rparr>,
               mg_deps := (case map_of snapDeps path of None \<Rightarrow> mg_deps st | Some ds \<Rightarrow> um_put (mg_deps st) path ds),
               mg_outcomes := (case map_of snapOutcomes path of None \<Rightarrow> mg_outcomes st | Some oc \<Rightarrow> um_put (mg_outcomes st) path oc)\<rparr>,
            overlapping, fresh + 1))"

definition mergeFiles :: "SnapshotMeta \<Rightarrow> merge_state \<Rightarrow> merge_state \<times> string list \<times> nat" where
  "mergeFiles meta st = fold (mergeFile meta (dependenciesOf meta) (outcomesOf meta)) [0..<length (smFiles meta)] (st, [], 0)"

section \<open>Indexes\<close>

definition stripUnits :: "string list \<Rightarrow> SnapshotData \<Rightarrow> SnapshotData" where
  "stripUnits overlapping snap =
     (if overlapping = [] then snap
      else snap\<lparr>sdGraph := snd (removeTUs (sdGraph snap) overlapping),
                sdControlFlow := snd (cfRemoveTUs (sdControlFlow snap) overlapping),
                sdChannels := snd (chRemoveTUs (sdChannels snap) overlapping)\<rparr>)"

definition joinIndexes :: "bool \<Rightarrow> SnapshotData \<Rightarrow> SnapshotData \<Rightarrow> SnapshotData" where
  "joinIndexes move snap out =
     (if move then out\<lparr>sdGraph := sdGraph snap, sdControlFlow := sdControlFlow snap, sdChannels := sdChannels snap\<rparr>
      else out\<lparr>sdGraph := absorb (sdGraph out) (sdGraph snap), sdControlFlow := absorbIndex (sdControlFlow out) (sdControlFlow snap),
               sdChannels := absorbChannels (sdChannels out) (sdChannels snap)\<rparr>)"

definition mergeIndexes :: "SnapshotData \<Rightarrow> merge_state \<times> string list \<times> nat \<Rightarrow> merge_state" where
  "mergeIndexes snap x =
     (let (st, overlapping, fresh) = x in
      if smFiles (sdMeta snap) \<noteq> [] \<and> fresh = 0 then st
      else st\<lparr>mg_out := joinIndexes (mg_firstShard st \<and> overlapping = []) (stripUnits overlapping snap) (mg_out st), mg_firstShard := False\<rparr>)"

section \<open>The function\<close>

definition mergeInput :: "(string \<Rightarrow> string + SnapshotData) \<Rightarrow> MergeOptions \<Rightarrow> string \<Rightarrow> merge_state \<Rightarrow> string + merge_state" where
  "mergeInput load options path st =
     (case load path of
        Inl why \<Rightarrow> Inl (''cannot load '' @ quoted path @ '': '' @ (if why = [] then ''missing or unreadable file'' else why))
      | Inr snap \<Rightarrow>
          (case mergeConfig options path (sdMeta snap) st of
             Inl e \<Rightarrow> Inl e
           | Inr st \<Rightarrow> Inr (mergeIndexes snap (mergeFiles (sdMeta snap) (mergeEntryPoints options (sdMeta snap) st)))))"

fun mergeInputs :: "(string \<Rightarrow> string + SnapshotData) \<Rightarrow> MergeOptions \<Rightarrow> string list \<Rightarrow> merge_state \<Rightarrow> string + merge_state" where
  "mergeInputs load options [] st = Inr st"
| "mergeInputs load options (path # paths) st =
     (case mergeInput load options path st of Inl e \<Rightarrow> Inl e | Inr st \<Rightarrow> mergeInputs load options paths st)"

definition summaryOf :: "SnapshotData \<Rightarrow> IndexSummary" where
  "summaryOf out =
     \<lparr>isNodes = of_nat (nodeCount (sdGraph out)), isEdges = of_nat (edgeCount (sdGraph out)),
      isCallSites = of_nat (i_liveCount (sdControlFlow out)), isChannelSites = of_nat (ch_liveCount (sdChannels out))\<rparr>"

definition finishMerge :: "MergeOptions \<Rightarrow> merge_state \<Rightarrow> SnapshotData" where
  "finishMerge options st =
     (let m = recordDependencies (sdMeta (mg_out st)) (mg_deps st);
          m = (if smFiles m = [] then m else recordOutcomes m (mg_outcomes st));
          st = st\<lparr>mg_out := (mg_out st)\<lparr>sdMeta := m\<rparr>\<rparr>;
          st = fold addEntryPoint (moEntryPoints options) st;
          out = mg_out st;
          m = (sdMeta out)\<lparr>smProvenance := (smProvenance (sdMeta out))\<lparr>ipBakeStartNs := mg_maxBakeStart st\<rparr>\<rparr>
      in out\<lparr>sdMeta := m, sdSummary := summaryOf out, sdLoaded := kSectionAll\<rparr>)"

definition mergeSnapshots :: "(string \<Rightarrow> string + SnapshotData) \<Rightarrow> string list \<Rightarrow> MergeOptions \<Rightarrow> string + SnapshotData" where
  "mergeSnapshots load inputPaths options =
     (if inputPaths = [] then Inl ''no input snapshots specified''
      else case mergeInputs load options inputPaths mergeStart of Inl e \<Rightarrow> Inl e | Inr st \<Rightarrow> Inr (finishMerge options st))"

end
