(* ===== verification/SnapshotMergeProps.thy ===== *)
theory SnapshotMergeProps
  imports SnapshotMerge CallGraphProps ChannelIndexProps
begin

text \<open>
  Merging snapshots counts every unit once. The argument about one index is made in the locale \<open>unit_store\<close>, over
  what each unit has registered, and is interpreted on the call graph and on the channel index.
\<close>

section \<open>Stores of registrations by unit\<close>

locale unit_store =
  fixes ok :: "'g \<Rightarrow> bool"
    and unit_of :: "'g \<Rightarrow> string \<Rightarrow> 'e multiset"
    and merge :: "'g \<Rightarrow> 'g \<Rightarrow> 'g"
    and drop_units :: "'g \<Rightarrow> string list \<Rightarrow> 'g"
  assumes store_merge: "ok g \<Longrightarrow> ok h \<Longrightarrow> ok (merge g h) \<and> unit_of (merge g h) q = unit_of g q + unit_of h q"
    and store_drop: "ok g \<Longrightarrow> ok (drop_units g ps) \<and> unit_of (drop_units g ps) q = (if q \<in> set ps then {#} else unit_of g q)"
begin

text \<open>One input of the merge: dropped when it lists no new unit, else stripped of the units seen and taken over.\<close>

definition joined :: "bool \<Rightarrow> string list \<Rightarrow> string list \<Rightarrow> 'g \<Rightarrow> 'g \<Rightarrow> 'g" where
  "joined first seen paths s acc =
     (let overlapping = filter (\<lambda>p. p \<in> set seen) paths;
          s = (if overlapping = [] then s else drop_units s overlapping)
      in if paths \<noteq> [] \<and> filter (\<lambda>p. p \<notin> set seen) paths = [] then acc
         else if first \<and> overlapping = [] then s else merge acc s)"

lemma first_wins:
  assumes ok: "ok s" "ok acc" and listed: "\<And>q. q \<notin> set paths \<Longrightarrow> unit_of s q = {#}"
    and first: "\<And>q. first \<Longrightarrow> unit_of acc q = {#}" and unseen: "\<And>q. q \<notin> set seen \<Longrightarrow> unit_of acc q = {#}"
  shows "ok (joined first seen paths s acc)"
    and "unit_of (joined first seen paths s acc) q = (if q \<in> set seen then unit_of acc q else unit_of s q)"
proof -
  define ov where "ov = filter (\<lambda>p. p \<in> set seen) paths"
  define s' where "s' = (if ov = [] then s else drop_units s ov)"
  have s': "ok s'" "unit_of s' q = (if q \<in> set ov then {#} else unit_of s q)" for q
    using store_drop [OF ok(1), of ov] ok(1) by (auto simp: s'_def)
  have j: "joined first seen paths s acc =
      (if paths \<noteq> [] \<and> filter (\<lambda>p. p \<notin> set seen) paths = [] then acc else if first \<and> ov = [] then s' else merge acc s')"
    by (simp add: joined_def ov_def s'_def Let_def)
  show "ok (joined first seen paths s acc)" using ok s'(1) store_merge by (simp add: j)
  have seen: "unit_of s' q = {#}" if "q \<in> set seen" using that listed [of q] by (auto simp: s'(2) ov_def)
  have new: "unit_of s' q = unit_of s q" if "q \<notin> set seen" using that by (simp add: s'(2) ov_def)
  consider (skip) "paths \<noteq> []" "filter (\<lambda>p. p \<notin> set seen) paths = []" | (move) "first" "joined first seen paths s acc = s'"
    | (merge) "joined first seen paths s acc = merge acc s'"
    unfolding j by argo
  then show "unit_of (joined first seen paths s acc) q = (if q \<in> set seen then unit_of acc q else unit_of s q)"
  proof cases
    case skip
    then have "set paths \<subseteq> set seen" by (auto simp: filter_empty_conv)
    then show ?thesis using skip listed [of q] unseen [of q] by (auto simp: j)
  next
    case move
    then show ?thesis using first [of q] seen new by simp
  next
    case merge
    then show ?thesis using store_merge [OF ok(2) s'(1), of q] seen new unseen [of q] by simp
  qed
qed

end

interpretation graphs: unit_store writable tuRegs absorb "\<lambda>g ps. snd (removeTUs g ps)"
  using cg.ok_merge cg.unit_merge cg.ok_drop cg.unit_drop unfolding removeTUsGraph_def by unfold_locales auto

interpretation sites: unit_store chan_wf chTuRegs absorbChannels "\<lambda>x ps. snd (chRemoveTUs x ps)"
  using chl.ok_merge chl.unit_merge chl.ok_drop chl.unit_drop unfolding chRemoved_def by unfold_locales auto

section \<open>One input\<close>

definition unitPaths :: "SnapshotData \<Rightarrow> string list" where
  "unitPaths snap = map fsPath (smFiles (sdMeta snap))"

text \<open>What the loop over the units of an input does: the known ones are collected, the others appended.\<close>

definition scanned :: "FileStamp list \<Rightarrow> merge_state \<times> string list \<times> nat \<Rightarrow> merge_state \<times> string list \<times> nat \<Rightarrow> bool" where
  "scanned fs x y \<longleftrightarrow>
     (let (st, ov, n) = x; (st', ov', n') = y; old = (\<lambda>p. p \<in> set (mg_seenTus st)) in
      sdGraph (mg_out st') = sdGraph (mg_out st) \<and> sdChannels (mg_out st') = sdChannels (mg_out st) \<and>
      mg_firstShard st' = mg_firstShard st \<and> ov' = ov @ filter old (map fsPath fs) \<and> n' = n + length (filter (Not \<circ> old) (map fsPath fs)) \<and>
      mg_seenTus st' = mg_seenTus st @ filter (Not \<circ> old) (map fsPath fs) \<and>
      smFiles (sdMeta (mg_out st')) = smFiles (sdMeta (mg_out st)) @ filter (Not \<circ> old \<circ> fsPath) fs)"

lemma mergeFile_scanned: "scanned [smFiles meta ! i] x (mergeFile meta ds os i x)"
  by (cases x) (simp add: scanned_def mergeFile_def Let_def split: option.split)

lemma scanned_Cons:
  assumes "scanned [f] x y" "scanned fs y z" "fsPath f \<notin> set (map fsPath fs)"
  shows "scanned (f # fs) x z"
proof -
  obtain st ov n st1 ov1 n1 where x: "x = (st, ov, n)" and y: "y = (st1, ov1, n1)" by (cases x, cases y)
  have k: "fsPath e \<in> set (mg_seenTus st1) \<longleftrightarrow> fsPath e \<in> set (mg_seenTus st)" if "e \<in> set fs" for e
  proof -
    have "fsPath e \<noteq> fsPath f" using assms(3) that by (metis image_eqI set_map)
    then show ?thesis using assms(1) by (auto simp: scanned_def x y Let_def split: if_splits)
  qed
  have s: "filter (\<lambda>p. p \<in> set (mg_seenTus st1)) (map fsPath fs) = filter (\<lambda>p. p \<in> set (mg_seenTus st)) (map fsPath fs)"
    "filter (Not \<circ> (\<lambda>p. p \<in> set (mg_seenTus st1))) (map fsPath fs) = filter (Not \<circ> (\<lambda>p. p \<in> set (mg_seenTus st))) (map fsPath fs)"
    "filter (Not \<circ> (\<lambda>p. p \<in> set (mg_seenTus st1)) \<circ> fsPath) fs = filter (Not \<circ> (\<lambda>p. p \<in> set (mg_seenTus st)) \<circ> fsPath) fs"
    by (auto intro!: filter_cong simp: k)
  show ?thesis using assms(1,2) unfolding scanned_def x y Let_def prod.case s by (cases z) simp
qed

lemma mergeFile_fold: "distinct (map (\<lambda>i. fsPath (smFiles meta ! i)) ids) \<Longrightarrow>
    scanned (map ((!) (smFiles meta)) ids) x (fold (mergeFile meta ds os) ids x)"
proof (induction ids arbitrary: x)
  case Nil
  then show ?case by (cases x) (simp add: scanned_def)
next
  case (Cons i ids)
  then show ?case using scanned_Cons [OF mergeFile_scanned [of meta i x ds os] Cons.IH] by (auto simp: image_iff comp_def)
qed

lemma map_files: "map (\<lambda>i. fsPath (smFiles meta ! i)) [0..<length (smFiles meta)] = map fsPath (smFiles meta)"
  by (rule nth_equalityI) simp_all

lemma mergeFiles_scanned: "distinct (map fsPath (smFiles meta)) \<Longrightarrow> scanned (smFiles meta) (st, [], 0) (mergeFiles meta st)"
  unfolding mergeFiles_def
  using mergeFile_fold [of meta "[0..<length (smFiles meta)]" "(st, [], 0)" "dependenciesOf meta" "outcomesOf meta"]
  unfolding map_files map_nth .

lemma mergeFiles_run:
  assumes "mergeFiles meta st = (st', ov, n)" "distinct (map fsPath (smFiles meta))"
  shows "sdGraph (mg_out st') = sdGraph (mg_out st)" "sdChannels (mg_out st') = sdChannels (mg_out st)" "mg_firstShard st' = mg_firstShard st"
    and "ov = filter (\<lambda>p. p \<in> set (mg_seenTus st)) (map fsPath (smFiles meta))"
    and "n = length (filter (\<lambda>p. p \<notin> set (mg_seenTus st)) (map fsPath (smFiles meta)))"
    and "mg_seenTus st' = mg_seenTus st @ filter (\<lambda>p. p \<notin> set (mg_seenTus st)) (map fsPath (smFiles meta))"
    and "smFiles (sdMeta (mg_out st')) = smFiles (sdMeta (mg_out st)) @ filter (\<lambda>f. fsPath f \<notin> set (mg_seenTus st)) (smFiles meta)"
  using mergeFiles_scanned [OF assms(2), of st] unfolding assms(1) scanned_def Let_def prod.case comp_def by simp_all

lemma addEntryPoints_frame:
  "sdGraph (mg_out (fold addEntryPoint eps st)) = sdGraph (mg_out st)" "sdChannels (mg_out (fold addEntryPoint eps st)) = sdChannels (mg_out st)"
  "mg_firstShard (fold addEntryPoint eps st) = mg_firstShard st" "mg_seenTus (fold addEntryPoint eps st) = mg_seenTus st"
  "smFiles (sdMeta (mg_out (fold addEntryPoint eps st))) = smFiles (sdMeta (mg_out st))"
  by (induction eps arbitrary: st) (simp_all add: addEntryPoint_def Let_def)

lemma mergeConfig_frame:
  assumes "mergeConfig options path meta st = Inr st'"
  shows "sdGraph (mg_out st') = sdGraph (mg_out st)" "sdChannels (mg_out st') = sdChannels (mg_out st)" "mg_firstShard st' = mg_firstShard st"
    "mg_seenTus st' = mg_seenTus st" "smFiles (sdMeta (mg_out st')) = smFiles (sdMeta (mg_out st))"
  using assms by (auto simp: mergeConfig_def adoptConfig_def Let_def split: if_splits)

lemma mergeInput_run:
  assumes run: "mergeInput load options path st = Inr st'" and snap: "load path = Inr snap" and d: "distinct (unitPaths snap)"
  shows "sdGraph (mg_out st') = graphs.joined (mg_firstShard st) (mg_seenTus st) (unitPaths snap) (sdGraph snap) (sdGraph (mg_out st))"
    and "sdChannels (mg_out st') = sites.joined (mg_firstShard st) (mg_seenTus st) (unitPaths snap) (sdChannels snap) (sdChannels (mg_out st))"
    and "mg_firstShard st' \<Longrightarrow> mg_firstShard st \<and> sdGraph (mg_out st') = sdGraph (mg_out st) \<and> sdChannels (mg_out st') = sdChannels (mg_out st)"
    and "mg_seenTus st' = mg_seenTus st @ filter (\<lambda>p. p \<notin> set (mg_seenTus st)) (unitPaths snap)"
    and "smFiles (sdMeta (mg_out st')) = smFiles (sdMeta (mg_out st)) @ filter (\<lambda>f. fsPath f \<notin> set (mg_seenTus st)) (smFiles (sdMeta snap))"
proof -
  obtain st1 where c: "mergeConfig options path (sdMeta snap) st = Inr st1"
    using run snap by (auto simp: mergeInput_def split: sum.splits)
  define st2 where "st2 = mergeEntryPoints options (sdMeta snap) st1"
  obtain st3 ov n where m: "mergeFiles (sdMeta snap) st2 = (st3, ov, n)" by (cases "mergeFiles (sdMeta snap) st2")
  have st': "st' = mergeIndexes snap (st3, ov, n)" using run snap c m by (simp add: mergeInput_def st2_def)
  have e: "sdGraph (mg_out st2) = sdGraph (mg_out st)" "sdChannels (mg_out st2) = sdChannels (mg_out st)" "mg_firstShard st2 = mg_firstShard st"
    "mg_seenTus st2 = mg_seenTus st" "smFiles (sdMeta (mg_out st2)) = smFiles (sdMeta (mg_out st))"
    using mergeConfig_frame [OF c] by (simp_all add: st2_def mergeEntryPoints_def addEntryPoints_frame)
  note M = mergeFiles_run [OF m d [unfolded unitPaths_def], unfolded e, folded unitPaths_def]
  have n: "n = 0 \<longleftrightarrow> filter (\<lambda>p. p \<notin> set (mg_seenTus st)) (unitPaths snap) = []" by (simp add: M(5))
  have p: "smFiles (sdMeta snap) = [] \<longleftrightarrow> unitPaths snap = []" by (simp add: unitPaths_def)
  show "sdGraph (mg_out st') = graphs.joined (mg_firstShard st) (mg_seenTus st) (unitPaths snap) (sdGraph snap) (sdGraph (mg_out st))"
    "sdChannels (mg_out st') = sites.joined (mg_firstShard st) (mg_seenTus st) (unitPaths snap) (sdChannels snap) (sdChannels (mg_out st))"
    unfolding st' mergeIndexes_def graphs.joined_def sites.joined_def Let_def prod.case joinIndexes_def stripUnits_def n p M(4) [symmetric] using M(1-3) by simp_all
  show "mg_firstShard st \<and> sdGraph (mg_out st') = sdGraph (mg_out st) \<and> sdChannels (mg_out st') = sdChannels (mg_out st)" if "mg_firstShard st'"
    using that M(1-3) by (simp add: st' mergeIndexes_def split: if_splits)
  show "mg_seenTus st' = mg_seenTus st @ filter (\<lambda>p. p \<notin> set (mg_seenTus st)) (unitPaths snap)"
    "smFiles (sdMeta (mg_out st')) = smFiles (sdMeta (mg_out st)) @ filter (\<lambda>f. fsPath f \<notin> set (mg_seenTus st)) (smFiles (sdMeta snap))"
    using M(6,7) by (simp_all add: st' mergeIndexes_def joinIndexes_def)
qed

section \<open>All inputs\<close>

definition snapshotOk :: "SnapshotData \<Rightarrow> bool" where
  "snapshotOk snap \<longleftrightarrow> writable (sdGraph snap) \<and> chan_wf (sdChannels snap) \<and> distinct (unitPaths snap) \<and>
     (\<forall>q. q \<notin> set (unitPaths snap) \<longrightarrow> tuRegs (sdGraph snap) q = {#} \<and> chTuRegs (sdChannels snap) q = {#})"

definition firstListing :: "SnapshotData list \<Rightarrow> string \<Rightarrow> SnapshotData option" where
  "firstListing snaps q = find (\<lambda>s. q \<in> set (unitPaths s)) snaps"

lemma firstListing_None: "firstListing snaps q = None \<longleftrightarrow> (\<forall>s \<in> set snaps. q \<notin> set (unitPaths s))"
  by (auto simp: firstListing_def find_None_iff)

lemma firstListing_snoc:
  "firstListing (snaps @ [s]) q = (if firstListing snaps q = None then if q \<in> set (unitPaths s) then Some s else None else firstListing snaps q)"
  by (induction snaps) (auto simp: firstListing_def)

definition unitsFrom :: "SnapshotData list \<Rightarrow> string \<Rightarrow> (SnapshotData \<Rightarrow> string \<Rightarrow> 'e multiset) \<Rightarrow> 'e multiset" where
  "unitsFrom snaps q regsOf = (case firstListing snaps q of None \<Rightarrow> {#} | Some s \<Rightarrow> regsOf s q)"

definition merge_inv :: "SnapshotData list \<Rightarrow> merge_state \<Rightarrow> bool" where
  "merge_inv snaps st \<longleftrightarrow> writable (sdGraph (mg_out st)) \<and> chan_wf (sdChannels (mg_out st)) \<and>
     (mg_firstShard st \<longrightarrow> sdGraph (mg_out st) = emptyGraph \<and> sdChannels (mg_out st) = emptyChannels) \<and>
     set (mg_seenTus st) = (\<Union>s \<in> set snaps. set (unitPaths s)) \<and> distinct (mg_seenTus st) \<and>
     map fsPath (smFiles (sdMeta (mg_out st))) = mg_seenTus st \<and>
     (\<forall>f \<in> set (smFiles (sdMeta (mg_out st))). \<exists>s. firstListing snaps (fsPath f) = Some s \<and> f \<in> set (smFiles (sdMeta s))) \<and>
     (\<forall>q. tuRegs (sdGraph (mg_out st)) q = unitsFrom snaps q (\<lambda>s. tuRegs (sdGraph s))) \<and>
     (\<forall>q. chTuRegs (sdChannels (mg_out st)) q = unitsFrom snaps q (\<lambda>s. chTuRegs (sdChannels s)))"

lemma merge_inv_start: "merge_inv [] mergeStart"
  by (simp add: merge_inv_def mergeStart_def emptySnapshot_def emptyMeta_def chan_wf_empty unitsFrom_def firstListing_def)

lemma unitsFrom_snoc:
  "unitsFrom (snaps @ [s]) q r = (if \<exists>s \<in> set snaps. q \<in> set (unitPaths s) then unitsFrom snaps q r else if q \<in> set (unitPaths s) then r s q else {#})"
  using firstListing_None [of snaps q] by (auto simp: unitsFrom_def firstListing_snoc)

lemma merge_inv_step:
  assumes inv: "merge_inv snaps st" and run: "mergeInput load options path st = Inr st'" and snap: "load path = Inr snap" and ok: "snapshotOk snap"
  shows "merge_inv (snaps @ [snap]) st'"
proof -
  have s: "writable (sdGraph snap)" "chan_wf (sdChannels snap)" "distinct (unitPaths snap)"
    "q \<notin> set (unitPaths snap) \<Longrightarrow> tuRegs (sdGraph snap) q = {#}" "q \<notin> set (unitPaths snap) \<Longrightarrow> chTuRegs (sdChannels snap) q = {#}" for q
    using ok by (simp_all add: snapshotOk_def)
  note R = mergeInput_run [OF run snap s(3)]
  let ?g = "sdGraph (mg_out st)" and ?c = "sdChannels (mg_out st)" and ?seen = "mg_seenTus st"
  have i: "writable ?g" "chan_wf ?c" "mg_firstShard st \<Longrightarrow> ?g = emptyGraph" "mg_firstShard st \<Longrightarrow> ?c = emptyChannels"
    "set ?seen = (\<Union>s \<in> set snaps. set (unitPaths s))" "distinct ?seen" "map fsPath (smFiles (sdMeta (mg_out st))) = ?seen"
    "\<And>q. tuRegs ?g q = unitsFrom snaps q (\<lambda>s. tuRegs (sdGraph s))" "\<And>q. chTuRegs ?c q = unitsFrom snaps q (\<lambda>s. chTuRegs (sdChannels s))"
    using inv by (simp_all add: merge_inv_def)
  have n: "tuRegs ?g q = {#}" "chTuRegs ?c q = {#}" if "q \<notin> set ?seen" for q
    using firstListing_None [of snaps q] i(5) that unfolding i(8,9) by (simp_all add: unitsFrom_def)
  have e: "tuRegs ?g q = {#}" "chTuRegs ?c q = {#}" if "mg_firstShard st" for q
    using i(3,4) [OF that] by simp_all
  have G: "writable (sdGraph (mg_out st'))" "tuRegs (sdGraph (mg_out st')) q = (if q \<in> set ?seen then tuRegs ?g q else tuRegs (sdGraph snap) q)" for q
    unfolding R(1) by (rule graphs.first_wins [OF s(1) i(1) s(4) e(1) n(1)]; assumption)+
  have C: "chan_wf (sdChannels (mg_out st'))" "chTuRegs (sdChannels (mg_out st')) q = (if q \<in> set ?seen then chTuRegs ?c q else chTuRegs (sdChannels snap) q)" for q
    unfolding R(2) by (rule sites.first_wins [OF s(2) i(2) s(5) e(2) n(2)]; assumption)+
  show ?thesis
    unfolding merge_inv_def
  proof (intro conjI allI impI ballI)
    fix f assume f: "f \<in> set (smFiles (sdMeta (mg_out st')))"
    then consider "f \<in> set (smFiles (sdMeta (mg_out st)))" | "f \<in> set (smFiles (sdMeta snap))" "fsPath f \<notin> set ?seen" by (auto simp: R(5))
    then show "\<exists>s. firstListing (snaps @ [snap]) (fsPath f) = Some s \<and> f \<in> set (smFiles (sdMeta s))"
      using inv firstListing_None [of snaps "fsPath f"] i(5) by cases (auto simp: merge_inv_def firstListing_snoc unitPaths_def)
  next
    fix q
    show "tuRegs (sdGraph (mg_out st')) q = unitsFrom (snaps @ [snap]) q (\<lambda>s. tuRegs (sdGraph s))" using s(4) [of q] by (auto simp: G i(5,8) unitsFrom_snoc)
    show "chTuRegs (sdChannels (mg_out st')) q = unitsFrom (snaps @ [snap]) q (\<lambda>s. chTuRegs (sdChannels s))" using s(5) [of q] by (auto simp: C i(5,9) unitsFrom_snoc)
  next
    show "map fsPath (smFiles (sdMeta (mg_out st'))) = mg_seenTus st'" by (simp add: R(4,5) i(7) unitPaths_def filter_map comp_def)
    show "set (mg_seenTus st') = (\<Union>s \<in> set (snaps @ [snap]). set (unitPaths s))" by (auto simp: R(4) i(5))
    show "distinct (mg_seenTus st')" using i(6) s(3) by (auto simp: R(4))
    show "mg_firstShard st' \<Longrightarrow> sdGraph (mg_out st') = emptyGraph" "mg_firstShard st' \<Longrightarrow> sdChannels (mg_out st') = emptyChannels"
      using R(3) i(3,4) by auto
  qed (fact G(1) C(1))+
qed

lemma merge_inv_run:
  assumes "mergeInputs load options paths st = Inr st'" "list_all2 (\<lambda>p s. load p = Inr s \<and> snapshotOk s) paths snaps" "merge_inv before st"
  shows "merge_inv (before @ snaps) st'"
  using assms(2,1,3)
proof (induction paths snaps arbitrary: st before rule: list_all2_induct)
  case (Cons p ps s ss)
  then obtain st1 where r: "mergeInput load options p st = Inr st1" "mergeInputs load options ps st1 = Inr st'" by (auto split: sum.splits)
  show ?case using Cons.IH [OF r(2) merge_inv_step [OF Cons.prems(2) r(1)]] Cons.hyps(1) by simp
qed simp

lemma finishMerge_frame:
  "sdGraph (finishMerge options st) = sdGraph (mg_out st)" "sdChannels (finishMerge options st) = sdChannels (mg_out st)"
  "smFiles (sdMeta (finishMerge options st)) = smFiles (sdMeta (mg_out st))"
  by (simp_all add: finishMerge_def Let_def addEntryPoints_frame recordOutcomes_def recordDependencies_def split: prod.split)

text \<open>
  C39: a merge counts every unit once and takes it from the first input that lists it. When each input is well-formed
  and lists the units its indexes hold, the merged call graph and channel index hold for every unit exactly the
  registrations of that first input, and the table of files has one stamp per unit, the one recorded there.
\<close>

theorem merge_first_wins:
  assumes merged: "mergeSnapshots load paths options = Inr out"
    and inputs: "list_all2 (\<lambda>p s. load p = Inr s \<and> snapshotOk s) paths snaps"
  shows "writable (sdGraph out) \<and> chan_wf (sdChannels out) \<and>
    tuRegs (sdGraph out) q = unitsFrom snaps q (\<lambda>s. tuRegs (sdGraph s)) \<and>
    chTuRegs (sdChannels out) q = unitsFrom snaps q (\<lambda>s. chTuRegs (sdChannels s)) \<and>
    distinct (unitPaths out) \<and> set (unitPaths out) = (\<Union>s \<in> set snaps. set (unitPaths s)) \<and>
    (\<forall>f \<in> set (smFiles (sdMeta out)). \<exists>s. firstListing snaps (fsPath f) = Some s \<and> f \<in> set (smFiles (sdMeta s)))"
proof -
  obtain st where r: "mergeInputs load options paths mergeStart = Inr st" and out: "out = finishMerge options st"
    using merged by (auto simp: mergeSnapshots_def split: if_splits sum.splits)
  have "merge_inv snaps st" using merge_inv_run [OF r inputs merge_inv_start] by simp
  moreover have "unitPaths out = map fsPath (smFiles (sdMeta (mg_out st)))" by (simp add: unitPaths_def out finishMerge_frame)
  ultimately show ?thesis by (simp add: merge_inv_def out finishMerge_frame)
qed

definition listing :: "string list \<Rightarrow> call_graph \<Rightarrow> SnapshotData" where
  "listing ps g = emptySnapshot\<lparr>sdGraph := g, sdMeta := emptyMeta\<lparr>smFiles := map (\<lambda>p. \<lparr>fsPath = p, fsMtimeNs = 1, fsSize = 1\<rparr>) ps\<rparr>\<rparr>"

lemma unitPaths_listing [simp]: "unitPaths (listing ps g) = ps"
  by (simp add: unitPaths_def listing_def comp_def)

lemma snapshotOk_listing:
  "writable g \<Longrightarrow> distinct ps \<Longrightarrow> (\<And>q. q \<notin> set ps \<Longrightarrow> tuRegs g q = {#}) \<Longrightarrow> snapshotOk (listing ps g)"
  unfolding snapshotOk_def unitPaths_listing by (simp add: listing_def emptySnapshot_def chan_wf_empty)

lemma mergeInput_allowed:
  "load p = Inr s \<Longrightarrow> moAllowMismatch options \<Longrightarrow> \<exists>st'. mergeInput load options p st = Inr st'"
  by (simp add: mergeInput_def mergeConfig_def Let_def)

text \<open>Two inputs with unit \<open>a\<close> in common, which the merge takes from the first.\<close>

definition smallInput :: "string \<Rightarrow> string + SnapshotData" where
  "smallInput p =
     (if p = ''x'' then Inr (listing [''a''] (shardOf ''a'' [callEdge ''f'' ''g'' ''1'']))
      else Inr (listing [''a'', ''b''] (absorb (shardOf ''a'' [callEdge ''f'' ''h'' ''2'']) (shardOf ''b'' [callEdge ''k'' ''g'' ''3'']))))"

theorem merge_first_wins_witness:
  "\<exists>out. mergeSnapshots smallInput [''x'', ''y''] \<lparr>moEntryPoints = [], moAllowMismatch = True\<rparr> = Inr out \<and>
     tuRegs (sdGraph out) ''a'' = {#callText (callEdge ''f'' ''g'' ''1'')#} \<and>
     tuRegs (sdGraph out) ''b'' = {#callText (callEdge ''k'' ''g'' ''3'')#} \<and> set (unitPaths out) = {''a'', ''b''}"
proof -
  let ?o = "\<lparr>moEntryPoints = [], moAllowMismatch = True\<rparr>"
  let ?x = "listing [''a''] (shardOf ''a'' [callEdge ''f'' ''g'' ''1''])"
  let ?g = "absorb (shardOf ''a'' [callEdge ''f'' ''h'' ''2'']) (shardOf ''b'' [callEdge ''k'' ''g'' ''3''])"
  let ?y = "listing [''a'', ''b''] ?g"
  have l: "smallInput ''x'' = Inr ?x" "smallInput ''y'' = Inr ?y" by (simp_all add: smallInput_def)
  obtain st1 where 1: "mergeInput smallInput ?o ''x'' mergeStart = Inr st1" using mergeInput_allowed [where load = smallInput and options = ?o, OF l(1)] by auto
  obtain st2 where 2: "mergeInput smallInput ?o ''y'' st1 = Inr st2" using mergeInput_allowed [where load = smallInput and options = ?o, OF l(2)] by auto
  have run: "mergeSnapshots smallInput [''x'', ''y''] ?o = Inr (finishMerge ?o st2)" by (simp add: mergeSnapshots_def 1 2)
  have g: "writable ?g" "tuRegs ?g q = tuRegs (shardOf ''a'' [callEdge ''f'' ''h'' ''2'']) q + tuRegs (shardOf ''b'' [callEdge ''k'' ''g'' ''3'']) q" for q
    using cg.ok_merge cg.unit_merge shardOf_writable by blast+
  have "snapshotOk ?x" "snapshotOk ?y" by (rule snapshotOk_listing, simp_all add: shardOf_ledger g)+
  then have "list_all2 (\<lambda>p s. smallInput p = Inr s \<and> snapshotOk s) [''x'', ''y''] [?x, ?y]" using l by simp
  note M = merge_first_wins [OF run this]
  have "sdGraph (listing ps h) = h" for ps h by (simp add: listing_def)
  then have "tuRegs (sdGraph (finishMerge ?o st2)) ''a'' = {#callText (callEdge ''f'' ''g'' ''1'')#}"
    "tuRegs (sdGraph (finishMerge ?o st2)) ''b'' = {#callText (callEdge ''k'' ''g'' ''3'')#}"
    using M [of "''a''"] M [of "''b''"] by (simp_all add: unitsFrom_def firstListing_def g shardOf_ledger)
  then show ?thesis using run M by auto
qed

section \<open>When a merge is refused\<close>

definition metaAt :: "(string \<Rightarrow> string + SnapshotData) \<Rightarrow> string \<Rightarrow> SnapshotMeta" where
  "metaAt load p = (case load p of Inl _ \<Rightarrow> emptyMeta | Inr s \<Rightarrow> sdMeta s)"

definition sameBuild :: "SnapshotMeta \<Rightarrow> SnapshotMeta \<Rightarrow> bool" where
  "sameBuild m m' \<longleftrightarrow> cfgMatches m m' \<and> envMatches (smProvenance m) (smProvenance m')"

text \<open>The configuration the next input is compared with.\<close>

definition buildOf :: "SnapshotMeta \<Rightarrow> string list \<times> string list \<times> bool \<times> ChannelTypeSpec list \<times> IndexProvenance" where
  "buildOf m = (smCollapsePaths m, smLockAllowlist m, smLockBuiltins m, smChannelTypes m, smProvenance m)"

definition knownBuild :: "merge_state \<Rightarrow> bool \<times> string list \<times> string list \<times> bool \<times> ChannelTypeSpec list \<times> IndexProvenance" where
  "knownBuild st = (mg_haveConfig st, buildOf (sdMeta (mg_out st)))"

lemma mergeFiles_build: "knownBuild (fst (fold (mergeFile meta ds os) ids x)) = knownBuild (fst x)"
proof (induction ids arbitrary: x)
  case (Cons i ids)
  have "knownBuild (fst (mergeFile meta ds os i x)) = knownBuild (fst x)"
    by (cases x) (simp add: mergeFile_def Let_def knownBuild_def buildOf_def)
  then show ?case using Cons.IH by simp
qed simp

lemma mergeIndexes_build: "knownBuild (mergeIndexes snap x) = knownBuild (fst x)"
  by (cases x) (simp add: mergeIndexes_def joinIndexes_def knownBuild_def)

lemma addEntryPoints_build: "knownBuild (fold addEntryPoint eps st) = knownBuild st"
  by (induction eps arbitrary: st) (simp_all add: addEntryPoint_def knownBuild_def buildOf_def Let_def)

lemma mergeInput_build:
  "knownBuild (mergeIndexes s (mergeFiles (sdMeta s) (mergeEntryPoints options (sdMeta s) st))) = knownBuild st"
  by (simp add: mergeIndexes_build mergeFiles_def mergeFiles_build mergeEntryPoints_def addEntryPoints_build)

text \<open>Inputs agree with a known build when their configuration is the same and at most one environment is named.\<close>

definition agree :: "SnapshotMeta \<Rightarrow> SnapshotMeta list \<Rightarrow> bool" where
  "agree m ms \<longleftrightarrow> (\<forall>x \<in> set ms. sameBuild x m) \<and> (\<forall>x \<in> set ms. \<forall>y \<in> set ms. envMatches (smProvenance x) (smProvenance y))"

lemma agree_cong: "buildOf m = buildOf m' \<Longrightarrow> agree m ms = agree m' ms"
  by (simp add: agree_def sameBuild_def cfgMatches_def buildOf_def)

lemma agree_Cons:
  "agree m (x # ms) \<longleftrightarrow> sameBuild x m \<and> agree (m\<lparr>smProvenance := fillProvenance (smProvenance x) (smProvenance m)\<rparr>) ms"
  by (auto simp: agree_def sameBuild_def cfgMatches_def envMatches_def fillProvenance_def)

lemma mergeInputs_refused:
  assumes "mg_haveConfig st" "\<forall>p \<in> set paths. \<exists>s. load p = Inr s"
  shows "(\<exists>st'. mergeInputs load options paths st = Inr st') \<longleftrightarrow>
    moAllowMismatch options \<or> agree (sdMeta (mg_out st)) (map (metaAt load) paths)"
  using assms
proof (induction paths arbitrary: st)
  case (Cons p ps)
  then obtain s where s: "load p = Inr s" by auto
  then have m: "metaAt load p = sdMeta s" by (simp add: metaAt_def)
  show ?case
  proof (cases "mergeConfig options p (sdMeta s) st")
    case (Inl e)
    then have "\<not> moAllowMismatch options \<and> \<not> sameBuild (sdMeta s) (sdMeta (mg_out st))"
      using Cons.prems(1) by (auto simp: mergeConfig_def sameBuild_def Let_def split: if_splits)
    then show ?thesis using Inl s by (simp add: agree_Cons m mergeInput_def)
  next
    case (Inr st1)
    define st2 where "st2 = mergeIndexes s (mergeFiles (sdMeta s) (mergeEntryPoints options (sdMeta s) st1))"
    have k: "knownBuild st2 = knownBuild st1" by (simp add: st2_def mergeInput_build)
    have c: "mg_haveConfig st1" "moAllowMismatch options \<or> sameBuild (sdMeta s) (sdMeta (mg_out st))"
      "sdMeta (mg_out st1) = (sdMeta (mg_out st))\<lparr>smProvenance := fillProvenance (smProvenance (sdMeta s)) (smProvenance (sdMeta (mg_out st)))\<rparr>"
      using Inr Cons.prems(1) by (auto simp: mergeConfig_def sameBuild_def Let_def split: if_splits)
    have "mergeInputs load options (p # ps) st = mergeInputs load options ps st2"
      using Inr s by (simp add: st2_def mergeInput_def)
    moreover have "mg_haveConfig st2" "agree (sdMeta (mg_out st2)) ms = agree (sdMeta (mg_out st1)) ms" for ms
      using k c(1) agree_cong [of "sdMeta (mg_out st2)" "sdMeta (mg_out st1)"] by (simp_all add: knownBuild_def)
    ultimately show ?thesis using Cons.IH [of st2] Cons.prems(2) c(2,3) by (auto simp: agree_Cons m)
  qed
qed (simp add: agree_def)

lemma mergeInputs_loads: "mergeInputs load options paths st = Inr st' \<Longrightarrow> p \<in> set paths \<Longrightarrow> \<exists>s. load p = Inr s"
  by (induction paths arbitrary: st) (auto simp: mergeInput_def split: sum.splits)

text \<open>
  C40: a merge succeeds exactly when there is an input, every input loads, and, unless mismatches are allowed, all
  inputs were built with the same configuration and no two of them name different bake environments.
\<close>

theorem merge_accepts:
  "(\<exists>out. mergeSnapshots load paths options = Inr out) \<longleftrightarrow>
     paths \<noteq> [] \<and> (\<forall>p \<in> set paths. \<exists>s. load p = Inr s) \<and>
     (moAllowMismatch options \<or> (\<forall>p \<in> set paths. \<forall>r \<in> set paths. sameBuild (metaAt load p) (metaAt load r)))"
proof (cases "paths \<noteq> [] \<and> (\<forall>p \<in> set paths. \<exists>s. load p = Inr s)")
  case False
  then show ?thesis using mergeInputs_loads [of load options paths mergeStart] by (auto simp: mergeSnapshots_def split: sum.splits)
next
  case True
  then obtain p ps s where p: "paths = p # ps" "load p = Inr s" by (cases paths) auto
  define st1 where "st1 = adoptConfig p (sdMeta s) mergeStart"
  define st2 where "st2 = mergeIndexes s (mergeFiles (sdMeta s) (mergeEntryPoints options (sdMeta s) st1))"
  have k: "knownBuild st2 = (True, buildOf (sdMeta s))"
    unfolding st2_def mergeInput_build by (simp add: st1_def knownBuild_def adoptConfig_def buildOf_def Let_def)
  have "mergeInputs load options paths mergeStart = mergeInputs load options ps st2"
    by (simp add: p mergeInput_def mergeConfig_def st2_def st1_def) (simp add: mergeStart_def)
  then have "(\<exists>out. mergeSnapshots load paths options = Inr out) \<longleftrightarrow> (\<exists>st'. mergeInputs load options ps st2 = Inr st')"
    by (auto simp: mergeSnapshots_def p(1) split: sum.splits)
  also have "\<dots> \<longleftrightarrow> moAllowMismatch options \<or> agree (sdMeta (mg_out st2)) (map (metaAt load) ps)"
    using k True p(1) by (intro mergeInputs_refused) (auto simp: knownBuild_def)
  also have "agree (sdMeta (mg_out st2)) (map (metaAt load) ps) = agree (sdMeta s) (map (metaAt load) ps)"
    using k by (intro agree_cong) (simp add: knownBuild_def)
  also have "\<dots> \<longleftrightarrow> (\<forall>p \<in> set paths. \<forall>r \<in> set paths. sameBuild (metaAt load p) (metaAt load r))"
  proof -
    have "metaAt load p = sdMeta s" using p(2) by (simp add: metaAt_def)
    then show ?thesis unfolding agree_def sameBuild_def cfgMatches_def envMatches_def p(1) by auto
  qed
  finally show ?thesis using True by simp
qed

theorem merge_accepts_witness:
  "(\<exists>out. mergeSnapshots smallInput [''x'', ''y''] \<lparr>moEntryPoints = [], moAllowMismatch = False\<rparr> = Inr out) \<and>
   \<not> (\<exists>out. mergeSnapshots (\<lambda>p. if p = ''x'' then smallInput p else Inl ''bad magic'') [''x'', ''y''] \<lparr>moEntryPoints = [], moAllowMismatch = True\<rparr> = Inr out)"
  unfolding merge_accepts
  by (simp add: smallInput_def sameBuild_def cfgMatches_def envMatches_def metaAt_def listing_def emptyMeta_def emptySnapshot_def)

end
