(* ===== verification/Spec2Isabelle.thy ===== *)
theory Spec2Isabelle
  imports PathSearchProps DeadCodeProps OracleNearest ImpactProps PatchMappingProps
    ChannelIndexProps ContextSignaturesProps SemanticDiffProps WarmStartProps SnapshotFileProps
    SnapshotChannelsProps SnapshotMergeProps
begin

text \<open>
  Verification of the analysis core of vycor, a cross-translation-unit analyzer for C++.

  \<^bold>\<open>The program.\<close> vycor bakes a compilation database into in-memory indexes and answers questions about them.
  One shard of indexes is built per translation unit by visitors over the Clang AST and merged into a master;
  when a unit changes, what it contributed is removed and its new shard is merged. The queries run over the
  merged indexes: who calls whom, on which paths, under which handlers, what is dead. The development models the
  indexes and the query algorithms; their input, the AST visitors, and their output, JSON and the command line,
  are outside it.

  \<^bold>\<open>Theories and sources\<close> (paths under \<open>src/\<close>; headers are in \<open>include/vycor/\<close>):

  \<^item> \<open>Prelude\<close>: the containers. An \<open>unordered_map\<close> or \<open>map\<close> is an association list (\<open>um_put\<close>,
    \<open>um_emplace\<close>, \<open>um_push\<close>, \<open>um_erase\<close>), a \<open>set\<close> a list without duplicates.
  \<^item> \<open>IndexText\<close>: \<open>callgraph/Utf8.h\<close>. Strings of the indexes are bytes escaped into well-formed UTF-8.
    The escape is total and unescapes to the same bytes; lookups by raw or escaped text find the same entry.
  \<^item> \<open>Interner\<close>: \<open>callgraph/StringInterner.h\<close>. The table of strings, as a locale of string tables with the
    interner as its interpretation, and the two critical sections of a concurrent \<open>intern\<close> as a step relation.
  \<^item> \<open>CallGraph\<close>, \<open>CallGraphUpdate\<close>: \<open>callgraph/CallGraph.h\<close> and \<open>.cpp\<close>, the graph with its recorders and
    queries, and \<open>absorb\<close>, \<open>removeTUs\<close>, \<open>compact\<close>. \<open>CallGraphInv\<close>, \<open>CallGraphRemove\<close>, \<open>CallGraphMerge\<close>
    prove the representation invariant \<open>graph_wf\<close> for each operation; \<open>CallGraphSpec\<close> gives the abstract
    view, a ledger that counts each unit's registrations of each edge, and the refinement of the operations to
    it; \<open>CallGraphQuery\<close> relates the two adjacency queries to one call relation; \<open>CallGraphProps\<close> holds the
    properties.
  \<^item> \<open>PathSearch\<close>, \<open>PathSearchProofs\<close>, \<open>PathSearchProps\<close>: \<open>callgraph/PathSearch.h\<close> and \<open>.cpp\<close>, the
    bounded depth-first enumeration of caller paths with its corridor, its memo of dead ends and its budgets.
    Soundness, termination and budgets hold for every filter; completeness within the depth bound and
    exhaustiveness too, of the paths whose hops the filter admits in both directions of the adjacency query
    (\<open>forwardAdmitted\<close>) and that pass no start which is an earlier candidate of an ambiguous target
    (\<open>unshadowed\<close>); the canonical order of the callers. \<open>EdgeFilter\<close>: \<open>src/query/EdgeFilter.h\<close>, the filter
    the query tools pass to the searches.
  \<^item> \<open>DeadCode\<close>, \<open>DeadCodeProps\<close>: \<open>check/DeadCodeAnalyzer.h\<close> and \<open>.cpp\<close>, the two liveness walks; each
    computes the least set closed under the edges it follows, which for the optimistic walk are those of any
    confidence (on a graph without Unknown edges, the documented ones).
  \<^item> \<open>ControlFlow\<close>: \<open>callgraph/ControlFlowIndex.h\<close> and \<open>.cpp\<close>, the contexts of call sites with
    deduplicated scope, guard and lock sets. \<open>ControlFlowKeys\<close> shows that the keys of the sets are injective
    (locales of prefix codes), \<open>ControlFlowInv\<close>, \<open>ControlFlowMerge\<close> and \<open>ControlFlowRemove\<close> prove the
    invariant \<open>cf_wf\<close>, and \<open>ControlFlowProps\<close> shows that the index is a plain list of contexts (locale
    \<open>context_store\<close>) and that the queries read that list, emptied entries of removed usrs included.
  \<^item> \<open>ChannelIndex\<close>: \<open>callgraph/ChannelIndex.h\<close> and \<open>.cpp\<close>, the counted index of producer and consumer sites.
    \<open>ChannelIndexInv\<close> and \<open>ChannelIndexRemove\<close> prove the invariant \<open>chan_wf\<close> and the effect of each operation on
    the ledger of registrations; \<open>ChannelIndexProps\<close> interprets the locale of edge ledgers on it a second time
    and shows that the queries read the list of live sites.
  \<^item> \<open>Oracle\<close>, \<open>OracleProps\<close>, \<open>OracleNearest\<close>: \<open>callgraph/ControlFlowOracle.h\<close> and \<open>.cpp\<close>, exception
    propagation over paths; handler matching, propagation as unwinding rules, universal verdicts over the whole
    graph, and the search for the nearest handlers, which reports exactly the protected calls an exception can
    reach when every caller resolves to itself by its usr (\<open>settled\<close>).
  \<^item> \<open>Impact\<close>, \<open>ImpactProps\<close>: \<open>impact/ImpactSearch.h\<close> and \<open>.cpp\<close>, the breadth-first walk from changed functions
    to the callers affected; shortest chains, completeness within the limits, independence of the order of the
    arguments.
  \<^item> \<open>PatchMapping\<close>, \<open>PatchMappingProps\<close>: \<open>impact/PatchMapping.h\<close> and \<open>.cpp\<close>, the parser of unified diffs with
    its round trip for diffs no body line of which looks like a header, and the attribution of changed ranges to functions, in which every range and every reported
    function is accounted for.
  \<^item> \<open>impact/SemanticDiff.h\<close> and \<open>.cpp\<close>, the comparison of two indexes, in four theories. \<open>Identity\<close> gives usrs
    keys without source positions (\<open>IdentityProps\<close>: distinct lambdas have distinct keys); \<open>Comparability\<close> compares
    the metadata of the bakes, with the coverage counts of \<open>callgraph/Snapshot.cpp\<close>; \<open>ContextSignatures\<close> is the
    one-pass table of context signatures (\<open>ContextSignaturesProps\<close>: it answers what \<open>contextForEdge\<close> chooses);
    \<open>SemanticDiff\<close> collects both sides, merges them and compares routes (\<open>SemanticDiffProps\<close>: the changes equal a
    reference by lookup, an index does not differ from itself, routes are compared as multisets).
  \<^item> \<open>callgraph/Snapshot.h\<close> and \<open>.cpp\<close>, in four theories over the metadata of \<open>Comparability\<close>. \<open>WarmStart\<close>: the
    stamps, dependencies and outcomes of a bake, and the units to parse again (\<open>WarmStartProps\<close>: the exact condition
    for a clean unit; no stale unit is kept). \<open>SnapshotFile\<close>: writer and reader, the metadata section, the interner
    tables, the header and its checksums (\<open>SnapshotFileProps\<close>: a locale of codecs, and what is saved verifies and
    reads back). \<open>SnapshotChannels\<close>: the section of the channel index (\<open>SnapshotChannelsProps\<close>: loading a saved
    section installs what merging the index into an empty one gives). \<open>SnapshotMerge\<close>: the merge of snapshots over
    the operations of the three indexes (\<open>SnapshotMergeProps\<close>: a locale of stores by unit, interpreted on the call graph and the channel index, by which
    every unit is counted once, from the first input that lists it; when a merge is refused).

  \<^bold>\<open>State.\<close> A class with private members is a record, a \<open>const\<close> method a function of it, a mutator a function
  to the new record. Ids and counts are natural numbers. For the 32-bit fields of the control-flow index and of the
  snapshot files the hypothesis that they fit is explicit (\<open>fits32\<close>, \<open>contextSmall\<close>, \<open>hunkFits\<close> and the sizes in the
  round trips). The 32-bit string ids and the reference counts of edges and channel sites are unbounded in the model,
  which is thus one of indexes with fewer than \<open>2 ^ 32\<close> strings and registrations: a count never exceeds the
  number of registrations (\<open>refs_le_regs\<close>, \<open>ssRefs_le_chRegs\<close>), an id never the number of strings
  (\<open>edge_ids_bounded\<close>). The mutexes guard whole operations, so that an operation
  is one step; the interner, which locks twice, is modelled by its steps.

  \<^bold>\<open>Parameters.\<close> \<open>isUTF8\<close> stands for \<open>llvm::json::isUTF8\<close>, which decides whether a lookup text is converted
  first; \<open>asInt\<close> and \<open>asLong\<close> for \<open>llvm::StringRef::getAsInteger\<close> in base 10;
  \<open>stat\<close> for \<open>llvm::sys::fs::status\<close>, \<open>checksum\<close> for \<open>llvm::xxh3_64bits\<close>; \<open>load\<close>, an argument of the merge, gives the
  decoded content of the file at a path: it stands for \<open>SnapshotIO::load\<close>, of which only the metadata, interner and channel
  sections are modelled. No property assumes anything of them unless its
  statement says so.

  \<^bold>\<open>Loops and fuel.\<close> Worklists are functions with termination measures over the finite set of ids of the graph.
  The depth-first path search has \<open>kPathSearchDepthCap + 1\<close> levels of fuel; \<open>findCallerPaths_returns\<close> shows that
  they are always enough, because the limits cap the depth. The nearest-handler search climbs its parents with
  their number as fuel (\<open>climb_fuel\<close>); where the usr of a caller without a node is the display name of another function
  the parents may close into a cycle, and the model then returns \<open>None\<close>, as the code does not return; \<open>nearestCatches_exact\<close>
  shows that it returns when every caller resolves to itself (\<open>settled\<close>). An impact path is read off with its depth as fuel.

  \<^bold>\<open>Not modelled.\<close> The AST visitors and the drivers of the compilation database; the graph
  and control-flow sections of snapshot files and the read-only control-flow index over a mapped file; worker processes, signals and the file system; JSON and the
  command line; source rewriting.
\<close>

end
